(* ===== verification/Prelude.thy ===== *)
theory Prelude
  imports Main "HOL-Library.Word" "HOL-Library.AList" "HOL-Library.List_Lexorder" "HOL-Library.Char_ord"
begin

text \<open>
  What every component of the development shares: byte strings and text, Python's ordered
  dictionaries, list indexing and \<open>sorted(set(...))\<close>, big-endian \<open>struct\<close> fields and the shape
  of a hexadecimal SHA-256 digest, with the lemmas the component theories use about them.

  Text is modelled as the list of its UTF-8 code units (\<open>string\<close>), so \<open>str.encode()\<close> is
  \<open>encode\<close> below and string equality, concatenation, ordering and substring tests agree with
  Python's. A digest function is always a parameter \<open>sha :: bytes \<Rightarrow> bytes\<close>: the
  theorems hold for every such function, and where one needs the 32-byte length or the absence
  of a collision it says so as a hypothesis.
\<close>

named_theorems inv_intros \<open>preservation of the component invariants\<close>
named_theorems dict_simps \<open>reading an ordered dictionary after a write\<close>

section \<open>Bytes and text\<close>

type_synonym byte = "8 word"
type_synonym bytes = "byte list"

definition encode :: "string \<Rightarrow> bytes" where
  "encode s = map (\<lambda>c. word_of_nat (of_char c)) s"

definition decode :: "bytes \<Rightarrow> string" where
  "decode b = map (\<lambda>w. char_of (unat w)) b"

lemma byte_lt_256: "unat (w :: byte) < 256"
  using unsigned_less [of w, where ?'a = nat] by simp

lemma byte_div_16: "unat (w :: byte) div 16 < 16"
  using byte_lt_256 [of w] by (simp add: less_mult_imp_div_less)

lemma of_char_lt_256: "(of_char c :: nat) < 256"
  by (metis mod_less_divisor of_char_mod_256 zero_less_numeral)

lemma decode_encode [simp]: "decode (encode s) = s"
proof (induction s)
  case Nil
  show ?case by (simp add: decode_def encode_def)
next
  case (Cons c s)
  have "unat (word_of_nat (of_char c) :: byte) = of_char c"
    using of_char_lt_256 [of c] by (simp add: unat_of_nat)
  with Cons show ?case by (simp add: decode_def encode_def)
qed

lemma encode_decode [simp]: "encode (decode b) = b"
proof (induction b)
  case Nil
  show ?case by (simp add: decode_def encode_def)
next
  case (Cons w b)
  have "unat w < 256" by (rule byte_lt_256)
  with Cons show ?case by (simp add: decode_def encode_def)
qed

lemma encode_inject [simp]: "encode s = encode t \<longleftrightarrow> s = t"
  by (metis decode_encode)

lemma length_encode [simp]: "length (encode s) = length s"
  by (simp add: encode_def)

lemma encode_append [simp]: "encode (s @ t) = encode s @ encode t"
  by (simp add: encode_def)

definition hexdigit :: "nat \<Rightarrow> char" where
  "hexdigit n = (if n < 10 then char_of (48 + n) else char_of (87 + n))"

definition hex :: "bytes \<Rightarrow> string" where
  "hex b = concat (map (\<lambda>w. [hexdigit (unat w div 16), hexdigit (unat w mod 16)]) b)"

definition is_hex_char :: "char \<Rightarrow> bool" where
  "is_hex_char c \<longleftrightarrow> c \<in> set ''0123456789abcdef''"

definition is_digest :: "string \<Rightarrow> bool" where
  "is_digest s \<longleftrightarrow> length s = 64 \<and> list_all is_hex_char s"

definition hexdigest :: "(bytes \<Rightarrow> bytes) \<Rightarrow> bytes \<Rightarrow> string" where
  "hexdigest sha b = hex (sha b)"

definition zero_hash :: string where
  "zero_hash = replicate 64 (CHR ''0'')"

lemma length_hex [simp]: "length (hex b) = 2 * length b"
  by (induction b) (simp_all add: hex_def)

lemma length_hexdigest: "length (sha b) = 32 \<Longrightarrow> length (hexdigest sha b) = 64"
  by (simp add: hexdigest_def)

lemma is_digest_zero_hash: "is_digest zero_hash"
  by (simp add: is_digest_def zero_hash_def is_hex_char_def list_all_iff)

lemma hexdigit_char:
  assumes "n < 16"
  shows "is_hex_char (hexdigit n)"
proof -
  have "\<forall>k \<in> set [0..<16]. is_hex_char (hexdigit k)"
    by code_simp
  with assms show ?thesis by simp
qed

lemma list_all_hex: "list_all is_hex_char (hex b)"
proof -
  show ?thesis
    by (auto simp: hex_def list_all_iff byte_div_16 intro!: hexdigit_char)
qed

lemma is_digest_hexdigest: "length (sha b) = 32 \<Longrightarrow> is_digest (hexdigest sha b)"
  by (simp add: is_digest_def hexdigest_def list_all_hex)


lemma hexdigit_inj: "m < 16 \<Longrightarrow> n < 16 \<Longrightarrow> hexdigit m = hexdigit n \<Longrightarrow> m = n"
proof -
  have code: "(of_char (hexdigit k) :: nat) = (if k < 10 then 48 + k else 87 + k)" if "k < 16" for k
    using that by (simp add: hexdigit_def)
  assume m: "m < 16" and n: "n < 16" and eq: "hexdigit m = hexdigit n"
  have "(if m < 10 then 48 + m else 87 + m) = (if n < 10 then 48 + n else 87 + n)"
    unfolding code [OF m, symmetric] code [OF n, symmetric] eq ..
  then show "m = n" using m n by (simp split: if_split_asm)
qed

lemma hex_inj: "hex a = hex b \<Longrightarrow> a = b"
proof (induction a arbitrary: b)
  case Nil
  then show ?case by (cases b) (simp_all add: hex_def)
next
  case (Cons v a)
  then obtain w b' where b: "b = w # b'" by (cases b) (simp_all add: hex_def)
  from Cons.prems b have eq: "hexdigit (unat v div 16) = hexdigit (unat w div 16)"
      "hexdigit (unat v mod 16) = hexdigit (unat w mod 16)" "hex a = hex b'"
    by (simp_all add: hex_def)
  have "unat v div 16 = unat w div 16" using eq(1) by (rule hexdigit_inj [OF byte_div_16 byte_div_16])
  moreover have "unat v mod 16 = unat w mod 16" using eq(2) by (rule hexdigit_inj [rotated 2]) simp_all
  ultimately have "unat v = unat w"
    by (metis mult_div_mod_eq)
  then have "v = w" by (rule unsigned_word_eqI)
  with b Cons.IH [OF eq(3)] show ?case by simp
qed

section \<open>Text predicates\<close>

fun has_sub :: "'a list \<Rightarrow> 'a list \<Rightarrow> bool" where
  "has_sub p [] = (p = [])"
| "has_sub p (x # xs) = (take (length p) (x # xs) = p \<or> has_sub p xs)"

definition lower_char :: "char \<Rightarrow> char" where
  "lower_char c = (let n = of_char c :: nat in if 65 \<le> n \<and> n \<le> 90 then char_of (n + 32) else c)"

definition lower :: "string \<Rightarrow> string" where
  "lower s = map lower_char s"

definition is_space :: "char \<Rightarrow> bool" where
  "is_space c \<longleftrightarrow> (let n = of_char c :: nat in n = 32 \<or> (9 \<le> n \<and> n \<le> 13) \<or> (28 \<le> n \<and> n \<le> 31))"

definition strip :: "string \<Rightarrow> string" where
  "strip s = rev (dropWhile is_space (rev (dropWhile is_space s)))"

fun split_on :: "'a \<Rightarrow> 'a list \<Rightarrow> 'a list list" where
  "split_on d [] = [[]]"
| "split_on d (x # xs) =
     (if x = d then [] # split_on d xs
      else (case split_on d xs of [] \<Rightarrow> [[x]] | p # ps \<Rightarrow> (x # p) # ps))"

text \<open>\<open>s.rsplit(sep, 1)\<close> with two results, \<open>None\<close> when the separator does not occur.\<close>

fun rsplit1 :: "'a list \<Rightarrow> 'a list \<Rightarrow> ('a list \<times> 'a list) option" where
  "rsplit1 p [] = (if p = [] then Some ([], []) else None)"
| "rsplit1 p (x # xs) =
     (case rsplit1 p xs of
        Some (a, b) \<Rightarrow> Some (x # a, b)
      | None \<Rightarrow> if take (length p) (x # xs) = p then Some ([], drop (length p) (x # xs)) else None)"

lemma rsplit1_absent: "d \<notin> set xs \<Longrightarrow> rsplit1 (d # p) xs = None"
  by (induction xs) auto

lemma rsplit1_last:
  assumes "d \<notin> set p" "d \<notin> set b"
  shows "rsplit1 (d # p) (a @ (d # p) @ b) = Some (a, b)"
proof (induction a)
  case Nil
  have "rsplit1 (d # p) (p @ b) = None"
    using assms by (intro rsplit1_absent) simp
  then show ?case by simp
qed simp

lemma rsplit1_join: "rsplit1 p xs = Some (a, b) \<Longrightarrow> xs = a @ p @ b"
proof (induction xs arbitrary: a)
  case (Cons x xs)
  have "x # xs = p @ drop (length p) (x # xs)" if "take (length p) (x # xs) = p"
    using that by (metis append_take_drop_id)
  with Cons show ?case by (auto split: option.splits if_splits)
qed (auto split: if_splits)

text \<open>\<open>bytes.splitlines(keepends=True)\<close>: a line ends with LF, CR or CR LF.\<close>

fun lines_keep :: "string \<Rightarrow> string list" where
  "lines_keep [] = []"
| "lines_keep (c # s) =
     (if c = CHR 0x0A then [c] # lines_keep s
      else if c = CHR 0x0D then
        (case s of
           d # t \<Rightarrow> if d = CHR 0x0A then [c, d] # lines_keep t else [c] # lines_keep s
         | [] \<Rightarrow> [[c]])
      else (case lines_keep s of [] \<Rightarrow> [[c]] | l # ls \<Rightarrow> (c # l) # ls))"

definition ends_nl :: "string \<Rightarrow> bool" where
  "ends_nl s \<longleftrightarrow> s \<noteq> [] \<and> last s = CHR 0x0A"

lemma lines_keep_Cons_plain:
  "c \<noteq> CHR 0x0A \<Longrightarrow> c \<noteq> CHR 0x0D \<Longrightarrow>
     lines_keep (c # s) = (case lines_keep s of [] \<Rightarrow> [[c]] | l # ls \<Rightarrow> (c # l) # ls)"
  by simp

lemma lines_keep_CR:
  "lines_keep (CHR 0x0D # s) =
     (if take 1 s = [CHR 0x0A] then [CHR 0x0D, CHR 0x0A] # lines_keep (drop 1 s)
      else [CHR 0x0D] # lines_keep s)"
  by (cases s) simp_all

lemma lines_keep_LF: "lines_keep (CHR 0x0A # s) = [CHR 0x0A] # lines_keep s"
  by simp

declare lines_keep.simps(2) [simp del]

lemmas lines_keep_simps = lines_keep_Cons_plain lines_keep_CR lines_keep_LF

lemma lines_keep_line:
  "CHR 0x0A \<notin> set l \<Longrightarrow> CHR 0x0D \<notin> set l \<Longrightarrow> lines_keep (l @ CHR 0x0A # s) = (l @ [CHR 0x0A]) # lines_keep s"
  by (induction l) (auto simp: lines_keep_simps)

lemma lines_keep_tail: "CHR 0x0A \<notin> set l \<Longrightarrow> CHR 0x0D \<notin> set l \<Longrightarrow> l \<noteq> [] \<Longrightarrow> lines_keep l = [l]"
proof (induction l)
  case (Cons c l)
  then have "c \<noteq> CHR 0x0A" "c \<noteq> CHR 0x0D" by auto
  with Cons show ?case by (cases "l = []") (auto simp: lines_keep_Cons_plain)
qed simp

lemma lines_keep_Nil_iff [simp]: "lines_keep s = [] \<longleftrightarrow> s = []"
proof (cases s)
  case (Cons c t)
  then show ?thesis
    by (cases "c = CHR 0x0A"; cases "c = CHR 0x0D") (simp_all add: lines_keep_simps split: list.split)
qed simp

lemma lines_keep_append_len:
  "length s \<le> n \<Longrightarrow> ends_nl s \<Longrightarrow> lines_keep (s @ t) = lines_keep s @ lines_keep t"
proof (induction n arbitrary: s)
  case (Suc n)
  then obtain c u where s: "s = c # u" by (cases s) (auto simp: ends_nl_def)
  show ?case
  proof (cases "u = []")
    case True
    with Suc.prems s show ?thesis by (simp add: ends_nl_def lines_keep_LF)
  next
    case False
    with Suc.prems s have u: "ends_nl u" "length u \<le> n" by (simp_all add: ends_nl_def)
    note ih = Suc.IH [OF u(2,1)]
    show ?thesis
    proof (cases "c = CHR 0x0D \<and> take 1 u = [CHR 0x0A]")
      case True
      show ?thesis
      proof (cases "drop 1 u = []")
        case True
        with \<open>c = CHR 0x0D \<and> take 1 u = [CHR 0x0A]\<close> s False show ?thesis
          by (cases u) (simp_all add: lines_keep_CR)
      next
        case d: False
        with u have "ends_nl (drop 1 u)" "length (drop 1 u) \<le> n"
          by (simp_all add: ends_nl_def)
        from Suc.IH [OF this(2,1)] True s False d show ?thesis
          by (cases u) (simp_all add: lines_keep_CR)
      qed
    next
      case F: False
      from False have ne: "lines_keep u \<noteq> []" by simp
      show ?thesis
      proof (cases "c = CHR 0x0D")
        case True
        with F False s ih show ?thesis by (cases u) (simp_all add: lines_keep_CR)
      next
        case False
        then show ?thesis
          using ih s ne by (cases "c = CHR 0x0A") (simp_all add: lines_keep_simps split: list.splits)
      qed
    qed
  qed
qed (simp add: ends_nl_def)

lemma lines_keep_append: "ends_nl s \<Longrightarrow> lines_keep (s @ t) = lines_keep s @ lines_keep t"
  using lines_keep_append_len by blast

lemma lines_keep_snoc_line:
  "ends_nl s \<Longrightarrow> CHR 0x0A \<notin> set l \<Longrightarrow> CHR 0x0D \<notin> set l \<Longrightarrow>
     lines_keep (s @ l @ [CHR 0x0A]) = lines_keep s @ [l @ [CHR 0x0A]]"
  by (simp add: lines_keep_append lines_keep_line)

lemma has_sub_append: "has_sub p (xs @ p @ ys)"
proof (induction xs)
  case Nil
  show ?case by (cases p; cases ys) simp_all
next
  case (Cons x xs)
  then show ?case by simp
qed

lemma lower_char_idem [simp]: "lower_char (lower_char c) = lower_char c"
proof -
  have "(of_char c :: nat) < 256" by (rule of_char_lt_256)
  then show ?thesis by (simp add: lower_char_def Let_def)
qed

lemma lower_idem [simp]: "lower (lower s) = lower s"
  by (simp add: lower_def)

lemma hd_dropWhile_rev_dropWhile:
  assumes "xs = [] \<or> \<not> P (hd xs)"
  shows "rev (dropWhile P (rev xs)) = [] \<or> \<not> P (hd (rev (dropWhile P (rev xs))))"
proof (cases "rev (dropWhile P (rev xs))")
  case (Cons y ys)
  obtain zs where "rev xs = zs @ dropWhile P (rev xs)"
    by (metis takeWhile_dropWhile_id)
  then have "xs = rev (dropWhile P (rev xs)) @ rev zs"
    by (metis rev_append rev_rev_ident)
  with Cons assms show ?thesis by (metis append_Cons list.distinct(1) list.sel(1))
qed simp

lemma strip_idem [simp]: "strip (strip s) = strip s"
proof -
  let ?d = "dropWhile is_space s"
  have "?d = [] \<or> \<not> is_space (hd ?d)" by (metis hd_dropWhile)
  then have "strip s = [] \<or> \<not> is_space (hd (strip s))"
    unfolding strip_def by (rule hd_dropWhile_rev_dropWhile)
  then have front: "dropWhile is_space (strip s) = strip s"
    by (cases "strip s") auto
  have "dropWhile is_space (rev (strip s)) = rev (strip s)"
    unfolding strip_def by (simp add: dropWhile_idem)
  with front show ?thesis by (metis rev_rev_ident strip_def)
qed

section \<open>POSIX paths\<close>

text \<open>\<open>Path(s).parts\<close> without the root, and \<open>Path(s).is_absolute()\<close>.\<close>

definition path_parts :: "string \<Rightarrow> string list" where
  "path_parts s = filter (\<lambda>p. p \<noteq> [] \<and> p \<noteq> ''.'') (split_on (CHR ''/'') s)"

definition is_absolute :: "string \<Rightarrow> bool" where
  "is_absolute s \<longleftrightarrow> take 1 s = ''/''"

lemma split_on_absent: "d \<notin> set s \<Longrightarrow> split_on d s = [s]"
  by (induction s) auto

section \<open>Raising\<close>

text \<open>Statements in sequence: \<open>Inl\<close> is a raised error, \<open>check\<close> a guard that raises.\<close>

definition ebind :: "'e + 'a \<Rightarrow> ('a \<Rightarrow> 'e + 'b) \<Rightarrow> 'e + 'b" where
  "ebind m f = (case m of Inl e \<Rightarrow> Inl e | Inr x \<Rightarrow> f x)"

definition check :: "bool \<Rightarrow> 'e \<Rightarrow> 'e + unit" where
  "check b e = (if b then Inr () else Inl e)"

fun emap :: "('a \<Rightarrow> 'e + 'b) \<Rightarrow> 'a list \<Rightarrow> 'e + 'b list" where
  "emap f [] = Inr []"
| "emap f (x # xs) = ebind (f x) (\<lambda>y. ebind (emap f xs) (\<lambda>ys. Inr (y # ys)))"

lemma ebind_simps [simp]: "ebind (Inl e) f = Inl e" "ebind (Inr x) f = f x"
  by (simp_all add: ebind_def)

lemma ebind_Inr: "ebind m f = Inr y \<longleftrightarrow> (\<exists>x. m = Inr x \<and> f x = Inr y)"
  by (cases m) auto

lemma check_Inr [simp]: "check b e = Inr u \<longleftrightarrow> b"
  by (simp add: check_def)

lemma check_True [simp]: "check True e = Inr ()"
  by (simp add: check_def)

lemma emap_Inr: "emap f xs = Inr ys \<longleftrightarrow> length ys = length xs \<and> (\<forall>i < length xs. f (xs ! i) = Inr (ys ! i))"
proof (induction xs arbitrary: ys)
  case (Cons x xs)
  show ?case
  proof (cases ys)
    case (Cons y ys')
    then show ?thesis using Cons.IH by (auto simp: ebind_Inr less_Suc_eq_0_disj)
  qed (auto simp: ebind_Inr)
qed auto

lemma emap_all: "(\<And>x. x \<in> set xs \<Longrightarrow> f x = Inr (g x)) \<Longrightarrow> emap f xs = Inr (map g xs)"
  by (induction xs) auto

section \<open>Lists: Python indexing and \<open>sorted(set(xs))\<close>\<close>

definition py_index :: "'a list \<Rightarrow> int \<Rightarrow> 'a option" where
  "py_index xs i =
     (let n = int (length xs); j = (if i < 0 then n + i else i)
      in if 0 \<le> j \<and> j < n then Some (xs ! nat j) else None)"

definition sorted_set :: "'a::linorder list \<Rightarrow> 'a list" where
  "sorted_set xs = sort (remdups xs)"

lemma set_sorted_set [simp]: "set (sorted_set xs) = set xs"
  by (simp add: sorted_set_def)

lemma sorted_sorted_set [simp]: "sorted (sorted_set xs)"
  by (simp add: sorted_set_def)

lemma distinct_sorted_set [simp]: "distinct (sorted_set xs)"
  by (simp add: sorted_set_def)

lemma sorted_set_cong: "set xs = set ys \<Longrightarrow> sorted_set xs = sorted_set ys"
  by (simp add: sorted_distinct_set_unique)

lemma py_index_nat: "n < length xs \<Longrightarrow> py_index xs (int n) = Some (xs ! n)"
  by (simp add: py_index_def)


section \<open>Ordered dictionaries\<close>

text \<open>
  A Python dictionary keeps its insertion order: assigning to a present key changes the value in
  place, assigning to a new key appends it.  \<open>AList.update\<close> does exactly that.
\<close>

type_synonym ('k, 'v) dict = "('k \<times> 'v) list"

abbreviation keys :: "('k, 'v) dict \<Rightarrow> 'k list" where
  "keys d \<equiv> map fst d"

definition dput :: "'k \<Rightarrow> 'v \<Rightarrow> ('k, 'v) dict \<Rightarrow> ('k, 'v) dict" where
  "dput k v d = AList.update k v d"

definition dpop :: "'k \<Rightarrow> ('k, 'v) dict \<Rightarrow> ('k, 'v) dict" where
  "dpop k d = filter (\<lambda>(j, _). j \<noteq> k) d"

definition dtotal :: "('v \<Rightarrow> nat) \<Rightarrow> ('k, 'v) dict \<Rightarrow> nat" where
  "dtotal f d = sum_list (map (\<lambda>(_, v). f v) d)"

lemma map_of_dput [dict_simps]: "map_of (dput k v d) = (map_of d)(k \<mapsto> v)"
  by (simp add: dput_def update_conv')

lemma map_of_filter_key: "map_of (filter (\<lambda>(j, _). P j) d) k = (if P k then map_of d k else None)"
  by (induction d) auto

lemma map_of_dpop [dict_simps]: "map_of (dpop k d) = (map_of d)(k := None)"
  by (rule ext) (simp add: dpop_def map_of_filter_key)

lemma distinct_dput [dict_simps, inv_intros]: "distinct (keys d) \<Longrightarrow> distinct (keys (dput k v d))"
  by (simp add: dput_def distinct_update)

lemma distinct_dpop [dict_simps, inv_intros]: "distinct (keys d) \<Longrightarrow> distinct (keys (dpop k d))"
  by (simp add: dpop_def distinct_map_filter)

lemma keys_dput [dict_simps]: "set (keys (dput k v d)) = insert k (set (keys d))"
  using map_of_dput [of k v d] by (metis dom_fun_upd dom_map_of_conv_image_fst option.distinct(1) set_map)

lemma keys_dpop [dict_simps]: "set (keys (dpop k d)) = set (keys d) - {k}"
  by (auto simp: dpop_def)

lemma map_of_fold_dpop: "map_of (fold dpop ks d) k = (if k \<in> set ks then None else map_of d k)"
  by (induction ks arbitrary: d) (auto simp: dict_simps)

lemma dput_new: "k \<notin> set (keys d) \<Longrightarrow> dput k v d = d @ [(k, v)]"
  by (simp add: dput_def update_Some_unfold) (induction d; auto)

lemma dpop_absent: "k \<notin> set (keys d) \<Longrightarrow> dpop k d = d"
  by (induction d) (auto simp: dpop_def)

lemma map_of_None_keys: "map_of d k = None \<longleftrightarrow> k \<notin> set (keys d)"
  by (simp add: map_of_eq_None_iff)

lemma map_of_key_mem: "map_of d k = Some v \<Longrightarrow> k \<in> set (keys d)"
  by (metis map_of_None_keys option.distinct(1))

lemma dtotal_Nil [simp]: "dtotal f [] = 0"
  by (simp add: dtotal_def)

lemma dtotal_Cons [simp]: "dtotal f ((k, v) # d) = f v + dtotal f d"
  by (simp add: dtotal_def)

lemma dtotal_append [simp]: "dtotal f (d @ e) = dtotal f d + dtotal f e"
  by (simp add: dtotal_def)

lemma dtotal_dpop:
  "distinct (keys d) \<Longrightarrow> map_of d k = Some v \<Longrightarrow> dtotal f (dpop k d) + f v = dtotal f d"
proof (induction d)
  case (Cons p d)
  obtain j w where p: "p = (j, w)" by (cases p)
  show ?case
  proof (cases "j = k")
    case True
    with Cons.prems p have "dpop k d = d" by (simp add: dpop_absent)
    with True Cons.prems p show ?thesis by (simp add: dpop_def)
  next
    case False
    with Cons p show ?thesis by (simp add: dpop_def)
  qed
qed simp

lemma dtotal_dput:
  "distinct (keys d) \<Longrightarrow>
     dtotal f (dput k v d) + (case map_of d k of None \<Rightarrow> 0 | Some w \<Rightarrow> f w) = dtotal f d + f v"
proof (induction d)
  case (Cons p d)
  then show ?case by (cases p) (auto simp: dput_def map_of_eq_None_iff split: option.splits)
qed (simp add: dput_def)

section \<open>Big-endian fields of \<open>struct\<close>\<close>

fun be_bytes :: "nat \<Rightarrow> nat \<Rightarrow> bytes" where
  "be_bytes 0 n = []"
| "be_bytes (Suc k) n = be_bytes k (n div 256) @ [word_of_nat n]"

definition be_nat :: "bytes \<Rightarrow> nat" where
  "be_nat b = foldl (\<lambda>acc w. acc * 256 + unat w) 0 b"

lemma length_be_bytes [simp]: "length (be_bytes k n) = k"
  by (induction k arbitrary: n) simp_all

lemma be_nat_snoc [simp]: "be_nat (b @ [w]) = be_nat b * 256 + unat w"
  by (simp add: be_nat_def)

lemma be_nat_Nil [simp]: "be_nat [] = 0"
  by (simp add: be_nat_def)

lemma be_nat_be_bytes: "n < 256 ^ k \<Longrightarrow> be_nat (be_bytes k n) = n"
proof (induction k arbitrary: n)
  case (Suc k)
  then have "n div 256 < 256 ^ k"
    by (simp add: less_mult_imp_div_less mult.commute)
  with Suc.IH show ?case by (simp add: unat_of_nat)
qed simp

lemma be_bytes_be_nat: "be_bytes (length b) (be_nat b) = b"
proof (induction b rule: rev_induct)
  case (snoc w b)
  have "(be_nat b * 256 + unat w) div 256 = be_nat b"
    using byte_lt_256 [of w] by simp
  moreover have "word_of_nat (be_nat b * 256 + unat w) = w"
  proof -
    have zero: "(256 :: byte) = 0" by simp
    have "word_of_nat (be_nat b * 256 + unat w) = word_of_nat (be_nat b) * 256 + w" by simp
    also have "\<dots> = w" by (subst zero) simp
    finally show ?thesis .
  qed
  ultimately show ?case using snoc by simp
qed simp

lemma be_nat_bound: "be_nat b < 256 ^ length b"
proof (induction b rule: rev_induct)
  case (snoc w b)
  then show ?case using byte_lt_256 [of w] by simp
qed simp

definition slice :: "nat \<Rightarrow> nat \<Rightarrow> 'a list \<Rightarrow> 'a list" where
  "slice i j xs = drop i (take j xs)"

lemma slice_append_left [simp]: "j \<le> length xs \<Longrightarrow> slice i j (xs @ ys) = slice i j xs"
  by (simp add: slice_def)

lemma slice_middle: "slice (length xs) (length xs + length ys) (xs @ ys @ zs) = ys"
  by (simp add: slice_def)

lemma slice_join: "c \<le> e \<Longrightarrow> slice a c xs @ slice (max a c) e xs = slice a e (xs :: 'a list)"
proof (cases "a \<le> c")
  case True
  assume "c \<le> e"
  then have "take (c - a) (drop a (take e xs)) @ drop (c - a) (drop a (take e xs)) = drop a (take e xs)"
    by (simp only: append_take_drop_id)
  moreover have "c - a \<le> e - a" using \<open>c \<le> e\<close> by simp
  ultimately show ?thesis using True \<open>c \<le> e\<close> by (simp add: slice_def drop_take max_def min_def)
next
  case False
  assume "c \<le> e"
  with False show ?thesis by (simp add: slice_def max_def)
qed

lemma slice_slice: "c + j \<le> e \<Longrightarrow> slice i j (slice c e xs) = slice (c + i) (c + j) xs"
  by (simp add: slice_def take_drop min_def add.commute)

lemma length_slice [simp]: "length (slice i j xs) = min j (length xs) - i"
  by (simp add: slice_def min.commute)

end
