(* ===== verification/Json.thy ===== *)
theory Json
  imports Prelude
begin

text \<open>
  The part of Python's \<open>json\<close> module that the program uses for its records: values without
  floating-point numbers, \<open>json.dumps\<close> with sorted keys and the compact separators (the
  \<open>canonical\<close> form that every digest of the program is taken of), and \<open>json.loads\<close>.  The parser
  rejects a number with a fraction or an exponent; \<open>loads_dumps\<close> is the documented round trip.
  Text is printed unescaped above the ASCII range, as with \<open>ensure_ascii=False\<close>.
\<close>

datatype json =
    JNull
  | JBool bool
  | JInt int
  | JStr string
  | JList "json list"
  | JObj "(string \<times> json) list"

section \<open>Printing\<close>

definition digit_char :: "nat \<Rightarrow> char" where
  "digit_char n = char_of (48 + n)"

fun nat_str :: "nat \<Rightarrow> string" where
  "nat_str n = (if n < 10 then [digit_char n] else nat_str (n div 10) @ [digit_char (n mod 10)])"

declare nat_str.simps [simp del]

definition int_str :: "int \<Rightarrow> string" where
  "int_str i = (if i < 0 then CHR ''-'' # nat_str (nat (- i)) else nat_str (nat i))"

definition escape_char :: "char \<Rightarrow> string" where
  "escape_char c =
     (let n = of_char c :: nat in
      if n = 34 then [CHR 0x5C, CHR 0x22]
      else if n = 92 then [CHR 0x5C, CHR 0x5C]
      else if n = 10 then [CHR 0x5C, CHR ''n'']
      else if n = 13 then [CHR 0x5C, CHR ''r'']
      else if n = 9 then [CHR 0x5C, CHR ''t'']
      else if n = 8 then [CHR 0x5C, CHR ''b'']
      else if n = 12 then [CHR 0x5C, CHR ''f'']
      else if n < 32 then CHR 0x5C # ''u00'' @ [hexdigit (n div 16), hexdigit (n mod 16)]
      else [c])"

definition quote :: "string \<Rightarrow> string" where
  "quote s = CHR 0x22 # concat (map escape_char s) @ [CHR 0x22]"

fun join :: "string list \<Rightarrow> string" where
  "join [] = []"
| "join [x] = x"
| "join (x # y # xs) = x @ CHR '','' # join (y # xs)"

fun dumps :: "json \<Rightarrow> string" where
  "dumps JNull = ''null''"
| "dumps (JBool b) = (if b then ''true'' else ''false'')"
| "dumps (JInt i) = int_str i"
| "dumps (JStr s) = quote s"
| "dumps (JList vs) = CHR ''['' # join (map dumps vs) @ '']''"
| "dumps (JObj kvs) =
     CHR ''{'' # join (map (\<lambda>(k, t). quote k @ CHR '':'' # t)
       (sort_key fst (map (\<lambda>(k, v). (k, dumps v)) kvs))) @ ''}''"

definition canonical :: "json \<Rightarrow> bytes" where
  "canonical v = encode (dumps v)"

section \<open>Parsing\<close>

definition skip_ws :: "string \<Rightarrow> string" where
  "skip_ws s = dropWhile (\<lambda>c. c \<in> {CHR '' '', CHR 0x09, CHR 0x0A, CHR 0x0D}) s"

definition hex_val :: "char \<Rightarrow> nat option" where
  "hex_val c =
     (let n = of_char c :: nat in
      if 48 \<le> n \<and> n \<le> 57 then Some (n - 48)
      else if 97 \<le> n \<and> n \<le> 102 then Some (n - 87)
      else if 65 \<le> n \<and> n \<le> 70 then Some (n - 55) else None)"

definition hex4 :: "char \<Rightarrow> char \<Rightarrow> char \<Rightarrow> char \<Rightarrow> nat option" where
  "hex4 a b c d =
     (case (hex_val a, hex_val b, hex_val c, hex_val d) of
        (Some w, Some x, Some y, Some z) \<Rightarrow> Some (((w * 16 + x) * 16 + y) * 16 + z)
      | _ \<Rightarrow> None)"

definition utf8_units :: "nat \<Rightarrow> string" where
  "utf8_units n =
     (if n < 128 then [char_of n]
      else if n < 2048 then [char_of (192 + n div 64), char_of (128 + n mod 64)]
      else [char_of (224 + n div 4096), char_of (128 + n div 64 mod 64), char_of (128 + n mod 64)])"

definition unescape_char :: "char \<Rightarrow> char option" where
  "unescape_char c =
     (if c = CHR 0x22 \<or> c = CHR 0x5C \<or> c = CHR ''/'' then Some c
      else if c = CHR ''n'' then Some (CHR 0x0A)
      else if c = CHR ''r'' then Some (CHR 0x0D)
      else if c = CHR ''t'' then Some (CHR 0x09)
      else if c = CHR ''b'' then Some (CHR 0x08)
      else if c = CHR ''f'' then Some (CHR 0x0C) else None)"

definition prepend :: "string \<Rightarrow> (string \<times> string) option \<Rightarrow> (string \<times> string) option" where
  "prepend u r = map_option (\<lambda>(t, s). (u @ t, s)) r"

fun parse_str :: "string \<Rightarrow> (string \<times> string) option" where
  "parse_str [] = None"
| "parse_str (c # s) =
     (if c = CHR 0x22 then Some ([], s)
      else if c = CHR 0x5C then
        (case s of
           [] \<Rightarrow> None
         | e # s1 \<Rightarrow>
             (if e = CHR ''u'' then
                (case s1 of
                   h1 # h2 # h3 # h4 # s2 \<Rightarrow>
                     (case hex4 h1 h2 h3 h4 of
                        None \<Rightarrow> None
                      | Some n \<Rightarrow> prepend (utf8_units n) (parse_str s2))
                 | _ \<Rightarrow> None)
              else
                (case unescape_char e of
                   None \<Rightarrow> None
                 | Some u \<Rightarrow> prepend [u] (parse_str s1))))
      else if (of_char c :: nat) < 32 then None
      else prepend [c] (parse_str s))"

definition is_digit :: "char \<Rightarrow> bool" where
  "is_digit c \<longleftrightarrow> (let n = of_char c :: nat in 48 \<le> n \<and> n \<le> 57)"

definition digits_val :: "string \<Rightarrow> nat" where
  "digits_val s = foldl (\<lambda>acc c. acc * 10 + (of_char c - 48)) 0 s"

definition parse_nat :: "string \<Rightarrow> (nat \<times> string) option" where
  "parse_nat s =
     (let ds = (case s of c # _ \<Rightarrow> if c = CHR ''0'' then [c] else takeWhile is_digit s | [] \<Rightarrow> []);
          r = drop (length ds) s
      in if ds = [] \<or> (r \<noteq> [] \<and> hd r \<in> {CHR ''.'', CHR ''e'', CHR ''E''}) then None
         else Some (digits_val ds, r))"

definition parse_num :: "string \<Rightarrow> (json \<times> string) option" where
  "parse_num s =
     (case s of
        c # r \<Rightarrow>
          (if c = CHR ''-'' then map_option (\<lambda>(n, t). (JInt (- int n), t)) (parse_nat r)
           else map_option (\<lambda>(n, t). (JInt (int n), t)) (parse_nat s))
      | [] \<Rightarrow> None)"

definition parse_lit :: "string \<Rightarrow> (json \<times> string) option" where
  "parse_lit s =
     (if take 4 s = ''null'' then Some (JNull, drop 4 s)
      else if take 4 s = ''true'' then Some (JBool True, drop 4 s)
      else if take 5 s = ''false'' then Some (JBool False, drop 5 s)
      else parse_num s)"

definition dict_of :: "(string \<times> 'v) list \<Rightarrow> (string, 'v) dict" where
  "dict_of kvs = foldl (\<lambda>d (k, v). dput k v d) [] kvs"

fun parse_val :: "nat \<Rightarrow> string \<Rightarrow> (json \<times> string) option"
  and parse_elems :: "nat \<Rightarrow> string \<Rightarrow> (json list \<times> string) option"
  and parse_members :: "nat \<Rightarrow> string \<Rightarrow> ((string \<times> json) list \<times> string) option" where
  "parse_val 0 s = None"
| "parse_val (Suc n) s =
     (case skip_ws s of
        [] \<Rightarrow> None
      | c # r \<Rightarrow>
          (if c = CHR 0x22 then map_option (\<lambda>(t, r1). (JStr t, r1)) (parse_str r)
           else if c = CHR ''['' then
             (if take 1 (skip_ws r) = '']'' then Some (JList [], drop 1 (skip_ws r))
              else map_option (\<lambda>(vs, r1). (JList vs, r1)) (parse_elems n r))
           else if c = CHR ''{'' then
             (if take 1 (skip_ws r) = ''}'' then Some (JObj [], drop 1 (skip_ws r))
              else map_option (\<lambda>(kvs, r1). (JObj (dict_of kvs), r1)) (parse_members n r))
           else parse_lit (c # r)))"
| "parse_elems 0 s = None"
| "parse_elems (Suc n) s =
     (case parse_val n s of
        None \<Rightarrow> None
      | Some (v, r) \<Rightarrow>
          (case skip_ws r of
             [] \<Rightarrow> None
           | c # r1 \<Rightarrow>
               (if c = CHR '']'' then Some ([v], r1)
                else if c = CHR '','' then map_option (\<lambda>(vs, r2). (v # vs, r2)) (parse_elems n r1)
                else None)))"
| "parse_members 0 s = None"
| "parse_members (Suc n) s =
     (if take 1 (skip_ws s) \<noteq> [CHR 0x22] then None
      else
        (case parse_str (drop 1 (skip_ws s)) of
           None \<Rightarrow> None
         | Some (k, r) \<Rightarrow>
             (if take 1 (skip_ws r) \<noteq> '':'' then None
              else
                (case parse_val n (drop 1 (skip_ws r)) of
                   None \<Rightarrow> None
                 | Some (v, r1) \<Rightarrow>
                     (case skip_ws r1 of
                        [] \<Rightarrow> None
                      | c # r2 \<Rightarrow>
                          (if c = CHR ''}'' then Some ([(k, v)], r2)
                           else if c = CHR '','' then
                             map_option (\<lambda>(kvs, r3). ((k, v) # kvs, r3)) (parse_members n r2)
                           else None)))))
     )"

definition loads :: "string \<Rightarrow> json option" where
  "loads s =
     (case parse_val (Suc (2 * length s)) s of
        Some (v, r) \<Rightarrow> if skip_ws r = [] then Some v else None
      | None \<Rightarrow> None)"

section \<open>Round trip\<close>

fun wf_json :: "json \<Rightarrow> bool" where
  "wf_json (JList vs) = (\<forall>v \<in> set vs. wf_json v)"
| "wf_json (JObj kvs) = (distinct (map fst kvs) \<and> (\<forall>(k, v) \<in> set kvs. wf_json v))"
| "wf_json v = True"

fun norm_json :: "json \<Rightarrow> json" where
  "norm_json (JList vs) = JList (map norm_json vs)"
| "norm_json (JObj kvs) = JObj (sort_key fst (map (\<lambda>(k, v). (k, norm_json v)) kvs))"
| "norm_json v = v"

definition ends :: "string \<Rightarrow> bool" where
  "ends r \<longleftrightarrow> r = [] \<or> hd r \<in> {CHR '','', CHR '']'', CHR ''}'', CHR ''{'', CHR 0x0A}"

lemma sort_key_map: "sort_key f (map g xs) = map g (sort_key (f \<circ> g) xs)"
proof -
  have insort: "insort_key f (g x) (map g ys) = map g (insort_key (\<lambda>a. f (g a)) x ys)" for x ys
    by (induction ys) simp_all
  show ?thesis by (induction xs) (simp_all add: insort comp_def)
qed

lemma prepend_simps [simp]:
  "prepend u None = None" "prepend u (Some (t, r)) = Some (u @ t, r)"
  by (simp_all add: prepend_def)

lemma hex_val_hexdigit: "k < 16 \<Longrightarrow> hex_val (hexdigit k) = Some k"
  by (cases "k < 10") (simp_all add: hexdigit_def hex_val_def Let_def)

lemma hex4_control:
  assumes "k < 32"
  shows "hex4 (CHR ''0'') (CHR ''0'') (hexdigit (k div 16)) (hexdigit (k mod 16)) = Some k"
proof -
  have "hex_val (CHR ''0'') = Some 0" by (simp add: hex_val_def)
  moreover have "k div 16 < 16" using assms by simp
  ultimately show ?thesis by (simp add: hex4_def hex_val_hexdigit)
qed

lemma char_eqI: "(of_char c :: nat) = of_char d \<Longrightarrow> c = d"
  by simp

lemma char_of_codes:
  "char_of (34 :: nat) = CHR 0x22" "char_of (92 :: nat) = CHR 0x5C" "char_of (10 :: nat) = CHR 0x0A"
  "char_of (13 :: nat) = CHR 0x0D" "char_of (9 :: nat) = CHR 0x09" "char_of (8 :: nat) = CHR 0x08"
  "char_of (12 :: nat) = CHR 0x0C" "char_of (48 :: nat) = CHR ''0''"
  by code_simp+

lemma parse_str_escape: "parse_str (escape_char c @ t) = prepend [c] (parse_str t)"
proof -
  let ?n = "of_char c :: nat"
  have c: "c = char_of ?n" by simp
  consider "c \<in> {CHR 0x22, CHR 0x5C, CHR 0x0A, CHR 0x0D, CHR 0x09, CHR 0x08, CHR 0x0C}"
    | (ctl) "?n < 32" "?n \<notin> {8, 9, 10, 12, 13}" | (plain) "32 \<le> ?n" "?n \<noteq> 34" "?n \<noteq> 92"
  proof -
    have "?n \<in> {34, 92, 10, 13, 9, 8, 12} \<or> (?n < 32 \<and> ?n \<notin> {8, 9, 10, 12, 13}) \<or>
        (32 \<le> ?n \<and> ?n \<noteq> 34 \<and> ?n \<noteq> 92)" by auto
    moreover have "c \<in> {CHR 0x22, CHR 0x5C, CHR 0x0A, CHR 0x0D, CHR 0x09, CHR 0x08, CHR 0x0C}"
      if "?n \<in> {34, 92, 10, 13, 9, 8, 12}"
    proof -
      from that have "c \<in> char_of ` {34, 92, 10, 13, 9, 8, 12 :: nat}"
        using c by blast
      then show ?thesis by (simp add: char_of_codes)
    qed
    ultimately show ?thesis using that by blast
  qed
  then show ?thesis
  proof cases
    case 1
    then show ?thesis by (elim insertE) (simp_all add: escape_char_def unescape_char_def)
  next
    case ctl
    then have "escape_char c = CHR 0x5C # ''u00'' @ [hexdigit (?n div 16), hexdigit (?n mod 16)]"
      by (simp add: escape_char_def Let_def)
    moreover have "utf8_units ?n = [c]" using ctl c by (simp add: utf8_units_def)
    ultimately show ?thesis using ctl by (simp add: hex4_control)
  next
    case plain
    then have "escape_char c = [c]" by (simp add: escape_char_def Let_def)
    moreover from plain have "c \<noteq> CHR 0x22" "c \<noteq> CHR 0x5C" by auto
    ultimately show ?thesis using plain by simp
  qed
qed

lemma parse_str_quote: "parse_str (concat (map escape_char s) @ CHR 0x22 # r) = Some (s, r)"
  by (induction s) (simp_all add: parse_str_escape del: parse_str.simps, simp)

lemma parse_str_drop_quote: "parse_str (drop 1 (quote s @ r)) = Some (s, r)"
  using parse_str_quote [of s r] by (simp add: quote_def)

lemma is_digit_digit_char: "n < 10 \<Longrightarrow> is_digit (digit_char n)"
  by (simp add: is_digit_def digit_char_def Let_def)

lemma digits_val_snoc: "digits_val (s @ [c]) = digits_val s * 10 + (of_char c - 48)"
  by (simp add: digits_val_def)

lemma nat_str_digits: "list_all is_digit (nat_str n) \<and> nat_str n \<noteq> [] \<and> digits_val (nat_str n) = n"
proof (induction n rule: nat_str.induct)
  case (1 n)
  show ?case
  proof (cases "n < 10")
    case True
    then show ?thesis
      by (simp add: nat_str.simps [of n] is_digit_digit_char) (simp add: digits_val_def digit_char_def)
  next
    case False
    with 1 have "nat_str n = nat_str (n div 10) @ [digit_char (n mod 10)]"
      by (simp add: nat_str.simps [of n])
    with 1 False show ?thesis
      by (simp add: digits_val_snoc is_digit_digit_char) (simp add: digit_char_def)
  qed
qed

lemma nat_str_zero: "hd (nat_str n) = CHR ''0'' \<Longrightarrow> n = 0"
proof (induction n rule: nat_str.induct)
  case (1 n)
  show ?case
  proof (cases "n < 10")
    case True
    with 1 have "digit_char n = CHR ''0''" by (simp add: nat_str.simps [of n])
    then have "(of_char (digit_char n) :: nat) = 48" by simp
    with True show ?thesis by (simp add: digit_char_def)
  next
    case False
    with 1 nat_str_digits [of "n div 10"] have "n div 10 = 0"
      by (simp add: nat_str.simps [of n])
    with False show ?thesis by simp
  qed
qed

lemma parse_nat_nat_str:
  assumes "ends r"
  shows "parse_nat (nat_str n @ r) = Some (n, r)"
proof -
  from assms have r: "takeWhile is_digit r = []" "r \<noteq> [] \<longrightarrow> hd r \<notin> {CHR ''.'', CHR ''e'', CHR ''E''}"
    by (cases r; auto simp: ends_def is_digit_def)+
  have dig: "takeWhile is_digit (nat_str n @ r) = nat_str n"
    using nat_str_digits [of n] r by (simp add: takeWhile_append2 list_all_iff)
  obtain c s where cs: "nat_str n = c # s"
    using nat_str_digits [of n] by (cases "nat_str n") auto
  show ?thesis
  proof (cases "c = CHR ''0''")
    case True
    with cs nat_str_zero [of n] have "n = 0" by simp
    then have "nat_str n = ''0''" by (simp add: nat_str.simps digit_char_def char_of_codes)
    with r \<open>n = 0\<close> show ?thesis by (auto simp: parse_nat_def digits_val_def)
  next
    case False
    with cs dig r nat_str_digits [of n] show ?thesis
      by (auto simp: parse_nat_def Let_def)
  qed
qed


lemma skip_ws_id: "s = [] \<or> hd s \<notin> {CHR '' '', CHR 0x09, CHR 0x0A, CHR 0x0D} \<Longrightarrow> skip_ws s = s"
  by (cases s) (simp_all add: skip_ws_def)

lemma skip_ws_Cons: "c \<notin> {CHR '' '', CHR 0x09, CHR 0x0A, CHR 0x0D} \<Longrightarrow> skip_ws (c # s) = c # s"
  by (rule skip_ws_id) simp

lemma digit_start: "is_digit c \<Longrightarrow> c \<in> set ''0123456789''"
proof -
  assume "is_digit c"
  then have "48 \<le> (of_char c :: nat)" "of_char c < (58 :: nat)" by (auto simp: is_digit_def Let_def)
  then have "(of_char c :: nat) \<in> set [48..<58]" by (simp only: set_upt) simp
  then have "c \<in> char_of ` set [48..<58 :: nat]" by (metis image_eqI char_of_char)
  moreover have "char_of ` set [48..<58 :: nat] = set ''0123456789''"
    by code_simp
  ultimately show ?thesis by (simp only:)
qed

lemma int_str_start: "int_str i \<noteq> [] \<and> hd (int_str i) \<in> set ''-0123456789''"
proof -
  have "nat_str n \<noteq> [] \<and> hd (nat_str n) \<in> set ''-0123456789''" for n
    using nat_str_digits [of n] digit_start [of "hd (nat_str n)"]
    by (cases "nat_str n") auto
  then show ?thesis by (simp add: int_str_def)
qed

lemma parse_num_int_str: "ends r \<Longrightarrow> parse_num (int_str i @ r) = Some (JInt i, r)"
proof (cases "i < 0")
  case False
  assume r: "ends r"
  obtain c s where cs: "nat_str (nat i) = c # s"
    using nat_str_digits [of "nat i"] by (cases "nat_str (nat i)") auto
  have "c \<noteq> CHR ''-''" using nat_str_digits [of "nat i"] cs by (auto simp: is_digit_def)
  with False r cs parse_nat_nat_str [OF r, of "nat i"] show ?thesis
    by (simp add: int_str_def parse_num_def)
qed (simp add: int_str_def parse_num_def parse_nat_nat_str)

lemma parse_lit_int_str: "ends r \<Longrightarrow> parse_lit (int_str i @ r) = Some (JInt i, r)"
proof -
  assume r: "ends r"
  have "take 4 (int_str i @ r) \<noteq> ''null''" "take 4 (int_str i @ r) \<noteq> ''true''"
      "take 5 (int_str i @ r) \<noteq> ''false''"
    using int_str_start [of i] by (cases "int_str i"; auto)+
  with r show ?thesis by (simp add: parse_lit_def parse_num_int_str)
qed

lemma dumps_start: "\<exists>c s. dumps v = c # s \<and> c \<notin> {CHR '' '', CHR 0x09, CHR 0x0A, CHR 0x0D, CHR '']'', CHR ''}''}"
proof (cases v)
  case (JInt i)
  with int_str_start [of i] show ?thesis by (cases "int_str i") auto
qed (simp_all add: quote_def)

lemma skip_ws_dumps [simp]: "skip_ws (dumps v @ r) = dumps v @ r"
  using dumps_start [of v] by (auto intro: skip_ws_id)

definition parses_back :: "json \<Rightarrow> bool" where
  "parses_back v \<longleftrightarrow>
     (\<forall>n r. ends r \<longrightarrow> length (dumps v) \<le> n \<longrightarrow> parse_val n (dumps v @ r) = Some (norm_json v, r))"

lemma join_Cons: "join (x # xs) = (if xs = [] then x else x @ CHR '','' # join xs)"
  by (cases xs) simp_all

lemma ends_tail [simp]: "ends (CHR '','' # r)" "ends (CHR '']'' # r)" "ends (CHR ''}'' # r)"
  by (simp_all add: ends_def)

lemma parse_elems_back:
  assumes "\<forall>v \<in> set vs. parses_back v" "vs \<noteq> []" "length (join (map dumps vs)) < n"
  shows "parse_elems n (join (map dumps vs) @ CHR '']'' # r) = Some (map norm_json vs, r)"
  using assms
proof (induction vs arbitrary: n)
  case (Cons v vs)
  from Cons.prems obtain m where n: "n = Suc m" by (cases n) auto
  show ?case
  proof (cases "vs = []")
    case True
    with Cons.prems n have "parse_val m (dumps v @ CHR '']'' # r) = Some (norm_json v, CHR '']'' # r)"
      by (auto simp: parses_back_def)
    with True n show ?thesis by (simp add: skip_ws_Cons)
  next
    case False
    let ?t = "join (map dumps vs) @ CHR '']'' # r"
    from False Cons.prems n have "parse_val m (dumps v @ CHR '','' # ?t) = Some (norm_json v, CHR '','' # ?t)"
      by (auto simp: parses_back_def join_Cons)
    moreover have "parse_elems m ?t = Some (map norm_json vs, r)"
      using False Cons.prems n by (intro Cons.IH) (auto simp: join_Cons)
    ultimately show ?thesis using False n by (simp add: join_Cons skip_ws_Cons)
  qed
qed simp

definition member_str :: "string \<times> json \<Rightarrow> string" where
  "member_str p = quote (fst p) @ CHR '':'' # dumps (snd p)"

lemma parse_members_back:
  assumes "\<forall>(k, v) \<in> set kvs. parses_back v" "kvs \<noteq> []" "length (join (map member_str kvs)) < n"
  shows "parse_members n (join (map member_str kvs) @ CHR ''}'' # r) =
    Some (map (\<lambda>(k, v). (k, norm_json v)) kvs, r)"
  using assms
proof (induction kvs arbitrary: n)
  case (Cons p kvs)
  obtain k v where p: "p = (k, v)" by (cases p)
  from Cons.prems obtain m where n: "n = Suc m" by (cases n) auto
  have key: "take 1 (skip_ws (quote k @ t)) = [CHR 0x22]"
      "parse_str (drop 1 (skip_ws (quote k @ t))) = Some (k, t)" for t
    using parse_str_drop_quote [of k t] by (simp_all add: quote_def skip_ws_Cons)
  have ms: "member_str (k, v) = quote k @ CHR '':'' # dumps v" by (simp add: member_str_def)
  have len: "length (dumps v) \<le> m" and pback: "parses_back v"
    using Cons.prems n p by (auto simp: join_Cons ms split: if_splits)
  show ?case
  proof (cases "kvs = []")
    case True
    have "parse_val m (dumps v @ CHR ''}'' # r) = Some (norm_json v, CHR ''}'' # r)"
      using pback len by (simp add: parses_back_def)
    with True n p key ms show ?thesis by (simp add: skip_ws_Cons)
  next
    case False
    let ?t = "join (map member_str kvs) @ CHR ''}'' # r"
    have "parse_val m (dumps v @ CHR '','' # ?t) = Some (norm_json v, CHR '','' # ?t)"
      using pback len by (simp add: parses_back_def)
    moreover have "parse_members m ?t = Some (map (\<lambda>(k, v). (k, norm_json v)) kvs, r)"
      using False Cons.prems n p ms by (intro Cons.IH) (auto simp: join_Cons)
    ultimately show ?thesis using False n p key ms by (simp add: join_Cons skip_ws_Cons)
  qed
qed simp


lemma dict_of_distinct:
  assumes "distinct (map fst kvs)"
  shows "dict_of kvs = kvs"
proof -
  have "distinct (map fst (d @ ws)) \<Longrightarrow> foldl (\<lambda>d (k, v). dput k v d) d ws = d @ ws" for d ws :: "(string \<times> 'a) list"
  proof (induction ws arbitrary: d)
    case (Cons p ws)
    obtain k v where p: "p = (k, v)" by (cases p)
    with Cons.prems have "dput k v d = d @ [(k, v)]" by (intro dput_new) auto
    with Cons.IH [of "d @ [(k, v)]"] Cons.prems p show ?case by simp
  qed simp
  from this [of "[]" kvs] assms show ?thesis by (simp add: dict_of_def)
qed

lemma sorted_members:
  "map (\<lambda>(k, t). quote k @ CHR '':'' # t) (sort_key fst (map (\<lambda>(k, v). (k, dumps v)) kvs)) =
     map member_str (sort_key fst kvs)"
proof -
  have "(\<lambda>(k, t). quote k @ CHR '':'' # t) \<circ> (\<lambda>(k, v). (k, dumps v)) = member_str"
    by (rule ext) (simp add: member_str_def split_beta)
  moreover have "fst \<circ> (\<lambda>(k, v). (k, dumps v)) = (fst :: string \<times> json \<Rightarrow> string)"
    by (rule ext) (simp add: split_beta)
  ultimately show ?thesis by (simp only: sort_key_map map_map)
qed

lemma sorted_norm:
  fixes kvs :: "(string \<times> json) list"
  shows "sort_key fst (map (\<lambda>(k, v). (k, norm_json v)) kvs) =
    map (\<lambda>(k, v). (k, norm_json v)) (sort_key fst kvs)"
proof -
  have "fst \<circ> (\<lambda>(k, v). (k, norm_json v)) = (fst :: string \<times> json \<Rightarrow> string)"
    by (rule ext) (simp add: split_beta)
  then show ?thesis by (simp only: sort_key_map)
qed

lemma distinct_sort_key_fst: "distinct (map fst kvs) \<Longrightarrow> distinct (map fst (sort_key fst kvs))"
  by (simp add: distinct_map)

lemma map_fst_norm [simp]: "map fst (map (\<lambda>(k, v). (k, norm_json v)) kvs) = map fst kvs"
  by (induction kvs) auto

lemma parses_back_JList: "\<forall>v \<in> set vs. parses_back v \<Longrightarrow> parses_back (JList vs)"
proof -
  assume vs: "\<forall>v \<in> set vs. parses_back v"
  have "parse_val n (dumps (JList vs) @ r) = Some (norm_json (JList vs), r)"
    if r: "ends r" and n: "length (dumps (JList vs)) \<le> n" for n r
  proof (cases "vs = []")
    case True
    with n show ?thesis by (cases n) (simp_all add: skip_ws_Cons)
  next
    case False
    from n obtain m where m: "n = Suc m" by (cases n) auto
    obtain v ws where vw: "vs = v # ws" using False by (cases vs) auto
    obtain c s where c: "dumps v = c # s" "c \<noteq> CHR '']''" using dumps_start [of v] by auto
    have "\<exists>t. join (map dumps vs) @ CHR '']'' # r = dumps v @ t"
      using vw by (simp add: join_Cons)
    then obtain t where t: "join (map dumps vs) @ CHR '']'' # r = dumps v @ t" by blast
    have "take 1 (skip_ws (join (map dumps vs) @ CHR '']'' # r)) \<noteq> '']''"
      by (simp only: t skip_ws_dumps) (simp add: c)
    with parse_elems_back [OF vs False, of m r] n m show ?thesis
      by (simp add: skip_ws_Cons)
  qed
  then show ?thesis by (simp add: parses_back_def)
qed

lemma parses_back_JObj:
  assumes "\<forall>(k, v) \<in> set kvs. parses_back v" and d: "distinct (map fst kvs)"
  shows "parses_back (JObj kvs)"
proof -
  let ?s = "sort_key fst kvs"
  have vs: "\<forall>(k, v) \<in> set ?s. parses_back v" using assms by simp
  have ds: "distinct (map fst ?s)"
    using d by (rule distinct_sort_key_fst)
  have "parse_val n (dumps (JObj kvs) @ r) = Some (norm_json (JObj kvs), r)"
    if r: "ends r" and n: "length (dumps (JObj kvs)) \<le> n" for n r
  proof (cases "kvs = []")
    case True
    with n show ?thesis by (cases n) (simp_all add: skip_ws_Cons)
  next
    case False
    then have s: "?s \<noteq> []" by (metis length_0_conv length_sort)
    from n obtain m where m: "n = Suc m" by (cases n) auto
    have "\<exists>t. join (map member_str ?s) @ CHR ''}'' # r = CHR 0x22 # t"
      using s by (cases ?s) (auto simp: join_Cons member_str_def quote_def)
    then have "take 1 (skip_ws (join (map member_str ?s) @ CHR ''}'' # r)) \<noteq> ''}''"
      by (auto simp: skip_ws_Cons)
    moreover have "dict_of (map (\<lambda>(k, v). (k, norm_json v)) ?s) = map (\<lambda>(k, v). (k, norm_json v)) ?s"
      using ds by (intro dict_of_distinct) (simp only: map_fst_norm)
    ultimately show ?thesis using parse_members_back [OF vs s, of m r] n m
      by (simp add: skip_ws_Cons sorted_members sorted_norm)
  qed
  then show ?thesis by (simp add: parses_back_def)
qed

lemma parses_back_JNull: "parses_back JNull"
proof -
  have "parse_val (Suc m) (''null'' @ r) = Some (JNull, r)" for m r
    by (simp add: parse_lit_def skip_ws_Cons)
  then show ?thesis by (auto simp: parses_back_def dest: Suc_le_D)
qed

lemma parses_back_JBool: "parses_back (JBool b)"
proof -
  have "parse_val (Suc m) (''true'' @ r) = Some (JBool True, r)"
      "parse_val (Suc m) (''false'' @ r) = Some (JBool False, r)" for m r
    by (simp_all add: parse_lit_def skip_ws_Cons)
  then show ?thesis by (cases b) (auto simp: parses_back_def dest: Suc_le_D)
qed

lemma parses_back_JInt: "parses_back (JInt i)"
proof (unfold parses_back_def, intro allI impI)
  fix n r
  assume r: "ends r" and n: "length (dumps (JInt i)) \<le> n"
  obtain c s where c: "int_str i = c # s" using int_str_start [of i] by (cases "int_str i") auto
  with int_str_start [of i] have "c \<notin> {CHR 0x22, CHR ''['', CHR ''{''}" by auto
  moreover have "skip_ws (int_str i @ r) = int_str i @ r" using skip_ws_dumps [of "JInt i"] by simp
  ultimately show "parse_val n (dumps (JInt i) @ r) = Some (norm_json (JInt i), r)"
    using n c parse_lit_int_str [OF r, of i] by (cases n) simp_all
qed

lemma parses_back_JStr: "parses_back (JStr s)"
proof (unfold parses_back_def, intro allI impI)
  fix n r
  assume n: "length (dumps (JStr s)) \<le> n"
  then obtain m where "n = Suc m" by (cases n) (auto simp: quote_def)
  then show "parse_val n (dumps (JStr s) @ r) = Some (norm_json (JStr s), r)"
    using parse_str_quote [of s r] by (simp add: quote_def skip_ws_Cons)
qed

lemmas parses_back_atoms = parses_back_JNull parses_back_JBool parses_back_JInt parses_back_JStr

lemma wf_parses_back: "wf_json v \<Longrightarrow> parses_back v"
proof (induction v)
  case (JList vs)
  then show ?case by (intro parses_back_JList) auto
next
  case (JObj kvs)
  have "parses_back v" if "(k, v) \<in> set kvs" for k v
    using JObj that by (fastforce intro: JObj.IH)
  with JObj.prems show ?case by (intro parses_back_JObj) auto
qed (rule parses_back_atoms)+

lemma loads_dumps: "wf_json v \<Longrightarrow> loads (dumps v) = Some (norm_json v)"
proof -
  assume "wf_json v"
  then have "parses_back v" by (rule wf_parses_back)
  moreover have "ends []" "length (dumps v) \<le> Suc (2 * length (dumps v))" by (simp_all add: ends_def)
  ultimately have "parse_val (Suc (2 * length (dumps v))) (dumps v @ []) = Some (norm_json v, [])"
    unfolding parses_back_def by blast
  then show ?thesis by (simp add: loads_def skip_ws_def)
qed

lemma loads_dumps_line: "wf_json v \<Longrightarrow> loads (dumps v @ [CHR 0x0A]) = Some (norm_json v)"
proof -
  assume "wf_json v"
  then have "parses_back v" by (rule wf_parses_back)
  moreover have "ends [CHR 0x0A]" "length (dumps v) \<le> Suc (2 * length (dumps v @ [CHR 0x0A]))"
    by (simp_all add: ends_def)
  ultimately have "parse_val (Suc (2 * length (dumps v @ [CHR 0x0A]))) (dumps v @ [CHR 0x0A]) =
      Some (norm_json v, [CHR 0x0A])"
    unfolding parses_back_def by blast
  then show ?thesis by (simp add: loads_def skip_ws_def)
qed

lemma loads_dumps_glued: "wf_json v \<Longrightarrow> loads (dumps v @ CHR ''{'' # s) = None"
proof -
  assume "wf_json v"
  then have "parses_back v" by (rule wf_parses_back)
  moreover have "ends (CHR ''{'' # s)" "length (dumps v) \<le> Suc (2 * length (dumps v @ CHR ''{'' # s))"
    by (simp_all add: ends_def)
  ultimately have "parse_val (Suc (2 * length (dumps v @ CHR ''{'' # s))) (dumps v @ CHR ''{'' # s) =
      Some (norm_json v, CHR ''{'' # s)"
    unfolding parses_back_def by blast
  then show ?thesis by (simp add: loads_def skip_ws_Cons)
qed

text \<open>Printed text has no control character, so a record is one line of its file.\<close>

definition printable :: "string \<Rightarrow> bool" where
  "printable s \<longleftrightarrow> list_all (\<lambda>c. 32 \<le> (of_char c :: nat)) s"

lemma printable_simps [simp]:
  "printable []" "printable (c # s) \<longleftrightarrow> 32 \<le> (of_char c :: nat) \<and> printable s"
  "printable (s @ t) \<longleftrightarrow> printable s \<and> printable t"
  by (simp_all add: printable_def)

lemma printable_concat: "(\<And>s. s \<in> set ss \<Longrightarrow> printable s) \<Longrightarrow> printable (concat ss)"
  by (induction ss) auto

lemma printable_no_newline: "printable s \<Longrightarrow> CHR 0x0A \<notin> set s \<and> CHR 0x0D \<notin> set s"
  by (auto simp: printable_def list_all_iff)

lemma printable_hexdigit: "n < 16 \<Longrightarrow> 32 \<le> (of_char (hexdigit n) :: nat)"
  by (auto simp: hexdigit_def)

lemma printable_escape: "printable (escape_char c)"
  by (auto simp: escape_char_def Let_def intro: printable_hexdigit)

lemma printable_quote: "printable (quote s)"
  by (auto simp: quote_def intro!: printable_concat printable_escape)

lemma printable_nat_str: "printable (nat_str n)"
proof (induction n rule: nat_str.induct)
  case (1 n)
  then show ?case by (subst nat_str.simps) (auto simp: digit_char_def)
qed

lemma printable_join: "(\<And>s. s \<in> set ss \<Longrightarrow> printable s) \<Longrightarrow> printable (join ss)"
  by (induction ss rule: join.induct) auto

lemma printable_dumps: "printable (dumps v)"
proof (induction v)
  case (JList vs)
  then show ?case by (auto intro!: printable_join)
next
  case (JObj kvs)
  then show ?case by (fastforce intro!: printable_join simp: printable_quote)
qed (auto simp: int_str_def printable_nat_str printable_quote)

lemma dumps_norm [simp]: "dumps (norm_json v) = dumps v"
proof (induction v)
  case (JObj kvs)
  let ?S = "sort_key fst kvs" and ?f = "\<lambda>(k, v). (k, norm_json v)"
  have printed: "dumps (JObj ws) = CHR ''{'' # join (map member_str (sort_key fst ws)) @ ''}''" for ws
    using sorted_members [of ws] by simp
  have "sort_key fst (map ?f ?S) = map ?f ?S"
    using sorted_norm [of kvs] by (metis sort_key_id_if_sorted sorted_sort_key)
  moreover have "map member_str (map ?f ?S) = map member_str ?S"
    using JObj.IH by (auto simp: member_str_def snds.simps)
  ultimately show ?case
    using sorted_norm [of kvs] printed [of kvs] printed [of "map ?f ?S"] by (simp only: norm_json.simps)
next
  case (JList vs)
  then have "map (dumps \<circ> norm_json) vs = map dumps vs" by (intro map_cong refl) simp
  then show ?case by (simp only: norm_json.simps dumps.simps map_map)
qed simp_all

lemma canonical_norm [simp]: "canonical (norm_json v) = canonical v"
  by (simp add: canonical_def)

lemma canonical_inj:
  "wf_json v \<Longrightarrow> wf_json w \<Longrightarrow> canonical v = canonical w \<Longrightarrow> norm_json v = norm_json w"
  by (metis canonical_def encode_inject loads_dumps option.inject)


section \<open>Reading objects\<close>

fun jget :: "json \<Rightarrow> string \<Rightarrow> json option" where
  "jget (JObj kvs) k = map_of kvs k"
| "jget _ k = None"

definition jopt :: "string option \<Rightarrow> json" where
  "jopt s = (case s of None \<Rightarrow> JNull | Some t \<Rightarrow> JStr t)"

lemma wf_jopt [simp]: "wf_json (jopt s)"
  by (simp add: jopt_def split: option.split)

lemma norm_jopt [simp]: "norm_json (jopt s) = jopt s"
  by (simp add: jopt_def split: option.split)

lemma jopt_inject [simp]: "jopt s = jopt t \<longleftrightarrow> s = t"
  by (simp add: jopt_def split: option.split)

lemma map_of_sort_key_fst:
  "distinct (map fst kvs) \<Longrightarrow> map_of (sort_key fst kvs) = map_of kvs"
  using map_of_inject_set [of "sort_key fst kvs" kvs] by (simp add: distinct_sort_key_fst)

lemma jget_norm: "wf_json v \<Longrightarrow> jget (norm_json v) k = map_option norm_json (jget v k)"
proof (cases v)
  case (JObj kvs)
  assume "wf_json v"
  with JObj have d: "distinct (map fst kvs)" by simp
  have "map_of (map (\<lambda>(k, v). (k, norm_json v)) (sort_key fst kvs)) k =
      map_option norm_json (map_of (sort_key fst kvs) k)"
    by (simp add: map_of_map)
  also have "map_of (sort_key fst kvs) = map_of kvs"
    using d by (rule map_of_sort_key_fst)
  finally show ?thesis using JObj by (simp add: sorted_norm)
qed simp_all

lemma jget_norm_eqD:
  "wf_json v \<Longrightarrow> wf_json w \<Longrightarrow> norm_json v = norm_json w \<Longrightarrow>
     map_option norm_json (jget v k) = map_option norm_json (jget w k)"
  by (metis jget_norm)

section \<open>Flat objects\<close>

definition plain :: "json \<Rightarrow> bool" where
  "plain v \<longleftrightarrow> wf_json v \<and> norm_json v = v"

lemma plain_simps [simp]: "plain (JStr s)" "plain (JInt i)" "plain (jopt t)" "plain JNull"
  by (simp_all add: plain_def)

lemma norm_members_plain:
  "(\<forall>(k, v) \<in> set kvs. plain v) \<Longrightarrow> map (\<lambda>(k, v). (k, norm_json v)) kvs = kvs"
  by (induction kvs) (auto simp: plain_def)

lemma loads_flat:
  assumes "distinct (map fst kvs)" "\<forall>(k, v) \<in> set kvs. plain v"
  shows "loads (dumps (JObj kvs)) = Some (JObj (sort_key fst kvs))"
    "loads (dumps (JObj kvs) @ [CHR 0x0A]) = Some (JObj (sort_key fst kvs))"
    "map_of (sort_key fst kvs) = map_of kvs"
proof -
  have w: "wf_json (JObj kvs)" using assms by (auto simp: plain_def)
  have "norm_json (JObj kvs) = JObj (sort_key fst kvs)"
    by (simp only: norm_json.simps norm_members_plain [OF assms(2)])
  with loads_dumps [OF w] loads_dumps_line [OF w]
  show "loads (dumps (JObj kvs)) = Some (JObj (sort_key fst kvs))"
      "loads (dumps (JObj kvs) @ [CHR 0x0A]) = Some (JObj (sort_key fst kvs))" by (simp_all only:)
qed (rule map_of_sort_key_fst [OF assms(1)])

section \<open>Python equality\<close>

text \<open>\<open>True == 1\<close> in Python, and objects are compared as mappings.\<close>

fun py_num :: "json \<Rightarrow> json" where
  "py_num (JBool b) = JInt (if b then 1 else 0)"
| "py_num (JList vs) = JList (map py_num vs)"
| "py_num (JObj kvs) = JObj (map (\<lambda>(k, v). (k, py_num v)) kvs)"
| "py_num v = v"

definition json_eq :: "json \<Rightarrow> json \<Rightarrow> bool" where
  "json_eq v w \<longleftrightarrow> norm_json (py_num v) = norm_json (py_num w)"

lemma json_eq_refl [simp]: "json_eq v v"
  by (simp add: json_eq_def)

lemma json_eq_JStr [simp]: "json_eq v (JStr s) \<longleftrightarrow> v = JStr s" "json_eq (JStr s) v \<longleftrightarrow> v = JStr s"
  by (cases v; auto simp: json_eq_def)+

lemma json_eq_JInt: "json_eq v (JInt i) \<longleftrightarrow> v = JInt i \<or> (i = 1 \<and> v = JBool True) \<or> (i = 0 \<and> v = JBool False)"
  by (cases v) (auto simp: json_eq_def)

text \<open>Truth value testing.\<close>

fun truthy :: "json \<Rightarrow> bool" where
  "truthy JNull = False"
| "truthy (JBool b) = b"
| "truthy (JInt i) = (i \<noteq> 0)"
| "truthy (JStr s) = (s \<noteq> [])"
| "truthy (JList vs) = (vs \<noteq> [])"
| "truthy (JObj kvs) = (kvs \<noteq> [])"

section \<open>Everything parsed is well formed\<close>

lemma distinct_dict_of: "distinct (keys (dict_of kvs))"
proof -
  have "distinct (keys d) \<Longrightarrow> distinct (keys (foldl (\<lambda>d (k, v). dput k v d) d kvs))" for d :: "(string, 'a) dict"
    by (induction kvs arbitrary: d) (auto simp: distinct_dput)
  then show ?thesis by (simp add: dict_of_def)
qed

lemma set_dput: "set (dput k v d) \<subseteq> insert (k, v) (set d)"
  unfolding dput_def by (induction d) auto

lemma set_dict_of: "set (dict_of kvs) \<subseteq> set kvs"
proof -
  have "set (foldl (\<lambda>d (k, v). dput k v d) d kvs) \<subseteq> set d \<union> set kvs" for d :: "(string, 'a) dict"
  proof (induction kvs arbitrary: d)
    case (Cons p kvs)
    obtain k v where p: "p = (k, v)" by (cases p)
    have "set (foldl (\<lambda>d (k, v). dput k v d) (dput k v d) kvs) \<subseteq> set (dput k v d) \<union> set kvs"
      by (rule Cons.IH)
    with p set_dput [of k v d] show ?case by auto
  qed simp
  from this [of "[]"] show ?thesis by (simp add: dict_of_def)
qed

lemma wf_parse:
  "parse_val n s = Some (v, r) \<Longrightarrow> wf_json v"
  "parse_elems n s = Some (vs, r) \<Longrightarrow> list_all wf_json vs"
  "parse_members n s = Some (kvs, r) \<Longrightarrow> list_all (\<lambda>m. wf_json (snd m)) kvs"
proof (induction n s and n s and n s arbitrary: v r and vs r and kvs r rule: parse_val_parse_elems_parse_members.induct)
  case (2 n s)
  have members: "wf_json (JObj (dict_of kvs))" if "list_all (\<lambda>m. wf_json (snd m)) kvs" for kvs
    using that set_dict_of [of kvs] distinct_dict_of [of kvs] by (fastforce simp: list_all_iff)
  have num: "wf_json v" if "parse_lit t = Some (v, r)" for t v r
    using that by (auto simp: parse_lit_def parse_num_def split: if_splits list.splits)
  from 2 show ?case
    by (auto simp: list_all_iff dest: num intro: members split: list.splits if_splits)
next
  case (4 n s)
  then show ?case by (fastforce split: option.splits list.splits if_splits)
next
  case (6 n s)
  then show ?case by (fastforce split: option.splits list.splits if_splits)
qed simp_all

lemma wf_loads: "loads s = Some v \<Longrightarrow> wf_json v"
  by (auto simp: loads_def simp del: parse_val.simps split: option.splits if_splits dest: wf_parse(1))

end
