(* ===== verification/HashChain.thy ===== *)
theory HashChain
  imports Json
begin

text \<open>
  The contract every append-only, hash-chained log of the program keeps (the delivery ledger, the
  change journal, the binary changeset journal, the HBP receipt rows): an event stores the tag of
  its predecessor (\<open>link\<close>) and its own tag, which is the digest \<open>mat\<close> recomputes from the event.
  \<open>chained\<close> is the verification loop; the locale \<open>append_log\<close> is the interface, its facts the
  consequences every log inherits: the chain stays valid, history is never rewritten, and the head
  of a chain pins every event of it as long as the digest has no collision.
\<close>

fun chained :: "('e \<Rightarrow> 'h) \<Rightarrow> ('e \<Rightarrow> 'h) \<Rightarrow> ('e \<Rightarrow> 'h) \<Rightarrow> 'h \<Rightarrow> 'e list \<Rightarrow> bool" where
  "chained link tag mat h [] = True"
| "chained link tag mat h (e # es) =
     (link e = h \<and> tag e = mat e \<and> chained link tag mat (tag e) es)"

fun chain_head :: "('e \<Rightarrow> 'h) \<Rightarrow> 'h \<Rightarrow> 'e list \<Rightarrow> 'h" where
  "chain_head tag h [] = h"
| "chain_head tag h (e # es) = chain_head tag (tag e) es"

lemma chain_head_append [simp]:
  "chain_head tag h (es @ fs) = chain_head tag (chain_head tag h es) fs"
  by (induction es arbitrary: h) simp_all

lemma chain_head_last: "chain_head tag h es = (if es = [] then h else tag (last es))"
  by (induction es arbitrary: h) simp_all

lemma chained_append [simp]:
  "chained link tag mat h (es @ fs) =
     (chained link tag mat h es \<and> chained link tag mat (chain_head tag h es) fs)"
  by (induction es arbitrary: h) auto

lemma chained_mem: "chained link tag mat h es \<Longrightarrow> e \<in> set es \<Longrightarrow> tag e = mat e"
  by (induction es arbitrary: h) auto

lemma chained_nth:
  "chained link tag mat h es \<Longrightarrow> i < length es \<Longrightarrow>
     link (es ! i) = (if i = 0 then h else tag (es ! (i - 1))) \<and> tag (es ! i) = mat (es ! i)"
proof (induction es arbitrary: h i)
  case (Cons e es)
  show ?case
  proof (cases i)
    case (Suc j)
    with Cons show ?thesis by (cases j) auto
  qed (use Cons in simp)
qed simp

text \<open>
  Two valid chains of one length with one head carry the same contents, wherever they start, when
  the digest has no collision among their events.
\<close>

lemma chained_pinned:
  assumes "chained link tag mat h es" "chained link tag mat h' fs" "length es = length fs"
    and "chain_head tag h es = chain_head tag h' fs"
    and "\<And>a b. a \<in> set es \<Longrightarrow> b \<in> set fs \<Longrightarrow> mat a = mat b \<Longrightarrow> view a = view b \<and> link a = link b"
  shows "map view es = map view fs"
  using assms
proof (induction es arbitrary: fs rule: rev_induct)
  case (snoc e es)
  then obtain f gs where fs: "fs = gs @ [f]" by (cases fs rule: rev_cases) auto
  with snoc.prems have tags: "mat e = mat f" and len: "length es = length gs" by auto
  with snoc.prems(5) [of e f] fs have same: "view e = view f" "link e = link f" by auto
  have "chain_head tag h es = chain_head tag h' gs"
    using snoc.prems(1,2) fs same(2) by simp
  then have "map view es = map view gs"
    using snoc.prems fs len by (intro snoc.IH) auto
  with fs same(1) show ?case by simp
qed simp

locale append_log =
  fixes link :: "'e \<Rightarrow> 'h" and tag :: "'e \<Rightarrow> 'h" and mat :: "'e \<Rightarrow> 'h" and genesis :: 'h
    and events :: "'s \<Rightarrow> 'e list" and step :: "'s \<Rightarrow> 's \<Rightarrow> bool"
  assumes step_appends:
    "step s t \<Longrightarrow> events t = events s \<or>
       (\<exists>e. events t = events s @ [e] \<and> link e = chain_head tag genesis (events s) \<and> tag e = mat e)"
begin

lemma step_chained:
  "step s t \<Longrightarrow> chained link tag mat genesis (events s) \<Longrightarrow> chained link tag mat genesis (events t)"
  using step_appends by fastforce

lemma step_extends: "step s t \<Longrightarrow> \<exists>es. events t = events s @ es \<and> length es \<le> 1"
  using step_appends by fastforce

lemma run_chained:
  "step\<^sup>*\<^sup>* s t \<Longrightarrow> chained link tag mat genesis (events s) \<Longrightarrow> chained link tag mat genesis (events t)"
  by (induction rule: rtranclp_induct) (auto intro: step_chained)

lemma run_extends: "step\<^sup>*\<^sup>* s t \<Longrightarrow> \<exists>es. events t = events s @ es"
proof (induction rule: rtranclp_induct)
  case (step t u)
  then obtain es fs where "events t = events s @ es" "events u = events t @ fs"
    using step_extends [OF step.hyps(2)] by blast
  then show ?case by simp
qed simp

lemma run_nth: "step\<^sup>*\<^sup>* s t \<Longrightarrow> i < length (events s) \<Longrightarrow> events t ! i = events s ! i"
  using run_extends by (fastforce simp: nth_append)

end

end
