(* ===== verification/Ledger.thy ===== *)
theory Ledger
  imports HashChain
begin

text \<open>
  \<open>simplicio_fast/ledger.py\<close>: the delivery ledger, an append-only chain of delivery events with a
  promoted winner per attempt.  The model keeps the class's fields, its checks in their order and
  the state left behind when an operation raises (the second component of every result).
\<close>

section \<open>Events\<close>

definition LEDGER_SCHEMA :: string where
  "LEDGER_SCHEMA = ''simplicio.fast.delivery-ledger/v1''"

definition LEDGER_EVENT_TYPES :: "string list" where
  "LEDGER_EVENT_TYPES =
     [''TASK_ACCEPTED'', ''ENGINE_SELECTED'', ''MAPPER_CONTEXT_PINNED'', ''FAST_CONTEXT_RESOLVED'',
      ''UNDERSTANDING_COMPILED'', ''PLAN_COMPILED'', ''CHANGESET_ACCEPTED'', ''EFFECT_AUTHORIZED'',
      ''LOCAL_GUARD_ACCEPTED'', ''EDIT_APPLIED'', ''TEST_EVIDENCE'', ''INVALIDATION_APPLIED'',
      ''SNAPSHOT_REFRESHED'', ''CANDIDATE_REJECTED'', ''WINNER_PROMOTED'', ''DELIVERY_SEALED'',
      ''HELD'', ''ROLLBACK'']"

datatype ledger_error =
    Unknown_event_type
  | Required_missing
  | Secret_redaction
  | Invalid_digest
  | Idempotency_conflict
  | Winner_fence
  | Winner_required

record ledger_event =
  le_sequence :: int
  le_event_type :: string
  le_event_id :: string
  le_task_id :: string
  le_attempt_id :: string
  le_candidate_id :: "string option"
  le_repository :: string
  le_source_commit :: "string option"
  le_base_generation :: "string option"
  le_overlay_generation :: "string option"
  le_producer :: string
  le_artifact_handles :: "string list"
  le_artifact_digests :: "string list"
  le_payload_digest :: "string option"
  le_prev_event_hash :: string
  le_event_hash :: string
  le_metadata :: "(string \<times> json) list"

definition material_fields :: "ledger_event \<Rightarrow> (string \<times> json) list" where
  "material_fields e =
     [(''schema'', JStr LEDGER_SCHEMA),
      (''sequence'', JInt (le_sequence e)),
      (''event_type'', JStr (le_event_type e)),
      (''event_id'', JStr (le_event_id e)),
      (''task_id'', JStr (le_task_id e)),
      (''attempt_id'', JStr (le_attempt_id e)),
      (''candidate_id'', jopt (le_candidate_id e)),
      (''repository'', JStr (le_repository e)),
      (''source_commit'', jopt (le_source_commit e)),
      (''base_generation'', jopt (le_base_generation e)),
      (''overlay_generation'', jopt (le_overlay_generation e)),
      (''producer'', JStr (le_producer e)),
      (''artifact_handles'', JList (map JStr (le_artifact_handles e))),
      (''artifact_digests'', JList (map JStr (le_artifact_digests e))),
      (''payload_digest'', jopt (le_payload_digest e)),
      (''prev_event_hash'', JStr (le_prev_event_hash e)),
      (''metadata'', JObj (le_metadata e))]"

definition material :: "ledger_event \<Rightarrow> json" where
  "material e = JObj (material_fields e)"

definition ledger_record :: "ledger_event \<Rightarrow> json" where
  "ledger_record e = JObj (material_fields e @ [(''event_hash'', JStr (le_event_hash e))])"

section \<open>Checks\<close>

definition secret_key :: "string \<Rightarrow> bool" where
  "secret_key s =
     list_ex (\<lambda>p. has_sub p (lower s))
       [''password'', ''secret'', ''token'', ''apikey'', ''api_key'', ''api-key'',
        ''privatekey'', ''private_key'', ''private-key'']"

fun secret_walk :: "string \<Rightarrow> json \<Rightarrow> bool" where
  "secret_walk key (JObj kvs) = (secret_key key \<or> list_ex (\<lambda>(k, v). secret_walk k v) kvs)"
| "secret_walk key (JList vs) = (secret_key key \<or> list_ex (secret_walk key) vs)"
| "secret_walk key (JStr s) = (secret_key key \<or> secret_key s)"
| "secret_walk key v = secret_key key"

definition check_metadata :: "(string \<times> json) list \<Rightarrow> bool" where
  "check_metadata md = (\<not> secret_walk [] (JObj md))"

definition ledger_event_id ::
  "(bytes \<Rightarrow> bytes) \<Rightarrow> string \<Rightarrow> string \<Rightarrow> string \<Rightarrow> string option \<Rightarrow> (string \<times> json) list \<Rightarrow> string" where
  "ledger_event_id sha event_type task_id attempt_id candidate_id metadata =
     hexdigest sha (canonical (JObj
       [(''schema'', JStr LEDGER_SCHEMA), (''event_type'', JStr event_type), (''task_id'', JStr task_id),
        (''attempt_id'', JStr attempt_id), (''candidate_id'', jopt candidate_id),
        (''metadata'', JObj metadata)]))"

definition event_hash_input :: "ledger_event \<Rightarrow> bytes" where
  "event_hash_input e =
     encode ''simplicio.fast.delivery-ledger:event:v1'' @ [0] @ canonical (material e)"

definition ledger_event_hash :: "(bytes \<Rightarrow> bytes) \<Rightarrow> ledger_event \<Rightarrow> string" where
  "ledger_event_hash sha e = hexdigest sha (event_hash_input e)"

section \<open>The ledger\<close>

record ledger =
  lg_repository :: string
  lg_events :: "ledger_event list"
  lg_by_id :: "(string, ledger_event) dict"
  lg_winner :: "(string \<times> string, string) dict"

record append_request =
  rq_event_type :: string
  rq_task_id :: string
  rq_attempt_id :: string
  rq_producer :: string
  rq_candidate_id :: "string option"
  rq_source_commit :: "string option"
  rq_base_generation :: "string option"
  rq_overlay_generation :: "string option"
  rq_artifact_handles :: "string list"
  rq_artifact_digests :: "string list"
  rq_payload_digest :: "string option"
  rq_metadata :: "(string \<times> json) list"

definition new_ledger :: "string \<Rightarrow> ledger_error + ledger" where
  "new_ledger repository =
     (if repository = [] then Inl Required_missing
      else Inr \<lparr>lg_repository = repository, lg_events = [], lg_by_id = [], lg_winner = []\<rparr>)"

definition build_event :: "(bytes \<Rightarrow> bytes) \<Rightarrow> append_request \<Rightarrow> ledger \<Rightarrow> ledger_event" where
  "build_event sha rq L =
     (let previous = (if lg_events L = [] then zero_hash else le_event_hash (last (lg_events L)));
          e = \<lparr>le_sequence = int (length (lg_events L)),
               le_event_type = rq_event_type rq,
               le_event_id = ledger_event_id sha (rq_event_type rq) (rq_task_id rq)
                 (rq_attempt_id rq) (rq_candidate_id rq) (rq_metadata rq),
               le_task_id = rq_task_id rq,
               le_attempt_id = rq_attempt_id rq,
               le_candidate_id = rq_candidate_id rq,
               le_repository = lg_repository L,
               le_source_commit = rq_source_commit rq,
               le_base_generation = rq_base_generation rq,
               le_overlay_generation = rq_overlay_generation rq,
               le_producer = rq_producer rq,
               le_artifact_handles = rq_artifact_handles rq,
               le_artifact_digests = rq_artifact_digests rq,
               le_payload_digest = rq_payload_digest rq,
               le_prev_event_hash = previous,
               le_event_hash = [],
               le_metadata = rq_metadata rq\<rparr>
      in e\<lparr>le_event_hash := ledger_event_hash sha e\<rparr>)"

definition append_event ::
  "(bytes \<Rightarrow> bytes) \<Rightarrow> append_request \<Rightarrow> ledger \<Rightarrow> (ledger_error + ledger_event) \<times> ledger" where
  "append_event sha rq L =
     (if rq_event_type rq \<notin> set LEDGER_EVENT_TYPES then (Inl Unknown_event_type, L)
      else if rq_task_id rq = [] \<or> rq_attempt_id rq = [] \<or> rq_producer rq = []
        then (Inl Required_missing, L)
      else if \<not> check_metadata (rq_metadata rq) then (Inl Secret_redaction, L)
      else if \<not> list_all is_digest (rq_artifact_digests rq) then (Inl Invalid_digest, L)
      else if (case rq_payload_digest rq of None \<Rightarrow> False | Some d \<Rightarrow> \<not> is_digest d)
        then (Inl Invalid_digest, L)
      else
        (let e = build_event sha rq L in
         case map_of (lg_by_id L) (le_event_id e) of
           Some existing \<Rightarrow>
             (if le_event_type existing \<noteq> rq_event_type rq \<or>
                 norm_json (JObj (le_metadata existing)) \<noteq> norm_json (JObj (rq_metadata rq))
              then (Inl Idempotency_conflict, L)
              else (Inr existing, L))
         | None \<Rightarrow>
             (Inr e, L\<lparr>lg_events := lg_events L @ [e], lg_by_id := dput (le_event_id e) e (lg_by_id L)\<rparr>)))"

definition plain_request ::
  "string \<Rightarrow> string \<Rightarrow> string \<Rightarrow> string \<Rightarrow> string \<Rightarrow> append_request" where
  "plain_request event_type task_id attempt_id candidate_id producer =
     \<lparr>rq_event_type = event_type, rq_task_id = task_id, rq_attempt_id = attempt_id,
      rq_producer = producer, rq_candidate_id = Some candidate_id, rq_source_commit = None,
      rq_base_generation = None, rq_overlay_generation = None, rq_artifact_handles = [],
      rq_artifact_digests = [], rq_payload_digest = None, rq_metadata = []\<rparr>"

definition promote_winner ::
  "(bytes \<Rightarrow> bytes) \<Rightarrow> string \<Rightarrow> string \<Rightarrow> string \<Rightarrow> string \<Rightarrow> ledger \<Rightarrow>
     (ledger_error + ledger_event) \<times> ledger" where
  "promote_winner sha task_id attempt_id candidate_id producer L =
     (let key = (task_id, attempt_id); winner = map_of (lg_winner L) key in
      if winner \<noteq> None \<and> winner \<noteq> Some candidate_id then (Inl Winner_fence, L)
      else append_event sha (plain_request ''WINNER_PROMOTED'' task_id attempt_id candidate_id producer)
             (L\<lparr>lg_winner := dput key candidate_id (lg_winner L)\<rparr>))"

definition seal_delivery ::
  "(bytes \<Rightarrow> bytes) \<Rightarrow> string \<Rightarrow> string \<Rightarrow> string \<Rightarrow> ledger \<Rightarrow>
     (ledger_error + ledger_event) \<times> ledger" where
  "seal_delivery sha task_id attempt_id producer L =
     (case map_of (lg_winner L) (task_id, attempt_id) of
        None \<Rightarrow> (Inl Winner_required, L)
      | Some candidate_id \<Rightarrow>
          append_event sha (plain_request ''DELIVERY_SEALED'' task_id attempt_id candidate_id producer) L)"

section \<open>Verification and lookup\<close>

record incremental_result =
  inc_valid :: bool
  inc_events :: nat
  inc_checked :: int
  inc_event_hash :: "string option"

text \<open>\<open>None\<close> is the \<open>IndexError\<close> of \<open>self._events[target.sequence - 1]\<close>.\<close>

definition verify_incremental ::
  "(bytes \<Rightarrow> bytes) \<Rightarrow> ledger_event option \<Rightarrow> ledger \<Rightarrow> incremental_result option" where
  "verify_incremental sha event L =
     (let target = (case event of Some e \<Rightarrow> Some e
                    | None \<Rightarrow> if lg_events L = [] then None else Some (last (lg_events L))) in
      case target of
        None \<Rightarrow> Some \<lparr>inc_valid = True, inc_events = 0, inc_checked = 0, inc_event_hash = None\<rparr>
      | Some t \<Rightarrow>
          (case (if le_sequence t = 0 then Some zero_hash
                 else map_option le_event_hash (py_index (lg_events L) (le_sequence t - 1))) of
             None \<Rightarrow> None
           | Some expected_previous \<Rightarrow>
               Some \<lparr>inc_valid = (le_prev_event_hash t = expected_previous \<and>
                       le_event_hash t = ledger_event_hash sha t),
                     inc_events = length (lg_events L),
                     inc_checked = le_sequence t + 1,
                     inc_event_hash = Some (le_event_hash t)\<rparr>))"

fun verify_loop ::
  "(bytes \<Rightarrow> bytes) \<Rightarrow> nat \<Rightarrow> string \<Rightarrow> ledger_event list \<Rightarrow> nat list \<times> string" where
  "verify_loop sha sequence previous [] = ([], previous)"
| "verify_loop sha sequence previous (e # es) =
     (let bad = (le_sequence e \<noteq> int sequence \<or> le_prev_event_hash e \<noteq> previous \<or>
                 le_event_hash e \<noteq> ledger_event_hash sha e);
          (invalid, head) = verify_loop sha (Suc sequence) (le_event_hash e) es
      in (if bad then sequence # invalid else invalid, head))"

record verification =
  vf_valid :: bool
  vf_events :: nat
  vf_invalid_sequences :: "nat list"
  vf_head :: string

definition verify_all :: "(bytes \<Rightarrow> bytes) \<Rightarrow> ledger \<Rightarrow> verification" where
  "verify_all sha L =
     (let (invalid, previous) = verify_loop sha 0 zero_hash (lg_events L) in
      \<lparr>vf_valid = (invalid = []), vf_events = length (lg_events L),
       vf_invalid_sequences = invalid, vf_head = previous\<rparr>)"

definition lookup_attempt :: "string \<Rightarrow> string \<Rightarrow> ledger \<Rightarrow> ledger_event list" where
  "lookup_attempt task_id attempt_id L =
     filter (\<lambda>e. le_task_id e = task_id \<and> le_attempt_id e = attempt_id) (lg_events L)"


definition project_json :: "(bytes \<Rightarrow> bytes) \<Rightarrow> ledger \<Rightarrow> string \<times> json list \<times> verification" where
  "project_json sha L = (lg_repository L, map ledger_record (lg_events L), verify_all sha L)"

section \<open>Operations as steps\<close>

datatype ledger_op =
    Append append_request
  | Promote string string string string
  | Seal string string string

fun ledger_step :: "(bytes \<Rightarrow> bytes) \<Rightarrow> ledger_op \<Rightarrow> ledger \<Rightarrow> (ledger_error + ledger_event) \<times> ledger" where
  "ledger_step sha (Append rq) L = append_event sha rq L"
| "ledger_step sha (Promote t a c p) L = promote_winner sha t a c p L"
| "ledger_step sha (Seal t a p) L = seal_delivery sha t a p L"

definition ledger_run :: "(bytes \<Rightarrow> bytes) \<Rightarrow> ledger_op list \<Rightarrow> ledger \<Rightarrow> ledger" where
  "ledger_run sha ops L = fold (\<lambda>opn M. snd (ledger_step sha opn M)) ops L"

definition ledger_steps :: "(bytes \<Rightarrow> bytes) \<Rightarrow> ledger \<Rightarrow> ledger \<Rightarrow> bool" where
  "ledger_steps sha L M \<longleftrightarrow> (\<exists>opn. M = snd (ledger_step sha opn L))"

section \<open>What an append does\<close>

lemma append_event_cases:
  obtains (same) "snd (append_event sha rq L) = L"
  | (new) "snd (append_event sha rq L) =
        L\<lparr>lg_events := lg_events L @ [build_event sha rq L],
          lg_by_id := dput (le_event_id (build_event sha rq L)) (build_event sha rq L) (lg_by_id L)\<rparr>"
      "map_of (lg_by_id L) (le_event_id (build_event sha rq L)) = None"
      "check_metadata (rq_metadata rq)"
proof (cases "snd (append_event sha rq L) = L")
  case False
  then show ?thesis
    by (intro new) (auto simp: append_event_def Let_def split: if_splits option.splits)
qed (rule same)

lemma append_event_winner [simp]: "lg_winner (snd (append_event sha rq L)) = lg_winner L"
  by (rule append_event_cases [of sha rq L]) auto

lemma build_event_simps [simp]:
  "le_sequence (build_event sha rq L) = int (length (lg_events L))"
  "le_metadata (build_event sha rq L) = rq_metadata rq"
  "le_event_type (build_event sha rq L) = rq_event_type rq"
  "le_prev_event_hash (build_event sha rq L) = chain_head le_event_hash zero_hash (lg_events L)"
  by (simp_all add: build_event_def Let_def chain_head_last)

lemma event_hash_input_update [simp]: "event_hash_input (e\<lparr>le_event_hash := h\<rparr>) = event_hash_input e"
  by (simp add: event_hash_input_def material_def material_fields_def)

lemma ledger_event_hash_update [simp]:
  "ledger_event_hash sha (e\<lparr>le_event_hash := h\<rparr>) = ledger_event_hash sha e"
  by (simp add: ledger_event_hash_def)

lemma build_event_hash [simp]:
  "le_event_hash (build_event sha rq L) = ledger_event_hash sha (build_event sha rq L)"
proof -
  have "\<exists>e. build_event sha rq L = e\<lparr>le_event_hash := ledger_event_hash sha e\<rparr>"
    unfolding build_event_def Let_def by (rule exI, rule refl)
  then show ?thesis by (elim exE) simp
qed

lemma build_event_id [simp]:
  "le_event_id (build_event sha rq L) = ledger_event_id sha (rq_event_type rq) (rq_task_id rq)
     (rq_attempt_id rq) (rq_candidate_id rq) (rq_metadata rq)"
  by (simp add: build_event_def Let_def)

lemma append_event_appends:
  "lg_events (snd (append_event sha rq L)) = lg_events L \<or>
     (\<exists>e. lg_events (snd (append_event sha rq L)) = lg_events L @ [e] \<and>
          le_prev_event_hash e = chain_head le_event_hash zero_hash (lg_events L) \<and>
          le_event_hash e = ledger_event_hash sha e)"
  by (rule append_event_cases [of sha rq L]) simp_all

text \<open>Every operation is an append to a ledger that differs at most in its winner table.\<close>

lemma ledger_step_append:
  "\<exists>rq w. snd (ledger_step sha opn L) = L \<or>
     snd (ledger_step sha opn L) = snd (append_event sha rq (L\<lparr>lg_winner := w\<rparr>))"
proof (cases opn)
  case (Append rq)
  have "snd (ledger_step sha opn L) = snd (append_event sha rq (L\<lparr>lg_winner := lg_winner L\<rparr>))"
    using Append by simp
  then show ?thesis by blast
next
  case (Promote t a c p)
  then show ?thesis by (auto simp: promote_winner_def Let_def)
next
  case (Seal t a p)
  show ?thesis
  proof (cases "map_of (lg_winner L) (t, a)")
    case None
    with Seal show ?thesis by (simp add: seal_delivery_def)
  next
    case (Some c)
    with Seal have "snd (ledger_step sha opn L) =
        snd (append_event sha (plain_request ''DELIVERY_SEALED'' t a c p) (L\<lparr>lg_winner := lg_winner L\<rparr>))"
      by (simp add: seal_delivery_def)
    then show ?thesis by blast
  qed
qed

interpretation delivery: append_log le_prev_event_hash le_event_hash "ledger_event_hash sha" zero_hash
    lg_events "ledger_steps sha" for sha
proof
  fix L M
  assume "ledger_steps sha L M"
  then obtain opn where M: "M = snd (ledger_step sha opn L)" by (auto simp: ledger_steps_def)
  obtain rq w where "M = L \<or> M = snd (append_event sha rq (L\<lparr>lg_winner := w\<rparr>))"
    using ledger_step_append M by blast
  then show "lg_events M = lg_events L \<or>
      (\<exists>e. lg_events M = lg_events L @ [e] \<and>
           le_prev_event_hash e = chain_head le_event_hash zero_hash (lg_events L) \<and>
           le_event_hash e = ledger_event_hash sha e)"
  proof
    assume "M = snd (append_event sha rq (L\<lparr>lg_winner := w\<rparr>))"
    moreover have "lg_events (L\<lparr>lg_winner := w\<rparr>) = lg_events L" by simp
    ultimately show ?thesis
      using append_event_appends [of sha rq "L\<lparr>lg_winner := w\<rparr>"] by simp
  qed simp
qed

lemma ledger_run_steps: "(ledger_steps sha)\<^sup>*\<^sup>* L (ledger_run sha ops L)"
proof (induction ops arbitrary: L)
  case (Cons opn ops)
  have "ledger_steps sha L (snd (ledger_step sha opn L))" by (auto simp: ledger_steps_def)
  with Cons show ?case
    by (simp add: ledger_run_def) (meson converse_rtranclp_into_rtranclp)
qed (simp add: ledger_run_def)

section \<open>Well-formed ledgers\<close>

definition sequenced :: "ledger_event list \<Rightarrow> bool" where
  "sequenced es \<longleftrightarrow> map le_sequence es = map int [0..<length es]"

definition ledger_wf :: "(bytes \<Rightarrow> bytes) \<Rightarrow> ledger \<Rightarrow> bool" where
  "ledger_wf sha L \<longleftrightarrow>
     sequenced (lg_events L) \<and>
     chained le_prev_event_hash le_event_hash (ledger_event_hash sha) zero_hash (lg_events L) \<and>
     lg_by_id L = map (\<lambda>e. (le_event_id e, e)) (lg_events L) \<and>
     distinct (map le_event_id (lg_events L)) \<and>
     (\<forall>e \<in> set (lg_events L). check_metadata (le_metadata e))"

lemma ledger_wf_new: "new_ledger repo = Inr L \<Longrightarrow> ledger_wf sha L"
  by (auto simp: new_ledger_def ledger_wf_def sequenced_def split: if_splits)

lemma ledger_wf_winner [simp]: "ledger_wf sha (L\<lparr>lg_winner := w\<rparr>) = ledger_wf sha L"
  by (simp add: ledger_wf_def)

lemma append_event_wf: "ledger_wf sha L \<Longrightarrow> ledger_wf sha (snd (append_event sha rq L))"
proof (rule append_event_cases [of sha rq L])
  assume wf: "ledger_wf sha L"
    and new: "snd (append_event sha rq L) =
        L\<lparr>lg_events := lg_events L @ [build_event sha rq L],
          lg_by_id := dput (le_event_id (build_event sha rq L)) (build_event sha rq L) (lg_by_id L)\<rparr>"
    and fresh: "map_of (lg_by_id L) (le_event_id (build_event sha rq L)) = None"
    and md: "check_metadata (rq_metadata rq)"
  from wf have ids: "keys (lg_by_id L) = map le_event_id (lg_events L)"
    by (simp add: ledger_wf_def comp_def)
  with fresh have "le_event_id (build_event sha rq L) \<notin> set (map le_event_id (lg_events L))"
    by (metis map_of_None_keys)
  moreover from this have "dput (le_event_id (build_event sha rq L)) (build_event sha rq L) (lg_by_id L) =
      lg_by_id L @ [(le_event_id (build_event sha rq L), build_event sha rq L)]"
    by (intro dput_new) (simp only: ids not_False_eq_True)
  ultimately show ?thesis
    using wf new md by (auto simp: ledger_wf_def sequenced_def)
qed simp

lemma ledger_step_wf: "ledger_wf sha L \<Longrightarrow> ledger_wf sha (snd (ledger_step sha opn L))"
  using ledger_step_append [of sha opn L] append_event_wf ledger_wf_winner by metis

lemma ledger_run_wf: "ledger_wf sha L \<Longrightarrow> ledger_wf sha (ledger_run sha ops L)"
  unfolding ledger_run_def by (induction ops arbitrary: L) (simp_all add: ledger_step_wf)

text \<open>The verification loop finds no invalid sequence exactly on a sequenced, valid chain.\<close>

lemma verify_loop_chained:
  "fst (verify_loop sha n h es) = [] \<longleftrightarrow>
     map le_sequence es = map int [n..<n + length es] \<and>
     chained le_prev_event_hash le_event_hash (ledger_event_hash sha) h es"
proof (induction es arbitrary: n h)
  case (Cons e es)
  have "[n..<n + length (e # es)] = n # [Suc n..<Suc n + length es]"
    by (simp add: upt_rec)
  with Cons [of "Suc n" "le_event_hash e"] show ?case
    by (auto simp: Let_def split: prod.splits)
qed simp

lemma verify_loop_head: "snd (verify_loop sha n h es) = chain_head le_event_hash h es"
  by (induction es arbitrary: n h) (simp_all add: Let_def split_beta)

lemma verify_all_valid:
  "vf_valid (verify_all sha L) \<longleftrightarrow>
     sequenced (lg_events L) \<and>
     chained le_prev_event_hash le_event_hash (ledger_event_hash sha) zero_hash (lg_events L)"
  using verify_loop_chained [of sha 0 zero_hash "lg_events L"]
  by (auto simp: verify_all_def sequenced_def split: prod.splits)

lemma verify_all_head: "vf_head (verify_all sha L) = chain_head le_event_hash zero_hash (lg_events L)"
  using verify_loop_head [of sha 0 zero_hash "lg_events L"]
  by (auto simp: verify_all_def split: prod.splits)

section \<open>Properties\<close>

definition ledger_collision_free :: "(bytes \<Rightarrow> bytes) \<Rightarrow> ledger_event set \<Rightarrow> bool" where
  "ledger_collision_free sha es \<longleftrightarrow> inj_on sha (event_hash_input ` es)"

lemma wf_material: "wf_json (JObj (le_metadata e)) \<Longrightarrow> wf_json (material e)"
  by (auto simp: material_def material_fields_def)

lemma material_norm_eqD:
  assumes "wf_json (JObj (le_metadata a))" "wf_json (JObj (le_metadata b))"
    and "norm_json (material a) = norm_json (material b)"
  shows "le_prev_event_hash a = le_prev_event_hash b" "le_sequence a = le_sequence b"
proof -
  have "map_option norm_json (jget (material a) k) = map_option norm_json (jget (material b) k)" for k
    using jget_norm_eqD [OF wf_material [OF assms(1)] wf_material [OF assms(2)] assms(3)] .
  from this [of "''prev_event_hash''"] this [of "''sequence''"]
  show "le_prev_event_hash a = le_prev_event_hash b" "le_sequence a = le_sequence b"
    by (simp_all add: material_def material_fields_def)
qed

lemma ledger_event_hash_eqD:
  assumes "ledger_collision_free sha es" "a \<in> es" "b \<in> es"
    and "wf_json (JObj (le_metadata a))" "wf_json (JObj (le_metadata b))"
    and "ledger_event_hash sha a = ledger_event_hash sha b"
  shows "norm_json (material a) = norm_json (material b)"
proof -
  from assms have "event_hash_input a = event_hash_input b"
    by (auto simp: ledger_collision_free_def ledger_event_hash_def hexdigest_def dest: hex_inj inj_onD)
  then have "canonical (material a) = canonical (material b)"
    by (simp add: event_hash_input_def)
  with assms(4,5) show ?thesis
    by (intro canonical_inj wf_material)
qed

lemma sequenced_last: "sequenced es \<Longrightarrow> es \<noteq> [] \<Longrightarrow> le_sequence (last es) = int (length es) - 1"
proof -
  assume s: "sequenced es" and "es \<noteq> []"
  then have "le_sequence (last es) = last (map int [0..<length es])"
    by (metis last_map sequenced_def)
  with \<open>es \<noteq> []\<close> show ?thesis by (simp add: last_map last_upt of_nat_diff Suc_leI)
qed

text \<open>C2: Every ledger the public operations can produce verifies: after any sequence of appends,
  promotions and seals on a new ledger, successful or rejected, \<open>verify_all\<close> answers valid with no
  invalid sequence, no two events share an id, and no stored event carries secret-like metadata.\<close>

theorem ledger_always_verifies:
  assumes "new_ledger repository = Inr L"
  shows "vf_valid (verify_all sha (ledger_run sha ops L)) \<and>
    vf_invalid_sequences (verify_all sha (ledger_run sha ops L)) = [] \<and>
    distinct (map le_event_id (lg_events (ledger_run sha ops L))) \<and>
    (\<forall>e \<in> set (lg_events (ledger_run sha ops L)). \<not> secret_walk [] (JObj (le_metadata e)))"
proof -
  have "ledger_wf sha (ledger_run sha ops L)"
    using assms by (intro ledger_run_wf ledger_wf_new)
  moreover from this have "vf_valid (verify_all sha (ledger_run sha ops L))"
    by (simp add: verify_all_valid ledger_wf_def)
  moreover from this have "vf_invalid_sequences (verify_all sha (ledger_run sha ops L)) = []"
    by (auto simp: verify_all_def split: prod.splits)
  ultimately show ?thesis by (simp add: ledger_wf_def check_metadata_def)
qed

theorem ledger_always_verifies_witness:
  "\<exists>L. new_ledger ''repo'' = Inr L \<and>
     vf_valid (verify_all id (ledger_run id [Promote ''t'' ''a'' ''c'' ''p'', Seal ''t'' ''a'' ''p''] L))"
proof -
  obtain L where "new_ledger ''repo'' = Inr L" by (simp add: new_ledger_def)
  then show ?thesis using ledger_always_verifies [of "''repo''" L id] by blast
qed

text \<open>C7: The head of a verified ledger pins its whole history: two non-empty ledgers that both
  verify and have the same head hash hold, event by event, the same hashed contents, as long as the
  digest has no collision among their events.\<close>

theorem ledger_head_pins_history:
  assumes "vf_valid (verify_all sha L)" "vf_valid (verify_all sha M)"
    and "vf_head (verify_all sha L) = vf_head (verify_all sha M)"
    and "lg_events L \<noteq> []" "lg_events M \<noteq> []"
    and wf: "\<forall>e \<in> set (lg_events L) \<union> set (lg_events M). wf_json (JObj (le_metadata e))"
    and "ledger_collision_free sha (set (lg_events L) \<union> set (lg_events M))"
  shows "map (norm_json \<circ> material) (lg_events L) = map (norm_json \<circ> material) (lg_events M)"
proof -
  let ?chain = "chained le_prev_event_hash le_event_hash (ledger_event_hash sha) zero_hash"
  have chains: "?chain (lg_events L)" "?chain (lg_events M)"
    and seqs: "sequenced (lg_events L)" "sequenced (lg_events M)"
    using assms(1,2) by (simp_all add: verify_all_valid)
  have eqD: "norm_json (material a) = norm_json (material b)"
    if "a \<in> set (lg_events L)" "b \<in> set (lg_events M)" "ledger_event_hash sha a = ledger_event_hash sha b" for a b
    using that wf by (intro ledger_event_hash_eqD [OF assms(7)]) auto
  have heads: "chain_head le_event_hash zero_hash (lg_events L) = chain_head le_event_hash zero_hash (lg_events M)"
    using assms(3) by (simp add: verify_all_head)
  let ?a = "last (lg_events L)" and ?b = "last (lg_events M)"
  have "le_event_hash ?a = ledger_event_hash sha ?a" "le_event_hash ?b = ledger_event_hash sha ?b"
    by (rule chained_mem [OF chains(1)], simp add: assms(4), rule chained_mem [OF chains(2)], simp add: assms(5))
  then have "ledger_event_hash sha ?a = ledger_event_hash sha ?b"
    using heads assms(4,5) by (simp only: chain_head_last if_False)
  then have "le_sequence ?a = le_sequence ?b"
    using eqD [of ?a ?b] wf assms(4,5) by (intro material_norm_eqD(2)) auto
  then have "length (lg_events L) = length (lg_events M)"
    using seqs assms(4,5) by (simp add: sequenced_last)
  moreover have "(norm_json \<circ> material) e = (norm_json \<circ> material) f \<and> le_prev_event_hash e = le_prev_event_hash f"
    if "e \<in> set (lg_events L)" "f \<in> set (lg_events M)" "ledger_event_hash sha e = ledger_event_hash sha f" for e f
  proof -
    have "wf_json (JObj (le_metadata e))" "wf_json (JObj (le_metadata f))"
      using wf that(1,2) by blast+
    from material_norm_eqD(1) [OF this eqD [OF that]] eqD [OF that] show ?thesis
      by (simp only: comp_apply simp_thms)
  qed
  ultimately show ?thesis
    using chained_pinned [OF chains _ heads] by blast
qed

lemma promote_on_new:
  assumes "new_ledger repository = Inr L" "t \<noteq> []" "a \<noteq> []" "p \<noteq> []"
  shows "\<exists>e. le_metadata e = [] \<and> lg_events (ledger_run sha [Promote t a c p] L) = [e]"
proof -
  have L: "lg_events L = []" "lg_by_id L = []" "lg_winner L = []"
    using assms(1) by (auto simp: new_ledger_def split: if_splits)
  have "''WINNER_PROMOTED'' \<in> set LEDGER_EVENT_TYPES" by (simp add: LEDGER_EVENT_TYPES_def)
  moreover have "check_metadata []" by (simp add: check_metadata_def secret_key_def lower_def)
  ultimately show ?thesis using L assms
    by (auto simp: ledger_run_def promote_winner_def append_event_def plain_request_def Let_def)
qed

theorem ledger_head_pins_history_witness:
  "\<exists>(L :: ledger) (M :: ledger). lg_winner L \<noteq> lg_winner M \<and> lg_events L \<noteq> [] \<and>
     map (norm_json \<circ> material) (lg_events L) = map (norm_json \<circ> material) (lg_events M)"
proof -
  obtain K where K: "new_ledger ''repo'' = Inr K" by (simp add: new_ledger_def)
  let ?L = "ledger_run id [Promote ''t'' ''a'' ''c'' ''p''] K"
  let ?M = "?L\<lparr>lg_winner := []\<rparr>"
  obtain e where e: "le_metadata e = []" "lg_events ?L = [e]"
    using promote_on_new [OF K] by blast
  have valid: "vf_valid (verify_all id ?L)" using ledger_always_verifies [OF K] by blast
  have same: "verify_all id ?M = verify_all id ?L" by (simp add: verify_all_def)
  have "map (norm_json \<circ> material) (lg_events ?L) = map (norm_json \<circ> material) (lg_events ?M)"
    by (rule ledger_head_pins_history [where sha = id]) (use valid same e in \<open>simp_all add: ledger_collision_free_def\<close>)
  moreover have "lg_winner ?L \<noteq> []"
    using K by (auto simp: new_ledger_def ledger_run_def promote_winner_def dput_def)
  ultimately have "lg_winner ?L \<noteq> lg_winner ?M \<and> lg_events ?L \<noteq> [] \<and>
      map (norm_json \<circ> material) (lg_events ?L) = map (norm_json \<circ> material) (lg_events ?M)"
    using e by simp
  then show ?thesis by blast
qed

lemma ledger_step_winner:
  "map_of (lg_winner L) key = Some c \<Longrightarrow> map_of (lg_winner (snd (ledger_step sha opn L))) key = Some c"
  by (cases opn) (auto simp: promote_winner_def seal_delivery_def Let_def dict_simps split: option.splits)

lemma ledger_run_winner:
  "map_of (lg_winner L) key = Some c \<Longrightarrow> map_of (lg_winner (ledger_run sha ops L)) key = Some c"
  unfolding ledger_run_def by (induction ops arbitrary: L) (simp_all add: ledger_step_winner)

text \<open>C10: The winner of an attempt is decided once: after a candidate is recorded, no later operation
  replaces it, and promoting another candidate raises \<open>winner_fence\<close> and leaves the ledger alone.\<close>

theorem winner_is_fenced:
  assumes "map_of (lg_winner L) (t, a) = Some c"
  shows "map_of (lg_winner (ledger_run sha ops L)) (t, a) = Some c \<and>
    (d \<noteq> c \<longrightarrow> promote_winner sha t a d p (ledger_run sha ops L) = (Inl Winner_fence, ledger_run sha ops L))"
  using ledger_run_winner [OF assms] by (simp add: promote_winner_def)

theorem winner_is_fenced_witness:
  "\<exists>L. map_of (lg_winner L) (''t'', ''a'') = Some ''c'' \<and>
     promote_winner id ''t'' ''a'' ''d'' ''p'' (ledger_run id [] L) = (Inl Winner_fence, ledger_run id [] L)"
proof -
  let ?L = "\<lparr>lg_repository = ''r'', lg_events = [], lg_by_id = [], lg_winner = [((''t'', ''a''), ''c'')]\<rparr>"
  have "map_of (lg_winner ?L) (''t'', ''a'') = Some ''c''" by simp
  from this winner_is_fenced [OF this, of id "[]" "''d''"] show ?thesis
    by (intro exI [of _ ?L]) simp
qed

text \<open>Appending is idempotent on the event identity: once an event is accepted, any accepted-shape
  request with the same type, task, attempt, candidate and metadata returns that first event and
  leaves the ledger unchanged, also when its payload digest, artifacts, producer or generations differ.\<close>

theorem append_returns_the_first_event:
  assumes "append_event sha rq L = (Inr e, M)"
    and "rq_event_type rq' = rq_event_type rq" "rq_task_id rq' = rq_task_id rq"
        "rq_attempt_id rq' = rq_attempt_id rq" "rq_candidate_id rq' = rq_candidate_id rq"
        "rq_metadata rq' = rq_metadata rq"
    and "rq_producer rq' \<noteq> []" "list_all is_digest (rq_artifact_digests rq')"
        "\<forall>d. rq_payload_digest rq' = Some d \<longrightarrow> is_digest d"
  shows "append_event sha rq' M = (Inr e, M)"
proof -
  from assms(1) have ok: "rq_event_type rq \<in> set LEDGER_EVENT_TYPES" "rq_task_id rq \<noteq> []"
      "rq_attempt_id rq \<noteq> []" "check_metadata (rq_metadata rq)"
    by (auto simp: append_event_def split: if_splits)
  have stored: "map_of (lg_by_id M) (le_event_id (build_event sha rq L)) = Some e \<and>
      le_event_type e = rq_event_type rq \<and>
      norm_json (JObj (le_metadata e)) = norm_json (JObj (rq_metadata rq))"
    using assms(1)
    by (auto simp: append_event_def Let_def dict_simps simp del: build_event_id split: if_splits option.splits)
  moreover have "le_event_id (build_event sha rq' M) = le_event_id (build_event sha rq L)"
    using assms(2-6) by simp
  ultimately show ?thesis
    using ok assms(2-9) by (simp add: append_event_def Let_def split: option.splits)
qed

text \<open>A promotion that raises still decides the winner: when \<open>promote_winner\<close> is called with an empty
  producer on a new ledger it raises and records no event, yet the attempt is fenced against every other
  candidate and can be sealed, so the ledger seals a delivery that has no promotion event.\<close>

theorem rejected_promotion_fences_the_attempt:
  assumes "new_ledger repository = Inr L" "t \<noteq> []" "a \<noteq> []" "p \<noteq> []" "d \<noteq> c"
    and "promote_winner sha t a c [] L = (r, M)"
  shows "r = Inl Required_missing \<and> lg_events M = [] \<and>
    promote_winner sha t a d p M = (Inl Winner_fence, M) \<and>
    (\<exists>e. fst (seal_delivery sha t a p M) = Inr e \<and>
         map le_event_type (lg_events (snd (seal_delivery sha t a p M))) = [''DELIVERY_SEALED''])"
proof -
  have L: "lg_events L = []" "lg_by_id L = []" "lg_winner L = []"
    using assms(1) by (auto simp: new_ledger_def split: if_splits)
  have types: "''WINNER_PROMOTED'' \<in> set LEDGER_EVENT_TYPES" "''DELIVERY_SEALED'' \<in> set LEDGER_EVENT_TYPES"
    by (simp_all add: LEDGER_EVENT_TYPES_def)
  have M: "r = Inl Required_missing" "M = L\<lparr>lg_winner := [((t, a), c)]\<rparr>"
    using assms(6) L types
    by (auto simp: promote_winner_def append_event_def plain_request_def dput_def)
  have "check_metadata []" by (simp add: check_metadata_def secret_key_def lower_def)
  with M L types assms(2-5) show ?thesis
    by (auto simp: promote_winner_def seal_delivery_def append_event_def plain_request_def Let_def)
qed


theorem append_returns_the_first_event_witness:
  "\<exists>L e M rq rq'. append_event id rq L = (Inr e, M) \<and> rq_payload_digest rq' \<noteq> rq_payload_digest rq \<and>
     append_event id rq' M = (Inr e, M)"
proof -
  obtain L where L: "new_ledger ''repo'' = Inr L" by (simp add: new_ledger_def)
  let ?rq = "plain_request ''HELD'' ''t'' ''a'' ''c'' ''p''"
  let ?rq' = "?rq\<lparr>rq_payload_digest := Some zero_hash\<rparr>"
  have "''HELD'' \<in> set LEDGER_EVENT_TYPES" by (simp add: LEDGER_EVENT_TYPES_def)
  moreover have "check_metadata []" by (simp add: check_metadata_def secret_key_def lower_def)
  ultimately obtain e M where "append_event id ?rq L = (Inr e, M)"
    using L by (auto simp: new_ledger_def append_event_def plain_request_def Let_def)
  moreover from append_returns_the_first_event [OF this, of ?rq']
  have "append_event id ?rq' M = (Inr e, M)" by (simp add: plain_request_def is_digest_zero_hash)
  moreover have "rq_payload_digest ?rq' \<noteq> rq_payload_digest ?rq" by (simp add: plain_request_def)
  ultimately show ?thesis by blast
qed

theorem rejected_promotion_fences_the_attempt_witness:
  "\<exists>L M. new_ledger ''repo'' = Inr L \<and> promote_winner id ''t'' ''a'' ''c'' [] L = (Inl Required_missing, M) \<and>
     promote_winner id ''t'' ''a'' ''d'' ''p'' M = (Inl Winner_fence, M)"
proof -
  obtain L where L: "new_ledger ''repo'' = Inr L" by (simp add: new_ledger_def)
  obtain r M where rM: "promote_winner id ''t'' ''a'' ''c'' [] L = (r, M)" by fastforce
  from rejected_promotion_fences_the_attempt [OF L _ _ _ _ rM, of "''p''" "''d''"] L rM
  show ?thesis by auto
qed


end
