(* ===== verification/LedgerStore.thy ===== *)
theory LedgerStore
  imports Ledger
begin

text \<open>
  \<open>simplicio_fast/ledger_store.py\<close>: the body file (HBP) and the offset index (HBI) of the delivery
  ledger, byte by byte: appending a record, reading one back through the index, and recovering
  after a crash.  A file is an optional byte string, \<open>None\<close> when it does not exist; the writer lock
  makes each operation atomic with respect to other writers, and offsets and sequences are below
  \<open>2 ^ 64\<close>, as file sizes are.  \<open>verify\<close> and its conversion of arbitrary JSON into an event are
  not modelled.
\<close>

section \<open>Layout\<close>

definition HBP_MAGIC :: bytes where "HBP_MAGIC = encode ''SFASTHBP1''"
definition HBI_MAGIC :: bytes where "HBI_MAGIC = encode ''SFASTHBI1''"

definition file_header :: "bytes \<Rightarrow> bytes" where
  "file_header magic = magic @ be_bytes 4 1"

definition header_size :: nat where "header_size = 13"
definition record_header_size :: nat where "record_header_size = 12"
definition index_entry_size :: nat where "index_entry_size = 52"

lemmas store_sizes = header_size_def record_header_size_def index_entry_size_def

definition MAX_RECORD_BYTES :: nat where "MAX_RECORD_BYTES = 16 * 1024 * 1024"

definition pack_record_header :: "nat \<Rightarrow> nat \<Rightarrow> bytes" where
  "pack_record_header sequence len = be_bytes 8 sequence @ be_bytes 4 len"

definition pack_index_entry :: "nat \<Rightarrow> nat \<Rightarrow> nat \<Rightarrow> bytes \<Rightarrow> bytes" where
  "pack_index_entry sequence offset len digest =
     be_bytes 8 sequence @ be_bytes 8 offset @ be_bytes 4 len @ digest"

definition unpack_record_header :: "bytes \<Rightarrow> nat \<times> nat" where
  "unpack_record_header b = (be_nat (slice 0 8 b), be_nat (slice 8 12 b))"

definition unpack_index_entry :: "bytes \<Rightarrow> nat \<times> nat \<times> nat \<times> bytes" where
  "unpack_index_entry b =
     (be_nat (slice 0 8 b), be_nat (slice 8 16 b), be_nat (slice 16 20 b), slice 20 52 b)"

datatype store_error =
    Record_too_large
  | Invalid_header
  | Partial_index
  | Sequence_mismatch
  | Missing_store
  | Index_mismatch
  | Body_out_of_bounds
  | Payload_digest_mismatch
  | Invalid_record
  | Invalid_sequence
  | Missing_index
  | Index_out_of_bounds
  | Missing_body

record ledger_store =
  st_hbp :: "bytes option"
  st_hbi :: "bytes option"

section \<open>Appending\<close>

definition store_payload :: "ledger_event \<Rightarrow> store_error + bytes" where
  "store_payload e =
     (let payload = canonical (ledger_record e)
      in if length payload > MAX_RECORD_BYTES then Inl Record_too_large else Inr payload)"

text \<open>The file after \<open>_ensure_header\<close>, \<open>None\<close> when it raises.\<close>

definition ensure_store_header :: "bytes \<Rightarrow> bytes \<Rightarrow> bytes option" where
  "ensure_store_header magic file =
     (if file = [] then Some (file_header magic)
      else if take header_size file \<noteq> file_header magic then None else Some file)"

record append_receipt =
  ar_sequence :: int
  ar_offset :: nat
  ar_length :: nat
  ar_payload_sha256 :: string

definition append_record ::
  "(bytes \<Rightarrow> bytes) \<Rightarrow> ledger_event \<Rightarrow> ledger_store \<Rightarrow> (store_error + append_receipt) \<times> ledger_store" where
  "append_record sha e S =
     (case store_payload e of
        Inl err \<Rightarrow> (Inl err, S)
      | Inr payload \<Rightarrow>
          (let hbp = case_option [] id (st_hbp S); hbi = case_option [] id (st_hbi S) in
           case ensure_store_header HBP_MAGIC hbp of
             None \<Rightarrow> (Inl Invalid_header, \<lparr>st_hbp = Some hbp, st_hbi = Some hbi\<rparr>)
           | Some hbp1 \<Rightarrow>
               (case ensure_store_header HBI_MAGIC hbi of
                  None \<Rightarrow> (Inl Invalid_header, \<lparr>st_hbp = Some hbp1, st_hbi = Some hbi\<rparr>)
                | Some hbi1 \<Rightarrow>
                    (let index_size = length hbi1 - header_size;
                         opened = \<lparr>st_hbp = Some hbp1, st_hbi = Some hbi1\<rparr> in
                     if index_size mod index_entry_size \<noteq> 0 then (Inl Partial_index, opened)
                     else if le_sequence e \<noteq> int (index_size div index_entry_size)
                       then (Inl Sequence_mismatch, opened)
                     else
                       (let sequence = nat (le_sequence e); offset = length hbp1; digest = sha payload in
                        (Inr \<lparr>ar_sequence = le_sequence e, ar_offset = offset + record_header_size,
                              ar_length = length payload, ar_payload_sha256 = hex digest\<rparr>,
                         \<lparr>st_hbp = Some (hbp1 @ pack_record_header sequence (length payload) @ payload),
                          st_hbi = Some (hbi1 @ pack_index_entry sequence offset (length payload) digest)\<rparr>))))))"

section \<open>Reading\<close>

text \<open>What \<open>read_record\<close> and \<open>recover_tail\<close> check of one record of the body.\<close>

definition load_record ::
  "(bytes \<Rightarrow> bytes) \<Rightarrow> bytes \<Rightarrow> nat \<Rightarrow> nat \<Rightarrow> nat \<Rightarrow> bytes \<Rightarrow> store_error + json" where
  "load_record sha hbp sequence offset len digest =
     (if offset < header_size \<or> offset + record_header_size + len > length hbp
      then Inl Body_out_of_bounds
      else
        (let (record_sequence, record_length) = unpack_record_header (drop offset hbp);
             payload_start = offset + record_header_size;
             payload = slice payload_start (payload_start + record_length) hbp in
         if record_sequence \<noteq> sequence \<or> record_length \<noteq> len \<or> sha payload \<noteq> digest
         then Inl Payload_digest_mismatch
         else
           (case loads (decode payload) of
              Some (JObj kvs) \<Rightarrow> Inr (JObj kvs)
            | _ \<Rightarrow> Inl Invalid_record)))"

definition index_entry :: "int \<Rightarrow> ledger_store \<Rightarrow> store_error + (nat \<times> nat \<times> nat \<times> bytes)" where
  "index_entry sequence S =
     (if sequence < 0 then Inl Invalid_sequence
      else
        (case st_hbi S of
           None \<Rightarrow> Inl Missing_index
         | Some raw \<Rightarrow>
             (let body = drop header_size raw;
                  start = nat sequence * index_entry_size; stop = start + index_entry_size in
              if take header_size raw \<noteq> file_header HBI_MAGIC then Inl Invalid_header
              else if length body mod index_entry_size \<noteq> 0 then Inl Partial_index
              else if stop > length body then Inl Index_out_of_bounds
              else Inr (unpack_index_entry (slice start stop body)))))"

definition read_record :: "(bytes \<Rightarrow> bytes) \<Rightarrow> int \<Rightarrow> ledger_store \<Rightarrow> store_error + json" where
  "read_record sha sequence S =
     (case index_entry sequence S of
        Inl err \<Rightarrow> Inl err
      | Inr (indexed_sequence, offset, len, digest) \<Rightarrow>
          if int indexed_sequence \<noteq> sequence \<or> len > MAX_RECORD_BYTES then Inl Index_mismatch
          else
            (case st_hbp S of
               None \<Rightarrow> Inl Missing_body
             | Some data \<Rightarrow>
                 if take header_size data \<noteq> file_header HBP_MAGIC then Inl Invalid_header
                 else load_record sha data indexed_sequence offset len digest))"

section \<open>Recovering\<close>

text \<open>
  The loop over the index: the number of valid events, the end of the last valid record and the
  reason that stopped it.
\<close>

fun recover_loop ::
  "(bytes \<Rightarrow> bytes) \<Rightarrow> bytes \<Rightarrow> bytes \<Rightarrow> nat \<Rightarrow> nat \<Rightarrow> nat \<Rightarrow>
     store_error + (nat \<times> nat \<times> store_error option)" where
  "recover_loop sha hbp hbi 0 sequence valid_hbp_end = Inr (sequence, valid_hbp_end, None)"
| "recover_loop sha hbp hbi (Suc n) sequence valid_hbp_end =
     (let start = header_size + sequence * index_entry_size;
          (indexed_sequence, offset, len, digest) =
            unpack_index_entry (slice start (start + index_entry_size) hbi) in
      if indexed_sequence \<noteq> sequence \<or> len > MAX_RECORD_BYTES \<or> offset \<noteq> valid_hbp_end
      then Inl Index_mismatch
      else
        (case load_record sha hbp sequence offset len digest of
           Inl err \<Rightarrow>
             if err \<noteq> Body_out_of_bounds then Inl err
             else Inr (sequence, valid_hbp_end, Some Body_out_of_bounds)
         | Inr _ \<Rightarrow>
             recover_loop sha hbp hbi n (Suc sequence) (offset + record_header_size + len)))"

datatype recovery_reason = Stopped store_error | Orphan_hbp_tail | Already_consistent

record store_recovery =
  sr_recovered :: bool
  sr_events :: nat
  sr_truncated_hbp :: nat
  sr_truncated_hbi :: nat
  sr_reason :: recovery_reason

definition recover_tail ::
  "(bytes \<Rightarrow> bytes) \<Rightarrow> ledger_store \<Rightarrow> (store_error + store_recovery) \<times> ledger_store" where
  "recover_tail sha S =
     (case (st_hbp S, st_hbi S) of
        (Some hbp, Some hbi) \<Rightarrow>
          if take header_size hbp \<noteq> file_header HBP_MAGIC \<or> take header_size hbi \<noteq> file_header HBI_MAGIC
          then (Inl Invalid_header, S)
          else
            (let index_length = length hbi - header_size; entries = index_length div index_entry_size in
             case recover_loop sha hbp hbi entries 0 header_size of
               Inl err \<Rightarrow> (Inl err, S)
             | Inr (valid_events, valid_hbp_end, stopped) \<Rightarrow>
                 (let reason =
                        (case stopped of
                           Some r \<Rightarrow> Some (Stopped r)
                         | None \<Rightarrow> if entries * index_entry_size < index_length then Some (Stopped Partial_index)
                                   else None);
                      target_hbi = header_size + valid_events * index_entry_size;
                      cut_hbi = length hbi - target_hbi;
                      cut_hbp = length hbp - valid_hbp_end;
                      T = (if cut_hbi > 0 \<or> cut_hbp > 0
                           then \<lparr>st_hbp = Some (take valid_hbp_end hbp), st_hbi = Some (take target_hbi hbi)\<rparr>
                           else S);
                      reason' = (if reason = None \<and> cut_hbp > 0 then Some Orphan_hbp_tail else reason)
                  in (Inr \<lparr>sr_recovered = (cut_hbi > 0 \<or> cut_hbp > 0), sr_events = valid_events,
                           sr_truncated_hbp = cut_hbp, sr_truncated_hbi = cut_hbi,
                           sr_reason = (case reason' of None \<Rightarrow> Already_consistent | Some r \<Rightarrow> r)\<rparr>, T)))
      | _ \<Rightarrow> (Inl Missing_store, S))"

section \<open>Well-formed stores\<close>

definition record_bytes :: "nat \<Rightarrow> bytes \<Rightarrow> bytes" where
  "record_bytes n p = pack_record_header n (length p) @ p"

fun body_from :: "nat \<Rightarrow> bytes list \<Rightarrow> bytes" where
  "body_from n [] = []"
| "body_from n (p # ps) = record_bytes n p @ body_from (Suc n) ps"

fun index_from :: "(bytes \<Rightarrow> bytes) \<Rightarrow> nat \<Rightarrow> nat \<Rightarrow> bytes list \<Rightarrow> bytes" where
  "index_from sha n off [] = []"
| "index_from sha n off (p # ps) =
     pack_index_entry n off (length p) (sha p) @ index_from sha (Suc n) (off + record_header_size + length p) ps"

definition store_of :: "(bytes \<Rightarrow> bytes) \<Rightarrow> bytes list \<Rightarrow> ledger_store" where
  "store_of sha ps =
     \<lparr>st_hbp = Some (file_header HBP_MAGIC @ body_from 0 ps),
      st_hbi = Some (file_header HBI_MAGIC @ index_from sha 0 header_size ps)\<rparr>"

definition good_payload :: "bytes \<Rightarrow> bool" where
  "good_payload p \<longleftrightarrow> length p \<le> MAX_RECORD_BYTES \<and> (\<exists>kvs. loads (decode p) = Some (JObj kvs))"

text \<open>The sizes a store needs: 64-bit sequences and offsets, 32-byte digests.\<close>

definition store_fits :: "(bytes \<Rightarrow> bytes) \<Rightarrow> bytes list \<Rightarrow> bool" where
  "store_fits sha ps \<longleftrightarrow> (\<forall>p \<in> set ps. good_payload p \<and> length (sha p) = 32) \<and>
     header_size + length (body_from 0 ps) < 2 ^ 64"

lemma length_file_header [simp]:
  "length (file_header HBP_MAGIC) = header_size" "length (file_header HBI_MAGIC) = header_size"
  by (simp_all add: file_header_def HBP_MAGIC_def HBI_MAGIC_def store_sizes)

lemma length_record_bytes [simp]: "length (record_bytes n p) = record_header_size + length p"
  by (simp add: record_bytes_def pack_record_header_def store_sizes)

lemma length_index_from:
  "\<forall>p \<in> set ps. length (sha p) = 32 \<Longrightarrow> length (index_from sha n off ps) = length ps * index_entry_size"
  by (induction ps arbitrary: n off) (simp_all add: pack_index_entry_def store_sizes)

lemma length_body_from: "length ps * record_header_size \<le> length (body_from n ps)"
  by (induction ps arbitrary: n) (simp_all add: trans_le_add2)

lemma body_from_append: "body_from n (ps @ qs) = body_from n ps @ body_from (n + length ps) qs"
  by (induction ps arbitrary: n) simp_all

lemma index_from_append:
  "index_from sha n off (ps @ qs) =
     index_from sha n off ps @ index_from sha (n + length ps) (off + length (body_from n ps)) qs"
  by (induction ps arbitrary: n off) (simp_all add: algebra_simps)

lemma slice_prefix: "slice 0 (length xs) (xs @ ys) = xs"
  by (simp add: slice_def)

lemma slice_shift: "length xs = k \<Longrightarrow> slice (k + i) (k + j) (xs @ ys) = slice i j ys"
  by (auto simp: slice_def)

lemma slice_at: "length xs = i \<Longrightarrow> j = i + length ys \<Longrightarrow> slice i j (xs @ ys @ zs) = ys"
  by (simp add: slice_def)

lemma unpack_record:
  "n < 2 ^ 64 \<Longrightarrow> length p \<le> MAX_RECORD_BYTES \<Longrightarrow> unpack_record_header (record_bytes n p @ r) = (n, length p)"
proof -
  assume n: "n < 2 ^ 64" and p: "length p \<le> MAX_RECORD_BYTES"
  have "slice 0 8 (be_bytes 8 n @ be_bytes 4 (length p) @ p @ r) = be_bytes 8 n"
    using slice_at [of "[]" 0 8 "be_bytes 8 n"] by simp
  moreover have "slice 8 12 (be_bytes 8 n @ be_bytes 4 (length p) @ p @ r) = be_bytes 4 (length p)"
    by (rule slice_at) simp_all
  moreover have "be_nat (be_bytes 8 n) = n" using n by (intro be_nat_be_bytes) simp
  moreover have "be_nat (be_bytes 4 (length p)) = length p"
    using p by (intro be_nat_be_bytes) (simp add: MAX_RECORD_BYTES_def)
  ultimately show ?thesis
    by (simp add: unpack_record_header_def record_bytes_def pack_record_header_def)
qed

lemma unpack_index:
  assumes "n < 2 ^ 64" "off < 2 ^ 64" "len \<le> MAX_RECORD_BYTES" "length d = 32"
  shows "unpack_index_entry (pack_index_entry n off len d) = (n, off, len, d)"
proof -
  let ?e = "be_bytes 8 n @ be_bytes 8 off @ be_bytes 4 len @ d"
  have "slice 0 8 ?e = be_bytes 8 n" using slice_at [of "[]" 0 8 "be_bytes 8 n"] by simp
  moreover have "slice 8 16 ?e = be_bytes 8 off" by (rule slice_at) simp_all
  moreover have "slice 16 20 ?e = be_bytes 4 len"
    using slice_at [of "be_bytes 8 n @ be_bytes 8 off" 16 20 "be_bytes 4 len" d] by simp
  moreover have "slice 20 52 ?e = d"
    using slice_at [of "be_bytes 8 n @ be_bytes 8 off @ be_bytes 4 len" 20 52 d "[]"] assms(4) by simp
  moreover have "be_nat (be_bytes 8 n) = n" "be_nat (be_bytes 8 off) = off" "be_nat (be_bytes 4 len) = len"
    using assms by (auto intro!: be_nat_be_bytes simp: MAX_RECORD_BYTES_def)
  ultimately show ?thesis by (simp add: unpack_index_entry_def pack_index_entry_def)
qed

lemma load_record_at:
  assumes "n < 2 ^ 64" "good_payload p" "length pre = off" "header_size \<le> off"
  shows "load_record sha (pre @ record_bytes n p @ r) n off (length p) (sha p) = Inr (the (loads (decode p)))"
proof -
  from assms(2) obtain kvs where p: "length p \<le> MAX_RECORD_BYTES" "loads (decode p) = Some (JObj kvs)"
    by (auto simp: good_payload_def)
  have "slice (off + record_header_size) (off + record_header_size + length p) (pre @ record_bytes n p @ r) = p"
    using slice_at [of "pre @ pack_record_header n (length p)" "off + record_header_size"
        "off + record_header_size + length p" p r] assms(3)
    by (simp add: record_bytes_def pack_record_header_def store_sizes)
  with p assms unpack_record [OF assms(1) p(1), of r] show ?thesis
    by (simp add: load_record_def)
qed

lemma recover_loop_store:
  assumes "\<forall>p \<in> set ps. good_payload p \<and> length (sha p) = 32"
    and "length ipre = header_size + n * index_entry_size" "length pre = off" "header_size \<le> off"
    and "off + length (body_from n ps) < 2 ^ 64" "n + length ps < 2 ^ 64"
  shows "recover_loop sha (pre @ body_from n ps @ tail) (ipre @ index_from sha n off ps @ itail) (length ps + m) n off =
    recover_loop sha (pre @ body_from n ps @ tail) (ipre @ index_from sha n off ps @ itail) m
      (n + length ps) (off + length (body_from n ps))"
  using assms
proof (induction ps arbitrary: n off pre ipre)
  case (Cons p ps)
  let ?off = "off + record_header_size + length p"
  let ?entry = "pack_index_entry n off (length p) (sha p)"
  from Cons.prems(1) have p: "good_payload p" "length (sha p) = 32" "length p \<le> MAX_RECORD_BYTES"
    by (auto simp: good_payload_def)
  have len: "length ?entry = index_entry_size" using p(2) by (simp add: pack_index_entry_def store_sizes)
  have entry: "slice (header_size + n * index_entry_size) (header_size + n * index_entry_size + index_entry_size)
      (ipre @ ?entry @ index_from sha (Suc n) ?off ps @ itail) = ?entry"
    using Cons.prems(2) len by (intro slice_at) simp_all
  have unpack: "unpack_index_entry ?entry = (n, off, length p, sha p)"
    using Cons.prems p by (intro unpack_index) simp_all
  have load: "load_record sha (pre @ record_bytes n p @ body_from (Suc n) ps @ tail) n off (length p) (sha p) =
      Inr (the (loads (decode p)))"
    using Cons.prems p by (intro load_record_at) simp_all
  have "recover_loop sha ((pre @ record_bytes n p) @ body_from (Suc n) ps @ tail)
      ((ipre @ ?entry) @ index_from sha (Suc n) ?off ps @ itail) (length ps + m) (Suc n) ?off =
      recover_loop sha ((pre @ record_bytes n p) @ body_from (Suc n) ps @ tail)
      ((ipre @ ?entry) @ index_from sha (Suc n) ?off ps @ itail) m
      (Suc n + length ps) (?off + length (body_from (Suc n) ps))"
    using Cons.prems p len by (intro Cons.IH) simp_all
  then show ?case
    using entry unpack load p(3) by (simp add: add.assoc)
qed simp

lemma store_fits_bounds: "store_fits sha ps \<Longrightarrow> length ps < 2 ^ 64"
  using length_body_from [of ps 0] by (auto simp: store_fits_def store_sizes)

lemma recover_store:
  assumes "store_fits sha ps" "length itail < index_entry_size"
  shows "snd (recover_tail sha
      \<lparr>st_hbp = Some ((file_header HBP_MAGIC @ body_from 0 ps) @ tail),
       st_hbi = Some ((file_header HBI_MAGIC @ index_from sha 0 header_size ps) @ itail)\<rparr>) = store_of sha ps \<and>
    (\<exists>r. fst (recover_tail sha
      \<lparr>st_hbp = Some ((file_header HBP_MAGIC @ body_from 0 ps) @ tail),
       st_hbi = Some ((file_header HBI_MAGIC @ index_from sha 0 header_size ps) @ itail)\<rparr>) = Inr r \<and>
       sr_events r = length ps \<and> sr_recovered r = (tail \<noteq> [] \<or> itail \<noteq> []))"
proof -
  let ?hbp = "file_header HBP_MAGIC @ body_from 0 ps @ tail"
  let ?hbi = "file_header HBI_MAGIC @ index_from sha 0 header_size ps @ itail"
  have "recover_loop sha ?hbp ?hbi (length ps + 0) 0 header_size =
      recover_loop sha ?hbp ?hbi 0 (0 + length ps) (header_size + length (body_from 0 ps))"
    using assms store_fits_bounds [OF assms(1)]
    by (intro recover_loop_store) (simp_all add: store_fits_def)
  then have loop: "recover_loop sha ?hbp ?hbi (length ps) 0 header_size =
      Inr (length ps, header_size + length (body_from 0 ps), None)" by simp
  have len: "length (index_from sha 0 header_size ps) = length ps * index_entry_size"
    using assms(1) by (intro length_index_from) (simp add: store_fits_def)
  then have entries: "(length ?hbi - header_size) div index_entry_size = length ps"
    using assms(2) by (simp add: store_sizes)
  show ?thesis
    using loop entries len by (auto simp: recover_tail_def Let_def store_of_def)
qed

definition valid_store :: "(bytes \<Rightarrow> bytes) \<Rightarrow> ledger_store \<Rightarrow> bool" where
  "valid_store sha S \<longleftrightarrow> (\<exists>ps. store_fits sha ps \<and> S = store_of sha ps)"

definition event_fits :: "(bytes \<Rightarrow> bytes) \<Rightarrow> ledger_event \<Rightarrow> ledger_store \<Rightarrow> bool" where
  "event_fits sha e S \<longleftrightarrow> wf_json (JObj (le_metadata e)) \<and>
     length (sha (canonical (ledger_record e))) = 32 \<and>
     length (the (st_hbp S)) + record_header_size + length (canonical (ledger_record e)) < 2 ^ 64"

lemma ledger_record_loads:
  assumes "wf_json (JObj (le_metadata e))"
  shows "loads (decode (canonical (ledger_record e))) = Some (norm_json (ledger_record e))"
proof -
  have "wf_json (ledger_record e)"
    using assms by (auto simp: ledger_record_def material_fields_def)
  then show ?thesis by (simp add: canonical_def loads_dumps)
qed

lemma take_header_of:
  "take header_size (file_header HBP_MAGIC @ r) = file_header HBP_MAGIC"
  "take header_size (file_header HBI_MAGIC @ r) = file_header HBI_MAGIC"
  by simp_all

lemma ensure_store_header_of:
  "ensure_store_header HBP_MAGIC (file_header HBP_MAGIC @ r) = Some (file_header HBP_MAGIC @ r)"
  "ensure_store_header HBI_MAGIC (file_header HBI_MAGIC @ r) = Some (file_header HBI_MAGIC @ r)"
proof -
  have "file_header HBP_MAGIC \<noteq> []" "file_header HBI_MAGIC \<noteq> []"
    by (metis length_file_header(1) header_size_def list.size(3) zero_neq_numeral,
        metis length_file_header(2) header_size_def list.size(3) zero_neq_numeral)
  then show "ensure_store_header HBP_MAGIC (file_header HBP_MAGIC @ r) = Some (file_header HBP_MAGIC @ r)"
      "ensure_store_header HBI_MAGIC (file_header HBI_MAGIC @ r) = Some (file_header HBI_MAGIC @ r)"
    by (simp_all add: ensure_store_header_def take_header_of)
qed

lemma append_record_general:
  assumes "\<forall>p \<in> set ps. length (sha p) = 32" "le_sequence e = int (length ps)"
    and "length (canonical (ledger_record e)) \<le> MAX_RECORD_BYTES"
  shows "append_record sha e
      \<lparr>st_hbp = Some ((file_header HBP_MAGIC @ body_from 0 ps) @ tail),
       st_hbi = Some (file_header HBI_MAGIC @ index_from sha 0 header_size ps)\<rparr> =
    (let p = canonical (ledger_record e); off = header_size + length (body_from 0 ps) + length tail in
     (Inr \<lparr>ar_sequence = le_sequence e, ar_offset = off + record_header_size, ar_length = length p,
           ar_payload_sha256 = hex (sha p)\<rparr>,
      \<lparr>st_hbp = Some (((file_header HBP_MAGIC @ body_from 0 ps) @ tail) @ record_bytes (length ps) p),
       st_hbi = Some ((file_header HBI_MAGIC @ index_from sha 0 header_size ps) @
                  pack_index_entry (length ps) off (length p) (sha p))\<rparr>))"
  using assms
  by (simp add: append_record_def store_payload_def Let_def ensure_store_header_of length_index_from
      record_bytes_def store_sizes add.assoc)

lemma append_record_valid:
  assumes "store_fits sha ps" "event_fits sha e (store_of sha ps)" "append_record sha e (store_of sha ps) = (Inr r, T)"
  shows "T = store_of sha (ps @ [canonical (ledger_record e)]) \<and>
    store_fits sha (ps @ [canonical (ledger_record e)]) \<and> le_sequence e = int (length ps) \<and>
    length (canonical (ledger_record e)) \<le> MAX_RECORD_BYTES"
proof -
  let ?p = "canonical (ledger_record e)"
  have d: "\<forall>p \<in> set ps. length (sha p) = 32" using assms(1) by (simp add: store_fits_def)
  from assms(3) have small: "length ?p \<le> MAX_RECORD_BYTES"
    by (auto simp: append_record_def store_payload_def Let_def split: if_splits)
  from assms(3) small have seq: "le_sequence e = int (length ps)"
    by (auto simp: append_record_def store_payload_def Let_def store_of_def ensure_store_header_of
        length_index_from [OF d] store_sizes split: if_splits)
  have T: "T = store_of sha (ps @ [?p])"
    using append_record_general [OF d seq small, of "[]"] assms(3)
    by (simp add: store_of_def Let_def body_from_append index_from_append)
  have "good_payload ?p"
    using small ledger_record_loads [of e] assms(2)
    by (auto simp: good_payload_def event_fits_def ledger_record_def)
  then have "store_fits sha (ps @ [?p])"
    using assms(1,2) by (auto simp: store_fits_def event_fits_def store_of_def body_from_append)
  with T seq small show ?thesis by simp
qed

lemma read_record_store:
  assumes "store_fits sha ps" "i < length ps"
  shows "read_record sha (int i) (store_of sha ps) = Inr (the (loads (decode (ps ! i))))"
proof -
  let ?p = "ps ! i"
  let ?off = "header_size + length (body_from 0 (take i ps))"
  have split: "ps = take i ps @ ?p # drop (Suc i) ps" using assms(2) by (rule id_take_nth_drop)
  let ?q = "drop (Suc i) ps"
  have mem: "good_payload ?p" "length (sha ?p) = 32"
    using assms by (auto simp: store_fits_def)
  have lens: "\<forall>p \<in> set ps. length (sha p) = 32" using assms(1) by (simp add: store_fits_def)
  have body: "body_from 0 ps = body_from 0 (take i ps) @ record_bytes i ?p @ body_from (Suc i) ?q"
    using assms(2) by (subst split) (simp add: body_from_append min_def)
  have index: "index_from sha 0 header_size ps = index_from sha 0 header_size (take i ps) @
      pack_index_entry i ?off (length ?p) (sha ?p) @
      index_from sha (Suc i) (?off + record_header_size + length ?p) ?q"
    using assms(2) by (subst split) (simp add: index_from_append min_def)
  have bounds: "i < 2 ^ 64" "?off < 2 ^ 64" "length ?p \<le> MAX_RECORD_BYTES"
    using assms store_fits_bounds [OF assms(1)] mem(1) body by (auto simp: store_fits_def good_payload_def)
  let ?e = "pack_index_entry i ?off (length ?p) (sha ?p)"
  have elen: "length ?e = index_entry_size" using mem(2) by (simp add: pack_index_entry_def store_sizes)
  have ilen: "length (index_from sha 0 header_size (take i ps)) = i * index_entry_size"
    using lens assms(2) by (subst length_index_from) (auto dest: in_set_takeD simp: min_def)
  have "slice (i * index_entry_size) (i * index_entry_size + index_entry_size) (index_from sha 0 header_size ps) = ?e"
    unfolding index using ilen elen by (intro slice_at) simp_all
  moreover have "(i * index_entry_size + index_entry_size) \<le> length (index_from sha 0 header_size ps)"
    using lens assms(2) by (simp add: length_index_from store_sizes)
  ultimately have "index_entry (int i) (store_of sha ps) = Inr (i, ?off, length ?p, sha ?p)"
    using lens unpack_index [OF bounds mem(2)]
    by (simp add: index_entry_def store_of_def Let_def length_index_from)
  moreover have "load_record sha ((file_header HBP_MAGIC @ body_from 0 (take i ps)) @ record_bytes i ?p @
      body_from (Suc i) ?q) i ?off (length ?p) (sha ?p) = Inr (the (loads (decode ?p)))"
    using bounds mem by (intro load_record_at) simp_all
  ultimately show ?thesis
    using bounds body by (simp add: read_record_def store_of_def)
qed

lemma append_record_first:
  "append_record sha e \<lparr>st_hbp = None, st_hbi = None\<rparr> = append_record sha e (store_of sha [])
     \<or> append_record sha e \<lparr>st_hbp = None, st_hbi = None\<rparr> = (Inl Record_too_large, \<lparr>st_hbp = None, st_hbi = None\<rparr>)"
  using ensure_store_header_of [of "[]"]
  by (cases "store_payload e")
     (auto simp: append_record_def store_payload_def Let_def store_of_def ensure_store_header_def split: if_splits)

lemma append_record_empty:
  "append_record sha e \<lparr>st_hbp = None, st_hbi = None\<rparr> = (Inr r, T) \<Longrightarrow>
     append_record sha e (store_of sha []) = (Inr r, T)"
  using append_record_first [of sha e] by auto

lemma store_fits_Nil: "store_fits sha []"
  by (simp add: store_fits_def store_sizes)

text \<open>C23: A stored event reads back: appending an event to a valid store answers a valid store in which its
  own sequence reads as the event's record and every earlier sequence reads what it read before.\<close>

theorem append_record_reads_back:
  assumes "valid_store sha S" "event_fits sha e S" "append_record sha e S = (Inr r, T)"
  shows "valid_store sha T \<and> read_record sha (le_sequence e) T = Inr (norm_json (ledger_record e)) \<and>
    (\<forall>i < nat (le_sequence e). read_record sha (int i) T = read_record sha (int i) S)"
proof -
  from assms(1) obtain ps where ps: "store_fits sha ps" "S = store_of sha ps"
    by (auto simp: valid_store_def)
  let ?p = "canonical (ledger_record e)"
  from append_record_valid [OF ps(1)] assms(2,3) ps(2) have T: "T = store_of sha (ps @ [?p])"
      "store_fits sha (ps @ [?p])" "le_sequence e = int (length ps)" by auto
  have "read_record sha (int (length ps)) T = Inr (norm_json (ledger_record e))"
    using read_record_store [OF T(2), of "length ps"] T(1) ledger_record_loads [of e] assms(2)
    by (simp add: event_fits_def)
  moreover have "read_record sha (int i) T = read_record sha (int i) S" if "i < length ps" for i
    using that read_record_store [OF T(2), of i] read_record_store [OF ps(1), of i] T(1) ps(2)
    by (simp add: nth_append)
  ultimately show ?thesis using T by (auto simp: valid_store_def)
qed

text \<open>C25: A crash during an append is undone: whatever part of the new record and of its index entry reached
  the two files, recovery restores the store as it was before the append.\<close>

theorem crashed_append_recovers:
  assumes "valid_store sha S" "event_fits sha e S" "append_record sha e S = (Inr r, T)"
    and "length (the (st_hbp S)) \<le> j" "length (the (st_hbi S)) \<le> k" "k < length (the (st_hbi T))"
  shows "snd (recover_tail sha \<lparr>st_hbp = Some (take j (the (st_hbp T))), st_hbi = Some (take k (the (st_hbi T)))\<rparr>) = S"
proof -
  from assms(1) obtain ps where ps: "store_fits sha ps" "S = store_of sha ps"
    by (auto simp: valid_store_def)
  let ?p = "canonical (ledger_record e)"
  let ?off = "header_size + length (body_from 0 ps)"
  let ?entry = "pack_index_entry (length ps) ?off (length ?p) (sha ?p)"
  let ?hbp = "file_header HBP_MAGIC @ body_from 0 ps"
  let ?hbi = "file_header HBI_MAGIC @ index_from sha 0 header_size ps"
  from append_record_valid [OF ps(1)] assms(2,3) ps(2) have T: "T = store_of sha (ps @ [?p])" by auto
  have hbp: "the (st_hbp T) = ?hbp @ record_bytes (length ps) ?p"
    by (simp add: T store_of_def body_from_append)
  have hbi: "the (st_hbi T) = ?hbi @ ?entry"
    by (simp add: T store_of_def index_from_append)
  from assms(4,5) ps(2) have low: "length ?hbp \<le> j" "length ?hbi \<le> k" by (simp_all add: store_of_def)
  have "length ?entry = index_entry_size"
    using assms(2) by (simp add: event_fits_def pack_index_entry_def store_sizes)
  then have tail: "length (take (k - length ?hbi) ?entry) < index_entry_size"
    using assms(6) hbi low by (simp add: min_def)
  have "take j (the (st_hbp T)) = ?hbp @ take (j - length ?hbp) (record_bytes (length ps) ?p)"
    using hbp low by simp
  moreover have "take k (the (st_hbi T)) = ?hbi @ take (k - length ?hbi) ?entry"
    using hbi low by simp
  ultimately show ?thesis
    using recover_store [OF ps(1) tail, of "take (j - length ?hbp) (record_bytes (length ps) ?p)"] ps(2)
    by simp
qed

text \<open>Recovery has to come before the next append: when a crash left part of a record in the body and no
  index entry, the next append succeeds on top of it and its record reads back, but from then on
  \<open>recover_tail\<close> raises \<open>index_mismatch\<close>.\<close>

theorem append_over_orphan_blocks_recovery:
  assumes "valid_store sha S" "event_fits sha e S" "append_record sha e S = (Inr r, T)" "orphan \<noteq> []"
    and "length (the (st_hbp S)) + length orphan < 2 ^ 64"
  shows "\<exists>r' T'. append_record sha e (S\<lparr>st_hbp := Some (the (st_hbp S) @ orphan)\<rparr>) = (Inr r', T') \<and>
    fst (recover_tail sha T') = Inl Index_mismatch"
proof -
  from assms(1) obtain ps where ps: "store_fits sha ps" "S = store_of sha ps"
    by (auto simp: valid_store_def)
  let ?p = "canonical (ledger_record e)"
  from append_record_valid [OF ps(1)] assms(2,3) ps(2) have seq: "le_sequence e = int (length ps)"
      and small: "length ?p \<le> MAX_RECORD_BYTES" by auto
  have d: "\<forall>p \<in> set ps. length (sha p) = 32" using ps(1) by (simp add: store_fits_def)
  let ?hbp = "file_header HBP_MAGIC @ body_from 0 ps"
  let ?hbi = "file_header HBI_MAGIC @ index_from sha 0 header_size ps"
  let ?off = "header_size + length (body_from 0 ps) + length orphan"
  let ?entry = "pack_index_entry (length ps) ?off (length ?p) (sha ?p)"
  let ?hbp' = "file_header HBP_MAGIC @ body_from 0 ps @ orphan @ record_bytes (length ps) ?p"
  let ?hbi' = "file_header HBI_MAGIC @ index_from sha 0 header_size ps @ ?entry"
  have S: "S\<lparr>st_hbp := Some (the (st_hbp S) @ orphan)\<rparr> = \<lparr>st_hbp = Some (?hbp @ orphan), st_hbi = Some ?hbi\<rparr>"
    by (simp add: ps(2) store_of_def)
  obtain r' where append: "append_record sha e (S\<lparr>st_hbp := Some (the (st_hbp S) @ orphan)\<rparr>) =
      (Inr r', \<lparr>st_hbp = Some ?hbp', st_hbi = Some ?hbi'\<rparr>)"
    using append_record_general [OF d seq small, of orphan] S by (simp add: Let_def)
  have elen: "length ?entry = index_entry_size"
    using assms(2) by (simp add: event_fits_def pack_index_entry_def store_sizes)
  have ilen: "length (index_from sha 0 header_size ps) = length ps * index_entry_size"
    by (rule length_index_from) (rule d)
  have bounds: "length ps < 2 ^ 64" "?off < 2 ^ 64" "length (sha ?p) = 32"
    using store_fits_bounds [OF ps(1)] assms(2,5) ps(2) by (simp_all add: store_of_def event_fits_def)
  have "slice (header_size + length ps * index_entry_size)
      (header_size + length ps * index_entry_size + index_entry_size) ?hbi' = ?entry"
    using slice_at [of ?hbi _ _ ?entry "[]"] ilen elen by simp
  then have stop: "recover_loop sha ?hbp' ?hbi' (Suc 0) (0 + length ps) (header_size + length (body_from 0 ps)) =
      Inl Index_mismatch"
    using unpack_index [OF bounds(1,2) small bounds(3)] assms(4) by simp
  have "recover_loop sha ?hbp' ?hbi' (length ps + Suc 0) 0 header_size = Inl Index_mismatch"
    using recover_loop_store [of ps sha "file_header HBI_MAGIC" 0 "file_header HBP_MAGIC" header_size
        "orphan @ record_bytes (length ps) ?p" ?entry "Suc 0"] ps(1) bounds(1) stop
    by (simp add: store_fits_def)
  moreover have "(length ?hbi' - header_size) div index_entry_size = length ps + Suc 0"
    using ilen elen by (simp add: store_sizes)
  ultimately have "fst (recover_tail sha \<lparr>st_hbp = Some ?hbp', st_hbi = Some ?hbi'\<rparr>) = Inl Index_mismatch"
    by (simp add: recover_tail_def)
  with append show ?thesis by blast
qed

section \<open>Examples\<close>

definition example_event :: ledger_event where
  "example_event =
     \<lparr>le_sequence = 0, le_event_type = ''HELD'', le_event_id = ''i'', le_task_id = ''t'', le_attempt_id = ''a'',
      le_candidate_id = None, le_repository = ''r'', le_source_commit = None, le_base_generation = None,
      le_overlay_generation = None, le_producer = ''p'', le_artifact_handles = [], le_artifact_digests = [],
      le_payload_digest = None, le_prev_event_hash = zero_hash, le_event_hash = ''h'', le_metadata = []\<rparr>"

definition example_sha :: "bytes \<Rightarrow> bytes" where
  "example_sha b = replicate 32 7"

lemma example_event_size: "length (canonical (ledger_record example_event)) < 1000"
proof -
  have "length (dumps (ledger_record example_event)) < 1000" by code_simp
  then show ?thesis by (simp add: canonical_def)
qed

lemma example_valid: "valid_store example_sha (store_of example_sha [])"
  using store_fits_Nil by (auto simp: valid_store_def)

lemma example_header: "length (the (st_hbp (store_of sha []))) = header_size"
  by (simp add: store_of_def)

lemma example_fits: "event_fits example_sha example_event (store_of example_sha [])"
  using example_event_size
  by (simp add: event_fits_def example_header store_sizes example_sha_def) (simp add: example_event_def)

lemma store_example_append: "\<exists>r T. append_record example_sha example_event (store_of example_sha []) = (Inr r, T) \<and>
  length (the (st_hbi T)) = length (the (st_hbi (store_of example_sha []))) + 52"
proof -
  have "le_sequence example_event = int (length [])" by (simp add: example_event_def)
  moreover have "length (canonical (ledger_record example_event)) \<le> MAX_RECORD_BYTES"
    using example_event_size by (simp add: MAX_RECORD_BYTES_def)
  ultimately show ?thesis
    using append_record_general [of "[]" example_sha example_event "[]"]
    by (simp add: store_of_def Let_def pack_index_entry_def example_sha_def)
qed

theorem append_record_reads_back_witness:
  "\<exists>r T. append_record example_sha example_event (store_of example_sha []) = (Inr r, T) \<and>
     read_record example_sha 0 T = Inr (norm_json (ledger_record example_event))"
  using store_example_append append_record_reads_back [OF example_valid example_fits]
  by (fastforce simp: example_event_def)

theorem crashed_append_recovers_witness:
  "\<exists>r T. append_record example_sha example_event (store_of example_sha []) = (Inr r, T) \<and>
     snd (recover_tail example_sha \<lparr>st_hbp = Some (take 20 (the (st_hbp T))), st_hbi = Some (take 14 (the (st_hbi T)))\<rparr>) =
       store_of example_sha []"
proof -
  obtain r T where T: "append_record example_sha example_event (store_of example_sha []) = (Inr r, T)"
      "length (the (st_hbi T)) = length (the (st_hbi (store_of example_sha []))) + 52"
    using store_example_append by blast
  have "length (the (st_hbi (store_of example_sha []))) = 13"
    by (simp add: store_of_def header_size_def)
  with crashed_append_recovers [OF example_valid example_fits T(1), of 20 14] T show ?thesis
    by (simp add: example_header header_size_def)
qed

theorem append_over_orphan_blocks_recovery_witness:
  "\<exists>r T. append_record example_sha example_event
       ((store_of example_sha [])\<lparr>st_hbp := Some (the (st_hbp (store_of example_sha [])) @ [1, 2])\<rparr>) = (Inr r, T) \<and>
     fst (recover_tail example_sha T) = Inl Index_mismatch"
proof -
  obtain r T where T: "append_record example_sha example_event (store_of example_sha []) = (Inr r, T)"
    using store_example_append by blast
  from append_over_orphan_blocks_recovery [OF example_valid example_fits T, of "[1, 2]"] show ?thesis
    by (simp add: example_header header_size_def)
qed

end
