(* ===== verification/Hbp.thy ===== *)
theory Hbp
  imports HashChain
begin

text \<open>
  \<open>simplicio_fast/hbp_codec.py\<close>: sealing receipt rows into a textual hash chain, verifying such a
  chain, aliases of verified blobs and bounds-checked pointers into a blob.
\<close>

datatype hbp_error =
    Alias_unverified
  | Hbp_malformed_row
  | Hbp_partial_append
  | Hbp_invalid_chain
  | Hbi_digest_invalid
  | Hbi_out_of_bounds

definition sha256_hex :: "(bytes \<Rightarrow> bytes) \<Rightarrow> bytes \<Rightarrow> string" where
  "sha256_hex sha b = hexdigest sha b"

definition verified_alias :: "(bytes \<Rightarrow> bytes) \<Rightarrow> bytes \<Rightarrow> string \<Rightarrow> hbp_error + string" where
  "verified_alias sha b full_digest =
     (if length full_digest \<noteq> 64 \<or> sha256_hex sha b \<noteq> full_digest then Inl Alias_unverified
      else Inr (''AGT-'' @ take 16 full_digest))"

definition event_mark :: string where "event_mark = ''|event_hash=''"
definition prev_mark :: string where "prev_mark = ''|prev_event_hash=''"

definition seal_receipt :: "(bytes \<Rightarrow> bytes) \<Rightarrow> string \<Rightarrow> string \<Rightarrow> hbp_error + string" where
  "seal_receipt sha row previous =
     (if CHR 0x0A \<in> set row \<or> CHR 0x0D \<in> set row then Inl Hbp_malformed_row
      else
        (let body = row @ prev_mark @ previous in
         Inr (body @ event_mark @ sha256_hex sha (encode body))))"

definition split_row :: "string \<Rightarrow> (string \<times> string \<times> string) option" where
  "split_row row =
     (case rsplit1 event_mark row of
        None \<Rightarrow> None
      | Some (body, claimed) \<Rightarrow>
          map_option (\<lambda>(_, linked). (body, claimed, linked)) (rsplit1 prev_mark body))"

fun verify_rows :: "(bytes \<Rightarrow> bytes) \<Rightarrow> string \<Rightarrow> string list \<Rightarrow> hbp_error + string" where
  "verify_rows sha previous [] = Inr previous"
| "verify_rows sha previous (row # rows) =
     (case split_row row of
        None \<Rightarrow> Inl Hbp_partial_append
      | Some (body, claimed, linked) \<Rightarrow>
          if linked \<noteq> previous \<or> length claimed \<noteq> 64 \<or> sha256_hex sha (encode body) \<noteq> claimed
          then Inl Hbp_invalid_chain
          else verify_rows sha claimed rows)"

definition verify_chain :: "(bytes \<Rightarrow> bytes) \<Rightarrow> string list \<Rightarrow> hbp_error + string" where
  "verify_chain sha rows = verify_rows sha zero_hash rows"

record logical_pointer =
  lp_digest :: string
  lp_offset :: int
  lp_length :: int

definition validate_pointer :: "logical_pointer \<Rightarrow> int \<Rightarrow> hbp_error + unit" where
  "validate_pointer p blob_length =
     (if length (lp_digest p) \<noteq> 64 then Inl Hbi_digest_invalid
      else if lp_offset p < 0 \<or> lp_length p \<le> 0 \<or> lp_offset p + lp_length p > blob_length
        then Inl Hbi_out_of_bounds
      else Inr ())"

section \<open>Sealing and verifying\<close>

lemma split_row_sealed:
  assumes "CHR ''|'' \<notin> set previous" "CHR ''|'' \<notin> set claimed"
  shows "split_row ((row @ prev_mark @ previous) @ event_mark @ claimed) =
    Some (row @ prev_mark @ previous, claimed, previous)"
proof -
  have "rsplit1 event_mark ((row @ prev_mark @ previous) @ event_mark @ claimed) =
      Some (row @ prev_mark @ previous, claimed)"
    unfolding event_mark_def by (rule rsplit1_last) (use assms in simp_all)
  moreover have "rsplit1 prev_mark (row @ prev_mark @ previous) = Some (row, previous)"
    unfolding prev_mark_def by (rule rsplit1_last) (use assms in simp_all)
  ultimately show ?thesis by (simp add: split_row_def)
qed

lemma digest_no_bar: "is_digest d \<Longrightarrow> CHR ''|'' \<notin> set d"
proof
  assume "is_digest d" "CHR ''|'' \<in> set d"
  then have "is_hex_char (CHR ''|'')" by (simp only: is_digest_def list_all_iff)
  then show False by (simp add: is_hex_char_def)
qed

lemma is_digest_sha: "length (sha b) = 32 \<Longrightarrow> is_digest (sha256_hex sha b)"
  by (simp add: sha256_hex_def is_digest_hexdigest)

text \<open>The fields of a row, for the chain contract.\<close>

definition row_link :: "string \<Rightarrow> string option" where
  "row_link row = map_option (\<lambda>(b, c, l). l) (split_row row)"

definition row_tag :: "string \<Rightarrow> string option" where
  "row_tag row = map_option (\<lambda>(b, c, l). c) (split_row row)"

definition row_digest :: "(bytes \<Rightarrow> bytes) \<Rightarrow> string \<Rightarrow> string option" where
  "row_digest sha row = map_option (\<lambda>(b, c, l). sha256_hex sha (encode b)) (split_row row)"

lemma row_fields:
  "split_row r = None \<Longrightarrow> row_link r = None \<and> row_tag r = None \<and> row_digest sha r = None"
  "split_row r = Some (b, c, l) \<Longrightarrow>
     row_link r = Some l \<and> row_tag r = Some c \<and> row_digest sha r = Some (sha256_hex sha (encode b))"
  by (simp_all add: row_link_def row_tag_def row_digest_def)

lemma verify_rows_chained:
  "(verify_rows sha h rows = Inr g) \<longleftrightarrow>
     list_all (\<lambda>r. row_tag r \<noteq> None \<and> length (the (row_tag r)) = 64) rows \<and>
     chained row_link row_tag (row_digest sha) (Some h) rows \<and>
     chain_head row_tag (Some h) rows = Some g"
proof (induction rows arbitrary: h)
  case (Cons r rows)
  show ?case
  proof (cases "split_row r")
    case None
    with row_fields(1) [OF None] show ?thesis by simp
  next
    case (Some p)
    then obtain b c l where p: "split_row r = Some (b, c, l)" by (cases p) auto
    from row_fields(2) [OF p] have "row_link r = Some l" "row_tag r = Some c"
        "row_digest sha r = Some (sha256_hex sha (encode b))" by auto
    with p Cons show ?thesis by auto
  qed
qed auto

definition seal_step :: "(bytes \<Rightarrow> bytes) \<Rightarrow> string list \<Rightarrow> string list \<Rightarrow> bool" where
  "seal_step sha rows rows' \<longleftrightarrow>
     (\<exists>h row sealed. verify_chain sha rows = Inr h \<and> seal_receipt sha row h = Inr sealed \<and>
        is_digest h \<and> is_digest (sha256_hex sha (encode (row @ prev_mark @ h))) \<and>
        rows' = rows @ [sealed])"

interpretation hbp: append_log row_link row_tag "row_digest sha" "Some zero_hash" "\<lambda>rows. rows" "seal_step sha"
  for sha
proof unfold_locales
  fix s t
  assume "seal_step sha s t"
  then obtain h row where h: "verify_chain sha s = Inr h" "is_digest h"
      and d: "is_digest (sha256_hex sha (encode (row @ prev_mark @ h)))"
      and t: "t = s @ [(row @ prev_mark @ h) @ event_mark @ sha256_hex sha (encode (row @ prev_mark @ h))]"
    by (auto simp: seal_step_def seal_receipt_def Let_def split: if_splits)
  let ?e = "(row @ prev_mark @ h) @ event_mark @ sha256_hex sha (encode (row @ prev_mark @ h))"
  have "row_link ?e = Some h" "row_tag ?e = row_digest sha ?e"
    using row_fields(2) [OF split_row_sealed [OF digest_no_bar [OF h(2)] digest_no_bar [OF d], of row], of sha]
    by simp_all
  moreover have "chain_head row_tag (Some zero_hash) s = Some h"
    using h(1) by (simp add: verify_chain_def verify_rows_chained)
  ultimately show "t = s \<or> (\<exists>e. t = s @ [e] \<and> row_link e = chain_head row_tag (Some zero_hash) s \<and> row_tag e = row_digest sha e)"
    using t by auto
qed

fun seal_all :: "(bytes \<Rightarrow> bytes) \<Rightarrow> string \<Rightarrow> string list \<Rightarrow> hbp_error + string list" where
  "seal_all sha previous [] = Inr []"
| "seal_all sha previous (row # rows) =
     (case seal_receipt sha row previous of
        Inl e \<Rightarrow> Inl e
      | Inr sealed \<Rightarrow>
          (case seal_all sha (sha256_hex sha (encode (row @ prev_mark @ previous))) rows of
             Inl e \<Rightarrow> Inl e
           | Inr rest \<Rightarrow> Inr (sealed # rest)))"

lemma seal_all_verifies:
  assumes "\<And>b. length (sha b) = 32"
  shows "is_digest h \<Longrightarrow> seal_all sha h rows = Inr sealed \<Longrightarrow>
    (\<exists>g. verify_rows sha h sealed = Inr g \<and> is_digest g)"
proof (induction rows arbitrary: h sealed)
  case (Cons row rows)
  let ?d = "sha256_hex sha (encode (row @ prev_mark @ h))"
  have d: "is_digest ?d" by (rule is_digest_sha) (rule assms)
  from Cons.prems(2) obtain rest where r: "seal_all sha ?d rows = Inr rest"
      and s: "sealed = ((row @ prev_mark @ h) @ event_mark @ ?d) # rest"
    by (auto simp: seal_receipt_def Let_def split: if_splits sum.splits)
  from Cons.IH [OF d r] have g: "\<exists>g. verify_rows sha ?d rest = Inr g \<and> is_digest g" .
  have "length ?d = 64" using d by (simp add: is_digest_def)
  then have "verify_rows sha h sealed = verify_rows sha ?d rest"
    using split_row_sealed [OF digest_no_bar [OF Cons.prems(1)] digest_no_bar [OF d], of row] s by simp
  with g show ?case by simp
qed simp

text \<open>Rows sealed one after the other, each onto the digest of the one before it, always verify,
  whatever text the rows contain short of a line break, separators of the format included.\<close>

theorem sealed_rows_verify:
  assumes "\<And>b. length (sha b) = 32" "seal_all sha zero_hash rows = Inr sealed"
  shows "\<exists>head. verify_chain sha sealed = Inr head \<and> is_digest head"
  using seal_all_verifies [OF assms(1) is_digest_zero_hash assms(2)] by (simp add: verify_chain_def)

theorem sealed_rows_verify_witness:
  "\<exists>sealed head. seal_all (\<lambda>b. replicate 32 7) zero_hash [''a|event_hash=x'', ''b''] = Inr sealed \<and>
     verify_chain (\<lambda>b. replicate 32 7) sealed = Inr head \<and> length sealed = 2"
proof -
  let ?sha = "\<lambda>b :: bytes. replicate 32 (7 :: byte)"
  obtain sealed where s: "seal_all ?sha zero_hash [''a|event_hash=x'', ''b''] = Inr sealed" "length sealed = 2"
    by (auto simp: seal_receipt_def Let_def)
  from sealed_rows_verify [OF _ s(1)] s show ?thesis by auto
qed

text \<open>Two verified row lists of one length with one head are the same rows.\<close>

lemma row_of_fields: "split_row r = Some (b, c, l) \<Longrightarrow> r = b @ event_mark @ c"
  by (auto simp: split_row_def split: option.splits dest!: rsplit1_join)

definition row_body :: "string \<Rightarrow> string option" where
  "row_body row = map_option fst (split_row row)"

lemma row_digest_body: "row_digest sha r = map_option (\<lambda>b. sha256_hex sha (encode b)) (row_body r)"
  by (cases "split_row r") (auto simp: row_digest_def row_body_def)

lemma row_link_body: "row_body r = row_body q \<Longrightarrow> row_link r = row_link q"
  by (cases "split_row r"; cases "split_row q") (auto simp: row_body_def row_link_def split_row_def split: option.splits)

text \<open>The head pins the rows: two row lists of one length that verify with the same head are equal row
  by row, when the digest has no collision among their bodies.\<close>

theorem verified_rows_pinned:
  assumes "verify_chain sha rows = Inr head" "verify_chain sha rows' = Inr head" "length rows = length rows'"
    and "\<And>b c r q. sha (encode b) = sha (encode c) \<Longrightarrow> row_body r = Some b \<Longrightarrow> row_body q = Some c \<Longrightarrow>
           r \<in> set rows \<Longrightarrow> q \<in> set rows' \<Longrightarrow> b = c"
  shows "rows = rows'"
proof -
  have v: "list_all (\<lambda>r. row_tag r \<noteq> None \<and> length (the (row_tag r)) = 64) rows"
      "chained row_link row_tag (row_digest sha) (Some zero_hash) rows"
      "chain_head row_tag (Some zero_hash) rows = Some head"
      "list_all (\<lambda>r. row_tag r \<noteq> None \<and> length (the (row_tag r)) = 64) rows'"
      "chained row_link row_tag (row_digest sha) (Some zero_hash) rows'"
      "chain_head row_tag (Some zero_hash) rows' = Some head"
    using assms(1,2) by (simp_all add: verify_chain_def verify_rows_chained)
  have split: "\<exists>b c l. split_row r = Some (b, c, l) \<and> row_body r = Some b" if "r \<in> set rows \<or> r \<in> set rows'" for r
  proof -
    from v(1,4) that have "row_tag r \<noteq> None" by (auto simp: list_all_iff)
    then show ?thesis by (cases "split_row r") (auto simp: row_tag_def row_body_def)
  qed
  have bodies: "row_body r = row_body q"
    if m: "r \<in> set rows" "q \<in> set rows'" "row_digest sha r = row_digest sha q" for r q
  proof -
    from split [of r] split [of q] m(1,2) obtain b c where bc: "row_body r = Some b" "row_body q = Some c" by auto
    with m(3) have "sha (encode b) = sha (encode c)"
      by (auto simp: row_digest_body sha256_hex_def hexdigest_def dest: hex_inj)
    from assms(4) [OF this bc m(1,2)] bc show ?thesis by simp
  qed
  have map: "map row_body rows = map row_body rows'"
    by (rule chained_pinned [OF v(2,5) assms(3)])
       (simp_all only: v(3,6) bodies row_link_body [OF bodies] simp_thms)
  have "r = q" if m: "r \<in> set rows" "q \<in> set rows'" and eq: "row_body r = row_body q" for r q
  proof -
    from chained_mem [OF v(2) m(1)] chained_mem [OF v(5) m(2)] eq
    have tag: "row_tag r = row_tag q" by (simp add: row_digest_body)
    from split [of r] split [of q] m obtain b c l b' c' l'
      where s: "split_row r = Some (b, c, l)" "split_row q = Some (b', c', l')" "row_body r = Some b" "row_body q = Some b'" by auto
    with eq tag have "b = b'" "c = c'" by (simp_all add: row_tag_def)
    with row_of_fields [OF s(1)] row_of_fields [OF s(2)] show "r = q" by (simp only:)
  qed
  with map assms(3) show ?thesis
    by (metis (no_types, lifting) length_map nth_equalityI nth_map nth_mem)
qed

theorem verified_rows_pinned_witness:
  "\<exists>row head. verify_chain (\<lambda>b. replicate 32 7) [row] = Inr head \<and> [row] = [row]"
proof -
  let ?sha = "\<lambda>b :: bytes. replicate 32 (7 :: byte)"
  obtain sealed where s: "seal_all ?sha zero_hash [''a''] = Inr [sealed]"
    by (auto simp: seal_receipt_def Let_def)
  with seal_all_verifies [OF _ is_digest_zero_hash s] obtain head
    where "verify_chain ?sha [sealed] = Inr head" by (auto simp: verify_chain_def)
  with verified_rows_pinned [OF this this] show ?thesis by auto
qed

end
