(* ===== verification/Journal.thy ===== *)
theory Journal
  imports HashChain
begin

text \<open>
  \<open>simplicio_fast/journal.py\<close>: the append-only change journal kept in one file of JSON lines.  The
  file is an optional string of its bytes (\<open>None\<close> before it exists).  An event read back from a file
  is whatever JSON object has the nine fields, since \<open>ChangeEvent(**value)\<close> checks no types; the
  fields are therefore JSON values and comparisons are Python's.
\<close>

section \<open>Events\<close>

definition JOURNAL_SCHEMA :: string where
  "JOURNAL_SCHEMA = ''simplicio.fast.change-journal/v1''"

definition JOURNAL_HEADER :: json where
  "JOURNAL_HEADER = JObj [(''schema'', JStr JOURNAL_SCHEMA), (''version'', JInt 1)]"

definition CHANGE_TYPES :: "string list" where
  "CHANGE_TYPES = [''create'', ''update'', ''rename'', ''delete'', ''config'', ''schema'']"

datatype journal_error =
    Sha256_invalid
  | Path_outside_repository
  | Event_type_invalid
  | Header_missing
  | Header_invalid
  | Schema_mismatch
  | Truncated_tail
  | Record_invalid nat
  | Sequence_invalid
  | Max_events_invalid
  | Event_window_overflow
  | Chain_mismatch
  | Record_hash_mismatch
  | Unsortable_paths

record change_event =
  ce_sequence :: json
  ce_event_type :: json
  ce_path :: json
  ce_generation :: json
  ce_commit :: json
  ce_before_sha256 :: json
  ce_after_sha256 :: json
  ce_prev_hash :: json
  ce_record_hash :: json

definition change_fields :: "change_event \<Rightarrow> (string \<times> json) list" where
  "change_fields e =
     [(''sequence'', ce_sequence e), (''event_type'', ce_event_type e), (''path'', ce_path e),
      (''generation'', ce_generation e), (''commit'', ce_commit e),
      (''before_sha256'', ce_before_sha256 e), (''after_sha256'', ce_after_sha256 e),
      (''prev_hash'', ce_prev_hash e)]"

definition change_material :: "change_event \<Rightarrow> json" where
  "change_material e = JObj (change_fields e)"

definition change_to_json :: "change_event \<Rightarrow> string" where
  "change_to_json e = dumps (JObj (change_fields e @ [(''record_hash'', ce_record_hash e)]))"

definition change_event_of :: "json \<Rightarrow> change_event option" where
  "change_event_of v =
     (case v of
        JObj kvs \<Rightarrow>
          (if length kvs \<noteq> 9 then None
           else
             (case (map_of kvs ''sequence'', map_of kvs ''event_type'', map_of kvs ''path'',
                    map_of kvs ''generation'', map_of kvs ''commit'', map_of kvs ''before_sha256'',
                    map_of kvs ''after_sha256'', map_of kvs ''prev_hash'', map_of kvs ''record_hash'') of
                (Some s, Some t, Some p, Some g, Some c, Some b, Some a, Some h, Some r) \<Rightarrow>
                  Some \<lparr>ce_sequence = s, ce_event_type = t, ce_path = p, ce_generation = g,
                        ce_commit = c, ce_before_sha256 = b, ce_after_sha256 = a,
                        ce_prev_hash = h, ce_record_hash = r\<rparr>
              | _ \<Rightarrow> None))
      | _ \<Rightarrow> None)"

section \<open>Argument checks\<close>

definition check_sha :: "string option \<Rightarrow> journal_error + string option" where
  "check_sha value =
     (case value of
        None \<Rightarrow> Inr None
      | Some s \<Rightarrow>
          if length s \<noteq> 64 \<or> \<not> list_all is_hex_char (lower s) then Inl Sha256_invalid
          else Inr (Some (lower s)))"

definition posix_slashes :: "string \<Rightarrow> string" where
  "posix_slashes s = map (\<lambda>c. if c = CHR 0x5C then CHR ''/'' else c) s"

definition check_path :: "string \<Rightarrow> journal_error + string" where
  "check_path value =
     (if value = [] \<or> is_absolute value \<or> ''..'' \<in> set (path_parts value)
      then Inl Path_outside_repository else Inr (posix_slashes value))"

section \<open>Reading\<close>

definition str_of :: "json \<Rightarrow> string" where
  "str_of v = (case v of JStr s \<Rightarrow> s | _ \<Rightarrow> [])"

definition record_digest :: "(bytes \<Rightarrow> bytes) \<Rightarrow> change_event \<Rightarrow> json" where
  "record_digest sha e = JStr (hexdigest sha (encode (str_of (ce_prev_hash e) @ dumps (change_material e))))"

definition last_hash :: "change_event list \<Rightarrow> json" where
  "last_hash es = (if es = [] then JStr zero_hash else ce_record_hash (last es))"

text \<open>\<open>None\<close> when the event is accepted; \<open>prev_hash\<close> is a string once the first check has passed.\<close>

definition verify_event :: "(bytes \<Rightarrow> bytes) \<Rightarrow> change_event \<Rightarrow> change_event list \<Rightarrow> journal_error option" where
  "verify_event sha e previous =
     (if \<not> json_eq (ce_sequence e) (JInt (int (length previous) + 1)) \<or>
         \<not> json_eq (ce_prev_hash e) (last_hash previous) then Some Chain_mismatch
      else if \<not> json_eq (ce_record_hash e) (record_digest sha e) then Some Record_hash_mismatch
      else None)"

fun read_lines ::
  "(bytes \<Rightarrow> bytes) \<Rightarrow> bool \<Rightarrow> nat \<Rightarrow> string list \<Rightarrow> change_event list \<Rightarrow> journal_error + change_event list" where
  "read_lines sha recover index [] events = Inr events"
| "read_lines sha recover index (line # lines) events =
     (if \<not> ends_nl line then
        (if recover \<and> lines = [] then Inr events else Inl Truncated_tail)
      else
        (case Option.bind (loads line) change_event_of of
           None \<Rightarrow> Inl (Record_invalid index)
         | Some e \<Rightarrow>
             (case verify_event sha e events of
                Some err \<Rightarrow> Inl err
              | None \<Rightarrow> read_lines sha recover (Suc index) lines (events @ [e]))))"

type_synonym journal_file = "string option"

definition read_journal ::
  "(bytes \<Rightarrow> bytes) \<Rightarrow> bool \<Rightarrow> journal_file \<Rightarrow> journal_error + change_event list" where
  "read_journal sha recover file =
     (case file of
        None \<Rightarrow> Inr []
      | Some raw \<Rightarrow>
          (case lines_keep raw of
             [] \<Rightarrow> Inl Header_missing
           | header # lines \<Rightarrow>
               (case loads header of
                  None \<Rightarrow> Inl Header_invalid
                | Some h \<Rightarrow>
                    if \<not> json_eq h JOURNAL_HEADER then Inl Schema_mismatch
                    else read_lines sha recover 1 lines [])))"

section \<open>Appending and recovering\<close>

definition header_line :: string where
  "header_line = dumps JOURNAL_HEADER @ [CHR 0x0A]"

definition ensure_header :: "journal_file \<Rightarrow> string" where
  "ensure_header file = (case file of None \<Rightarrow> header_line | Some raw \<Rightarrow> raw)"

record change_request =
  cr_event_type :: string
  cr_path :: string
  cr_generation :: string
  cr_commit :: "string option"
  cr_before_sha256 :: "string option"
  cr_after_sha256 :: "string option"

definition new_event ::
  "(bytes \<Rightarrow> bytes) \<Rightarrow> change_request \<Rightarrow> string \<Rightarrow> string option \<Rightarrow> string option \<Rightarrow>
     change_event list \<Rightarrow> change_event" where
  "new_event sha rq path before after events =
     (let e = \<lparr>ce_sequence = JInt (int (length events) + 1), ce_event_type = JStr (cr_event_type rq),
               ce_path = JStr path, ce_generation = JStr (cr_generation rq),
               ce_commit = jopt (cr_commit rq), ce_before_sha256 = jopt before,
               ce_after_sha256 = jopt after, ce_prev_hash = last_hash events,
               ce_record_hash = JStr []\<rparr>
      in e\<lparr>ce_record_hash := record_digest sha e\<rparr>)"

definition event_line :: "change_event \<Rightarrow> string" where
  "event_line e = change_to_json e @ [CHR 0x0A]"

definition append_change ::
  "(bytes \<Rightarrow> bytes) \<Rightarrow> change_request \<Rightarrow> journal_file \<Rightarrow> (journal_error + change_event) \<times> journal_file" where
  "append_change sha rq file =
     (if cr_event_type rq \<notin> set CHANGE_TYPES then (Inl Event_type_invalid, file)
      else
        (case check_path (cr_path rq) of
           Inl err \<Rightarrow> (Inl err, file)
         | Inr path \<Rightarrow>
             (case check_sha (cr_before_sha256 rq) of
                Inl err \<Rightarrow> (Inl err, file)
              | Inr before \<Rightarrow>
                  (case check_sha (cr_after_sha256 rq) of
                     Inl err \<Rightarrow> (Inl err, file)
                   | Inr after \<Rightarrow>
                       (case read_journal sha False file of
                          Inl err \<Rightarrow> (Inl err, file)
                        | Inr events \<Rightarrow>
                            let e = new_event sha rq path before after events
                            in (Inr e, Some (ensure_header file @ event_line e)))))))"

definition drop_partial_line :: "string \<Rightarrow> string" where
  "drop_partial_line raw = rev (dropWhile (\<lambda>c. c \<noteq> CHR 0x0A) (rev raw))"

record journal_recovery =
  jr_recovered :: bool
  jr_events :: nat
  jr_last_hash :: json

definition recover_journal ::
  "(bytes \<Rightarrow> bytes) \<Rightarrow> journal_file \<Rightarrow> (journal_error + journal_recovery) \<times> journal_file" where
  "recover_journal sha file =
     (case read_journal sha True file of
        Inl err \<Rightarrow> (Inl err, file)
      | Inr events \<Rightarrow>
          (let raw = (case file of None \<Rightarrow> [] | Some r \<Rightarrow> r); torn = (raw \<noteq> [] \<and> \<not> ends_nl raw)
           in (Inr \<lparr>jr_recovered = torn, jr_events = length events, jr_last_hash = last_hash events\<rparr>,
               if torn then Some (drop_partial_line raw) else file)))"

section \<open>Windows\<close>

definition events_since ::
  "(bytes \<Rightarrow> bytes) \<Rightarrow> int \<Rightarrow> string option \<Rightarrow> int option \<Rightarrow> journal_file \<Rightarrow> journal_error + change_event list" where
  "events_since sha sequence generation max_events file =
     (if sequence < 0 then Inl Sequence_invalid
      else if (case max_events of None \<Rightarrow> False | Some m \<Rightarrow> m < 1) then Inl Max_events_invalid
      else
        (case read_journal sha False file of
           Inl err \<Rightarrow> Inl err
         | Inr events \<Rightarrow>
             (let selected = filter (\<lambda>e. (case py_num (ce_sequence e) of JInt n \<Rightarrow> n > sequence | _ \<Rightarrow> False) \<and>
                       (case generation of None \<Rightarrow> True | Some g \<Rightarrow> ce_generation e = JStr g)) events
              in if (case max_events of None \<Rightarrow> False | Some m \<Rightarrow> int (length selected) > m)
                 then Inl Event_window_overflow else Inr selected)))"

text \<open>Sorting paths that are not all strings raises \<open>TypeError\<close> (\<open>Unsortable_paths\<close>).\<close>

definition changed_paths_since ::
  "(bytes \<Rightarrow> bytes) \<Rightarrow> int \<Rightarrow> string option \<Rightarrow> int option \<Rightarrow> journal_file \<Rightarrow> journal_error + string list" where
  "changed_paths_since sha sequence generation max_events file =
     (case events_since sha sequence generation max_events file of
        Inl err \<Rightarrow> Inl err
      | Inr es \<Rightarrow>
          if list_all (\<lambda>e. ce_path e = JStr (str_of (ce_path e))) es
          then Inr (sorted_set (map (\<lambda>e. str_of (ce_path e)) es)) else Inl Unsortable_paths)"

section \<open>Reading what was appended\<close>

definition plain_event :: "change_event \<Rightarrow> bool" where
  "plain_event e \<longleftrightarrow> (\<forall>(k, v) \<in> set (change_fields e). plain v) \<and> plain (ce_record_hash e)"

lemma event_line_props:
  "CHR 0x0A \<notin> set (change_to_json e)" "CHR 0x0D \<notin> set (change_to_json e)"
  "ends_nl (event_line e)" "ends_nl (s @ event_line e)" "\<exists>t. event_line e = CHR ''{'' # t"
  unfolding change_to_json_def event_line_def
  using printable_no_newline [OF printable_dumps] by (blast, blast, simp_all add: ends_nl_def)

lemma event_of_line:
  assumes "plain_event e"
  shows "Option.bind (loads (event_line e)) change_event_of = Some e"
proof -
  let ?kvs = "change_fields e @ [(''record_hash'', ce_record_hash e)]"
  have p: "\<forall>(k, v) \<in> set ?kvs. plain v" using assms by (auto simp: plain_event_def)
  have d: "distinct (map fst ?kvs)" by (simp add: change_fields_def)
  have w: "wf_json (JObj ?kvs)" using d p by (auto simp: plain_def)
  have "loads (event_line e) = Some (norm_json (JObj ?kvs))"
    unfolding event_line_def change_to_json_def by (rule loads_dumps_line [OF w])
  also have "norm_json (JObj ?kvs) = JObj (sort_key fst ?kvs)"
    by (simp only: norm_json.simps norm_members_plain [OF p])
  finally have "Option.bind (loads (event_line e)) change_event_of = change_event_of (JObj (sort_key fst ?kvs))"
    by simp
  also have "\<dots> = Some e"
    unfolding change_event_of_def json.case map_of_sort_key_fst [OF d]
    by (simp add: change_fields_def)
  finally show ?thesis .
qed

lemma read_lines_prefix:
  "read_lines sha False index ls es = Inr fs \<Longrightarrow>
     read_lines sha recover index (ls @ ms) es = read_lines sha recover (index + length ls) ms fs"
  by (induction ls arbitrary: index es) (auto split: if_splits option.splits)

definition hashes_plain :: "change_event list \<Rightarrow> bool" where
  "hashes_plain es \<longleftrightarrow> (\<exists>h. last_hash es = JStr h)"

lemma verify_event_hash: "verify_event sha e es = None \<Longrightarrow> ce_record_hash e = record_digest sha e"
  by (auto simp: verify_event_def record_digest_def split: if_splits)

lemma read_lines_hashes:
  "read_lines sha recover index ls es = Inr fs \<Longrightarrow> hashes_plain es \<Longrightarrow> hashes_plain fs"
proof (induction ls arbitrary: index es)
  case (Cons l ls)
  have "hashes_plain (es @ [e])" if "verify_event sha e es = None" for e
    using verify_event_hash [OF that] by (simp add: hashes_plain_def last_hash_def record_digest_def)
  with Cons show ?case by (auto split: if_splits option.splits)
qed simp

lemma hashes_plain_Nil [simp]: "hashes_plain []"
  by (simp add: hashes_plain_def last_hash_def)

lemma read_journal_hashes: "read_journal sha recover file = Inr es \<Longrightarrow> hashes_plain es"
  by (auto simp: read_journal_def split: option.splits list.splits if_splits dest: read_lines_hashes)

lemma record_digest_update [simp]: "record_digest sha (e\<lparr>ce_record_hash := h\<rparr>) = record_digest sha e"
  by (simp add: record_digest_def change_material_def change_fields_def)

lemma new_event_hash: "ce_record_hash (new_event sha rq p b a es) = record_digest sha (new_event sha rq p b a es)"
proof -
  have "\<exists>e. new_event sha rq p b a es = e\<lparr>ce_record_hash := record_digest sha e\<rparr>"
    unfolding new_event_def Let_def by (rule exI, rule refl)
  then show ?thesis by (elim exE) simp
qed

lemma new_event_links:
  "ce_prev_hash (new_event sha rq p b a es) = last_hash es"
  "ce_sequence (new_event sha rq p b a es) = JInt (int (length es) + 1)"
  by (simp_all add: new_event_def Let_def)

lemma new_event_verifies: "verify_event sha (new_event sha rq p b a es) es = None"
  by (simp add: verify_event_def new_event_hash new_event_links)

lemma new_event_plain: "hashes_plain es \<Longrightarrow> plain_event (new_event sha rq p b a es)"
  by (auto simp: plain_event_def new_event_hash hashes_plain_def)
     (auto simp: change_fields_def new_event_def Let_def record_digest_def)

lemma read_appended_line:
  assumes "ends_nl raw" "read_journal sha False (Some raw) = Inr es" "e = new_event sha rq p b a es"
  shows "read_journal sha recover (Some (raw @ event_line e)) = Inr (es @ [e])"
proof -
  from assms(1) obtain header ls where ls: "lines_keep raw = header # ls"
    by (cases "lines_keep raw") (auto simp: ends_nl_def)
  have new: "lines_keep (raw @ event_line e) = header # ls @ [event_line e]"
    unfolding event_line_def lines_keep_snoc_line [OF assms(1) event_line_props(1,2)] by (simp add: ls)
  from assms(2) ls have r: "read_lines sha False 1 ls [] = Inr es"
    by (auto simp: read_journal_def split: option.splits if_splits)
  have "plain_event e"
    using new_event_plain [OF read_journal_hashes [OF assms(2)]] assms(3) by simp
  from event_of_line [OF this] have "read_lines sha recover (1 + length ls) [event_line e] es = Inr (es @ [e])"
    using new_event_verifies [of sha rq p b a es] assms(3) by (simp add: event_line_props)
  with read_lines_prefix [OF r, of recover "[event_line e]"] assms(2) ls new show ?thesis
    by (auto simp: read_journal_def split: option.splits if_splits)
qed

lemma wf_header: "wf_json JOURNAL_HEADER"
  by (simp add: JOURNAL_HEADER_def)

lemma header_line_props:
  "CHR 0x0A \<notin> set (dumps JOURNAL_HEADER)" "CHR 0x0D \<notin> set (dumps JOURNAL_HEADER)" "ends_nl header_line"
  "dumps JOURNAL_HEADER \<noteq> []"
  unfolding header_line_def
  using printable_no_newline [OF printable_dumps] dumps_start [of JOURNAL_HEADER]
  by (blast, blast, simp_all add: ends_nl_def) auto

lemma norm_header: "norm_json JOURNAL_HEADER = JOURNAL_HEADER"
  by (simp add: JOURNAL_HEADER_def)

lemma read_header: "read_journal sha recover (Some header_line) = Inr []"
proof -
  have "lines_keep header_line = [header_line]"
    using lines_keep_line [OF header_line_props(1,2), of "[]"] by (simp add: header_line_def)
  moreover have "loads header_line = Some JOURNAL_HEADER"
    using loads_dumps_line [OF wf_header] by (simp add: header_line_def norm_header)
  ultimately show ?thesis by (simp add: read_journal_def)
qed

definition newline_ended :: "journal_file \<Rightarrow> bool" where
  "newline_ended file \<longleftrightarrow> (case file of None \<Rightarrow> True | Some raw \<Rightarrow> ends_nl raw)"

lemma append_change_cases:
  assumes "append_change sha rq file = (r, file')"
  obtains (rejected) err where "r = Inl err" "file' = file"
  | (appended) es p b a e where "r = Inr e" "read_journal sha False file = Inr es"
      "e = new_event sha rq p b a es" "file' = Some (ensure_header file @ event_line e)"
  using assms unfolding append_change_def Let_def
  by (cases "check_path (cr_path rq)"; cases "check_sha (cr_before_sha256 rq)";
      cases "check_sha (cr_after_sha256 rq)"; cases "read_journal sha False file")
     (auto simp del: read_lines.simps split: if_splits)

lemma append_reads:
  assumes "newline_ended file" "append_change sha rq file = (Inr e, file')"
  shows "\<exists>es. read_journal sha False file = Inr es \<and> read_journal sha False file' = Inr (es @ [e]) \<and>
    newline_ended file' \<and> ce_prev_hash e = last_hash es \<and> ce_record_hash e = record_digest sha e"
  using assms(2)
proof (cases rule: append_change_cases)
  case (appended es p b a f)
  have "read_journal sha False (Some (ensure_header file)) = Inr es"
    using appended(2) by (cases "file") (simp_all add: ensure_header_def read_header, simp add: read_journal_def)
  moreover have "ends_nl (ensure_header file)"
    using assms(1) by (cases "file") (simp_all add: newline_ended_def ensure_header_def header_line_props)
  ultimately show ?thesis
    using appended read_appended_line [of "ensure_header file" sha es e rq p b a False]
    by (simp add: newline_ended_def event_line_props new_event_hash new_event_links)
qed simp

section \<open>Crashes\<close>

lemma lines_keep_torn:
  "ends_nl raw \<Longrightarrow> CHR 0x0A \<notin> set t \<Longrightarrow> CHR 0x0D \<notin> set t \<Longrightarrow> t \<noteq> [] \<Longrightarrow>
     lines_keep (raw @ t) = lines_keep raw @ [t]"
  by (simp add: lines_keep_append lines_keep_tail)

lemma drop_partial_line_torn: "ends_nl raw \<Longrightarrow> CHR 0x0A \<notin> set t \<Longrightarrow> drop_partial_line (raw @ t) = raw"
proof -
  assume raw: "ends_nl raw" and t: "CHR 0x0A \<notin> set t"
  from raw obtain u where u: "raw = u @ [CHR 0x0A]"
    by (cases raw rule: rev_cases) (auto simp: ends_nl_def)
  have "dropWhile (\<lambda>c. c \<noteq> CHR 0x0A) (rev t @ CHR 0x0A # rev u) = CHR 0x0A # rev u"
    using t by (subst dropWhile_append2) auto
  with u show ?thesis by (simp add: drop_partial_line_def)
qed

lemma read_torn:
  assumes "ends_nl raw" "read_journal sha False (Some raw) = Inr es"
    and "CHR 0x0A \<notin> set t" "CHR 0x0D \<notin> set t" "t \<noteq> []"
  shows "read_journal sha True (Some (raw @ t)) = Inr es"
proof -
  from assms(1) obtain header ls where ls: "lines_keep raw = header # ls"
    by (cases "lines_keep raw") (auto simp: ends_nl_def)
  from assms(2) ls have r: "read_lines sha False 1 ls [] = Inr es"
    by (auto simp: read_journal_def split: option.splits if_splits)
  have "\<not> ends_nl t" using assms(3,5) by (auto simp: ends_nl_def dest: last_in_set)
  then have "read_lines sha True (1 + length ls) [t] es = Inr es" by simp
  with read_lines_prefix [OF r, of True "[t]"] assms(2) ls lines_keep_torn [OF assms(1,3,4,5)]
  show ?thesis by (auto simp: read_journal_def split: option.splits if_splits)
qed

lemma take_event_line:
  assumes "k < length (event_line e)"
  shows "CHR 0x0A \<notin> set (take k (event_line e))" "CHR 0x0D \<notin> set (take k (event_line e))"
proof -
  have "take k (event_line e) = take k (change_to_json e)"
    using assms by (simp add: event_line_def)
  with event_line_props(1,2) [of e]
  show "CHR 0x0A \<notin> set (take k (event_line e))" "CHR 0x0D \<notin> set (take k (event_line e))"
    by (auto dest: in_set_takeD)
qed

definition journal_events :: "(bytes \<Rightarrow> bytes) \<Rightarrow> journal_file \<Rightarrow> change_event list" where
  "journal_events sha file = (case read_journal sha False file of Inl _ \<Rightarrow> [] | Inr es \<Rightarrow> es)"

definition append_step :: "(bytes \<Rightarrow> bytes) \<Rightarrow> journal_file \<Rightarrow> journal_file \<Rightarrow> bool" where
  "append_step sha file file' \<longleftrightarrow>
     newline_ended file \<and> (\<exists>rq. file' = snd (append_change sha rq file))"

interpretation journal: append_log ce_prev_hash ce_record_hash "record_digest sha" "JStr zero_hash"
  "journal_events sha" "append_step sha"
  for sha
proof unfold_locales
  fix s t
  assume "append_step sha s t"
  then obtain rq where s: "newline_ended s" and t: "t = snd (append_change sha rq s)"
    by (auto simp: append_step_def)
  obtain r where r: "append_change sha rq s = (r, t)" using t by (cases "append_change sha rq s") auto
  show "journal_events sha t = journal_events sha s \<or>
      (\<exists>e. journal_events sha t = journal_events sha s @ [e] \<and>
        ce_prev_hash e = chain_head ce_record_hash (JStr zero_hash) (journal_events sha s) \<and>
        ce_record_hash e = record_digest sha e)"
  proof (cases r)
    case (Inl err)
    with r show ?thesis by (elim append_change_cases) simp_all
  next
    case (Inr e)
    with append_reads [OF s] r obtain es where
      "read_journal sha False s = Inr es" "read_journal sha False t = Inr (es @ [e])"
      "ce_prev_hash e = last_hash es" "ce_record_hash e = record_digest sha e" by blast
    then show ?thesis by (simp add: journal_events_def chain_head_last last_hash_def)
  qed
qed

definition journal_run :: "(bytes \<Rightarrow> bytes) \<Rightarrow> change_request list \<Rightarrow> journal_file \<Rightarrow> journal_file" where
  "journal_run sha rqs file = fold (\<lambda>rq f. snd (append_change sha rq f)) rqs file"

lemma append_keeps_readable:
  assumes "newline_ended file" "read_journal sha False file = Inr es"
  shows "newline_ended (snd (append_change sha rq file)) \<and>
    (\<exists>fs. read_journal sha False (snd (append_change sha rq file)) = Inr fs)"
proof -
  obtain r file' where r: "append_change sha rq file = (r, file')" by (cases "append_change sha rq file")
  show ?thesis
  proof (cases r)
    case (Inl err)
    with r have "file' = file" by (elim append_change_cases) simp_all
    with r assms show ?thesis by simp
  next
    case (Inr e)
    with append_reads [OF assms(1), of sha rq e file'] r show ?thesis by auto
  qed
qed

lemma journal_run_readable:
  "newline_ended file \<Longrightarrow> read_journal sha False file = Inr es \<Longrightarrow>
     (append_step sha)\<^sup>*\<^sup>* file (journal_run sha rqs file) \<and> newline_ended (journal_run sha rqs file) \<and>
     (\<exists>fs. read_journal sha False (journal_run sha rqs file) = Inr fs)"
  unfolding journal_run_def
proof (induction rqs arbitrary: es "file")
  case (Cons rq rqs)
  let ?f = "snd (append_change sha rq file)"
  from append_keeps_readable [OF Cons.prems] obtain fs where
    f: "newline_ended ?f" "read_journal sha False ?f = Inr fs" by blast
  have "append_step sha file ?f" using Cons.prems(1) by (auto simp: append_step_def)
  with Cons.IH [OF f] show ?case by (auto intro: converse_rtranclp_into_rtranclp)
qed simp

text \<open>The journal is append-only and always readable: from a missing file, or any readable one that ends
  with a newline, every sequence of append calls leaves a file that reads back without recovery, whose
  events extend the earlier ones and form one hash chain from the zero hash.\<close>

theorem journal_append_only:
  assumes "newline_ended file" "read_journal sha False file = Inr es"
    and "chained ce_prev_hash ce_record_hash (record_digest sha) (JStr zero_hash) es"
  shows "\<exists>fs. read_journal sha False (journal_run sha rqs file) = Inr (es @ fs) \<and>
    chained ce_prev_hash ce_record_hash (record_digest sha) (JStr zero_hash) (es @ fs)"
proof -
  from journal_run_readable [OF assms(1,2), of rqs] obtain gs where
    run: "(append_step sha)\<^sup>*\<^sup>* file (journal_run sha rqs file)" and
    gs: "read_journal sha False (journal_run sha rqs file) = Inr gs" by blast
  have es: "journal_events sha file = es" using assms(2) by (simp add: journal_events_def)
  from journal.run_extends [OF run] journal.run_chained [OF run] gs assms(3) es show ?thesis
    by (auto simp: journal_events_def)
qed

text \<open>C22: A crash during an append is undone: whatever part of the event's line reached the file, recovery
  keeps all earlier events and restores the file to what it was before the append.\<close>

theorem torn_append_recovers:
  assumes "ends_nl raw" "append_change sha rq (Some raw) = (Inr e, Some full)"
    and "length raw \<le> k" "k < length full"
  shows "\<exists>es. read_journal sha False (Some raw) = Inr es \<and>
    recover_journal sha (Some (take k full)) =
      (Inr \<lparr>jr_recovered = (length raw < k), jr_events = length es, jr_last_hash = last_hash es\<rparr>, Some raw)"
  using assms(2)
proof (cases rule: append_change_cases)
  case (appended es p b a f)
  let ?t = "take (k - length raw) (event_line f)"
  from appended have full: "full = raw @ event_line f" by (simp add: ensure_header_def)
  with assms(3) have cut: "take k full = raw @ ?t" by simp
  from full assms(3,4) have k: "k - length raw < length (event_line f)" by simp
  show ?thesis
  proof (cases "?t = []")
    case True
    then have "k = length raw" using assms(3) event_line_props(5) [of f] by auto
    moreover have "read_journal sha True (Some raw) = Inr es"
    proof -
      from assms(1) obtain header ls where ls: "lines_keep raw = header # ls"
        by (cases "lines_keep raw") (auto simp: ends_nl_def)
      with appended(2) read_lines_prefix [of sha 1 ls "[]" es True "[]"] show ?thesis
        by (auto simp: read_journal_def split: option.splits if_splits)
    qed
    ultimately show ?thesis using True cut appended(2) assms(1)
      by (simp add: recover_journal_def Let_def)
  next
    case False
    note t = take_event_line [OF k]
    have "read_journal sha True (Some (raw @ ?t)) = Inr es"
      using read_torn [OF assms(1) appended(2) t False] .
    moreover have "last ?t \<noteq> CHR 0x0A" using t(1) last_in_set [OF False] by metis
    then have "\<not> ends_nl (raw @ ?t)" using False
      unfolding ends_nl_def last_append if_not_P [OF False] by blast
    moreover have "length raw < k" using False by auto
    ultimately show ?thesis using cut appended(2) drop_partial_line_torn [OF assms(1) t(1)] False
      by (simp add: recover_journal_def Let_def)
  qed
qed simp

section \<open>A header without its newline\<close>

lemma read_bare_header: "read_journal sha recover (Some (dumps JOURNAL_HEADER)) = Inr []"
proof -
  have "lines_keep (dumps JOURNAL_HEADER) = [dumps JOURNAL_HEADER]"
    using header_line_props by (intro lines_keep_tail)
  moreover have "loads (dumps JOURNAL_HEADER) = Some JOURNAL_HEADER"
    using loads_dumps [OF wf_header] by (simp only: norm_header)
  ultimately show ?thesis by (simp add: read_journal_def)
qed

lemma append_to_readable:
  assumes "read_journal sha False file = Inr es" "cr_event_type rq \<in> set CHANGE_TYPES"
    and "check_path (cr_path rq) = Inr p" "check_sha (cr_before_sha256 rq) = Inr b"
    and "check_sha (cr_after_sha256 rq) = Inr a"
  shows "append_change sha rq file =
    (Inr (new_event sha rq p b a es), Some (ensure_header file @ event_line (new_event sha rq p b a es)))"
  using assms by (simp add: append_change_def Let_def)

text \<open>A header whose newline was lost in a crash is accepted but breaks the journal: the next valid append
  reports success, yet its line is glued to the header and every later read raises \<open>header_invalid\<close>;
  and recovering such a file empties it, after which every read raises \<open>header_missing\<close>.\<close>

theorem bare_header_breaks_the_journal:
  assumes "cr_event_type rq \<in> set CHANGE_TYPES" "check_path (cr_path rq) = Inr p"
    and "check_sha (cr_before_sha256 rq) = Inr b" "check_sha (cr_after_sha256 rq) = Inr a"
  shows "(\<exists>e file. append_change sha rq (Some (dumps JOURNAL_HEADER)) = (Inr e, file) \<and>
      (\<forall>recover. read_journal sha recover file = Inl Header_invalid)) \<and>
    snd (recover_journal sha (Some (dumps JOURNAL_HEADER))) = Some [] \<and>
    (\<forall>recover. read_journal sha recover (Some []) = Inl Header_missing)"
proof -
  let ?e = "new_event sha rq p b a []"
  let ?new = "dumps JOURNAL_HEADER @ event_line ?e"
  have append: "append_change sha rq (Some (dumps JOURNAL_HEADER)) = (Inr ?e, Some ?new)"
    using append_to_readable [OF read_bare_header assms] by (simp add: ensure_header_def)
  obtain t where t: "event_line ?e = CHR ''{'' # t" using event_line_props(5) by blast
  have "lines_keep ?new = lines_keep ((dumps JOURNAL_HEADER @ change_to_json ?e) @ CHR 0x0A # [])"
    by (simp add: event_line_def)
  also have "\<dots> = [?new]"
    by (subst lines_keep_line) (use header_line_props event_line_props(1,2) [of ?e] in \<open>auto simp: event_line_def\<close>)
  finally have "lines_keep ?new = [?new]" .
  moreover have "loads ?new = None" by (simp only: t loads_dumps_glued [OF wf_header])
  ultimately have "read_journal sha recover (Some ?new) = Inl Header_invalid" for recover
    by (simp add: read_journal_def)
  moreover have "drop_partial_line (dumps JOURNAL_HEADER) = []"
    using header_line_props(1) by (auto simp: drop_partial_line_def)
  moreover have "\<not> ends_nl (dumps JOURNAL_HEADER)"
    using header_line_props(1) by (auto simp: ends_nl_def dest: last_in_set)
  ultimately show ?thesis
    using append header_line_props(4)
    by (auto simp: recover_journal_def read_bare_header Let_def) (auto simp: read_journal_def)
qed

section \<open>Paths\<close>

definition to_backslashes :: "string \<Rightarrow> string" where
  "to_backslashes s = map (\<lambda>c. if c = CHR ''/'' then CHR 0x5C else c) s"

text \<open>The containment check looks at the path before backslashes become slashes: every path with a slash,
  absolute or full of \<open>..\<close> parts, is stored when it is spelled with backslashes; a path without
  backslashes is stored only if it is relative and has no \<open>..\<close> part.\<close>

theorem path_check_precedes_slash_normalisation:
  assumes "CHR 0x5C \<notin> set q"
  shows "(CHR ''/'' \<in> set q \<longrightarrow> check_path (to_backslashes q) = Inr q) \<and>
    (check_path q = Inr p \<longrightarrow> p = q \<and> q \<noteq> [] \<and> \<not> is_absolute q \<and> ''..'' \<notin> set (path_parts q))"
proof (intro conjI impI)
  assume slash: "CHR ''/'' \<in> set q"
  have no: "CHR ''/'' \<notin> set (to_backslashes q)" and bs: "CHR 0x5C \<in> set (to_backslashes q)"
    using slash by (auto simp: to_backslashes_def image_iff)
  have "posix_slashes (to_backslashes q) = q"
    using assms by (induction q) (auto simp: posix_slashes_def to_backslashes_def)
  moreover have "to_backslashes q \<noteq> []" using bs by auto
  moreover have "\<not> is_absolute (to_backslashes q)"
    using no by (cases "to_backslashes q") (auto simp: is_absolute_def)
  moreover have "''..'' \<noteq> to_backslashes q"
  proof
    assume h: "''..'' = to_backslashes q"
    from bs have "CHR 0x5C \<in> set ''..''" by (simp only: h)
    then show False by simp
  qed
  ultimately show "check_path (to_backslashes q) = Inr q"
    using split_on_absent [OF no] by (simp add: check_path_def path_parts_def)
next
  assume "check_path q = Inr p"
  moreover have "posix_slashes q = q"
    using assms by (induction q) (auto simp: posix_slashes_def)
  ultimately show "p = q" "q \<noteq> []" "\<not> is_absolute q" "''..'' \<notin> set (path_parts q)"
    by (auto simp: check_path_def split: if_splits)
qed

theorem path_check_precedes_slash_normalisation_witness:
  "CHR 0x5C \<notin> set ''../../etc/x'' \<and> check_path (to_backslashes ''../../etc/x'') = Inr ''../../etc/x''"
  using path_check_precedes_slash_normalisation [of "''../../etc/x''"] by simp

section \<open>Examples\<close>

definition example_request :: change_request where
  "example_request =
     \<lparr>cr_event_type = ''update'', cr_path = ''a/b.py'', cr_generation = ''g1'', cr_commit = None,
      cr_before_sha256 = None, cr_after_sha256 = Some zero_hash\<rparr>"

lemma example_request_accepted:
  "cr_event_type example_request \<in> set CHANGE_TYPES"
  "check_path (cr_path example_request) = Inr ''a/b.py''"
  "check_sha (cr_before_sha256 example_request) = Inr None"
  "check_sha (cr_after_sha256 example_request) = Inr (Some zero_hash)"
proof -
  show "check_sha (cr_after_sha256 example_request) = Inr (Some zero_hash)"
    by code_simp
qed (simp_all add: example_request_def CHANGE_TYPES_def check_path_def check_sha_def is_absolute_def
  path_parts_def posix_slashes_def)

lemma example_append:
  "read_journal sha False file = Inr es \<Longrightarrow>
     \<exists>e. append_change sha example_request file = (Inr e, Some (ensure_header file @ event_line e))"
  using append_to_readable [OF _ example_request_accepted] by blast

theorem journal_append_only_witness:
  "\<exists>e es. append_change id example_request None = (Inr e, journal_run id [example_request] None) \<and>
     read_journal id False (journal_run id [example_request] None) = Inr es \<and>
     chained ce_prev_hash ce_record_hash (record_digest id) (JStr zero_hash) es"
proof -
  have empty: "newline_ended None" "read_journal id False None = Inr []"
    by (simp_all add: newline_ended_def read_journal_def)
  from example_append [OF empty(2)] journal_append_only [OF empty, of "[example_request]"]
  show ?thesis by (auto simp: journal_run_def)
qed

theorem torn_append_recovers_witness:
  "\<exists>e full. append_change id example_request (Some header_line) = (Inr e, Some full) \<and>
     snd (recover_journal id (Some (take (length header_line + 3) full))) = Some header_line"
proof -
  from example_append [OF read_header [of id False]] obtain e where
    e: "append_change id example_request (Some header_line) = (Inr e, Some (header_line @ event_line e))"
    by (auto simp: ensure_header_def)
  have "length (event_line e) > 3"
  proof -
    obtain r where "change_to_json e = CHR ''{'' # CHR 0x22 # CHR ''a'' # r"
      by (auto simp: change_to_json_def change_fields_def quote_def escape_char_def)
    then show ?thesis by (simp add: event_line_def)
  qed
  then have "snd (recover_journal id (Some (take (length header_line + 3) (header_line @ event_line e)))) = Some header_line"
    using torn_append_recovers [OF header_line_props(3) e, of "length header_line + 3"] by auto
  with e show ?thesis by blast
qed

theorem bare_header_breaks_the_journal_witness:
  "\<exists>e file. append_change id example_request (Some (dumps JOURNAL_HEADER)) = (Inr e, file) \<and>
     read_journal id False file = Inl Header_invalid"
  using bare_header_breaks_the_journal [OF example_request_accepted, of id] by blast

end
