(* ===== verification/Ipc.thy ===== *)
theory Ipc
  imports Json
begin

text \<open>
  \<open>simplicio_fast/ipc.py\<close>: bounded frames for a stream transport, their encoder, the strict decoder of
  one frame and the incremental decoder of a stream.  Arguments have the types the annotations give
  (the \<open>isinstance\<close> guards are for callers of other types).
\<close>

section \<open>Frames and limits\<close>

definition IPC_SCHEMA :: string where "IPC_SCHEMA = ''simplicio.fast.ipc/v1''"
definition IPC_MAGIC :: bytes where "IPC_MAGIC = encode ''SFASTIPC''"
definition ipc_header_size :: nat where "ipc_header_size = 16"
definition MAX_HEADER_BYTES :: int where "MAX_HEADER_BYTES = 4 * 1024"
definition MAX_PAYLOAD_BYTES :: int where "MAX_PAYLOAD_BYTES = 1024 * 1024"
definition MAX_FRAME_BYTES :: int where
  "MAX_FRAME_BYTES = int ipc_header_size + MAX_HEADER_BYTES + MAX_PAYLOAD_BYTES"

definition METADATA_KEYS :: "string set" where
  "METADATA_KEYS = {''schema'', ''request_id'', ''operation'', ''generation'', ''payload_sha256''}"

text \<open>\<open>Struct_error\<close> and \<open>Compare_error\<close> are the exceptions of \<open>struct.pack\<close> for a length of 33 bits or
  more and of \<open>hmac.compare_digest\<close> for text outside ASCII.\<close>

datatype ipc_error =
    Limits_not_positive
  | Invalid_metadata
  | Payload_too_large
  | Header_too_large
  | Frame_too_large
  | Truncated_frame
  | Invalid_magic
  | Trailing_bytes
  | Invalid_header
  | Unsupported_schema
  | Payload_digest_mismatch
  | Struct_error
  | Compare_error

record ipc_limits =
  max_header_bytes :: int
  max_payload_bytes :: int
  max_frame_bytes :: int

definition default_limits :: ipc_limits where
  "default_limits = \<lparr>max_header_bytes = MAX_HEADER_BYTES, max_payload_bytes = MAX_PAYLOAD_BYTES,
     max_frame_bytes = MAX_FRAME_BYTES\<rparr>"

definition positive_limits :: "ipc_limits \<Rightarrow> bool" where
  "positive_limits lim \<longleftrightarrow> max_header_bytes lim \<ge> 1 \<and> max_payload_bytes lim \<ge> 1 \<and> max_frame_bytes lim \<ge> 1"

record ipc_frame =
  request_id :: string
  operation :: string
  generation :: string
  payload :: bytes

definition text_ok :: "string \<Rightarrow> nat \<Rightarrow> bool" where
  "text_ok value limit \<longleftrightarrow> value \<noteq> [] \<and> length (encode value) \<le> limit"

definition make_frame :: "string \<Rightarrow> string \<Rightarrow> string \<Rightarrow> bytes \<Rightarrow> ipc_error + ipc_frame" where
  "make_frame r p g data =
     (if text_ok r 128 \<and> text_ok p 128 \<and> text_ok g 128
      then Inr \<lparr>request_id = r, operation = p, generation = g, payload = data\<rparr>
      else Inl Invalid_metadata)"

definition pack_header :: "nat \<Rightarrow> nat \<Rightarrow> bytes" where
  "pack_header header_length payload_length = IPC_MAGIC @ be_bytes 4 header_length @ be_bytes 4 payload_length"

definition unpack_header :: "bytes \<Rightarrow> bytes \<times> nat \<times> nat" where
  "unpack_header b = (slice 0 8 b, be_nat (slice 8 12 b), be_nat (slice 12 16 b))"

section \<open>Encoding and decoding one frame\<close>

definition frame_metadata :: "(bytes \<Rightarrow> bytes) \<Rightarrow> ipc_frame \<Rightarrow> json" where
  "frame_metadata sha f =
     JObj [(''generation'', JStr (generation f)), (''operation'', JStr (operation f)),
           (''payload_sha256'', JStr (hexdigest sha (payload f))), (''request_id'', JStr (request_id f)),
           (''schema'', JStr IPC_SCHEMA)]"

definition encode_frame :: "(bytes \<Rightarrow> bytes) \<Rightarrow> ipc_limits \<Rightarrow> ipc_frame \<Rightarrow> ipc_error + bytes" where
  "encode_frame sha lim f =
     (if \<not> positive_limits lim then Inl Limits_not_positive
      else if int (length (payload f)) > max_payload_bytes lim then Inl Payload_too_large
      else
        (let header = canonical (frame_metadata sha f);
             total = ipc_header_size + length header + length (payload f) in
         if int (length header) > max_header_bytes lim then Inl Header_too_large
         else if int total > max_frame_bytes lim then Inl Frame_too_large
         else if length header \<ge> 2 ^ 32 \<or> length (payload f) \<ge> 2 ^ 32 then Inl Struct_error
         else Inr (pack_header (length header) (length (payload f)) @ header @ payload f)))"

definition text_field :: "(string \<times> json) list \<Rightarrow> string \<Rightarrow> string" where
  "text_field kvs k = (case map_of kvs k of Some (JStr s) \<Rightarrow> s | _ \<Rightarrow> [])"

definition check_metadata_frame ::
  "(bytes \<Rightarrow> bytes) \<Rightarrow> (string \<times> json) list \<Rightarrow> bytes \<Rightarrow> ipc_error + ipc_frame" where
  "check_metadata_frame sha kvs data =
     (if map_of kvs ''schema'' \<noteq> Some (JStr IPC_SCHEMA) then Inl Unsupported_schema
      else
        (case map_of kvs ''payload_sha256'' of
           Some (JStr digest) \<Rightarrow>
             if \<not> list_all (\<lambda>c. (of_char c :: nat) < 128) digest then Inl Compare_error
             else if digest \<noteq> hexdigest sha data then Inl Payload_digest_mismatch
             else make_frame (text_field kvs ''request_id'') (text_field kvs ''operation'')
                    (text_field kvs ''generation'') data
         | _ \<Rightarrow> Inl Payload_digest_mismatch))"

definition decode_frame :: "(bytes \<Rightarrow> bytes) \<Rightarrow> ipc_limits \<Rightarrow> bytes \<Rightarrow> ipc_error + ipc_frame" where
  "decode_frame sha lim data =
     (if \<not> positive_limits lim then Inl Limits_not_positive
      else if int (length data) > max_frame_bytes lim then Inl Frame_too_large
      else if length data < ipc_header_size then Inl Truncated_frame
      else
        (let (magic, header_length, payload_length) = unpack_header data;
             expected = ipc_header_size + header_length + payload_length in
         if magic \<noteq> IPC_MAGIC then Inl Invalid_magic
         else if int header_length > max_header_bytes lim then Inl Header_too_large
         else if int payload_length > max_payload_bytes lim then Inl Payload_too_large
         else if length data < expected then Inl Truncated_frame
         else if length data > expected then Inl Trailing_bytes
         else
           (case loads (decode (slice ipc_header_size (ipc_header_size + header_length) data)) of
              None \<Rightarrow> Inl Invalid_header
            | Some (JObj kvs) \<Rightarrow>
                if set (keys kvs) \<noteq> METADATA_KEYS then Inl Invalid_metadata
                else check_metadata_frame sha kvs (slice (ipc_header_size + header_length) expected data)
            | Some _ \<Rightarrow> Inl Invalid_metadata)))"

section \<open>The stream decoder\<close>

record ipc_decoder =
  dec_limits :: ipc_limits
  dec_buffer :: bytes

definition new_decoder :: "ipc_limits \<Rightarrow> ipc_error + ipc_decoder" where
  "new_decoder lim =
     (if positive_limits lim then Inr \<lparr>dec_limits = lim, dec_buffer = []\<rparr> else Inl Limits_not_positive)"

definition buffered_bytes :: "ipc_decoder \<Rightarrow> nat" where
  "buffered_bytes d = length (dec_buffer d)"

function feed_loop ::
  "(bytes \<Rightarrow> bytes) \<Rightarrow> ipc_limits \<Rightarrow> bytes \<Rightarrow> ipc_frame list \<Rightarrow> (ipc_error + ipc_frame list) \<times> bytes" where
  "feed_loop sha lim buffer frames =
     (if length buffer < ipc_header_size then (Inr frames, buffer)
      else
        (let (magic, header_length, payload_length) = unpack_header buffer;
             expected = ipc_header_size + header_length + payload_length in
         if magic \<noteq> IPC_MAGIC then (Inl Invalid_magic, buffer)
         else if int header_length > max_header_bytes lim then (Inl Header_too_large, buffer)
         else if int payload_length > max_payload_bytes lim then (Inl Payload_too_large, buffer)
         else if int expected > max_frame_bytes lim then (Inl Frame_too_large, buffer)
         else if length buffer < expected then (Inr frames, buffer)
         else
           (case decode_frame sha lim (take expected buffer) of
              Inl err \<Rightarrow> (Inl err, drop expected buffer)
            | Inr f \<Rightarrow> feed_loop sha lim (drop expected buffer) (frames @ [f]))))"
  by pat_completeness auto

termination
  by (relation "measure (\<lambda>(sha, lim, buffer, frames). length buffer)") (auto simp: ipc_header_size_def)

declare feed_loop.simps [simp del]

definition feed ::
  "(bytes \<Rightarrow> bytes) \<Rightarrow> bytes \<Rightarrow> ipc_decoder \<Rightarrow> (ipc_error + ipc_frame list) \<times> ipc_decoder" where
  "feed sha data d =
     (let (r, buffer) = feed_loop sha (dec_limits d) (dec_buffer d @ data) []
      in (r, d\<lparr>dec_buffer := buffer\<rparr>))"

definition finish :: "ipc_decoder \<Rightarrow> ipc_error + unit" where
  "finish d = (if dec_buffer d \<noteq> [] then Inl Truncated_frame else Inr ())"

section \<open>Round trip of one frame\<close>

definition frame_ok :: "ipc_frame \<Rightarrow> bool" where
  "frame_ok f \<longleftrightarrow> text_ok (request_id f) 128 \<and> text_ok (operation f) 128 \<and> text_ok (generation f) 128"

lemma encode_frame_parts:
  assumes "encode_frame sha lim f = Inr data"
  defines "h \<equiv> canonical (frame_metadata sha f)"
  shows "data = pack_header (length h) (length (payload f)) @ h @ payload f"
    and "int (length h) \<le> max_header_bytes lim" "int (length (payload f)) \<le> max_payload_bytes lim"
    and "int (ipc_header_size + length h + length (payload f)) \<le> max_frame_bytes lim"
    and "length h < 2 ^ 32" "length (payload f) < 2 ^ 32" "positive_limits lim"
  using assms by (auto simp: encode_frame_def Let_def split: if_splits)

lemma length_pack_header [simp]: "length (pack_header a b) = ipc_header_size"
  by (simp add: pack_header_def IPC_MAGIC_def ipc_header_size_def)

lemma slice_here: "length xs = i \<Longrightarrow> j = i + length ys \<Longrightarrow> slice i j (xs @ ys @ zs) = ys"
  by (simp add: slice_def)

lemma unpack_pack_header:
  assumes "a < 2 ^ 32" "b < 2 ^ 32"
  shows "unpack_header (pack_header a b @ r) = (IPC_MAGIC, a, b)"
proof -
  have m: "length IPC_MAGIC = 8" by (simp add: IPC_MAGIC_def)
  let ?b = "IPC_MAGIC @ be_bytes 4 a @ be_bytes 4 b @ r"
  have "slice 0 8 ?b = IPC_MAGIC" using m slice_here [of "[]" 0 8 IPC_MAGIC] by simp
  moreover have "slice 8 12 ?b = be_bytes 4 a" using m by (intro slice_here) simp_all
  moreover have "slice 12 16 ?b = be_bytes 4 b"
    using m slice_here [of "IPC_MAGIC @ be_bytes 4 a" 12 16 "be_bytes 4 b" r] by simp
  moreover have "be_nat (be_bytes 4 a) = a" "be_nat (be_bytes 4 b) = b"
    using assms by (auto intro!: be_nat_be_bytes)
  ultimately show ?thesis by (simp add: unpack_header_def pack_header_def)
qed

lemma hexdigest_ascii: "list_all (\<lambda>c. (of_char c :: nat) < 128) (hexdigest sha b)"
proof -
  have "(of_char c :: nat) < 128" if "is_hex_char c" for c
    using that by (auto simp: is_hex_char_def)
  then show ?thesis
    using list_all_hex [of "sha b"] by (auto simp: hexdigest_def list_all_iff)
qed

lemma check_own_metadata:
  assumes "frame_ok f"
  shows "\<exists>kvs. loads (decode (canonical (frame_metadata sha f))) = Some (JObj kvs) \<and>
    set (keys kvs) = METADATA_KEYS \<and> check_metadata_frame sha kvs (payload f) = Inr f"
proof -
  define kvs where "kvs =
    [(''generation'', JStr (generation f)), (''operation'', JStr (operation f)),
     (''payload_sha256'', JStr (hexdigest sha (payload f))), (''request_id'', JStr (request_id f)),
     (''schema'', JStr IPC_SCHEMA)]"
  have d: "distinct (map fst kvs)" "\<forall>(k, v) \<in> set kvs. plain v" by (simp_all add: kvs_def)
  have vals: "map_of kvs ''schema'' = Some (JStr IPC_SCHEMA)"
      "map_of kvs ''payload_sha256'' = Some (JStr (hexdigest sha (payload f)))"
      "map_of kvs ''request_id'' = Some (JStr (request_id f))"
      "map_of kvs ''operation'' = Some (JStr (operation f))"
      "map_of kvs ''generation'' = Some (JStr (generation f))" by (simp_all add: kvs_def)
  have ks: "set (keys kvs) = METADATA_KEYS" by (auto simp: kvs_def METADATA_KEYS_def)
  have "frame_metadata sha f = JObj kvs" by (simp add: frame_metadata_def kvs_def)
  then have "loads (decode (canonical (frame_metadata sha f))) = Some (JObj (sort_key fst kvs))"
    by (simp only: canonical_def decode_encode loads_flat(1) [OF d])
  moreover have "set (keys (sort_key fst kvs)) = METADATA_KEYS" using ks by simp
  moreover have "check_metadata_frame sha (sort_key fst kvs) (payload f) = Inr f"
    using assms hexdigest_ascii [of sha "payload f"]
    by (simp add: check_metadata_frame_def text_field_def map_of_sort_key_fst [OF d(1)] vals make_frame_def frame_ok_def)
  ultimately show ?thesis by blast
qed

lemma decode_encode_frame_core:
  assumes "frame_ok f" "encode_frame sha lim f = Inr wire"
  shows "decode_frame sha lim wire = Inr f"
proof -
  let ?h = "canonical (frame_metadata sha f)"
  note e = encode_frame_parts [OF assms(2)]
  from check_own_metadata [OF assms(1), of sha] obtain kvs where
    kvs: "loads (decode ?h) = Some (JObj kvs)" "set (keys kvs) = METADATA_KEYS"
      "check_metadata_frame sha kvs (payload f) = Inr f" by blast
  let ?w = "pack_header (length ?h) (length (payload f))"
  have "slice ipc_header_size (ipc_header_size + length ?h) (?w @ ?h @ payload f) = ?h"
    by (rule slice_here) simp_all
  moreover have "slice (ipc_header_size + length ?h) (ipc_header_size + length ?h + length (payload f))
      (?w @ ?h @ payload f) = payload f"
    using slice_here [of "?w @ ?h" "ipc_header_size + length ?h" _ "payload f" "[]"] by simp
  moreover have "int (length wire) \<le> max_frame_bytes lim" using e(1,4) by simp
  ultimately show ?thesis
    using e kvs unpack_pack_header [OF e(5,6), of "?h @ payload f"]
    by (simp add: decode_frame_def)
qed

text \<open>A frame survives the wire: whatever the limits, a frame that is encoded within them is decoded by
  the same limits to itself.\<close>

theorem decode_encode_frame:
  assumes "make_frame r p g data = Inr f" "encode_frame sha lim f = Inr wire"
  shows "decode_frame sha lim wire = Inr f"
proof -
  have "frame_ok f"
    using assms(1) by (auto simp: make_frame_def frame_ok_def split: if_splits)
  then show ?thesis using assms(2) by (rule decode_encode_frame_core)
qed

section \<open>Streams\<close>

definition wire_of :: "(bytes \<Rightarrow> bytes) \<Rightarrow> ipc_limits \<Rightarrow> ipc_frame \<Rightarrow> bytes" where
  "wire_of sha lim f = (case encode_frame sha lim f of Inl _ \<Rightarrow> [] | Inr b \<Rightarrow> b)"

definition sendable :: "(bytes \<Rightarrow> bytes) \<Rightarrow> ipc_limits \<Rightarrow> ipc_frame \<Rightarrow> bool" where
  "sendable sha lim f \<longleftrightarrow> frame_ok f \<and> (\<exists>b. encode_frame sha lim f = Inr b)"

lemma sendable_decodes:
  "sendable sha lim f \<Longrightarrow> decode_frame sha lim (wire_of sha lim f) = Inr f"
  by (auto simp: sendable_def wire_of_def make_frame_def frame_ok_def
      intro!: decode_encode_frame_core)

text \<open>What the loop sees of a buffer that starts with a frame, or with part of one.\<close>

lemma feed_loop_frame:
  assumes "sendable sha lim f"
  shows "feed_loop sha lim (wire_of sha lim f @ rest) fs = feed_loop sha lim rest (fs @ [f])"
proof -
  from assms obtain b where b: "encode_frame sha lim f = Inr b" by (auto simp: sendable_def)
  let ?h = "canonical (frame_metadata sha f)"
  note e = encode_frame_parts [OF b]
  have w: "wire_of sha lim f = b" using b by (simp add: wire_of_def)
  have len: "length b = ipc_header_size + length ?h + length (payload f)" using e(1) by simp
  have "unpack_header (b @ rest) = (IPC_MAGIC, length ?h, length (payload f))"
    using unpack_pack_header [OF e(5,6), of "?h @ payload f @ rest"] e(1) by simp
  moreover have "decode_frame sha lim b = Inr f" using sendable_decodes [OF assms] w by simp
  ultimately show ?thesis
    using e(2-4) len by (subst feed_loop.simps) (simp add: w)
qed

lemma feed_loop_partial:
  assumes "sendable sha lim f" "wire_of sha lim f = part @ left" "left \<noteq> []"
  shows "feed_loop sha lim part fs = (Inr fs, part)"
proof (cases "length part < ipc_header_size")
  case True
  then show ?thesis by (subst feed_loop.simps) simp
next
  case False
  from assms obtain b where b: "encode_frame sha lim f = Inr b" by (auto simp: sendable_def)
  let ?h = "canonical (frame_metadata sha f)"
  let ?w = "pack_header (length ?h) (length (payload f))"
  note e = encode_frame_parts [OF b]
  have w: "wire_of sha lim f = b" using b by (simp add: wire_of_def)
  have "take ipc_header_size part = take ipc_header_size (part @ left)" using False by simp
  also have "part @ left = ?w @ ?h @ payload f" using assms(2) w e(1) by (simp only:)
  also have "take ipc_header_size \<dots> = ?w" by simp
  finally have "part = ?w @ drop ipc_header_size part" by (metis append_take_drop_id)
  then have u: "unpack_header part = (IPC_MAGIC, length ?h, length (payload f))"
    using unpack_pack_header [OF e(5,6), of "drop ipc_header_size part"] by simp
  have "length part + length left = ipc_header_size + length ?h + length (payload f)"
    using assms(2) w e(1) by (metis length_append length_pack_header add.assoc)
  then have "length part < ipc_header_size + length ?h + length (payload f)"
    using assms(3) by (cases left) simp_all
  with u e(2-4) False show ?thesis by (subst feed_loop.simps) simp
qed

definition drained :: "(bytes \<Rightarrow> bytes) \<Rightarrow> ipc_limits \<Rightarrow> bytes \<Rightarrow> ipc_frame list \<Rightarrow> bool" where
  "drained sha lim b fs \<longleftrightarrow> fs = [] \<or> length b < length (wire_of sha lim (hd fs))"

lemma feed_loop_stream:
  assumes "\<forall>f \<in> set fs. sendable sha lim f" "b @ rest = concat (map (wire_of sha lim) fs)"
  shows "\<exists>gs hs b'. fs = gs @ hs \<and> feed_loop sha lim b done = (Inr (done @ gs), b') \<and>
    b' @ rest = concat (map (wire_of sha lim) hs) \<and> drained sha lim b' hs"
  using assms
proof (induction fs arbitrary: b "done")
  case Nil
  then show ?case by (subst feed_loop.simps) (simp add: ipc_header_size_def drained_def)
next
  case (Cons f fs)
  let ?w = "wire_of sha lim f"
  from Cons.prems have f: "sendable sha lim f" and eq: "b @ rest = ?w @ concat (map (wire_of sha lim) fs)" by auto
  show ?case
  proof (cases "length b < length ?w")
    case True
    then obtain us where us: "b @ us = ?w" using eq by (auto simp: append_eq_append_conv2)
    with True have "?w = b @ us" "us \<noteq> []" by auto
    from feed_loop_partial [OF f this, of "done"] eq show ?thesis
      by (intro exI [of _ "[]"] exI [of _ "f # fs"] exI [of _ b]) (simp add: drained_def True)
  next
    case False
    then have long: "length ?w \<le> length b" by simp
    have "take (length ?w) (b @ rest) = ?w" "drop (length ?w) (b @ rest) = concat (map (wire_of sha lim) fs)"
      by (simp_all only: eq) simp_all
    with long have "take (length ?w) b = ?w" "drop (length ?w) b @ rest = concat (map (wire_of sha lim) fs)"
      by simp_all
    then have "b = ?w @ drop (length ?w) b" "drop (length ?w) b @ rest = concat (map (wire_of sha lim) fs)"
      by (metis append_take_drop_id, simp)
    then obtain b2 where b2: "b = ?w @ b2" "b2 @ rest = concat (map (wire_of sha lim) fs)" by blast
    from Cons.IH [OF _ b2(2), of "done @ [f]"] Cons.prems(1) obtain gs hs b' where
      "fs = gs @ hs" "feed_loop sha lim b2 (done @ [f]) = (Inr (done @ f # gs), b')"
      "b' @ rest = concat (map (wire_of sha lim) hs)" "drained sha lim b' hs" by auto
    with feed_loop_frame [OF f, of b2 "done"] b2(1) show ?thesis
      by (intro exI [of _ "f # gs"] exI [of _ hs] exI [of _ b']) simp
  qed
qed

text \<open>Feeding the chunks of a transport one after the other.\<close>

fun feed_all :: "(bytes \<Rightarrow> bytes) \<Rightarrow> bytes list \<Rightarrow> ipc_decoder \<Rightarrow> (ipc_error + ipc_frame list) \<times> ipc_decoder" where
  "feed_all sha [] d = (Inr [], d)"
| "feed_all sha (c # cs) d =
     (case feed sha c d of
        (Inl err, d') \<Rightarrow> (Inl err, d')
      | (Inr fs, d') \<Rightarrow>
          (case feed_all sha cs d' of
             (Inl err, d'') \<Rightarrow> (Inl err, d'')
           | (Inr gs, d'') \<Rightarrow> (Inr (fs @ gs), d'')))"

lemma feed_all_stream:
  "\<forall>f \<in> set fs. sendable sha (dec_limits d) f \<Longrightarrow>
     dec_buffer d @ concat cs @ rest = concat (map (wire_of sha (dec_limits d)) fs) \<Longrightarrow>
     drained sha (dec_limits d) (dec_buffer d) fs \<Longrightarrow>
     \<exists>gs hs b'. fs = gs @ hs \<and> feed_all sha cs d = (Inr gs, d\<lparr>dec_buffer := b'\<rparr>) \<and>
       b' @ rest = concat (map (wire_of sha (dec_limits d)) hs) \<and> drained sha (dec_limits d) b' hs"
proof (induction cs arbitrary: fs d)
  case Nil
  then show ?case by (intro exI [of _ "[]"] exI [of _ fs] exI [of _ "dec_buffer d"]) simp
next
  case (Cons c cs)
  have "(dec_buffer d @ c) @ (concat cs @ rest) = concat (map (wire_of sha (dec_limits d)) fs)"
    using Cons.prems(2) by simp
  from feed_loop_stream [OF Cons.prems(1) this, of "[]"] obtain g1 h1 b1 where
    one: "fs = g1 @ h1" "feed_loop sha (dec_limits d) (dec_buffer d @ c) [] = (Inr g1, b1)"
      "b1 @ concat cs @ rest = concat (map (wire_of sha (dec_limits d)) h1)"
      "drained sha (dec_limits d) b1 h1" by auto
  let ?d = "d\<lparr>dec_buffer := b1\<rparr>"
  have "\<exists>gs hs b'. h1 = gs @ hs \<and> feed_all sha cs ?d = (Inr gs, ?d\<lparr>dec_buffer := b'\<rparr>) \<and>
      b' @ rest = concat (map (wire_of sha (dec_limits ?d)) hs) \<and> drained sha (dec_limits ?d) b' hs"
    using Cons.prems(1) one by (intro Cons.IH) auto
  then obtain gs hs b' where two: "h1 = gs @ hs" "feed_all sha cs ?d = (Inr gs, ?d\<lparr>dec_buffer := b'\<rparr>)"
      "b' @ rest = concat (map (wire_of sha (dec_limits d)) hs)" "drained sha (dec_limits d) b' hs" by auto
  from one two show ?case
    by (intro exI [of _ "g1 @ gs"] exI [of _ hs] exI [of _ b']) (simp add: feed_def Let_def)
qed

lemma wire_of_nonempty: "sendable sha lim f \<Longrightarrow> wire_of sha lim f \<noteq> []"
proof -
  assume "sendable sha lim f"
  then obtain b where b: "encode_frame sha lim f = Inr b" by (auto simp: sendable_def)
  from encode_frame_parts(1) [OF b] have "length b \<ge> ipc_header_size" by simp
  with b show ?thesis by (auto simp: wire_of_def ipc_header_size_def)
qed

text \<open>C32: The stream decoder does not depend on how the transport cuts the stream: fed the chunks of any
  cutting of a sequence of encoded frames, it returns exactly those frames in order and ends with an
  empty buffer, so \<open>finish\<close> succeeds.\<close>

theorem stream_decodes_to_its_frames:
  assumes "new_decoder lim = Inr d" "\<forall>f \<in> set fs. sendable sha lim f"
    and "concat chunks = concat (map (wire_of sha lim) fs)"
  shows "feed_all sha chunks d = (Inr fs, d) \<and> finish d = Inr ()"
proof -
  have d: "d = \<lparr>dec_limits = lim, dec_buffer = []\<rparr>"
    using assms(1) by (auto simp: new_decoder_def split: if_splits)
  have "drained sha lim [] fs"
    using assms(2) wire_of_nonempty [of sha lim "hd fs"] by (cases fs) (auto simp: drained_def)
  then obtain gs hs b' where s: "fs = gs @ hs" "feed_all sha chunks d = (Inr gs, d\<lparr>dec_buffer := b'\<rparr>)"
      "b' = concat (map (wire_of sha lim) hs)" "drained sha lim b' hs"
    using feed_all_stream [of fs sha d chunks "[]"] assms(2,3) d by auto
  have "hs = []"
    using s(3,4) by (cases hs) (simp_all add: drained_def)
  with s d show ?thesis by (simp add: finish_def)
qed

text \<open>A frame that was complete and valid is lost when the same chunk also holds the start of a bad one:
  the call raises without returning it and it has left the buffer, although the same bytes in two chunks
  deliver it.\<close>

theorem bad_frame_drops_the_good_ones:
  assumes "new_decoder lim = Inr d" "sendable sha lim f"
    and "ipc_header_size \<le> length bad" "take 8 bad \<noteq> IPC_MAGIC"
  shows "feed sha (wire_of sha lim f @ bad) d = (Inl Invalid_magic, d\<lparr>dec_buffer := bad\<rparr>) \<and>
    feed sha (wire_of sha lim f) d = (Inr [f], d)"
proof -
  have d: "d = \<lparr>dec_limits = lim, dec_buffer = []\<rparr>"
    using assms(1) by (auto simp: new_decoder_def split: if_splits)
  have bad: "feed_loop sha lim bad fs = (Inl Invalid_magic, bad)" for fs
    using assms(3,4) by (subst feed_loop.simps) (simp add: unpack_header_def slice_def)
  have "feed_loop sha lim [] fs = (Inr fs, [])" for fs
    by (subst feed_loop.simps) (simp add: ipc_header_size_def)
  with bad feed_loop_frame [OF assms(2), of "[]" "[]"] feed_loop_frame [OF assms(2), of bad "[]"] d
  show ?thesis by (simp add: feed_def Let_def)
qed

section \<open>Examples\<close>

definition example_frame :: ipc_frame where
  "example_frame = \<lparr>request_id = ''r'', operation = ''op'', generation = ''g'', payload = [1, 2, 3]\<rparr>"

definition fixed_digest :: "bytes \<Rightarrow> bytes" where
  "fixed_digest b = replicate 32 7"

lemma example_encodes: "\<exists>b. encode_frame fixed_digest default_limits example_frame = Inr b"
proof -
  have "length (dumps (frame_metadata fixed_digest example_frame)) < 1000" by code_simp
  then show ?thesis
    by (simp add: encode_frame_def canonical_def default_limits_def positive_limits_def MAX_HEADER_BYTES_def
        MAX_PAYLOAD_BYTES_def MAX_FRAME_BYTES_def ipc_header_size_def example_frame_def)
qed

lemma example_made: "make_frame ''r'' ''op'' ''g'' [1, 2, 3] = Inr example_frame"
  by (simp add: make_frame_def text_ok_def example_frame_def)

lemma example_sendable: "sendable fixed_digest default_limits example_frame"
  using example_encodes by (simp add: sendable_def frame_ok_def text_ok_def example_frame_def)

lemma example_decoder: "new_decoder default_limits = Inr \<lparr>dec_limits = default_limits, dec_buffer = []\<rparr>"
  by (simp add: new_decoder_def positive_limits_def default_limits_def MAX_HEADER_BYTES_def
      MAX_PAYLOAD_BYTES_def MAX_FRAME_BYTES_def)

theorem decode_encode_frame_witness:
  "\<exists>wire. encode_frame fixed_digest default_limits example_frame = Inr wire \<and>
     decode_frame fixed_digest default_limits wire = Inr example_frame"
  using example_encodes decode_encode_frame [OF example_made] by blast

theorem stream_decodes_to_its_frames_witness:
  "\<exists>w. w = wire_of fixed_digest default_limits example_frame \<and>
     fst (feed_all fixed_digest [take 20 w, drop 20 w @ take 3 w, drop 3 w]
       \<lparr>dec_limits = default_limits, dec_buffer = []\<rparr>) = Inr [example_frame, example_frame]"
proof -
  let ?w = "wire_of fixed_digest default_limits example_frame"
  have "concat [take 20 ?w, drop 20 ?w @ take 3 ?w, drop 3 ?w] =
      concat (map (wire_of fixed_digest default_limits) [example_frame, example_frame])"
    by (simp only: concat.simps list.map append_assoc append_take_drop_id append_Nil2)
       (simp only: append_assoc [symmetric] append_take_drop_id)
  from stream_decodes_to_its_frames [OF example_decoder _ this] example_sendable show ?thesis
    by (simp del: feed_all.simps)
qed

theorem bad_frame_drops_the_good_ones_witness:
  "fst (feed fixed_digest (wire_of fixed_digest default_limits example_frame @ replicate 16 0)
     \<lparr>dec_limits = default_limits, dec_buffer = []\<rparr>) = Inl Invalid_magic"
proof -
  have "take 8 (replicate 16 0) \<noteq> IPC_MAGIC" by code_simp
  then show ?thesis
    using bad_frame_drops_the_good_ones [OF example_decoder example_sendable, of "replicate 16 0"]
    by (simp add: ipc_header_size_def)
qed

end
