(* ===== verification/GenerationStore.thy ===== *)
theory GenerationStore
  imports Json
begin

text \<open>
  \<open>simplicio_fast/generation_store.py\<close>: immutable generations named by the digest of their contents,
  overlays private to a generation, slot and fence, pins with a deadline and collection of unpinned
  generations.  Clock readings (\<open>time.monotonic()\<close>) are arguments of the operations that take them,
  in whole units.
\<close>

definition GENERATION_SCHEMA :: string where
  "GENERATION_SCHEMA = ''simplicio.fast-generation/v1''"

datatype generation_error =
    Generation_corrupt
  | Generation_missing
  | Fence_stale
  | Pin_stale
  | Overlay_escape
  | Generation_key_error

record generation =
  gen_id :: string
  gen_repo :: string
  gen_commit :: string
  gen_config_hash :: string
  gen_parser_hash :: string
  gen_base :: "(string, bytes) dict"

type_synonym overlay_key = "string \<times> string \<times> string"

record generation_store =
  gs_generations :: "(string, generation) dict"
  gs_overlays :: "(overlay_key, (string, bytes option) dict) dict"
  gs_pins :: "(string \<times> int \<times> string, int) dict"
  gs_fences :: "(string \<times> int, string) dict"

definition new_generation_store :: generation_store where
  "new_generation_store = \<lparr>gs_generations = [], gs_overlays = [], gs_pins = [], gs_fences = []\<rparr>"

definition same_generation :: "generation \<Rightarrow> generation \<Rightarrow> bool" where
  "same_generation g h \<longleftrightarrow>
     gen_id g = gen_id h \<and> gen_repo g = gen_repo h \<and> gen_commit g = gen_commit h \<and>
     gen_config_hash g = gen_config_hash h \<and> gen_parser_hash g = gen_parser_hash h \<and>
     sort_key fst (gen_base g) = sort_key fst (gen_base h)"

definition generation_manifest :: "(bytes \<Rightarrow> bytes) \<Rightarrow> (string, bytes) dict \<Rightarrow> json" where
  "generation_manifest sha files =
     JObj (map (\<lambda>(k, v). (k, JStr (hexdigest sha v))) (sort_key fst files))"

definition generation_key ::
  "(bytes \<Rightarrow> bytes) \<Rightarrow> string \<Rightarrow> string \<Rightarrow> string \<Rightarrow> string \<Rightarrow> (string, bytes) dict \<Rightarrow> string" where
  "generation_key sha repo commit config_hash parser_hash files =
     hexdigest sha (canonical (JObj
       [(''schema'', JStr GENERATION_SCHEMA), (''repo'', JStr repo), (''commit'', JStr commit),
        (''config'', JStr config_hash), (''parser'', JStr parser_hash),
        (''manifest'', generation_manifest sha files)]))"

definition create_generation ::
  "(bytes \<Rightarrow> bytes) \<Rightarrow> string \<Rightarrow> string \<Rightarrow> string \<Rightarrow> string \<Rightarrow> (string, bytes) dict \<Rightarrow> generation_store \<Rightarrow>
     (generation_error + generation) \<times> generation_store" where
  "create_generation sha repo commit config_hash parser_hash files S =
     (let gid = generation_key sha repo commit config_hash parser_hash files;
          candidate = \<lparr>gen_id = gid, gen_repo = repo, gen_commit = commit, gen_config_hash = config_hash,
                       gen_parser_hash = parser_hash, gen_base = files\<rparr> in
      if (case map_of (gs_generations S) gid of None \<Rightarrow> False | Some e \<Rightarrow> \<not> same_generation e candidate)
      then (Inl Generation_corrupt, S)
      else (Inr candidate, S\<lparr>gs_generations := dput gid candidate (gs_generations S)\<rparr>))"

definition pin_generation ::
  "int \<Rightarrow> string \<Rightarrow> int \<Rightarrow> string \<Rightarrow> int \<Rightarrow> generation_store \<Rightarrow> (generation_error + unit) \<times> generation_store" where
  "pin_generation now gid attempt fence ttl S =
     (if gid \<notin> set (keys (gs_generations S)) then (Inl Generation_missing, S)
      else if (case map_of (gs_fences S) (gid, attempt) of
                 None \<Rightarrow> False | Some current \<Rightarrow> current \<noteq> [] \<and> current \<noteq> fence)
        then (Inl Fence_stale, S)
      else (Inr (), S\<lparr>gs_fences := dput (gid, attempt) fence (gs_fences S),
                      gs_pins := dput (gid, attempt, fence) (now + min ttl 3600) (gs_pins S)\<rparr>))"

definition live_pin :: "int \<Rightarrow> string \<Rightarrow> string \<Rightarrow> generation_store \<Rightarrow> bool" where
  "live_pin now gid fence S \<longleftrightarrow>
     list_ex (\<lambda>(k, until). fst k = gid \<and> snd (snd k) = fence \<and> until > now) (gs_pins S)"

definition write_overlay ::
  "int \<Rightarrow> string \<Rightarrow> string \<Rightarrow> string \<Rightarrow> string \<Rightarrow> bytes option \<Rightarrow> generation_store \<Rightarrow>
     (generation_error + unit) \<times> generation_store" where
  "write_overlay now gid slot fence path data S =
     (if \<not> live_pin now gid fence S then (Inl Pin_stale, S)
      else if is_absolute path \<or> ''..'' \<in> set (path_parts path) then (Inl Overlay_escape, S)
      else
        (let overlay = (case map_of (gs_overlays S) (gid, slot, fence) of None \<Rightarrow> [] | Some d \<Rightarrow> d)
         in (Inr (), S\<lparr>gs_overlays := dput (gid, slot, fence) (dput path data overlay) (gs_overlays S)\<rparr>)))"

definition tombstone ::
  "int \<Rightarrow> string \<Rightarrow> string \<Rightarrow> string \<Rightarrow> string \<Rightarrow> generation_store \<Rightarrow> (generation_error + unit) \<times> generation_store" where
  "tombstone now gid slot fence path S = write_overlay now gid slot fence path None S"

definition read_file ::
  "string \<Rightarrow> string \<Rightarrow> string \<Rightarrow> string \<Rightarrow> generation_store \<Rightarrow> generation_error + bytes option" where
  "read_file gid slot fence path S =
     (case map_of (gs_generations S) gid of
        None \<Rightarrow> Inl Generation_key_error
      | Some g \<Rightarrow>
          (case map_of (case map_of (gs_overlays S) (gid, slot, fence) of None \<Rightarrow> [] | Some d \<Rightarrow> d) path of
             Some data \<Rightarrow> Inr data
           | None \<Rightarrow> Inr (map_of (gen_base g) path)))"

definition collect_generations :: "int \<Rightarrow> bool \<Rightarrow> generation_store \<Rightarrow> string list \<times> generation_store" where
  "collect_generations now dry_run S =
     (let protected = map (\<lambda>(k, _). fst k) (filter (\<lambda>(_, until). until > now) (gs_pins S));
          removable = sorted_set (filter (\<lambda>g. g \<notin> set protected) (keys (gs_generations S)))
      in (removable,
          if dry_run then S
          else S\<lparr>gs_generations := fold dpop removable (gs_generations S),
                 gs_overlays := fold (\<lambda>gid. filter (\<lambda>(k, _). fst k \<noteq> gid)) removable (gs_overlays S)\<rparr>))"

section \<open>Overlays\<close>

lemma write_overlay_ok:
  "write_overlay now gid slot fence path data S = (Inr u, T) \<Longrightarrow>
     live_pin now gid fence S \<and> \<not> is_absolute path \<and> ''..'' \<notin> set (path_parts path) \<and>
     gs_generations T = gs_generations S \<and>
     gs_overlays T = dput (gid, slot, fence)
       (dput path data (case map_of (gs_overlays S) (gid, slot, fence) of None \<Rightarrow> [] | Some d \<Rightarrow> d)) (gs_overlays S)"
  by (auto simp: write_overlay_def Let_def split: if_splits)

text \<open>Overlays are isolated: a write that succeeds had a live pin with its fence and a path inside the
  repository; it is read back under the same generation, slot and fence, and every other read, of
  another generation, slot, fence or path, answers what it did before.\<close>

theorem overlay_writes_are_isolated:
  assumes "write_overlay now gid slot fence path data S = (Inr u, T)" "gid \<in> set (keys (gs_generations S))"
  shows "live_pin now gid fence S \<and> ''..'' \<notin> set (path_parts path) \<and>
    read_file gid slot fence path T = Inr data \<and>
    ((gid', slot', fence', path') \<noteq> (gid, slot, fence, path) \<longrightarrow>
      read_file gid' slot' fence' path' T = read_file gid' slot' fence' path' S)"
proof -
  note w = write_overlay_ok [OF assms(1)]
  obtain g where "map_of (gs_generations S) gid = Some g"
    using assms(2) by (metis map_of_None_keys not_None_eq)
  with w show ?thesis
    by (auto simp: read_file_def dict_simps split: option.splits)
qed

section \<open>Collection\<close>

lemma map_of_fold_filter:
  fixes d :: "(overlay_key, 'v) dict"
  shows "map_of (fold (\<lambda>gid. filter (\<lambda>(k, _). fst k \<noteq> gid)) ks d) (g, s, f) =
     (if g \<in> set ks then None else map_of d (g, s, f))"
  by (induction ks arbitrary: d) (auto simp: map_of_filter_key)


definition protected :: "int \<Rightarrow> string \<Rightarrow> generation_store \<Rightarrow> bool" where
  "protected now gid S \<longleftrightarrow> list_ex (\<lambda>(k, until). fst k = gid \<and> until > now) (gs_pins S)"

lemma removable_iff:
  "gid \<in> set (fst (collect_generations now dry S)) \<longleftrightarrow>
     gid \<in> set (keys (gs_generations S)) \<and> \<not> protected now gid S"
proof -
  have "gid \<in> set (map (\<lambda>(k, _). fst k) (filter (\<lambda>(_, until). until > now) (gs_pins S))) \<longleftrightarrow> protected now gid S"
    by (force simp: protected_def list_ex_iff)
  then show ?thesis by (simp add: collect_generations_def Let_def)
qed

lemma collect_state:
  "snd (collect_generations now False S) =
     S\<lparr>gs_generations := fold dpop (fst (collect_generations now False S)) (gs_generations S),
       gs_overlays := fold (\<lambda>gid. filter (\<lambda>(k, _). fst k \<noteq> gid)) (fst (collect_generations now False S)) (gs_overlays S)\<rparr>"
  by (simp add: collect_generations_def Let_def)

text \<open>C36: Collection is safe and complete: every read in a generation that a live pin protects answers what
  it did before, every generation without a live pin is gone together with its overlays, the answer
  lists exactly the removed generations, and a dry run changes nothing.\<close>

theorem collection_respects_pins:
  "read_file gid slot fence path (snd (collect_generations now False S)) =
     (if protected now gid S then read_file gid slot fence path S else Inl Generation_key_error) \<and>
   map_of (gs_overlays (snd (collect_generations now False S))) (gid, slot, fence) =
     (if gid \<in> set (keys (gs_generations S)) \<and> \<not> protected now gid S then None
      else map_of (gs_overlays S) (gid, slot, fence)) \<and>
   set (fst (collect_generations now False S)) = {g \<in> set (keys (gs_generations S)). \<not> protected now g S} \<and>
   snd (collect_generations now True S) = S"
proof -
  let ?ks = "fst (collect_generations now False S)"
  have missing: "map_of (gs_generations S) gid = None" if "gid \<notin> set (keys (gs_generations S))"
    using that by (metis map_of_None_keys)
  have ks: "set ?ks = {g \<in> set (keys (gs_generations S)). \<not> protected now g S}"
    using removable_iff by blast
  have "snd (collect_generations now True S) = S" by (simp add: collect_generations_def Let_def)
  with ks missing show ?thesis
    by (cases "gid \<in> set (keys (gs_generations S))"; cases "protected now gid S")
       (simp_all add: collect_state read_file_def map_of_fold_dpop map_of_fold_filter split: option.split)
qed

section \<open>Example\<close>

theorem overlay_writes_are_isolated_witness:
  "\<exists>(S :: generation_store) T. gs_overlays S = [] \<and>
     write_overlay 5 ''g'' ''s'' ''f'' ''a/b'' (Some [1]) S = (Inr (), T) \<and>
     read_file ''g'' ''s'' ''f'' ''a/b'' T = Inr (Some [1]) \<and>
     read_file ''g'' ''s2'' ''f'' ''a/b'' T = read_file ''g'' ''s2'' ''f'' ''a/b'' S"
proof -
  let ?S = "\<lparr>gs_generations = [(''g'', \<lparr>gen_id = ''g'', gen_repo = [], gen_commit = [], gen_config_hash = [],
      gen_parser_hash = [], gen_base = [(''a/b'', [0])]\<rparr>)], gs_overlays = [],
      gs_pins = [((''g'', 1, ''f''), 60)], gs_fences = [((''g'', 1), ''f'')]\<rparr>"
  obtain T where T: "write_overlay 5 ''g'' ''s'' ''f'' ''a/b'' (Some [1]) ?S = (Inr (), T)"
    by (simp add: write_overlay_def live_pin_def is_absolute_def path_parts_def)
  have "''g'' \<in> set (keys (gs_generations ?S))" by simp
  from overlay_writes_are_isolated [OF T this, of "''g''" "''s2''" "''f''" "''a/b''"] T show ?thesis
    by (intro exI [of _ ?S] exI [of _ T]) simp
qed

end
