(* ===== verification/ContentCache.thy ===== *)
theory ContentCache
  imports Json
begin

text \<open>
  \<open>simplicio_fast/content_cache.py\<close>: the asynchronous content-addressed cache.  Between two \<open>await\<close>s a
  coroutine runs alone, so the behaviour is a sequence of atomic steps: a call of \<open>get\<close> up to its
  first \<open>await\<close>, the end of a computation (\<open>run\<close>), the \<open>finally\<close> block of the call that started it,
  and an invalidation.  Tasks are numbered in the order they are created.
\<close>

section \<open>State\<close>

datatype task_status = Running | Done bytes | Failed

record cache_task =
  tk_key :: string
  tk_deps :: "string list"
  tk_status :: task_status
  tk_awaited :: bool

record content_cache =
  cc_values :: "(string, bytes \<times> string) dict"
  cc_deps :: "(string, string list) dict"
  cc_flights :: "(string, nat) dict"
  cc_tasks :: "cache_task list"
  cc_hit :: nat
  cc_coalesced :: nat
  cc_miss :: nat
  cc_stale :: nat

definition new_cache :: content_cache where
  "new_cache = \<lparr>cc_values = [], cc_deps = [], cc_flights = [], cc_tasks = [],
     cc_hit = 0, cc_coalesced = 0, cc_miss = 0, cc_stale = 0\<rparr>"

definition cache_key :: "(bytes \<Rightarrow> bytes) \<Rightarrow> json list \<Rightarrow> string" where
  "cache_key sha parts = hexdigest sha (canonical (JList parts))"

section \<open>Steps\<close>

datatype cache_outcome = Hit bytes | Corrupt | Joined nat | Started nat | Returned bytes | Raised | Idle | Doomed "string list"

definition cache_get ::
  "(bytes \<Rightarrow> bytes) \<Rightarrow> string \<Rightarrow> string list \<Rightarrow> content_cache \<Rightarrow> cache_outcome \<times> content_cache" where
  "cache_get sha k deps C =
     (case map_of (cc_values C) k of
        Some (value, digest) \<Rightarrow>
          if hexdigest sha value \<noteq> digest then (Corrupt, C)
          else (Hit value, C\<lparr>cc_hit := Suc (cc_hit C)\<rparr>)
      | None \<Rightarrow>
          (case map_of (cc_flights C) k of
             Some t \<Rightarrow> (Joined t, C\<lparr>cc_coalesced := Suc (cc_coalesced C)\<rparr>)
           | None \<Rightarrow>
               (let t = length (cc_tasks C) in
                (Started t,
                 C\<lparr>cc_tasks := cc_tasks C @
                     [\<lparr>tk_key = k, tk_deps = deps, tk_status = Running, tk_awaited = True\<rparr>],
                   cc_flights := dput k t (cc_flights C)\<rparr>))))"

definition cache_run ::
  "(bytes \<Rightarrow> bytes) \<Rightarrow> nat \<Rightarrow> bytes option \<Rightarrow> content_cache \<Rightarrow> cache_outcome \<times> content_cache" where
  "cache_run sha t value C =
     (if t < length (cc_tasks C) \<and> tk_status (cc_tasks C ! t) = Running
      then
        (let task = cc_tasks C ! t in
         case value of
           None \<Rightarrow> (Idle, C\<lparr>cc_tasks := (cc_tasks C)[t := task\<lparr>tk_status := Failed\<rparr>]\<rparr>)
         | Some v \<Rightarrow>
             (Idle,
              C\<lparr>cc_values := dput (tk_key task) (v, hexdigest sha v) (cc_values C),
                cc_deps := dput (tk_key task) (tk_deps task) (cc_deps C),
                cc_miss := Suc (cc_miss C),
                cc_tasks := (cc_tasks C)[t := task\<lparr>tk_status := Done v\<rparr>]\<rparr>))
      else (Idle, C))"

definition cache_resume :: "nat \<Rightarrow> content_cache \<Rightarrow> cache_outcome \<times> content_cache" where
  "cache_resume t C =
     (if t < length (cc_tasks C) \<and> tk_awaited (cc_tasks C ! t) \<and> tk_status (cc_tasks C ! t) \<noteq> Running
      then
        (let task = cc_tasks C ! t in
         ((case tk_status task of Done v \<Rightarrow> Returned v | _ \<Rightarrow> Raised),
          C\<lparr>cc_flights := dpop (tk_key task) (cc_flights C),
            cc_tasks := (cc_tasks C)[t := task\<lparr>tk_awaited := False\<rparr>]\<rparr>))
      else (Idle, C))"

definition cache_invalidate :: "string list \<Rightarrow> content_cache \<Rightarrow> cache_outcome \<times> content_cache" where
  "cache_invalidate changed C =
     (let doomed = map fst (filter (\<lambda>(_, v). list_ex (\<lambda>d. d \<in> set changed) v) (cc_deps C)) in
      (Doomed (sorted_set doomed),
       C\<lparr>cc_values := fold dpop doomed (cc_values C), cc_deps := fold dpop doomed (cc_deps C),
         cc_stale := cc_stale C + length doomed\<rparr>))"

definition cache_requests :: "content_cache \<Rightarrow> nat" where
  "cache_requests C = cc_hit C + cc_coalesced C + cc_miss C + cc_stale C"

datatype cache_event =
    Get string "string list"
  | Run nat "bytes option"
  | Resume nat
  | Invalidate "string list"

fun cache_step :: "(bytes \<Rightarrow> bytes) \<Rightarrow> cache_event \<Rightarrow> content_cache \<Rightarrow> cache_outcome \<times> content_cache" where
  "cache_step sha (Get k deps) C = cache_get sha k deps C"
| "cache_step sha (Run t v) C = cache_run sha t v C"
| "cache_step sha (Resume t) C = cache_resume t C"
| "cache_step sha (Invalidate changed) C = cache_invalidate changed C"

inductive cache_reachable :: "(bytes \<Rightarrow> bytes) \<Rightarrow> content_cache \<Rightarrow> bool" for sha where
  start: "cache_reachable sha new_cache"
| step: "cache_reachable sha C \<Longrightarrow> cache_reachable sha (snd (cache_step sha ev C))"

section \<open>Single flight\<close>

definition pending :: "cache_task \<Rightarrow> bool" where
  "pending t \<longleftrightarrow> tk_awaited t \<or> tk_status t = Running"

definition good_entry :: "(bytes \<Rightarrow> bytes) \<Rightarrow> bytes \<times> string \<Rightarrow> bool" where
  "good_entry sha p \<longleftrightarrow> snd p = hexdigest sha (fst p)"

definition cache_parts_inv ::
  "(bytes \<Rightarrow> bytes) \<Rightarrow> (string, bytes \<times> string) dict \<Rightarrow> cache_task list \<Rightarrow> (string, nat) dict \<Rightarrow> bool" where
  "cache_parts_inv sha vs ts fs \<longleftrightarrow>
     (\<forall>k. pred_option (good_entry sha) (map_of vs k)) \<and>
     (\<forall>i < length ts. tk_status (ts ! i) = Running \<longrightarrow> tk_awaited (ts ! i)) \<and>
     (\<forall>i < length ts. tk_awaited (ts ! i) \<longrightarrow> map_of fs (tk_key (ts ! i)) = Some i) \<and>
     (\<forall>k i. map_of fs k = Some i \<longrightarrow> i < length ts \<and> tk_key (ts ! i) = k)"

definition cache_inv :: "(bytes \<Rightarrow> bytes) \<Rightarrow> content_cache \<Rightarrow> bool" where
  "cache_inv sha C \<longleftrightarrow> cache_parts_inv sha (cc_values C) (cc_tasks C) (cc_flights C)"

lemma cache_parts_invI:
  "\<lbrakk>\<And>k. pred_option (good_entry sha) (map_of vs k);
    \<And>i. i < length ts \<Longrightarrow> tk_status (ts ! i) = Running \<Longrightarrow> tk_awaited (ts ! i);
    \<And>i. i < length ts \<Longrightarrow> tk_awaited (ts ! i) \<Longrightarrow> map_of fs (tk_key (ts ! i)) = Some i;
    \<And>k i. map_of fs k = Some i \<Longrightarrow> i < length ts \<and> tk_key (ts ! i) = k\<rbrakk> \<Longrightarrow> cache_parts_inv sha vs ts fs"
  by (simp add: cache_parts_inv_def)

lemma cache_parts_invD:
  assumes "cache_inv sha C"
  shows "pred_option (good_entry sha) (map_of (cc_values C) k)"
    "i < length (cc_tasks C) \<Longrightarrow> tk_status (cc_tasks C ! i) = Running \<Longrightarrow> tk_awaited (cc_tasks C ! i)"
    "i < length (cc_tasks C) \<Longrightarrow> tk_awaited (cc_tasks C ! i) \<Longrightarrow> map_of (cc_flights C) (tk_key (cc_tasks C ! i)) = Some i"
    "map_of (cc_flights C) k = Some i \<Longrightarrow> i < length (cc_tasks C)"
    "map_of (cc_flights C) k = Some i \<Longrightarrow> tk_key (cc_tasks C ! i) = k"
  using assms by (simp_all add: cache_inv_def cache_parts_inv_def)

lemma cache_inv_start: "cache_inv sha new_cache"
  by (simp add: cache_inv_def cache_parts_inv_def new_cache_def)

lemma cache_inv_get:
  assumes inv: "cache_inv sha C"
  shows "cache_inv sha (snd (cache_get sha k deps C))"
proof (cases "map_of (cc_values C) k = None \<and> map_of (cc_flights C) k = None")
  case True
  let ?n = "length (cc_tasks C)"
  let ?task = "\<lparr>tk_key = k, tk_deps = deps, tk_status = Running, tk_awaited = True\<rparr>"
  have "cache_parts_inv sha (cc_values C) (cc_tasks C @ [?task]) (dput k ?n (cc_flights C))"
  proof (rule cache_parts_invI)
    fix i
    assume i: "i < length (cc_tasks C @ [?task])" "tk_awaited ((cc_tasks C @ [?task]) ! i)"
    show "map_of (dput k ?n (cc_flights C)) (tk_key ((cc_tasks C @ [?task]) ! i)) = Some i"
    proof (cases "i < ?n")
      case old: True
      with i have "map_of (cc_flights C) (tk_key (cc_tasks C ! i)) = Some i"
        using cache_parts_invD(3) [OF inv] by (simp add: nth_append)
      with True old show ?thesis by (auto simp: dict_simps nth_append)
    next
      case False
      with i(1) have "i = ?n" by simp
      then show ?thesis by (simp add: dict_simps)
    qed
  next
    fix j i
    assume "map_of (dput k ?n (cc_flights C)) j = Some i"
    then have "j = k \<and> i = ?n \<or> map_of (cc_flights C) j = Some i"
      by (cases "j = k") (simp_all add: map_of_dput)
    then consider "j = k" "i = ?n" | "map_of (cc_flights C) j = Some i" by blast
    then show "i < length (cc_tasks C @ [?task]) \<and> tk_key ((cc_tasks C @ [?task]) ! i) = j"
      by cases (use cache_parts_invD(4,5) [OF inv, of j i] in \<open>auto simp: nth_append\<close>)
  qed (use cache_parts_invD(1,2) [OF inv] in \<open>auto simp: nth_append less_Suc_eq\<close>)
  with True show ?thesis by (simp add: cache_get_def cache_inv_def Let_def)
next
  case False
  with inv show ?thesis
    by (auto simp: cache_get_def cache_inv_def split: option.split)
qed

lemma cache_inv_update:
  assumes "cache_inv sha C" "t < length (cc_tasks C)" "st \<noteq> Running"
    and "\<And>k. pred_option (good_entry sha) (map_of vs k)"
  shows "cache_inv sha (C\<lparr>cc_values := vs, cc_deps := ds, cc_miss := m,
    cc_tasks := (cc_tasks C)[t := (cc_tasks C ! t)\<lparr>tk_status := st\<rparr>]\<rparr>)"
proof -
  let ?ts = "(cc_tasks C)[t := (cc_tasks C ! t)\<lparr>tk_status := st\<rparr>]"
  have same: "tk_awaited (?ts ! i) = tk_awaited (cc_tasks C ! i)" "tk_key (?ts ! i) = tk_key (cc_tasks C ! i)"
      "tk_status (?ts ! i) = Running \<longrightarrow> tk_status (cc_tasks C ! i) = Running"
    if "i < length (cc_tasks C)" for i
    using that assms(2,3) by (auto simp: nth_list_update)
  have "cache_parts_inv sha vs ?ts (cc_flights C)"
  proof (rule cache_parts_invI)
    fix i assume "i < length ?ts" "tk_status (?ts ! i) = Running"
    with same cache_parts_invD(2) [OF assms(1), of i] show "tk_awaited (?ts ! i)" by simp
  next
    fix i assume "i < length ?ts" "tk_awaited (?ts ! i)"
    with same cache_parts_invD(3) [OF assms(1), of i]
    show "map_of (cc_flights C) (tk_key (?ts ! i)) = Some i" by simp
  next
    fix k i assume "map_of (cc_flights C) k = Some i"
    with same(2) cache_parts_invD(4,5) [OF assms(1), of k i] show "i < length ?ts \<and> tk_key (?ts ! i) = k" by simp
  qed (rule assms(4))
  then show ?thesis by (simp add: cache_inv_def)
qed

lemma cache_inv_run:
  assumes inv: "cache_inv sha C"
  shows "cache_inv sha (snd (cache_run sha t v C))"
proof (cases "t < length (cc_tasks C) \<and> tk_status (cc_tasks C ! t) = Running")
  case True
  note upd = cache_inv_update [OF inv, where t = t]
  show ?thesis
  proof (cases v)
    case None
    with True upd [where st = Failed and vs = "cc_values C" and ds = "cc_deps C" and m = "cc_miss C"] cache_parts_invD(1) [OF inv]
    show ?thesis by (simp add: cache_run_def Let_def)
  next
    case (Some w)
    have "pred_option (good_entry sha) (map_of (dput (tk_key (cc_tasks C ! t)) (w, hexdigest sha w) (cc_values C)) k)" for k
      using cache_parts_invD(1) [OF inv] by (simp add: dict_simps good_entry_def)
    with True Some upd [where st = "Done w"] show ?thesis
      by (simp add: cache_run_def Let_def)
  qed
next
  case False
  with inv show ?thesis by (simp only: cache_run_def if_False snd_conv)
qed

lemma cache_inv_resume:
  assumes inv: "cache_inv sha C"
  shows "cache_inv sha (snd (cache_resume t C))"
proof (cases "t < length (cc_tasks C) \<and> tk_awaited (cc_tasks C ! t) \<and> tk_status (cc_tasks C ! t) \<noteq> Running")
  case True
  let ?k = "tk_key (cc_tasks C ! t)"
  let ?ts = "(cc_tasks C)[t := (cc_tasks C ! t)\<lparr>tk_awaited := False\<rparr>]"
  note D = cache_parts_invD [OF inv]
  from True have flight: "map_of (cc_flights C) ?k = Some t" by (simp add: D(3))
  have same: "tk_key (?ts ! i) = tk_key (cc_tasks C ! i)" "tk_status (?ts ! i) = tk_status (cc_tasks C ! i)"
      "tk_awaited (?ts ! i) \<longleftrightarrow> i \<noteq> t \<and> tk_awaited (cc_tasks C ! i)"
    if "i < length (cc_tasks C)" for i
    using that True by (auto simp: nth_list_update)
  have "cache_parts_inv sha (cc_values C) ?ts (dpop ?k (cc_flights C))"
  proof (rule cache_parts_invI)
    fix i assume "i < length ?ts" and a: "tk_awaited (?ts ! i)"
    then have i: "i < length (cc_tasks C)" by simp
    from same(3) [OF i] a have a: "i \<noteq> t" "tk_awaited (cc_tasks C ! i)" by simp_all
    with D(3) [OF i] have "map_of (cc_flights C) (tk_key (cc_tasks C ! i)) = Some i" by simp
    with a(1) flight show "map_of (dpop ?k (cc_flights C)) (tk_key (?ts ! i)) = Some i"
      using same(1) [OF i] by (auto simp: dict_simps)
  next
    fix k i assume "map_of (dpop ?k (cc_flights C)) k = Some i"
    then have "map_of (cc_flights C) k = Some i" by (simp add: dict_simps split: if_splits)
    with D(4,5) same(1) show "i < length ?ts \<and> tk_key (?ts ! i) = k" by simp
  next
    fix i assume "i < length ?ts" "tk_status (?ts ! i) = Running"
    with same D(2) [of i] True show "tk_awaited (?ts ! i)" by auto
  qed (rule D(1))
  with True show ?thesis by (simp add: cache_resume_def cache_inv_def Let_def)
next
  case False
  with inv show ?thesis by (simp only: cache_resume_def if_False snd_conv)
qed

lemma cache_inv_invalidate:
  assumes inv: "cache_inv sha C"
  shows "cache_inv sha (snd (cache_invalidate changed C))"
proof -
  have "cache_parts_inv sha (fold dpop ks (cc_values C)) (cc_tasks C) (cc_flights C)" for ks
    by (rule cache_parts_invI) (use cache_parts_invD [OF inv] in \<open>simp_all add: map_of_fold_dpop\<close>)
  then show ?thesis by (simp add: cache_invalidate_def cache_inv_def Let_def)
qed

lemma cache_reachable_inv: "cache_reachable sha C \<Longrightarrow> cache_inv sha C"
proof (induction rule: cache_reachable.induct)
  case (step C ev)
  then show ?case
    by (cases ev) (simp_all add: cache_inv_get cache_inv_run cache_inv_resume cache_inv_invalidate)
qed (rule cache_inv_start)

text \<open>C37: Single flight, in every reachable state and for every key: a \<open>get\<close> answers with the stored value,
  which is intact; without one it joins the flight registered for the key; and only when there is no
  flight either, and then no computation of the key is running, it starts one.  Every running computation
  is the registered flight of its key, so no two of them have the same key.\<close>

theorem single_flight:
  assumes "cache_reachable sha C"
  shows "(case map_of (cc_values C) key of
       Some (value, digest) \<Rightarrow> fst (cache_get sha key deps C) = Hit value \<and> digest = hexdigest sha value
     | None \<Rightarrow>
         (case map_of (cc_flights C) key of
            Some i \<Rightarrow> fst (cache_get sha key deps C) = Joined i \<and> i < length (cc_tasks C) \<and> tk_key (cc_tasks C ! i) = key
          | None \<Rightarrow> fst (cache_get sha key deps C) = Started (length (cc_tasks C)) \<and>
              (\<forall>t \<in> set (cc_tasks C). tk_status t = Running \<longrightarrow> tk_key t \<noteq> key))) \<and>
    (\<forall>i < length (cc_tasks C). tk_status (cc_tasks C ! i) = Running \<longrightarrow>
       map_of (cc_flights C) (tk_key (cc_tasks C ! i)) = Some i) \<and>
    (\<forall>i < length (cc_tasks C). \<forall>j < length (cc_tasks C). tk_status (cc_tasks C ! i) = Running \<and>
       tk_status (cc_tasks C ! j) = Running \<and> tk_key (cc_tasks C ! i) = tk_key (cc_tasks C ! j) \<longrightarrow> i = j)"
proof -
  have inv: "cache_inv sha C" using assms by (rule cache_reachable_inv)
  have flight: "map_of (cc_flights C) (tk_key (cc_tasks C ! i)) = Some i"
    if "i < length (cc_tasks C)" "tk_status (cc_tasks C ! i) = Running" for i
    by (rule cache_parts_invD(3) [OF inv that(1) cache_parts_invD(2) [OF inv that]])
  then have same: "i = j" if "i < length (cc_tasks C)" "j < length (cc_tasks C)" "tk_status (cc_tasks C ! i) = Running"
      "tk_status (cc_tasks C ! j) = Running" "tk_key (cc_tasks C ! i) = tk_key (cc_tasks C ! j)" for i j
    using that by (metis option.inject)
  have idle: "tk_key t \<noteq> key" if "t \<in> set (cc_tasks C)" "tk_status t = Running" "map_of (cc_flights C) key = None" for t
    using that flight by (metis in_set_conv_nth option.distinct(1))
  have "case map_of (cc_values C) key of
       Some (value, digest) \<Rightarrow> fst (cache_get sha key deps C) = Hit value \<and> digest = hexdigest sha value
     | None \<Rightarrow>
         (case map_of (cc_flights C) key of
            Some i \<Rightarrow> fst (cache_get sha key deps C) = Joined i \<and> i < length (cc_tasks C) \<and> tk_key (cc_tasks C ! i) = key
          | None \<Rightarrow> fst (cache_get sha key deps C) = Started (length (cc_tasks C)) \<and>
              (\<forall>t \<in> set (cc_tasks C). tk_status t = Running \<longrightarrow> tk_key t \<noteq> key))"
  proof (cases "map_of (cc_values C) key")
    case None
    then show ?thesis
      using idle cache_parts_invD(4,5) [OF inv, of key]
      by (cases "map_of (cc_flights C) key") (simp_all add: cache_get_def Let_def)
  next
    case (Some p)
    then have "snd p = hexdigest sha (fst p)" using cache_parts_invD(1) [OF inv, of key] by (simp add: good_entry_def)
    with Some show ?thesis by (cases p) (simp add: cache_get_def)
  qed
  moreover have "\<forall>i < length (cc_tasks C). tk_status (cc_tasks C ! i) = Running \<longrightarrow>
      map_of (cc_flights C) (tk_key (cc_tasks C ! i)) = Some i"
    using flight by (intro allI impI)
  moreover have "\<forall>i < length (cc_tasks C). \<forall>j < length (cc_tasks C). tk_status (cc_tasks C ! i) = Running \<and>
      tk_status (cc_tasks C ! j) = Running \<and> tk_key (cc_tasks C ! i) = tk_key (cc_tasks C ! j) \<longrightarrow> i = j"
    by (intro allI impI) (elim conjE, rule same)
  ultimately show ?thesis by (rule conjI [OF _ conjI])
qed

text \<open>An invalidation during a computation is lost: when a dependency of a key is invalidated while the
  key is being computed, the invalidation reports nothing of that key, and the value computed from the
  old dependency is then stored and served to later calls.\<close>

theorem invalidation_in_flight_is_lost:
  assumes "map_of (cc_values C) k = None" "map_of (cc_flights C) k = None" "map_of (cc_deps C) k = None"
    and "cache_get sha k [dep] C = (Started t, C1)" "cache_invalidate [dep] C1 = (Doomed gone, C2)"
    and "cache_run sha t (Some v) C2 = (r, C3)" "cache_resume t C3 = (r', C4)"
  shows "k \<notin> set gone \<and> r' = Returned v \<and> fst (cache_get sha k ds C4) = Hit v"
proof -
  from assms(1,2,4) have t: "t = length (cc_tasks C)" and C1: "C1 = C\<lparr>cc_tasks := cc_tasks C @
      [\<lparr>tk_key = k, tk_deps = [dep], tk_status = Running, tk_awaited = True\<rparr>], cc_flights := dput k t (cc_flights C)\<rparr>"
    by (auto simp: cache_get_def Let_def)
  from assms(5) C1 have tasks: "cc_tasks C2 = cc_tasks C1"
    and gone: "gone = sorted_set (map fst (filter (\<lambda>(_, v). list_ex (\<lambda>d. d \<in> set [dep]) v) (cc_deps C)))"
    by (auto simp: cache_invalidate_def Let_def)
  have "k \<notin> set (keys (cc_deps C))" using assms(3) by (metis map_of_None_keys)
  then have "k \<notin> set gone" unfolding gone by auto
  moreover have "r' = Returned v \<and> map_of (cc_values C4) k = Some (v, hexdigest sha v)"
    using assms(6,7) tasks C1 t by (auto simp: cache_run_def cache_resume_def Let_def dict_simps)
  ultimately show ?thesis by (simp add: cache_get_def)
qed

section \<open>Examples\<close>

definition example_cache :: content_cache where
  "example_cache = snd (cache_step id (Get ''k'' [''d'']) new_cache)"

theorem single_flight_witness:
  "fst (cache_get id ''k'' [] example_cache) = Joined 0 \<and> fst (cache_get id ''l'' [] example_cache) = Started 1"
proof -
  have "cache_reachable id example_cache"
    unfolding example_cache_def by (intro cache_reachable.intros)
  note flight = single_flight [OF this, THEN conjunct1]
  moreover have "cc_values example_cache = []" "cc_flights example_cache = [(''k'', 0)]" "length (cc_tasks example_cache) = 1"
    by (simp_all add: example_cache_def cache_get_def new_cache_def dput_def Let_def)
  ultimately show ?thesis
    using flight [of "''k''" "[]"] flight [of "''l''" "[]"] by simp
qed

theorem invalidation_in_flight_is_lost_witness:
  "\<exists>C. fst (cache_get id ''k'' [''d''] new_cache) = Started 0 \<and> fst (cache_get id ''k'' [] C) = Hit [1]"
proof -
  let ?C1 = "snd (cache_get id ''k'' [''d''] new_cache)"
  let ?C2 = "snd (cache_invalidate [''d''] ?C1)"
  let ?C3 = "snd (cache_run id 0 (Some [1]) ?C2)"
  have one: "cache_get id ''k'' [''d''] new_cache = (Started 0, ?C1)"
    by (simp add: cache_get_def new_cache_def Let_def)
  have two: "cache_invalidate [''d''] ?C1 = (Doomed (sorted_set []), ?C2)"
    by (simp add: cache_invalidate_def cache_get_def new_cache_def Let_def)
  have "map_of (cc_values new_cache) ''k'' = None" "map_of (cc_flights new_cache) ''k'' = None"
      "map_of (cc_deps new_cache) ''k'' = None" by (simp_all add: new_cache_def)
  from invalidation_in_flight_is_lost [OF this one two prod.collapse [symmetric] prod.collapse [symmetric]]
  have "fst (cache_get id ''k'' [] (snd (cache_resume 0 ?C3))) = Hit [1]" by simp
  with one show ?thesis by (metis fst_conv)
qed

end
