(* ===== verification/Pager.thy ===== *)
theory Pager
  imports Json
begin

text \<open>
  \<open>simplicio_fast/pager.py\<close>: the generation-scoped page cache (\<open>SemanticPager\<close>) with its byte and page
  budgets, leases, invalidation and prefetch, and the bounded single-flight coordinator.  Every block
  executed under the lock is one operation; \<open>get\<close> is the block that admits the request, the load
  outside the lock, the block that makes the page resident and the one that ends the flight.
\<close>

section \<open>Pages and keys\<close>

definition PAGER_SCHEMA :: string where
  "PAGER_SCHEMA = ''simplicio.fast.semantic-pager/v1''"

record page_key =
  pk_repository :: string
  pk_generation :: string
  pk_overlay :: "string option"
  pk_segment :: string
  pk_logical_range :: string
  pk_schema :: string

record page =
  pg_data :: bytes
  pg_digest :: string
  pg_last_touch :: nat
  pg_leases :: nat
  pg_invalidated :: bool

datatype pager_error =
    Limits_invalid
  | Cross_repo_page
  | Stale_generation
  | Schema_mismatch
  | Budget_exhausted
  | Page_digest_mismatch
  | Page_not_resident
  | Lease_mismatch
  | Page_missing
  | Loader_failed
  | Would_wait

record pager_metrics =
  pm_hits :: nat
  pm_misses :: nat
  pm_waits :: nat
  pm_evictions :: nat
  pm_invalidations :: nat
  pm_bytes_mapped :: nat
  pm_bytes_touched :: nat
  pm_prefetch_useful :: nat
  pm_prefetch_wasted :: nat

record pager =
  sp_repository :: string
  sp_generation :: string
  sp_max_bytes :: nat
  sp_max_pages :: nat
  sp_pages :: "(page_key, page) dict"
  sp_flights :: "page_key list"
  sp_clock :: nat
  sp_bytes :: int
  sp_metrics :: pager_metrics

definition zero_metrics :: pager_metrics where
  "zero_metrics = \<lparr>pm_hits = 0, pm_misses = 0, pm_waits = 0, pm_evictions = 0, pm_invalidations = 0,
     pm_bytes_mapped = 0, pm_bytes_touched = 0, pm_prefetch_useful = 0, pm_prefetch_wasted = 0\<rparr>"

definition new_pager :: "string \<Rightarrow> string \<Rightarrow> nat \<Rightarrow> nat \<Rightarrow> pager_error + pager" where
  "new_pager repository generation max_bytes max_pages =
     (if max_bytes < 1 \<or> max_pages < 1 then Inl Limits_invalid
      else Inr \<lparr>sp_repository = repository, sp_generation = generation, sp_max_bytes = max_bytes,
                sp_max_pages = max_pages, sp_pages = [], sp_flights = [], sp_clock = 0, sp_bytes = 0,
                sp_metrics = zero_metrics\<rparr>)"

definition check_page_key :: "page_key \<Rightarrow> pager \<Rightarrow> pager_error option" where
  "check_page_key k P =
     (if pk_repository k \<noteq> sp_repository P then Some Cross_repo_page
      else if pk_generation k \<noteq> sp_generation P then Some Stale_generation
      else if pk_schema k \<noteq> PAGER_SCHEMA then Some Schema_mismatch
      else None)"

section \<open>Eviction\<close>

type_synonym page_entry = "page_key \<times> page"

text \<open>The order of the key \<open>(last_touch, segment, logical_range)\<close>; \<open>min\<close> returns the first least entry.\<close>

definition evict_before :: "page_entry \<Rightarrow> page_entry \<Rightarrow> bool" where
  "evict_before a b \<longleftrightarrow>
     pg_last_touch (snd a) < pg_last_touch (snd b) \<or>
     pg_last_touch (snd a) = pg_last_touch (snd b) \<and>
       (pk_segment (fst a) < pk_segment (fst b) \<or>
        pk_segment (fst a) = pk_segment (fst b) \<and> pk_logical_range (fst a) < pk_logical_range (fst b))"

fun least_entry :: "page_entry \<Rightarrow> page_entry list \<Rightarrow> page_entry" where
  "least_entry best [] = best"
| "least_entry best (e # es) = least_entry (if evict_before e best then e else best) es"

definition eviction_victim :: "pager \<Rightarrow> page_entry option" where
  "eviction_victim P =
     (case filter (\<lambda>(_, p). pg_leases p = 0) (sp_pages P) of
        [] \<Rightarrow> None
      | e # es \<Rightarrow> Some (least_entry e es))"

definition drop_page :: "page_key \<Rightarrow> page \<Rightarrow> pager \<Rightarrow> pager" where
  "drop_page k p P = P\<lparr>sp_pages := dpop k (sp_pages P), sp_bytes := sp_bytes P - int (length (pg_data p))\<rparr>"

lemma least_entry_mem: "least_entry b es \<in> insert b (set es)"
  by (induction es arbitrary: b) (auto split: if_splits)

lemma eviction_victim_mem: "eviction_victim P = Some (k, p) \<Longrightarrow> (k, p) \<in> set (sp_pages P) \<and> pg_leases p = 0"
proof -
  assume v: "eviction_victim P = Some (k, p)"
  then obtain e es where es: "filter (\<lambda>(_, p). pg_leases p = 0) (sp_pages P) = e # es" "(k, p) = least_entry e es"
    by (auto simp: eviction_victim_def split: list.splits)
  have "(k, p) \<in> set (filter (\<lambda>(_, p). pg_leases p = 0) (sp_pages P))"
    using es least_entry_mem [of e es] by auto
  then show ?thesis by auto
qed

function evict :: "nat \<Rightarrow> bool \<Rightarrow> pager \<Rightarrow> pager_error option \<times> pager" where
  "evict required allow_eviction P =
     (if sp_bytes P + int required > int (sp_max_bytes P) \<or> length (sp_pages P) \<ge> sp_max_pages P
      then
        (if \<not> allow_eviction then (Some Budget_exhausted, P)
         else
           (case eviction_victim P of
              None \<Rightarrow> (Some Budget_exhausted, P)
            | Some (k, p) \<Rightarrow>
                evict required allow_eviction
                  ((drop_page k p P)\<lparr>sp_metrics := (sp_metrics P)\<lparr>pm_evictions := Suc (pm_evictions (sp_metrics P))\<rparr>\<rparr>)))
      else (None, P))"
  by pat_completeness auto

termination
proof (relation "measure (\<lambda>(r, a, P). length (sp_pages P))", simp, clarsimp)
  fix P :: pager and k p
  assume "eviction_victim P = Some (k, p)"
  then have "(k, p) \<in> set (sp_pages P)" by (rule eviction_victim_mem [THEN conjunct1])
  then show "length (sp_pages (drop_page k p P)) < length (sp_pages P)"
    by (auto simp: drop_page_def dpop_def intro!: length_filter_less)
qed

declare evict.simps [simp del]

section \<open>Requests\<close>

definition count :: "(pager_metrics \<Rightarrow> pager_metrics) \<Rightarrow> pager \<Rightarrow> pager" where
  "count f P = P\<lparr>sp_metrics := f (sp_metrics P)\<rparr>"

definition touch_page :: "page_key \<Rightarrow> page \<Rightarrow> pager \<Rightarrow> pager" where
  "touch_page k p P =
     count (\<lambda>m. m\<lparr>pm_bytes_touched := pm_bytes_touched m + length (pg_data p)\<rparr>)
       (P\<lparr>sp_clock := Suc (sp_clock P),
          sp_pages := dput k (p\<lparr>pg_last_touch := Suc (sp_clock P)\<rparr>) (sp_pages P)\<rparr>)"

datatype admission = Resident bytes | Refused pager_error | Owner | Waiter

definition get_admit ::
  "page_key \<Rightarrow> bool \<Rightarrow> string option \<Rightarrow> pager \<Rightarrow> admission \<times> pager" where
  "get_admit k has_loader expected P =
     (case check_page_key k P of
        Some err \<Rightarrow> (Refused err, P)
      | None \<Rightarrow>
          (let cold =
                 (if \<not> has_loader then (Refused Page_not_resident, P)
                  else if k \<in> set (sp_flights P)
                    then (Waiter, count (\<lambda>m. m\<lparr>pm_waits := Suc (pm_waits m)\<rparr>) P)
                  else (Owner, count (\<lambda>m. m\<lparr>pm_misses := Suc (pm_misses m)\<rparr>)
                                 (P\<lparr>sp_flights := sp_flights P @ [k]\<rparr>))) in
           case map_of (sp_pages P) k of
             None \<Rightarrow> cold
           | Some p \<Rightarrow>
               if pg_invalidated p then cold
               else if expected \<noteq> None \<and> Some (pg_digest p) \<noteq> expected
                 then (Refused Page_digest_mismatch,
                       count (\<lambda>m. m\<lparr>pm_invalidations := Suc (pm_invalidations m)\<rparr>)
                         (P\<lparr>sp_pages := dput k (p\<lparr>pg_invalidated := True\<rparr>) (sp_pages P)\<rparr>))
               else (Resident (pg_data p),
                     touch_page k p (count (\<lambda>m. m\<lparr>pm_hits := Suc (pm_hits m)\<rparr>) P))))"

text \<open>What the owner does with the loaded bytes, before it ends the flight.\<close>

definition get_load ::
  "(bytes \<Rightarrow> bytes) \<Rightarrow> page_key \<Rightarrow> bytes \<Rightarrow> string option \<Rightarrow> bool \<Rightarrow> pager \<Rightarrow> (pager_error + bytes) \<times> pager" where
  "get_load sha k data expected allow_eviction P =
     (if expected \<noteq> None \<and> Some (hexdigest sha data) \<noteq> expected then (Inl Page_digest_mismatch, P)
      else
        (case evict (length data) allow_eviction P of
           (Some err, Q) \<Rightarrow> (Inl err, Q)
         | (None, Q) \<Rightarrow>
             (Inr data,
              count (\<lambda>m. m\<lparr>pm_bytes_mapped := pm_bytes_mapped m + length data\<rparr>)
                (Q\<lparr>sp_clock := Suc (sp_clock Q),
                   sp_pages := dput k \<lparr>pg_data = data, pg_digest = hexdigest sha data,
                       pg_last_touch = Suc (sp_clock Q), pg_leases = 0, pg_invalidated = False\<rparr> (sp_pages Q),
                   sp_bytes := sp_bytes Q + int (length data)\<rparr>))))"

definition end_flight :: "page_key \<Rightarrow> pager \<Rightarrow> pager" where
  "end_flight k P = P\<lparr>sp_flights := filter (\<lambda>j. j \<noteq> k) (sp_flights P)\<rparr>"

definition lease_mark :: "page_key \<Rightarrow> pager \<Rightarrow> pager_error option \<times> pager" where
  "lease_mark k P =
     (case map_of (sp_pages P) k of
        None \<Rightarrow> (Some Page_missing, P)
      | Some p \<Rightarrow> (None, P\<lparr>sp_pages := dput k (p\<lparr>pg_leases := Suc (pg_leases p)\<rparr>) (sp_pages P)\<rparr>))"

definition release_page :: "page_key \<Rightarrow> pager \<Rightarrow> pager_error option \<times> pager" where
  "release_page k P =
     (case map_of (sp_pages P) k of
        None \<Rightarrow> (Some Lease_mismatch, P)
      | Some p \<Rightarrow>
          if pg_leases p < 1 then (Some Lease_mismatch, P)
          else
            (let q = p\<lparr>pg_leases := pg_leases p - 1\<rparr>; Q = P\<lparr>sp_pages := dput k q (sp_pages P)\<rparr>
             in (None, if pg_invalidated q \<and> pg_leases q = 0 then drop_page k q Q else Q)))"

text \<open>A \<open>PageLease\<close>: closing it a second time does nothing.\<close>

record page_lease =
  ls_key :: page_key
  ls_data :: bytes
  ls_closed :: bool

definition close_lease :: "page_lease \<Rightarrow> pager \<Rightarrow> pager_error option \<times> page_lease \<times> pager" where
  "close_lease l P =
     (if ls_closed l then (None, l, P)
      else (let (r, Q) = release_page (ls_key l) P in (r, l\<lparr>ls_closed := True\<rparr>, Q)))"

record invalidation = inv_removed :: nat inv_held :: nat

fun invalidate_pages :: "page_key list \<Rightarrow> invalidation \<Rightarrow> pager \<Rightarrow> (pager_error + invalidation) \<times> pager" where
  "invalidate_pages [] r P = (Inr r, P)"
| "invalidate_pages (k # ks) r P =
     (case check_page_key k P of
        Some err \<Rightarrow> (Inl err, P)
      | None \<Rightarrow>
          (case map_of (sp_pages P) k of
             None \<Rightarrow> invalidate_pages ks r P
           | Some p \<Rightarrow>
               (let q = p\<lparr>pg_invalidated := True\<rparr>;
                    Q = count (\<lambda>m. m\<lparr>pm_invalidations := Suc (pm_invalidations m)\<rparr>)
                          (P\<lparr>sp_pages := dput k q (sp_pages P)\<rparr>) in
                if pg_leases q \<noteq> 0 then invalidate_pages ks (r\<lparr>inv_held := Suc (inv_held r)\<rparr>) Q
                else invalidate_pages ks (r\<lparr>inv_removed := Suc (inv_removed r)\<rparr>) (drop_page k q Q))))"

text \<open>
  One whole \<open>get\<close> of a thread that runs alone.  The loader is a function of the key that answers
  \<open>None\<close> when it raises; \<open>Would_wait\<close> stands for waiting on the flight of another thread.
\<close>

type_synonym page_loader = "page_key \<Rightarrow> bytes option"

definition get_page ::
  "(bytes \<Rightarrow> bytes) \<Rightarrow> page_key \<Rightarrow> page_loader option \<Rightarrow> string option \<Rightarrow> bool \<Rightarrow> pager \<Rightarrow>
     (pager_error + bytes) \<times> pager" where
  "get_page sha k loader expected allow_eviction P =
     (case get_admit k (loader \<noteq> None) expected P of
        (Resident data, Q) \<Rightarrow> (Inr data, Q)
      | (Refused err, Q) \<Rightarrow> (Inl err, Q)
      | (Waiter, Q) \<Rightarrow> (Inl Would_wait, Q)
      | (Owner, Q) \<Rightarrow>
          (case the loader k of
             None \<Rightarrow> (Inl Loader_failed, end_flight k Q)
           | Some data \<Rightarrow>
               (let (r, R) = get_load sha k data expected allow_eviction Q in (r, end_flight k R))))"

definition lease_page ::
  "(bytes \<Rightarrow> bytes) \<Rightarrow> page_key \<Rightarrow> page_loader option \<Rightarrow> string option \<Rightarrow> pager \<Rightarrow>
     (pager_error + bytes) \<times> pager" where
  "lease_page sha k loader expected P =
     (case get_page sha k loader expected True P of
        (Inl err, Q) \<Rightarrow> (Inl err, Q)
      | (Inr data, Q) \<Rightarrow>
          (case lease_mark k Q of (Some err, R) \<Rightarrow> (Inl err, R) | (None, R) \<Rightarrow> (Inr data, R)))"

text \<open>Only a \<open>PagerError\<close> is caught; an exception of the loader leaves \<open>prefetch\<close>.\<close>

fun prefetch_pages ::
  "(bytes \<Rightarrow> bytes) \<Rightarrow> page_loader \<Rightarrow> page_key list \<Rightarrow> nat \<times> nat \<Rightarrow> pager \<Rightarrow>
     (pager_error + nat \<times> nat) \<times> pager" where
  "prefetch_pages sha loader [] (useful, wasted) P =
     (Inr (useful, wasted),
      count (\<lambda>m. m\<lparr>pm_prefetch_useful := pm_prefetch_useful m + useful,
                   pm_prefetch_wasted := pm_prefetch_wasted m + wasted\<rparr>) P)"
| "prefetch_pages sha loader (k # ks) (useful, wasted) P =
     (let resident = (case map_of (sp_pages P) k of None \<Rightarrow> False | Some p \<Rightarrow> \<not> pg_invalidated p);
          (r, Q) = get_page sha k (Some loader) None False P in
      case r of
        Inl err \<Rightarrow>
          if err = Loader_failed then (Inl err, Q)
          else prefetch_pages sha loader ks (useful, Suc wasted) Q
      | Inr _ \<Rightarrow>
          prefetch_pages sha loader ks (if resident then (useful, Suc wasted) else (Suc useful, wasted)) Q)"

record working_set =
  ws_resident_pages :: nat
  ws_resident_bytes :: int
  ws_held_pages :: nat
  ws_bytes_available :: int

definition pager_stats :: "pager \<Rightarrow> working_set" where
  "pager_stats P =
     \<lparr>ws_resident_pages = length (sp_pages P), ws_resident_bytes = sp_bytes P,
      ws_held_pages = length (filter (\<lambda>(_, p). pg_leases p \<noteq> 0) (sp_pages P)),
      ws_bytes_available = max 0 (int (sp_max_bytes P) - sp_bytes P)\<rparr>"

section \<open>Budgets\<close>

text \<open>
  Any interleaving of the operations of any number of threads is a sequence of these steps.
\<close>

inductive pager_step :: "(bytes \<Rightarrow> bytes) \<Rightarrow> pager \<Rightarrow> pager \<Rightarrow> bool" for sha where
  admit: "pager_step sha P (snd (get_admit k has_loader expected P))"
| load: "pager_step sha P (snd (get_load sha k data expected allow_eviction P))"
| flight_end: "pager_step sha P (end_flight k P)"
| mark: "pager_step sha P (snd (lease_mark k P))"
| release: "pager_step sha P (snd (release_page k P))"
| invalidate: "pager_step sha P (snd (invalidate_pages ks r P))"
| metric: "pager_step sha P (count f P)"

inductive_cases pager_stepE: "pager_step sha P Q"

abbreviation page_size :: "page \<Rightarrow> nat" where
  "page_size p \<equiv> length (pg_data p)"

definition pager_inv :: "pager \<Rightarrow> bool" where
  "pager_inv P \<longleftrightarrow> distinct (keys (sp_pages P)) \<and> int (dtotal page_size (sp_pages P)) \<le> sp_bytes P \<and>
     sp_bytes P \<le> int (sp_max_bytes P) \<and> length (sp_pages P) \<le> sp_max_pages P"

lemma count_simps [simp]:
  "sp_pages (count f P) = sp_pages P" "sp_bytes (count f P) = sp_bytes P"
  "sp_max_bytes (count f P) = sp_max_bytes P" "sp_max_pages (count f P) = sp_max_pages P"
  "sp_flights (count f P) = sp_flights P" "sp_clock (count f P) = sp_clock P"
  "sp_repository (count f P) = sp_repository P" "sp_generation (count f P) = sp_generation P"
  by (simp_all add: count_def)

lemma length_dput: "length (dput k v d) = (if k \<in> set (keys d) then length d else Suc (length d))"
  by (induction d) (auto simp: dput_def)

lemma dtotal_dput_same:
  "distinct (keys d) \<Longrightarrow> map_of d k = Some p \<Longrightarrow> f q = f p \<Longrightarrow> dtotal f (dput k q d) = dtotal f d"
  using dtotal_dput [of d f k q] by simp

lemma pager_inv_replace:
  assumes "pager_inv P" "map_of (sp_pages P) k = Some p" "page_size q = page_size p"
    and "sp_pages Q = dput k q (sp_pages P)" "sp_bytes Q = sp_bytes P"
    and "sp_max_bytes Q = sp_max_bytes P" "sp_max_pages Q = sp_max_pages P"
  shows "pager_inv Q"
  using assms map_of_key_mem [OF assms(2)]
  by (simp add: pager_inv_def dict_simps length_dput dtotal_dput_same)

lemma dtotal_one: "dtotal (\<lambda>_. 1) d = length d"
  by (induction d) auto

lemma length_dpop: "distinct (keys d) \<Longrightarrow> map_of d k = Some p \<Longrightarrow> Suc (length (dpop k d)) = length d"
  using dtotal_dpop [of d k p "\<lambda>_. 1"] unfolding dtotal_one by simp

lemma pager_inv_drop:
  "pager_inv P \<Longrightarrow> map_of (sp_pages P) k = Some p \<Longrightarrow> pager_inv (drop_page k p P)"
  using dtotal_dpop [of "sp_pages P" k p page_size] length_dpop [of "sp_pages P" k p]
  by (auto simp: pager_inv_def drop_page_def dict_simps)

lemma pager_inv_more: "pager_inv (P\<lparr>sp_metrics := m\<rparr>) = pager_inv P"
  by (simp add: pager_inv_def)

definition evict_post :: "nat \<Rightarrow> pager \<Rightarrow> pager_error option \<times> pager \<Rightarrow> bool" where
  "evict_post required P r \<longleftrightarrow> pager_inv (snd r) \<and>
     sp_max_bytes (snd r) = sp_max_bytes P \<and> sp_max_pages (snd r) = sp_max_pages P \<and>
     (fst r = None \<longrightarrow> sp_bytes (snd r) + int required \<le> int (sp_max_bytes P) \<and>
        length (sp_pages (snd r)) < sp_max_pages P)"

lemma evict_inv: "pager_inv P \<Longrightarrow> evict_post required P (evict required allow P)"
proof (induction required allow P rule: evict.induct)
  case (1 required allow P)
  show ?case
  proof (cases "(sp_bytes P + int required > int (sp_max_bytes P) \<or> length (sp_pages P) \<ge> sp_max_pages P) \<and> allow")
    case False
    with 1(2) show ?thesis by (subst evict.simps) (auto simp: evict_post_def)
  next
    case True
    show ?thesis
    proof (cases "eviction_victim P")
      case None
      with True 1(2) show ?thesis by (subst evict.simps) (auto simp: evict_post_def)
    next
      case (Some e)
      obtain k p where e: "e = (k, p)" by (cases e)
      let ?Q = "(drop_page k p P)\<lparr>sp_metrics := (sp_metrics P)\<lparr>pm_evictions := Suc (pm_evictions (sp_metrics P))\<rparr>\<rparr>"
      have "(k, p) \<in> set (sp_pages P)" using eviction_victim_mem Some e by blast
      then have "map_of (sp_pages P) k = Some p" using 1(2) by (simp add: pager_inv_def)
      then have inv: "pager_inv ?Q" using 1(2) pager_inv_drop by (simp only: pager_inv_more)
      have ih: "pager_inv ?Q \<Longrightarrow> evict_post required ?Q (evict required allow ?Q)"
        using 1(1) True Some e by auto
      have "evict required allow P = evict required allow ?Q"
        using True Some e by (subst evict.simps) simp
      moreover have "sp_max_bytes ?Q = sp_max_bytes P" "sp_max_pages ?Q = sp_max_pages P"
        by (simp_all add: drop_page_def)
      ultimately show ?thesis using ih [OF inv] by (simp add: evict_post_def)
    qed
  qed
qed

lemma pager_inv_admit: "pager_inv P \<Longrightarrow> pager_inv (snd (get_admit k has_loader expected P))"
proof (cases "check_page_key k P")
  case None
  assume inv: "pager_inv P"
  have counted: "pager_inv (count f P)" "pager_inv (count f (P\<lparr>sp_flights := fs\<rparr>))" for f fs
    using inv by (simp_all add: pager_inv_def)
  have "pager_inv (count f (P\<lparr>sp_pages := dput k (p\<lparr>pg_invalidated := True\<rparr>) (sp_pages P)\<rparr>))"
      "pager_inv (touch_page k p (count f P))" if p: "map_of (sp_pages P) k = Some p" for f p
    unfolding touch_page_def
    by (rule pager_inv_replace [OF inv p, of "p\<lparr>pg_invalidated := True\<rparr>"], simp_all)
       (rule pager_inv_replace [OF inv p, of "p\<lparr>pg_last_touch := Suc (sp_clock P)\<rparr>"], simp_all)
  with counted inv None show ?thesis
    by (auto simp: get_admit_def Let_def split: option.split)
qed (simp add: get_admit_def)

lemma pager_inv_load: "pager_inv P \<Longrightarrow> pager_inv (snd (get_load sha k data expected allow P))"
proof -
  assume "pager_inv P"
  then have post: "evict_post (length data) P (evict (length data) allow P)" by (rule evict_inv)
  obtain r Q where r: "evict (length data) allow P = (r, Q)" by (cases "evict (length data) allow P")
  show ?thesis
  proof (cases r)
    case (Some err)
    with post r \<open>pager_inv P\<close> show ?thesis by (simp add: get_load_def evict_post_def)
  next
    case None
    with post r have inv: "pager_inv Q" "sp_bytes Q + int (length data) \<le> int (sp_max_bytes Q)"
        "length (sp_pages Q) < sp_max_pages Q" by (simp_all add: evict_post_def)
    let ?p = "\<lparr>pg_data = data, pg_digest = hexdigest sha data, pg_last_touch = Suc (sp_clock Q),
      pg_leases = 0, pg_invalidated = False\<rparr>"
    have "dtotal page_size (dput k ?p (sp_pages Q)) \<le> dtotal page_size (sp_pages Q) + length data"
      using dtotal_dput [of "sp_pages Q" page_size k ?p] inv(1) by (simp add: pager_inv_def)
    with inv r None \<open>pager_inv P\<close> show ?thesis
      by (auto simp: get_load_def pager_inv_def dict_simps length_dput)
  qed
qed

lemma pager_inv_release: "pager_inv P \<Longrightarrow> pager_inv (snd (release_page k P))"
proof (cases "map_of (sp_pages P) k")
  case (Some p)
  assume inv: "pager_inv P"
  let ?q = "p\<lparr>pg_leases := pg_leases p - 1\<rparr>"
  let ?Q = "P\<lparr>sp_pages := dput k ?q (sp_pages P)\<rparr>"
  have q: "pager_inv ?Q" by (rule pager_inv_replace [OF inv Some, of ?q]) simp_all
  have "map_of (sp_pages ?Q) k = Some ?q" by (simp add: dict_simps)
  with q have "pager_inv (drop_page k ?q ?Q)" by (rule pager_inv_drop)
  with q Some inv show ?thesis by (auto simp: release_page_def Let_def)
qed (simp add: release_page_def)

lemma pager_inv_invalidate: "pager_inv P \<Longrightarrow> pager_inv (snd (invalidate_pages ks r P))"
proof (induction ks r P rule: invalidate_pages.induct)
  case (2 k ks r P)
  show ?case
  proof (cases "check_page_key k P = None \<and> map_of (sp_pages P) k \<noteq> None")
    case True
    then obtain p where p: "map_of (sp_pages P) k = Some p" by auto
    let ?q = "p\<lparr>pg_invalidated := True\<rparr>"
    let ?Q = "count (\<lambda>m. m\<lparr>pm_invalidations := Suc (pm_invalidations m)\<rparr>) (P\<lparr>sp_pages := dput k ?q (sp_pages P)\<rparr>)"
    have q: "pager_inv ?Q" by (rule pager_inv_replace [OF \<open>pager_inv P\<close> p, of ?q]) simp_all
    have "map_of (sp_pages ?Q) k = Some ?q" by (simp add: dict_simps)
    with q have "pager_inv (drop_page k ?q ?Q)" by (rule pager_inv_drop)
    with q True p 2 show ?thesis by (auto simp: Let_def)
  next
    case False
    with 2 show ?thesis by (auto split: option.split)
  qed
qed simp

lemma pager_inv_mark: "pager_inv P \<Longrightarrow> pager_inv (snd (lease_mark k P))"
proof (cases "map_of (sp_pages P) k")
  case (Some p)
  assume inv: "pager_inv P"
  have "pager_inv (P\<lparr>sp_pages := dput k (p\<lparr>pg_leases := Suc (pg_leases p)\<rparr>) (sp_pages P)\<rparr>)"
    by (rule pager_inv_replace [OF inv Some, of "p\<lparr>pg_leases := Suc (pg_leases p)\<rparr>"]) simp_all
  with Some show ?thesis by (simp add: lease_mark_def)
qed (simp add: lease_mark_def)

lemma pager_step_inv: "pager_step sha P Q \<Longrightarrow> pager_inv P \<Longrightarrow> pager_inv Q"
  by (induction rule: pager_step.induct)
     (simp_all add: pager_inv_admit pager_inv_load pager_inv_release pager_inv_invalidate pager_inv_mark,
      simp_all add: pager_inv_def end_flight_def)

lemma pager_run_inv: "(pager_step sha)\<^sup>*\<^sup>* P Q \<Longrightarrow> pager_inv P \<Longrightarrow> pager_inv Q"
  by (induction rule: rtranclp_induct) (auto intro: pager_step_inv)

lemma new_pager_inv: "new_pager r g b n = Inr P \<Longrightarrow> pager_inv P"
  by (auto simp: new_pager_def pager_inv_def split: if_splits)

lemma admit_limits:
  "sp_max_bytes (snd (get_admit k l e P)) = sp_max_bytes P \<and> sp_max_pages (snd (get_admit k l e P)) = sp_max_pages P"
  by (simp add: get_admit_def touch_page_def Let_def split: option.split)

lemma load_limits:
  "pager_inv P \<Longrightarrow> sp_max_bytes (snd (get_load sha k d e a P)) = sp_max_bytes P \<and>
     sp_max_pages (snd (get_load sha k d e a P)) = sp_max_pages P"
  using evict_inv [of P "length d" a]
  by (auto simp: get_load_def evict_post_def split: option.split prod.split)

lemma release_limits:
  "sp_max_bytes (snd (release_page k P)) = sp_max_bytes P \<and> sp_max_pages (snd (release_page k P)) = sp_max_pages P"
  by (simp add: release_page_def drop_page_def Let_def split: option.split)

lemma invalidate_limits:
  "sp_max_bytes (snd (invalidate_pages ks r P)) = sp_max_bytes P \<and>
     sp_max_pages (snd (invalidate_pages ks r P)) = sp_max_pages P"
  by (induction ks r P rule: invalidate_pages.induct) (simp_all add: drop_page_def Let_def split: option.split)

lemma pager_step_limits:
  "pager_step sha P Q \<Longrightarrow> pager_inv P \<Longrightarrow> sp_max_bytes Q = sp_max_bytes P \<and> sp_max_pages Q = sp_max_pages P"
  by (induction rule: pager_step.induct)
     (simp_all add: admit_limits load_limits release_limits invalidate_limits,
      simp_all add: end_flight_def lease_mark_def split: option.split)

lemma pager_run_limits:
  "(pager_step sha)\<^sup>*\<^sup>* P Q \<Longrightarrow> pager_inv P \<Longrightarrow> sp_max_bytes Q = sp_max_bytes P \<and> sp_max_pages Q = sp_max_pages P"
proof (induction rule: rtranclp_induct)
  case (step Q R)
  then show ?case using pager_run_inv pager_step_limits by metis
qed simp

text \<open>C16: The budgets hold under every interleaving: in every state that any threads can drive a new pager to,
  the resident pages have at most \<open>max_pages\<close> entries and their contents at most \<open>max_bytes\<close> bytes, and
  the byte count the pager reports is at least the bytes that are resident.\<close>

theorem pager_stays_within_budget:
  assumes "new_pager repository generation max_bytes max_pages = Inr P" "(pager_step sha)\<^sup>*\<^sup>* P Q"
  shows "dtotal page_size (sp_pages Q) \<le> max_bytes \<and> length (sp_pages Q) \<le> max_pages \<and>
    int (dtotal page_size (sp_pages Q)) \<le> ws_resident_bytes (pager_stats Q) \<and>
    ws_resident_bytes (pager_stats Q) \<le> int max_bytes"
proof -
  have P: "sp_max_bytes P = max_bytes" "sp_max_pages P = max_pages"
    using assms(1) by (auto simp: new_pager_def split: if_splits)
  from assms(2) new_pager_inv [OF assms(1)] have "pager_inv Q" by (rule pager_run_inv)
  moreover from pager_run_limits [OF assms(2) new_pager_inv [OF assms(1)]] P
  have "sp_max_bytes Q = max_bytes" "sp_max_pages Q = max_pages" by simp_all
  ultimately show ?thesis by (auto simp: pager_inv_def pager_stats_def)
qed

section \<open>Which pages are evicted\<close>

lemma least_entry_touch:
  "\<forall>e \<in> insert b (set es). pg_last_touch (snd (least_entry b es)) \<le> pg_last_touch (snd e)"
proof (induction es arbitrary: b)
  case (Cons e es)
  let ?b = "if evict_before e b then e else b"
  from Cons.IH [of ?b] have ih: "\<forall>f \<in> insert ?b (set es). pg_last_touch (snd (least_entry ?b es)) \<le> pg_last_touch (snd f)" .
  have "pg_last_touch (snd ?b) \<le> pg_last_touch (snd b)" "pg_last_touch (snd ?b) \<le> pg_last_touch (snd e)"
    by (auto simp: evict_before_def)
  with ih show ?case by fastforce
qed simp

lemma eviction_victim_touch:
  "eviction_victim P = Some v \<Longrightarrow> e \<in> set (sp_pages P) \<Longrightarrow> pg_leases (snd e) = 0 \<Longrightarrow>
     pg_last_touch (snd v) \<le> pg_last_touch (snd e)"
proof -
  assume v: "eviction_victim P = Some v" and e: "e \<in> set (sp_pages P)" "pg_leases (snd e) = 0"
  then obtain b es where es: "filter (\<lambda>(_, p). pg_leases p = 0) (sp_pages P) = b # es" "v = least_entry b es"
    by (auto simp: eviction_victim_def split: list.splits)
  have "e \<in> set (filter (\<lambda>(_, p). pg_leases p = 0) (sp_pages P))" using e by (simp add: split_beta)
  with es least_entry_touch [of b es] show ?thesis by auto
qed

lemma evict_entries:
  "distinct (keys (sp_pages P)) \<Longrightarrow> evict required allow P = (r, Q) \<Longrightarrow>
     set (sp_pages Q) \<subseteq> set (sp_pages P) \<and>
     (\<forall>e \<in> set (sp_pages P) - set (sp_pages Q). pg_leases (snd e) = 0 \<and>
        (\<forall>f \<in> set (sp_pages Q). pg_leases (snd f) = 0 \<longrightarrow> pg_last_touch (snd e) \<le> pg_last_touch (snd f)))"
proof (induction required allow P rule: evict.induct)
  case (1 required allow P)
  show ?case
  proof (cases "(sp_bytes P + int required > int (sp_max_bytes P) \<or> length (sp_pages P) \<ge> sp_max_pages P) \<and>
      allow \<and> eviction_victim P \<noteq> None")
    case False
    then have "Q = P" using 1(3) by (subst (asm) evict.simps) (auto split: if_splits option.splits)
    then show ?thesis by simp
  next
    case True
    then obtain k p where v: "eviction_victim P = Some (k, p)" by auto
    let ?Q = "(drop_page k p P)\<lparr>sp_metrics := (sp_metrics P)\<lparr>pm_evictions := Suc (pm_evictions (sp_metrics P))\<rparr>\<rparr>"
    have pages: "sp_pages ?Q = dpop k (sp_pages P)" by (simp add: drop_page_def)
    have "evict required allow P = evict required allow ?Q"
      using True v by (subst evict.simps) simp
    then have Q: "evict required allow ?Q = (r, Q)" using 1(3) by simp
    have d: "distinct (keys (sp_pages ?Q))" using 1(2) by (simp add: pages dict_simps)
    have ih: "set (sp_pages Q) \<subseteq> set (sp_pages ?Q) \<and>
        (\<forall>e \<in> set (sp_pages ?Q) - set (sp_pages Q). pg_leases (snd e) = 0 \<and>
          (\<forall>f \<in> set (sp_pages Q). pg_leases (snd f) = 0 \<longrightarrow> pg_last_touch (snd e) \<le> pg_last_touch (snd f)))"
      using 1(1) True v d Q by auto
    have sub: "set (sp_pages ?Q) \<subseteq> set (sp_pages P)" by (auto simp: pages dpop_def)
    have gone: "e = (k, p)" if "e \<in> set (sp_pages P)" "e \<notin> set (sp_pages ?Q)" for e
    proof -
      from that have "fst e = k" unfolding pages dpop_def by (cases "fst e = k") (simp_all add: split_beta)
      moreover have "map_of (sp_pages P) (fst e) = Some (snd e)" "map_of (sp_pages P) k = Some p"
        using that(1) eviction_victim_mem [OF v] 1(2) by (simp_all add: map_of_is_SomeI)
      ultimately show ?thesis by (cases e) simp
    qed
    have "pg_leases (snd e) = 0 \<and>
        (\<forall>f \<in> set (sp_pages Q). pg_leases (snd f) = 0 \<longrightarrow> pg_last_touch (snd e) \<le> pg_last_touch (snd f))"
      if e: "e \<in> set (sp_pages P) - set (sp_pages Q)" for e
    proof (cases "e \<in> set (sp_pages ?Q)")
      case True
      with ih e show ?thesis by blast
    next
      case False
      with gone e have e: "e = (k, p)" by blast
      have "pg_last_touch p \<le> pg_last_touch (snd f)" if "f \<in> set (sp_pages Q)" "pg_leases (snd f) = 0" for f
        using eviction_victim_touch [OF v, of f] ih sub that by auto
      with e eviction_victim_mem [OF v] show ?thesis by simp
    qed
    with ih sub show ?thesis by blast
  qed
qed

lemma get_load_pages:
  assumes "get_load sha k data expected allow P = (r, R)"
  shows "\<exists>Q e. (evict (length data) allow P = (e, Q) \<or> Q = P) \<and>
    (\<forall>j. j \<noteq> k \<longrightarrow> map_of (sp_pages R) j = map_of (sp_pages Q) j)"
  using assms by (auto simp: get_load_def dict_simps split: if_splits prod.splits option.splits)

text \<open>C17: Loading a page evicts only pages that are not leased, and the least recently touched of them: of the
  pages under other keys than the loaded one, each that is gone had no lease and was touched no later than
  every unleased page that stayed, and each leased one stays resident with its contents.  (The page under the
  loaded key itself is replaced, also when it was invalidated while leased: see the end of the theory.)\<close>

theorem eviction_is_lru_and_spares_leases:
  assumes "pager_inv P" "get_load sha k data expected allow P = (r, R)"
    and "map_of (sp_pages P) j = Some p" "j \<noteq> k"
  shows "(pg_leases p \<noteq> 0 \<longrightarrow> map_of (sp_pages R) j = Some p) \<and>
    (map_of (sp_pages R) j \<noteq> Some p \<longrightarrow>
       (\<forall>i q. i \<noteq> k \<longrightarrow> map_of (sp_pages R) i = Some q \<longrightarrow> pg_leases q = 0 \<longrightarrow> pg_last_touch p \<le> pg_last_touch q))"
proof -
  have d: "distinct (keys (sp_pages P))" using assms(1) by (simp add: pager_inv_def)
  from get_load_pages [OF assms(2)] obtain Q e where Q: "evict (length data) allow P = (e, Q) \<or> Q = P"
      and R: "\<And>i. i \<noteq> k \<Longrightarrow> map_of (sp_pages R) i = map_of (sp_pages Q) i" by blast
  have sub: "set (sp_pages Q) \<subseteq> set (sp_pages P)"
    and gone: "\<And>e f. e \<in> set (sp_pages P) - set (sp_pages Q) \<Longrightarrow> pg_leases (snd e) = 0 \<and>
      (f \<in> set (sp_pages Q) \<longrightarrow> pg_leases (snd f) = 0 \<longrightarrow> pg_last_touch (snd e) \<le> pg_last_touch (snd f))"
    using Q evict_entries [OF d, of "length data" allow e Q] by auto
  have dQ: "distinct (keys (sp_pages Q))"
    using Q evict_inv [OF assms(1), of "length data" allow] d by (auto simp: evict_post_def pager_inv_def)
  have mem: "(j, p) \<in> set (sp_pages P)" using assms(3) by (rule map_of_SomeD)
  have inQ: "map_of (sp_pages R) j = Some p" if "(j, p) \<in> set (sp_pages Q)"
    using that R [OF assms(4)] dQ by simp
  have "pg_leases p = 0 \<and> (\<forall>i q. i \<noteq> k \<longrightarrow> map_of (sp_pages R) i = Some q \<longrightarrow> pg_leases q = 0 \<longrightarrow>
      pg_last_touch p \<le> pg_last_touch q)" if "(j, p) \<notin> set (sp_pages Q)"
    using gone [of "(j, p)"] mem that R by (auto dest: map_of_SomeD)
  then show ?thesis
  proof (cases "(j, p) \<in> set (sp_pages Q)")
    case True
    from inQ [OF True] show ?thesis by simp
  next
    case False
    then show ?thesis
      using \<open>(j, p) \<notin> set (sp_pages Q) \<Longrightarrow> pg_leases p = 0 \<and> (\<forall>i q. i \<noteq> k \<longrightarrow> map_of (sp_pages R) i = Some q \<longrightarrow>
        pg_leases q = 0 \<longrightarrow> pg_last_touch p \<le> pg_last_touch q)\<close> by (intro conjI impI) simp_all
  qed
qed

section \<open>Reloading an invalidated page\<close>

text \<open>Reloading a page that was invalidated while leased leaks its bytes: the new page replaces the old
  one without giving back its size, so the pager counts the old bytes as resident for ever, and the
  holder of the old lease cannot release it any more.\<close>

theorem reload_of_leased_page_leaks:
  assumes "map_of (sp_pages P) k = Some p" "pg_invalidated p" "check_page_key k P = None" "k \<notin> set (sp_flights P)"
    and "distinct (keys (sp_pages P))"
    and "sp_bytes P + int (length data) \<le> int (sp_max_bytes P)" "length (sp_pages P) < sp_max_pages P"
    and "get_page sha k (Some (\<lambda>_. Some data)) None True P = (r, Q)"
  shows "r = Inr data \<and> sp_bytes Q = sp_bytes P + int (length data) \<and>
    dtotal page_size (sp_pages Q) + page_size p = dtotal page_size (sp_pages P) + length data \<and>
    fst (release_page k Q) = Some Lease_mismatch"
proof -
  let ?P = "count (\<lambda>m. m\<lparr>pm_misses := Suc (pm_misses m)\<rparr>) (P\<lparr>sp_flights := sp_flights P @ [k]\<rparr>)"
  let ?p = "\<lparr>pg_data = data, pg_digest = hexdigest sha data, pg_last_touch = Suc (sp_clock P),
    pg_leases = 0, pg_invalidated = False\<rparr>"
  have "evict (length data) True ?P = (None, ?P)"
    using assms(6,7) by (subst evict.simps) simp
  with assms(1-4,8) have Q: "r = Inr data" "sp_pages Q = dput k ?p (sp_pages P)"
      "sp_bytes Q = sp_bytes P + int (length data)"
    by (auto simp: get_page_def get_admit_def get_load_def end_flight_def Let_def)
  have "dtotal page_size (sp_pages Q) + page_size p = dtotal page_size (sp_pages P) + length data"
    using dtotal_dput [OF assms(5), of page_size k ?p] assms(1) Q(2) by simp
  with Q show ?thesis by (simp add: release_page_def dict_simps)
qed

section \<open>Examples\<close>

definition example_key :: "string \<Rightarrow> page_key" where
  "example_key s = \<lparr>pk_repository = ''r'', pk_generation = ''g'', pk_overlay = None, pk_segment = s,
     pk_logical_range = ''0'', pk_schema = PAGER_SCHEMA\<rparr>"

definition example_page :: "nat \<Rightarrow> nat \<Rightarrow> bool \<Rightarrow> page" where
  "example_page touch leases invalidated = \<lparr>pg_data = [1, 2], pg_digest = ''d'', pg_last_touch = touch,
     pg_leases = leases, pg_invalidated = invalidated\<rparr>"

definition example_pager :: pager where
  "example_pager = \<lparr>sp_repository = ''r'', sp_generation = ''g'', sp_max_bytes = 8, sp_max_pages = 4,
     sp_pages = [(example_key ''a'', example_page 1 1 True), (example_key ''b'', example_page 2 0 False)],
     sp_flights = [], sp_clock = 2, sp_bytes = 4, sp_metrics = zero_metrics\<rparr>"

lemma example_keys [simp]: "example_key s = example_key t \<longleftrightarrow> s = t"
  by (simp add: example_key_def)

theorem pager_stays_within_budget_witness:
  "\<exists>P Q. new_pager ''r'' ''g'' 8 4 = Inr P \<and> (pager_step id)\<^sup>*\<^sup>* P Q \<and>
     dtotal page_size (sp_pages Q) \<le> 8 \<and> sp_pages Q \<noteq> []"
proof -
  obtain P where P: "new_pager ''r'' ''g'' 8 4 = Inr P" "sp_pages P = []" "sp_bytes P = 0"
      "sp_max_bytes P = 8" "sp_max_pages P = 4" by (simp add: new_pager_def)
  let ?Q = "snd (get_load id (example_key ''a'') [1, 2] None True P)"
  have run: "(pager_step id)\<^sup>*\<^sup>* P ?Q" by (rule r_into_rtranclp) (rule pager_step.load)
  have "evict (length [1 :: byte, 2]) True P = (None, P)" using P by (subst evict.simps) simp
  then have "sp_pages ?Q \<noteq> []" using P by (simp add: get_load_def dput_def)
  with pager_stays_within_budget [OF P(1) run] P(1) run show ?thesis by blast
qed

theorem eviction_is_lru_and_spares_leases_witness:
  "map_of (sp_pages (snd (get_load id (example_key ''c'') [0, 0, 0, 0, 0, 0] None True example_pager)))
     (example_key ''a'') = Some (example_page 1 1 True)"
proof -
  have "pager_inv example_pager"
    by (simp add: pager_inv_def example_pager_def example_page_def)
  moreover have "map_of (sp_pages example_pager) (example_key ''a'') = Some (example_page 1 1 True)"
    by (simp add: example_pager_def)
  ultimately show ?thesis
    using eviction_is_lru_and_spares_leases [OF _ prod.collapse [symmetric], of example_pager
        "example_key ''a''" "example_page 1 1 True" "example_key ''c''" id "[0, 0, 0, 0, 0, 0]" None True]
    by (simp add: example_page_def)
qed

theorem reload_of_leased_page_leaks_witness:
  "\<exists>Q. get_page id (example_key ''a'') (Some (\<lambda>_. Some [3])) None True example_pager = (Inr [3], Q) \<and>
     sp_bytes Q = 5 \<and> dtotal page_size (sp_pages Q) = 3 \<and> fst (release_page (example_key ''a'') Q) = Some Lease_mismatch"
proof -
  obtain r Q where Q: "get_page id (example_key ''a'') (Some (\<lambda>_. Some [3])) None True example_pager = (r, Q)"
    by fastforce
  have "map_of (sp_pages example_pager) (example_key ''a'') = Some (example_page 1 1 True)"
      "pg_invalidated (example_page 1 1 True)" "check_page_key (example_key ''a'') example_pager = None"
      "example_key ''a'' \<notin> set (sp_flights example_pager)" "distinct (keys (sp_pages example_pager))"
      "sp_bytes example_pager + int (length [3 :: byte]) \<le> int (sp_max_bytes example_pager)"
      "length (sp_pages example_pager) < sp_max_pages example_pager"
    by (simp_all add: example_pager_def example_page_def check_page_key_def) (simp add: example_key_def)
  from reload_of_leased_page_leaks [OF this Q] Q show ?thesis
    by (simp add: example_pager_def example_page_def)
qed

end
