(* ===== verification/SingleFlight.thy ===== *)
theory SingleFlight
  imports Json
begin

text \<open>
  The single-flight half of \<open>simplicio_fast/pager.py\<close>: request keys and the bounded coordinator that
  lets one thread compute a shared request while others wait for its result.  Every block executed
  under the lock is one operation; the time a waiter spends on the event is the gap between two.
\<close>

record request_key =
  qk_repository :: string
  qk_commit :: string
  qk_generation :: string
  qk_request_digest :: string

datatype flight_error = Key_parts_required | Limits_not_positive | Flight_limit | Waiter_limit | Waiter_cancelled
  | Waiter_timeout | Still_waiting

definition new_request_key :: "string \<Rightarrow> string \<Rightarrow> string \<Rightarrow> string \<Rightarrow> flight_error + request_key" where
  "new_request_key repository commit gen request_digest =
     (if list_all (\<lambda>v. v \<noteq> []) [repository, commit, gen, request_digest]
      then Inr \<lparr>qk_repository = repository, qk_commit = commit, qk_generation = gen,
                qk_request_digest = request_digest\<rparr>
      else Inl Key_parts_required)"

definition make_request_key ::
  "(bytes \<Rightarrow> bytes) \<Rightarrow> string \<Rightarrow> string \<Rightarrow> string \<Rightarrow> json \<Rightarrow> flight_error + request_key" where
  "make_request_key sha repository commit gen request =
     new_request_key repository commit gen (hexdigest sha (canonical request))"

datatype flight_result = Result json | Failure string

record flight =
  fl_key :: request_key
  fl_waiters :: nat
  fl_result :: "flight_result option"
  fl_set :: bool

record coordinator =
  co_max_flights :: nat
  co_max_waiters :: nat
  co_flights :: "(request_key, nat) dict"
  co_pool :: "flight list"
  co_owners :: nat
  co_completions :: nat
  co_waiters :: nat
  co_cancellations :: nat
  co_timeouts :: nat
  co_failures :: nat
  co_rejections :: nat

definition new_coordinator :: "nat \<Rightarrow> nat \<Rightarrow> flight_error + coordinator" where
  "new_coordinator max_flights max_waiters =
     (if max_flights < 1 \<or> max_waiters < 1 then Inl Limits_not_positive
      else Inr \<lparr>co_max_flights = max_flights, co_max_waiters = max_waiters, co_flights = [], co_pool = [],
                co_owners = 0, co_completions = 0, co_waiters = 0, co_cancellations = 0, co_timeouts = 0,
                co_failures = 0, co_rejections = 0\<rparr>)"

datatype flight_admission = Owns nat | Waits nat | Rejected flight_error

definition flight_admit :: "request_key \<Rightarrow> coordinator \<Rightarrow> flight_admission \<times> coordinator" where
  "flight_admit k C =
     (case map_of (co_flights C) k of
        None \<Rightarrow>
          if length (co_flights C) \<ge> co_max_flights C
          then (Rejected Flight_limit, C\<lparr>co_rejections := Suc (co_rejections C)\<rparr>)
          else
            (let i = length (co_pool C) in
             (Owns i,
              C\<lparr>co_pool := co_pool C @ [\<lparr>fl_key = k, fl_waiters = 0, fl_result = None, fl_set = False\<rparr>],
                co_flights := dput k i (co_flights C), co_owners := Suc (co_owners C)\<rparr>))
      | Some i \<Rightarrow>
          (let f = co_pool C ! i in
           if fl_waiters f \<ge> co_max_waiters C
           then (Rejected Waiter_limit, C\<lparr>co_rejections := Suc (co_rejections C)\<rparr>)
           else (Waits i,
                 C\<lparr>co_pool := (co_pool C)[i := f\<lparr>fl_waiters := Suc (fl_waiters f)\<rparr>],
                   co_waiters := Suc (co_waiters C)\<rparr>)))"

text \<open>The owner's operation has returned or raised.\<close>

definition flight_complete :: "nat \<Rightarrow> flight_result \<Rightarrow> coordinator \<Rightarrow> coordinator" where
  "flight_complete i r C =
     (if i < length (co_pool C) \<and> fl_result (co_pool C ! i) = None
      then
        (let D = C\<lparr>co_pool := (co_pool C)[i := (co_pool C ! i)\<lparr>fl_result := Some r\<rparr>]\<rparr>
         in case r of
              Result _ \<Rightarrow> D\<lparr>co_completions := Suc (co_completions C)\<rparr>
            | Failure _ \<Rightarrow> D\<lparr>co_failures := Suc (co_failures C)\<rparr>)
      else C)"

text \<open>The owner's \<open>finally\<close> block, after its result is recorded.\<close>

definition flight_finish :: "nat \<Rightarrow> coordinator \<Rightarrow> coordinator" where
  "flight_finish i C =
     (if i < length (co_pool C) \<and> fl_result (co_pool C ! i) \<noteq> None \<and> \<not> fl_set (co_pool C ! i)
      then C\<lparr>co_flights := dpop (fl_key (co_pool C ! i)) (co_flights C),
             co_pool := (co_pool C)[i := (co_pool C ! i)\<lparr>fl_set := True\<rparr>]\<rparr>
      else C)"

datatype wait_end = Event | Cancel | Timeout

definition flight_wait :: "nat \<Rightarrow> wait_end \<Rightarrow> coordinator \<Rightarrow> (flight_error + flight_result) \<times> coordinator" where
  "flight_wait i how C =
     (let f = co_pool C ! i;
          left = C\<lparr>co_pool := (co_pool C)[i := f\<lparr>fl_waiters := fl_waiters f - 1\<rparr>]\<rparr> in
      if \<not> i < length (co_pool C) then (Inl Still_waiting, C)
      else if fl_set f
        then (case fl_result f of Some r \<Rightarrow> (Inr r, left) | None \<Rightarrow> (Inl Still_waiting, left))
      else
        (case how of
           Cancel \<Rightarrow> (Inl Waiter_cancelled, left\<lparr>co_cancellations := Suc (co_cancellations C)\<rparr>)
         | Timeout \<Rightarrow> (Inl Waiter_timeout, left\<lparr>co_timeouts := Suc (co_timeouts C)\<rparr>)
         | Event \<Rightarrow> (Inl Still_waiting, C)))"

section \<open>Reachable states\<close>

inductive flight_step :: "coordinator \<Rightarrow> coordinator \<Rightarrow> bool" where
  admit: "flight_step C (snd (flight_admit k C))"
| complete: "flight_step C (flight_complete i r C)"
| finished: "flight_step C (flight_finish i C)"
| waited: "flight_step C (snd (flight_wait i how C))"

definition flight_stats :: "coordinator \<Rightarrow> json" where
  "flight_stats C = JObj
     [(''schema'', JStr ''simplicio.fast.single-flight/v1''), (''active_flights'', JInt (int (length (co_flights C)))),
      (''max_flights'', JInt (int (co_max_flights C))), (''max_waiters'', JInt (int (co_max_waiters C))),
      (''owners'', JInt (int (co_owners C))), (''completions'', JInt (int (co_completions C))),
      (''waiters'', JInt (int (co_waiters C))), (''waiter_cancellations'', JInt (int (co_cancellations C))),
      (''waiter_timeouts'', JInt (int (co_timeouts C))), (''failures'', JInt (int (co_failures C))),
      (''rejections'', JInt (int (co_rejections C)))]"

text \<open>The flights whose owner still computes.\<close>

definition open_flights :: "coordinator \<Rightarrow> nat" where
  "open_flights C = length (filter (\<lambda>f. fl_result f = None) (co_pool C))"

definition flights_inv :: "nat \<Rightarrow> (request_key, nat) dict \<Rightarrow> flight list \<Rightarrow> bool" where
  "flights_inv mw fs pool \<longleftrightarrow>
     distinct (keys fs) \<and>
     (\<forall>i < length pool. fl_waiters (pool ! i) \<le> mw \<and>
        (fl_set (pool ! i) \<longrightarrow> fl_result (pool ! i) \<noteq> None) \<and>
        (\<not> fl_set (pool ! i) \<longrightarrow> map_of fs (fl_key (pool ! i)) = Some i)) \<and>
     (\<forall>k i. map_of fs k = Some i \<longrightarrow> i < length pool \<and> fl_key (pool ! i) = k)"

definition coordinator_inv :: "coordinator \<Rightarrow> bool" where
  "coordinator_inv C \<longleftrightarrow> flights_inv (co_max_waiters C) (co_flights C) (co_pool C) \<and>
     length (co_flights C) \<le> co_max_flights C \<and>
     co_owners C = length (co_pool C) \<and>
     co_owners C = co_completions C + co_failures C + open_flights C"

lemma flights_invI:
  "\<lbrakk>distinct (keys fs); \<And>i. i < length pool \<Longrightarrow> fl_waiters (pool ! i) \<le> mw;
    \<And>i. i < length pool \<Longrightarrow> fl_set (pool ! i) \<Longrightarrow> fl_result (pool ! i) \<noteq> None;
    \<And>i. i < length pool \<Longrightarrow> \<not> fl_set (pool ! i) \<Longrightarrow> map_of fs (fl_key (pool ! i)) = Some i;
    \<And>k i. map_of fs k = Some i \<Longrightarrow> i < length pool \<and> fl_key (pool ! i) = k\<rbrakk> \<Longrightarrow> flights_inv mw fs pool"
  by (simp add: flights_inv_def)

lemma flights_invD:
  assumes "flights_inv mw fs pool"
  shows "distinct (keys fs)"
    "i < length pool \<Longrightarrow> fl_waiters (pool ! i) \<le> mw"
    "i < length pool \<Longrightarrow> fl_set (pool ! i) \<Longrightarrow> fl_result (pool ! i) \<noteq> None"
    "i < length pool \<Longrightarrow> \<not> fl_set (pool ! i) \<Longrightarrow> map_of fs (fl_key (pool ! i)) = Some i"
    "map_of fs k = Some i \<Longrightarrow> i < length pool"
    "map_of fs k = Some i \<Longrightarrow> fl_key (pool ! i) = k"
  using assms by (simp_all add: flights_inv_def)

lemma flights_inv_new:
  assumes inv: "flights_inv mw fs pool" and "map_of fs k = None"
  shows "flights_inv mw (dput k (length pool) fs)
    (pool @ [\<lparr>fl_key = k, fl_waiters = 0, fl_result = None, fl_set = False\<rparr>])"
    (is "flights_inv mw ?fs ?pool")
proof (rule flights_invI)
  note D = flights_invD [OF inv]
  show "distinct (keys ?fs)" using D(1) by (rule distinct_dput)
  fix i assume i: "i < length ?pool"
  show "fl_waiters (?pool ! i) \<le> mw" using i D(2) [of i] by (auto simp: nth_append)
  show "fl_result (?pool ! i) \<noteq> None" if "fl_set (?pool ! i)"
    using i that D(3) [of i] by (auto simp: nth_append split: if_splits)
  show "map_of ?fs (fl_key (?pool ! i)) = Some i" if "\<not> fl_set (?pool ! i)"
  proof (cases "i < length pool")
    case True
    with that D(4) [of i] have "map_of fs (fl_key (pool ! i)) = Some i" by (simp add: nth_append)
    with True assms(2) show ?thesis by (auto simp: map_of_dput nth_append)
  next
    case False
    with i have "i = length pool" by simp
    then show ?thesis by (simp add: map_of_dput)
  qed
next
  fix j i assume "map_of ?fs j = Some i"
  then have "j = k \<and> i = length pool \<or> map_of fs j = Some i" by (cases "j = k") (simp_all add: map_of_dput)
  then show "i < length ?pool \<and> fl_key (?pool ! i) = j"
    using flights_invD(5,6) [OF inv, of j i] by (auto simp: nth_append)
qed

lemma flights_inv_update:
  assumes inv: "flights_inv mw fs pool" and "i < length pool" "fl_key f = fl_key (pool ! i)"
    "fl_set f = fl_set (pool ! i)" "fl_waiters f \<le> mw" "fl_result (pool ! i) \<noteq> None \<longrightarrow> fl_result f \<noteq> None"
  shows "flights_inv mw fs (pool[i := f])"
proof (rule flights_invI)
  note D = flights_invD [OF inv]
  show "distinct (keys fs)" by (rule D(1))
  fix j assume j: "j < length (pool[i := f])"
  then have jp: "j < length pool" by simp
  have same: "fl_key (pool[i := f] ! j) = fl_key (pool ! j)" "fl_set (pool[i := f] ! j) = fl_set (pool ! j)"
    using assms(2-4) jp by (auto simp: nth_list_update)
  show "fl_waiters (pool[i := f] ! j) \<le> mw" using assms(2,5) jp D(2) [of j] by (auto simp: nth_list_update)
  show "fl_result (pool[i := f] ! j) \<noteq> None" if "fl_set (pool[i := f] ! j)"
    using that same assms(2,6) jp D(3) [of j] by (auto simp: nth_list_update)
  show "map_of fs (fl_key (pool[i := f] ! j)) = Some j" if "\<not> fl_set (pool[i := f] ! j)"
    using that same D(4) [of j] jp by simp
next
  fix k j assume k: "map_of fs k = Some j"
  from flights_invD(5,6) [OF inv k] assms(2,3) show "j < length (pool[i := f]) \<and> fl_key (pool[i := f] ! j) = k"
    by (auto simp: nth_list_update)
qed

lemma flights_inv_finish:
  assumes inv: "flights_inv mw fs pool" and "i < length pool" "fl_result (pool ! i) \<noteq> None" "\<not> fl_set (pool ! i)"
  shows "flights_inv mw (dpop (fl_key (pool ! i)) fs) (pool[i := (pool ! i)\<lparr>fl_set := True\<rparr>])"
    (is "flights_inv mw ?fs ?pool")
proof (rule flights_invI)
  note D = flights_invD [OF inv]
  show "distinct (keys ?fs)" using D(1) by (rule distinct_dpop)
  from D(4) [OF assms(2,4)] have own: "map_of fs (fl_key (pool ! i)) = Some i" .
  fix j assume "j < length ?pool"
  then have jp: "j < length pool" by simp
  show "fl_waiters (?pool ! j) \<le> mw" using assms(2) jp D(2) [of j] by (auto simp: nth_list_update)
  show "fl_result (?pool ! j) \<noteq> None" if "fl_set (?pool ! j)"
    using that assms(2,3) jp D(3) [of j] by (auto simp: nth_list_update split: if_splits)
  show "map_of ?fs (fl_key (?pool ! j)) = Some j" if "\<not> fl_set (?pool ! j)"
  proof -
    from that assms(2) have ne: "j \<noteq> i" by (auto simp: nth_list_update)
    with that have "\<not> fl_set (pool ! j)" by simp
    with D(4) [OF jp] have "map_of fs (fl_key (pool ! j)) = Some j" by simp
    with own ne show ?thesis by (auto simp: map_of_dpop)
  qed
next
  fix k j assume "map_of ?fs k = Some j"
  then have "map_of fs k = Some j" by (simp add: map_of_dpop split: if_splits)
  from flights_invD(5,6) [OF inv this] assms(2) show "j < length ?pool \<and> fl_key (?pool ! j) = k"
    by (auto simp: nth_list_update)
qed

lemma length_filter_update:
  "i < length xs \<Longrightarrow>
     length (filter P (xs[i := y])) + (if P (xs ! i) then 1 else 0) = length (filter P xs) + (if P y then 1 else 0)"
proof (induction xs arbitrary: i)
  case (Cons x xs)
  show ?case
  proof (cases i)
    case (Suc j)
    with Cons have "length (filter P (xs[j := y])) + (if P (xs ! j) then 1 else 0) =
        length (filter P xs) + (if P y then 1 else 0)" by simp
    with Suc show ?thesis by (simp split: if_splits)
  qed simp
qed simp

lemma length_dput_new: "map_of d k = None \<Longrightarrow> length (dput k v d) = Suc (length d)"
  by (simp add: dput_new map_of_None_keys)

lemma length_dpop_le: "length (dpop k d) \<le> length d"
  by (simp add: dpop_def)

lemma coordinator_admit: "coordinator_inv C \<Longrightarrow> coordinator_inv (snd (flight_admit k C))"
proof (cases "map_of (co_flights C) k")
  case None
  assume inv: "coordinator_inv C"
  with None show ?thesis
    by (auto simp: flight_admit_def Let_def coordinator_inv_def open_flights_def length_dput_new
        intro: flights_inv_new)
next
  case (Some i)
  assume inv: "coordinator_inv C"
  let ?f = "co_pool C ! i"
  let ?f' = "?f\<lparr>fl_waiters := Suc (fl_waiters ?f)\<rparr>"
  from inv have fi: "flights_inv (co_max_waiters C) (co_flights C) (co_pool C)" by (simp add: coordinator_inv_def)
  from flights_invD(5) [OF fi Some] have i: "i < length (co_pool C)" .
  have "length (filter (\<lambda>f. fl_result f = None) ((co_pool C)[i := ?f'])) =
      length (filter (\<lambda>f. fl_result f = None) (co_pool C))"
    using length_filter_update [OF i, of "\<lambda>f. fl_result f = None" ?f'] by (simp split: if_splits)
  moreover have "flights_inv (co_max_waiters C) (co_flights C) ((co_pool C)[i := ?f'])"
    if "fl_waiters ?f < co_max_waiters C"
    using that by (intro flights_inv_update [OF fi i]) simp_all
  ultimately show ?thesis
    using inv Some by (auto simp: flight_admit_def Let_def coordinator_inv_def open_flights_def)
qed

lemma coordinator_complete: "coordinator_inv C \<Longrightarrow> coordinator_inv (flight_complete i r C)"
proof (cases "i < length (co_pool C) \<and> fl_result (co_pool C ! i) = None")
  case True
  assume inv: "coordinator_inv C"
  let ?f = "(co_pool C ! i)\<lparr>fl_result := Some r\<rparr>"
  from inv have fi: "flights_inv (co_max_waiters C) (co_flights C) (co_pool C)" by (simp add: coordinator_inv_def)
  have "flights_inv (co_max_waiters C) (co_flights C) ((co_pool C)[i := ?f])"
    using True flights_invD(2) [OF fi, of i] by (intro flights_inv_update [OF fi]) simp_all
  moreover have "Suc (length (filter (\<lambda>f. fl_result f = None) ((co_pool C)[i := ?f]))) =
      length (filter (\<lambda>f. fl_result f = None) (co_pool C))"
    using True length_filter_update [of i "co_pool C" "\<lambda>f. fl_result f = None" ?f] by simp
  ultimately show ?thesis
    using inv True by (cases r) (auto simp: flight_complete_def Let_def coordinator_inv_def open_flights_def)
next
  case False
  assume "coordinator_inv C"
  with False show ?thesis by (simp only: flight_complete_def if_False)
qed

lemma coordinator_finish: "coordinator_inv C \<Longrightarrow> coordinator_inv (flight_finish i C)"
proof (cases "i < length (co_pool C) \<and> fl_result (co_pool C ! i) \<noteq> None \<and> \<not> fl_set (co_pool C ! i)")
  case True
  assume inv: "coordinator_inv C"
  let ?f = "(co_pool C ! i)\<lparr>fl_set := True\<rparr>"
  from inv have fi: "flights_inv (co_max_waiters C) (co_flights C) (co_pool C)" by (simp add: coordinator_inv_def)
  from True have "length (filter (\<lambda>f. fl_result f = None) ((co_pool C)[i := ?f])) =
      length (filter (\<lambda>f. fl_result f = None) (co_pool C))"
    using length_filter_update [of i "co_pool C" "\<lambda>f. fl_result f = None" ?f] by (simp split: if_splits)
  with True inv flights_inv_finish [OF fi, of i] length_dpop_le [of "fl_key (co_pool C ! i)" "co_flights C"]
  show ?thesis by (auto simp: flight_finish_def coordinator_inv_def open_flights_def)
next
  case False
  assume "coordinator_inv C"
  with False show ?thesis by (simp only: flight_finish_def if_False)
qed

lemma coordinator_wait: "coordinator_inv C \<Longrightarrow> coordinator_inv (snd (flight_wait i how C))"
proof (cases "i < length (co_pool C)")
  case True
  assume inv: "coordinator_inv C"
  let ?f = "(co_pool C ! i)\<lparr>fl_waiters := fl_waiters (co_pool C ! i) - 1\<rparr>"
  from inv have fi: "flights_inv (co_max_waiters C) (co_flights C) (co_pool C)" by (simp add: coordinator_inv_def)
  have w: "fl_waiters (co_pool C ! i) \<le> co_max_waiters C" by (rule flights_invD(2) [OF fi True])
  have "flights_inv (co_max_waiters C) (co_flights C) ((co_pool C)[i := ?f])"
    using True w by (intro flights_inv_update [OF fi]) simp_all
  moreover have "length (filter (\<lambda>f. fl_result f = None) ((co_pool C)[i := ?f])) =
      length (filter (\<lambda>f. fl_result f = None) (co_pool C))"
    using length_filter_update [OF True, of "\<lambda>f. fl_result f = None" ?f] by (simp split: if_splits)
  ultimately show ?thesis
    using inv True
    by (cases how) (auto simp: flight_wait_def Let_def coordinator_inv_def open_flights_def split: option.split)
qed (simp add: flight_wait_def Let_def)

lemma coordinator_run: "flight_step\<^sup>*\<^sup>* C D \<Longrightarrow> coordinator_inv C \<Longrightarrow> coordinator_inv D"
proof (induction rule: rtranclp_induct)
  case (step D E)
  from step.hyps(2) step.IH [OF step.prems] show ?case
    by cases (simp_all add: coordinator_admit coordinator_complete coordinator_finish coordinator_wait)
qed simp

lemma flight_step_limits:
  "flight_step C D \<Longrightarrow> co_max_flights D = co_max_flights C \<and> co_max_waiters D = co_max_waiters C"
  by (induction rule: flight_step.induct)
     (simp_all add: flight_admit_def flight_complete_def flight_finish_def flight_wait_def Let_def
       split: option.split flight_result.split wait_end.split)

lemma flight_run_limits:
  "flight_step\<^sup>*\<^sup>* C D \<Longrightarrow> co_max_flights D = co_max_flights C \<and> co_max_waiters D = co_max_waiters C"
  by (induction rule: rtranclp_induct) (auto dest: flight_step_limits)

text \<open>C38: Shared work is admitted within its bounds and computed once at a time: in every state that any
  threads can drive a new coordinator to, there are at most \<open>max_flights\<close> registered flights and at most
  \<open>max_waiters\<close> waiters on each, two flights that are not over have different keys, and every owner
  admitted has completed, failed or is still running.\<close>

theorem single_flight_bounds:
  assumes "new_coordinator max_flights max_waiters = Inr C" "flight_step\<^sup>*\<^sup>* C D"
  shows "length (co_flights D) \<le> max_flights \<and>
    (\<forall>f \<in> set (co_pool D). fl_waiters f \<le> max_waiters) \<and>
    (\<forall>i < length (co_pool D). \<forall>j < length (co_pool D).
       \<not> fl_set (co_pool D ! i) \<and> \<not> fl_set (co_pool D ! j) \<and>
       fl_key (co_pool D ! i) = fl_key (co_pool D ! j) \<longrightarrow> i = j) \<and>
    co_owners D = co_completions D + co_failures D + open_flights D"
proof -
  have C: "coordinator_inv C" "co_max_flights C = max_flights" "co_max_waiters C = max_waiters"
    using assms(1) by (auto simp: new_coordinator_def coordinator_inv_def flights_inv_def open_flights_def split: if_splits)
  have D: "coordinator_inv D" using coordinator_run [OF assms(2) C(1)] .
  then have fi: "flights_inv max_waiters (co_flights D) (co_pool D)"
    using flight_run_limits [OF assms(2)] C by (simp add: coordinator_inv_def)
  have "i = j" if "i < length (co_pool D)" "j < length (co_pool D)" "\<not> fl_set (co_pool D ! i)"
      "\<not> fl_set (co_pool D ! j)" "fl_key (co_pool D ! i) = fl_key (co_pool D ! j)" for i j
    using flights_invD(4) [OF fi that(1,3)] flights_invD(4) [OF fi that(2,4)] unfolding that(5)
    by (metis option.inject)
  moreover have "\<forall>f \<in> set (co_pool D). fl_waiters f \<le> max_waiters"
    using flights_invD(2) [OF fi] by (auto simp: in_set_conv_nth)
  moreover have "length (co_flights D) \<le> max_flights"
      "co_owners D = co_completions D + co_failures D + open_flights D"
    using D flight_run_limits [OF assms(2)] C by (simp_all add: coordinator_inv_def)
  ultimately show ?thesis by blast
qed

theorem single_flight_bounds_witness:
  "\<exists>C D. new_coordinator 2 1 = Inr C \<and> flight_step\<^sup>*\<^sup>* C D \<and> length (co_flights D) = 1 \<and>
     co_owners D = co_completions D + co_failures D + open_flights D"
proof -
  let ?k = "\<lparr>qk_repository = ''r'', qk_commit = ''c'', qk_generation = ''g'', qk_request_digest = ''d''\<rparr>"
  obtain C where C: "new_coordinator 2 1 = Inr C" "co_flights C = []" "co_max_flights C = 2"
    by (simp add: new_coordinator_def)
  let ?D = "snd (flight_admit ?k C)"
  have run: "flight_step\<^sup>*\<^sup>* C ?D" by (rule r_into_rtranclp) (rule flight_step.admit)
  have "length (co_flights ?D) = 1" using C by (simp add: flight_admit_def Let_def dput_def)
  with single_flight_bounds [OF C(1) run] C(1) run show ?thesis by blast
qed

end
