(* ===== verification/EngineSelection.thy ===== *)
theory EngineSelection
  imports Json
begin

text \<open>
  \<open>simplicio_fast/engine_selection.py\<close>: the precedence of engine mode settings and the choice of one
  engine from a completed probe of the Rust engine, without silent fallback.
\<close>

definition ENGINE_SELECTION_SCHEMA :: string where
  "ENGINE_SELECTION_SCHEMA = ''simplicio.fast.engine-selection/v1''"

definition SUPPORTED_MODES :: "string list" where
  "SUPPORTED_MODES = [''auto'', ''rust'', ''python'', ''off'']"

text \<open>\<open>Invalid_mode\<close> and \<open>Unsupported_mode\<close> are the two \<open>ValueError\<close>s, the others \<open>EngineSelectionError\<close>s.\<close>

datatype engine_error =
    Invalid_mode string
  | No_mode_configured
  | Unsupported_mode
  | Python_engine_unavailable
  | Rust_conformance_missing
  | Rust_health_failed

fun resolve_settings :: "(string \<times> string option) list \<Rightarrow> engine_error + string \<times> string" where
  "resolve_settings [] = Inl No_mode_configured"
| "resolve_settings ((source, value) # rest) =
     (case value of
        None \<Rightarrow> resolve_settings rest
      | Some v \<Rightarrow>
          (let normalized = lower (strip v)
           in if normalized \<notin> set SUPPORTED_MODES then Inl (Invalid_mode source)
              else Inr (normalized, source)))"

definition resolve_mode ::
  "string option \<Rightarrow> string option \<Rightarrow> string option \<Rightarrow> string option \<Rightarrow> engine_error + string \<times> string" where
  "resolve_mode cli workspace user default_mode =
     resolve_settings [(''cli'', cli), (''workspace'', workspace), (''user'', user), (''default'', default_mode)]"

record engine_selection =
  es_requested :: string
  es_selected :: "string option"
  es_usable :: bool
  es_reason :: string
  es_rust_probe :: "(string \<times> json) list"
  es_python_available :: bool
  es_conformance_passed :: bool

definition selection_to_dict :: "engine_selection \<Rightarrow> json" where
  "selection_to_dict s =
     JObj [(''schema'', JStr ENGINE_SELECTION_SCHEMA), (''requested_engine'', JStr (es_requested s)),
           (''selected_engine'', jopt (es_selected s)), (''usable'', JBool (es_usable s)),
           (''reason'', JStr (es_reason s)), (''rust_probe'', JObj (es_rust_probe s)),
           (''python_available'', JBool (es_python_available s)),
           (''conformance_passed'', JBool (es_conformance_passed s))]"

definition probe_flag :: "(string \<times> json) list \<Rightarrow> string \<Rightarrow> bool" where
  "probe_flag probe k = (case map_of probe k of None \<Rightarrow> False | Some v \<Rightarrow> truthy v)"

definition rust_is_healthy :: "(string \<times> json) list \<Rightarrow> bool" where
  "rust_is_healthy probe \<longleftrightarrow> probe_flag probe ''healthy'' \<and> probe_flag probe ''capabilities_ok''"

definition select_engine ::
  "string option \<Rightarrow> (string \<times> json) list option \<Rightarrow> bool \<Rightarrow> bool \<Rightarrow> engine_error + engine_selection" where
  "select_engine mode rust_probe python_available conformance_passed =
     (let requested = lower (strip (if mode = None \<or> mode = Some [] then ''auto'' else the mode));
          probe = (case rust_probe of None \<Rightarrow> [] | Some p \<Rightarrow> p);
          rust_healthy = rust_is_healthy probe;
          rust_ready = (rust_healthy \<and> conformance_passed);
          answer = (\<lambda>selected usable reason.
            Inr \<lparr>es_requested = requested, es_selected = selected, es_usable = usable, es_reason = reason,
                 es_rust_probe = probe, es_python_available = python_available,
                 es_conformance_passed = conformance_passed\<rparr>) in
      if requested \<notin> set SUPPORTED_MODES then Inl Unsupported_mode
      else if requested = ''off'' then answer None False ''disabled_by_configuration''
      else if requested = ''python'' then
        (if \<not> python_available then Inl Python_engine_unavailable
         else answer (Some ''python'') True ''explicit_python'')
      else if requested = ''rust'' then
        (if \<not> rust_ready then Inl (if rust_healthy then Rust_conformance_missing else Rust_health_failed)
         else answer (Some ''rust'') True ''explicit_rust'')
      else if rust_ready then answer (Some ''rust'') True ''rust_health_and_conformance_passed''
      else if python_available then
        answer (Some ''python'') True (if rust_healthy then ''rust_conformance_missing'' else ''rust_unavailable'')
      else answer None False ''no_usable_engine'')"

section \<open>What a selection guarantees\<close>

lemma resolve_settings_first:
  "resolve_settings settings = Inr (mode, source) \<Longrightarrow>
     \<exists>xs v1 ys. settings = xs @ (source, Some v1) # ys \<and>
       (\<forall>(s, v) \<in> set xs. v = None) \<and> mode = lower (strip v1) \<and> mode \<in> set SUPPORTED_MODES"
proof (induction settings)
  case (Cons p settings)
  obtain s v where p: "p = (s, v)" by (cases p)
  show ?case
  proof (cases v)
    case None
    with Cons p obtain xs v1 ys where
      "settings = xs @ (source, Some v1) # ys" "\<forall>(s, v) \<in> set xs. v = None"
      "mode = lower (strip v1)" "mode \<in> set SUPPORTED_MODES" by auto
    with None p show ?thesis by (intro exI [of _ "p # xs"] exI [of _ v1] exI [of _ ys]) auto
  next
    case (Some w)
    with Cons.prems p show ?thesis
      by (intro exI [of _ "[]"] exI [of _ w] exI [of _ settings]) (auto simp: Let_def split: if_splits)
  qed
qed simp

text \<open>Rust is never selected without evidence and never replaces another request: the mode that is resolved
  is the first one configured; Rust is selected only when the probe is healthy, its capabilities are
  fine and conformance passed, Python only when it is available; an explicit request is answered by
  that engine or refused; and \<open>auto\<close> selects Rust exactly when Rust is ready.\<close>

theorem selection_needs_evidence:
  assumes "resolve_mode cli workspace user default_mode = Inr (mode, source)"
    and "select_engine (Some mode) rust_probe python_available conformance_passed = Inr s"
  defines "ready \<equiv> rust_is_healthy (case rust_probe of None \<Rightarrow> [] | Some p \<Rightarrow> p) \<and> conformance_passed"
  shows "es_requested s = mode \<and>
    (es_selected s = Some ''rust'' \<longrightarrow> ready \<and> mode \<in> {''auto'', ''rust''}) \<and>
    (es_selected s = Some ''python'' \<longrightarrow> python_available \<and> mode \<in> {''auto'', ''python''}) \<and>
    (mode \<in> {''rust'', ''python''} \<longrightarrow> es_selected s = Some mode) \<and>
    (mode = ''auto'' \<longrightarrow> (es_selected s = Some ''rust'' \<longleftrightarrow> ready)) \<and>
    (es_usable s \<longleftrightarrow> es_selected s \<noteq> None) \<and>
    (cli \<noteq> None \<longrightarrow> source = ''cli'' \<and> mode = lower (strip (the cli)))"
proof -
  from resolve_settings_first [OF assms(1) [unfolded resolve_mode_def]] obtain v
    where v: "mode = lower (strip v)" "mode \<in> set SUPPORTED_MODES" by blast
  have cli: "cli \<noteq> None \<longrightarrow> source = ''cli'' \<and> mode = lower (strip (the cli))"
    using assms(1) by (auto simp: resolve_mode_def Let_def split: if_splits)
  consider "mode = ''auto''" | "mode = ''rust''" | "mode = ''python''" | "mode = ''off''"
    using v(2) by (auto simp: SUPPORTED_MODES_def)
  moreover have "lower (strip ''auto'') = ''auto''" "lower (strip ''rust'') = ''rust''"
      "lower (strip ''python'') = ''python''" "lower (strip ''off'') = ''off''" by code_simp+
  ultimately show ?thesis
    using assms(2) cli by cases (auto simp: select_engine_def SUPPORTED_MODES_def ready_def Let_def split: if_splits)
qed

theorem selection_needs_evidence_witness:
  "\<exists>s. resolve_mode None (Some '' Rust '') None (Some ''auto'') = Inr (''rust'', ''workspace'') \<and>
     select_engine (Some ''rust'') (Some [(''healthy'', JBool True), (''capabilities_ok'', JBool True)]) True True = Inr s \<and>
     es_selected s = Some ''rust'' \<and> es_usable s"
proof -
  have mode: "resolve_mode None (Some '' Rust '') None (Some ''auto'') = Inr (''rust'', ''workspace'')"
    by code_simp
  have lowered: "lower (strip ''rust'') = ''rust''" by code_simp
  obtain s where s: "select_engine (Some ''rust'')
      (Some [(''healthy'', JBool True), (''capabilities_ok'', JBool True)]) True True = Inr s"
    by (simp add: select_engine_def lowered SUPPORTED_MODES_def rust_is_healthy_def probe_flag_def Let_def)
  from selection_needs_evidence [OF mode s] s mode show ?thesis by simp
qed

end
