(* ===== verification/Compatibility.thy ===== *)
theory Compatibility
  imports Json
begin

text \<open>
  \<open>simplicio_fast/compatibility.py\<close>: parsing contract versions and deciding whether a reader accepts an
  artifact.  CPython refuses to convert more than 4300 digits; \<open>Digits_limit\<close> is that \<open>ValueError\<close>.
\<close>

definition COMPATIBILITY_SCHEMA :: string where
  "COMPATIBILITY_SCHEMA = ''simplicio.fast.sdk-compatibility/v1''"
definition SDK_CONTRACT :: string where "SDK_CONTRACT = ''simplicio.fast.sdk/v1''"
definition SDK_CURRENT_VERSION :: string where "SDK_CURRENT_VERSION = ''1.0''"

datatype compatibility_error = Version_invalid | Digits_limit

record compatibility_decision =
  cd_producer_version :: string
  cd_consumer_version :: string
  cd_action :: string
  cd_reason_code :: string

definition decision_as_dict :: "compatibility_decision \<Rightarrow> json" where
  "decision_as_dict d =
     JObj [(''schema'', JStr COMPATIBILITY_SCHEMA), (''contract'', JStr SDK_CONTRACT),
           (''producer_version'', JStr (cd_producer_version d)),
           (''consumer_version'', JStr (cd_consumer_version d)),
           (''action'', JStr (cd_action d)), (''reason_code'', JStr (cd_reason_code d))]"

definition compatibility_reason_codes :: "string list" where
  "compatibility_reason_codes =
     [''compatibility_exact'', ''compatibility_upgrade_legacy_minor'',
      ''compatibility_downgrade_requires_migration'', ''compatibility_future_major'',
      ''compatibility_older_major'', ''compatibility_version_invalid'']"

definition compatibility_manifest :: json where
  "compatibility_manifest =
     JObj [(''schema'', JStr COMPATIBILITY_SCHEMA), (''contract'', JStr SDK_CONTRACT),
           (''current_version'', JStr SDK_CURRENT_VERSION),
           (''rules'', JObj
             [(''exact'', JStr ''accept''),
              (''reader_upgrade_same_major'', JStr ''accept_legacy_minor''),
              (''reader_downgrade_same_major'', JStr ''reject_requires_migration''),
              (''future_major'', JStr ''reject''), (''older_major'', JStr ''reject'')]),
           (''rollback'', JStr ''reuse_only_a_previously_validated_contract_version''),
           (''reason_codes'', JList (map JStr compatibility_reason_codes))]"

text \<open>The expression \<open>v?[0-9]+\.[0-9]+\<close>, matched against the whole text.\<close>

definition match_version :: "string \<Rightarrow> (string \<times> string) option" where
  "match_version s =
     (case split_on (CHR ''.'') (if take 1 s = ''v'' then drop 1 s else s) of
        [a, b] \<Rightarrow> if a \<noteq> [] \<and> b \<noteq> [] \<and> list_all is_digit a \<and> list_all is_digit b then Some (a, b) else None
      | _ \<Rightarrow> None)"

definition parse_version :: "string \<Rightarrow> compatibility_error + (nat \<times> nat) option" where
  "parse_version value =
     (case match_version value of
        None \<Rightarrow> Inr None
      | Some (a, b) \<Rightarrow>
          if length a > 4300 \<or> length b > 4300 then Inl Digits_limit
          else Inr (Some (digits_val a, digits_val b)))"

definition decide :: "nat \<times> nat \<Rightarrow> nat \<times> nat \<Rightarrow> string \<times> string" where
  "decide producer consumer =
     (if fst producer > fst consumer then (''reject'', ''compatibility_future_major'')
      else if fst producer < fst consumer then (''reject'', ''compatibility_older_major'')
      else if snd producer = snd consumer then (''accept'', ''compatibility_exact'')
      else if snd producer < snd consumer then (''accept'', ''compatibility_upgrade_legacy_minor'')
      else (''reject'', ''compatibility_downgrade_requires_migration''))"

definition evaluate_compatibility :: "string \<Rightarrow> string \<Rightarrow> compatibility_error + compatibility_decision" where
  "evaluate_compatibility producer_version consumer_version =
     (case parse_version producer_version of
        Inl err \<Rightarrow> Inl err
      | Inr producer \<Rightarrow>
          (case parse_version consumer_version of
             Inl err \<Rightarrow> Inl err
           | Inr consumer \<Rightarrow>
               (case (producer, consumer) of
                  (Some p, Some c) \<Rightarrow>
                    (let (action, reason) = decide p c in
                     Inr \<lparr>cd_producer_version = producer_version, cd_consumer_version = consumer_version,
                          cd_action = action, cd_reason_code = reason\<rparr>)
                | _ \<Rightarrow> Inl Version_invalid)))"

section \<open>Decisions on printed versions\<close>

definition version_text :: "nat \<Rightarrow> nat \<Rightarrow> string" where
  "version_text major minor = nat_str major @ CHR ''.'' # nat_str minor"

lemma split_on_sep: "d \<notin> set a \<Longrightarrow> split_on d (a @ d # b) = a # split_on d b"
  by (induction a) auto

lemma digits_no_dot: "list_all is_digit s \<Longrightarrow> CHR ''.'' \<notin> set s \<and> CHR ''v'' \<notin> set s"
  by (auto simp: list_all_iff is_digit_def)

lemma parse_version_text:
  assumes "length (nat_str a) \<le> 4300" "length (nat_str b) \<le> 4300"
  shows "parse_version (version_text a b) = Inr (Some (a, b))"
    "parse_version (CHR ''v'' # version_text a b) = Inr (Some (a, b))"
proof -
  note da = nat_str_digits [of a] and db = nat_str_digits [of b]
  have split: "split_on (CHR ''.'') (version_text a b) = [nat_str a, nat_str b]"
    using da db digits_no_dot by (simp add: version_text_def split_on_sep split_on_absent)
  have "take 1 (version_text a b) \<noteq> ''v''"
    using da digits_no_dot [of "nat_str a"] by (cases "nat_str a") (auto simp: version_text_def)
  with split da db have "match_version (version_text a b) = Some (nat_str a, nat_str b)"
      "match_version (CHR ''v'' # version_text a b) = Some (nat_str a, nat_str b)"
    by (simp_all add: match_version_def)
  with assms da db show "parse_version (version_text a b) = Inr (Some (a, b))"
      "parse_version (CHR ''v'' # version_text a b) = Inr (Some (a, b))"
    by (simp_all add: parse_version_def)
qed

text \<open>An artifact is accepted exactly when its major version is the reader's and its minor version is not
  newer, with or without the leading \<open>v\<close>; acceptance composes along a chain of readers; and every
  decision carries a reason code of the published manifest.\<close>

theorem compatibility_is_same_major_older_minor:
  assumes "length (nat_str a) \<le> 4300" "length (nat_str b) \<le> 4300" "length (nat_str c) \<le> 4300"
    "length (nat_str d) \<le> 4300" "producer \<in> {version_text a b, CHR ''v'' # version_text a b}"
    "consumer \<in> {version_text c d, CHR ''v'' # version_text c d}"
  shows "\<exists>e. evaluate_compatibility producer consumer = Inr e \<and>
    (cd_action e = ''accept'' \<longleftrightarrow> a = c \<and> b \<le> d) \<and> (cd_action e = ''reject'' \<longleftrightarrow> \<not> (a = c \<and> b \<le> d)) \<and>
    cd_reason_code e \<in> set compatibility_reason_codes \<and>
    (a = c \<and> b \<le> d \<longrightarrow> fst (decide (c, d) (x, y)) = ''accept'' \<longrightarrow> fst (decide (a, b) (x, y)) = ''accept'')"
proof -
  have p: "parse_version producer = Inr (Some (a, b))" using parse_version_text [OF assms(1,2)] assms(5) by auto
  have c: "parse_version consumer = Inr (Some (c, d))" using parse_version_text [OF assms(3,4)] assms(6) by auto
  show ?thesis
    using p c by (auto simp: evaluate_compatibility_def decide_def compatibility_reason_codes_def)
qed

theorem compatibility_is_same_major_older_minor_witness:
  "\<exists>e. evaluate_compatibility (CHR ''v'' # version_text 1 2) (version_text 1 10) = Inr e \<and> cd_action e = ''accept''"
proof -
  have "length (nat_str n) \<le> 4300" if "n < 100" for n
    using that by (subst nat_str.simps) (simp add: nat_str.simps [of "n div 10"] less_mult_imp_div_less)
  then show ?thesis
    using compatibility_is_same_major_older_minor [of 1 2 1 10 "CHR ''v'' # version_text 1 2" "version_text 1 10" 0 0]
    by auto
qed

end
