(* ===== verification/Custodians.thy ===== *)
theory Custodians
  imports Json
begin

text \<open>
  \<open>simplicio_fast/custodians.py\<close>: the catalog of virtual custodian addresses, the checks of an address
  and the resolution of a role, which never dispatches.
\<close>

definition ADDRESS_SCHEMA :: string where "ADDRESS_SCHEMA = ''simplicio.fast.custodian-address/v1''"
definition CATALOG_SCHEMA :: string where "CATALOG_SCHEMA = ''simplicio.fast.custodian-catalog/v1''"
definition RESOLUTION_SCHEMA :: string where "RESOLUTION_SCHEMA = ''simplicio.fast.custodian-resolution/v1''"
definition VIRTUAL_POINTER_KIND :: string where "VIRTUAL_POINTER_KIND = ''virtual-pointer''"

definition ROLE_NAMES :: "string list" where
  "ROLE_NAMES = [''IndexGenerationSteward'', ''CacheIntegritySentinel'', ''KnowledgeFederationSteward'',
     ''PythonRustParityAuditor'']"

datatype custodian_error =
    Metadata_empty
  | Metadata_blank
  | Metadata_duplicate
  | Unsupported_role
  | Endpoint_empty
  | Endpoint_unstable
  | Owner_empty
  | Pointer_kind_invalid
  | Not_virtual

definition validate_metadata :: "string list \<Rightarrow> custodian_error option" where
  "validate_metadata vs =
     (if vs = [] then Some Metadata_empty
      else if list_ex (\<lambda>v. v = []) vs then Some Metadata_blank
      else if length (remdups vs) \<noteq> length vs then Some Metadata_duplicate
      else None)"

record custodian_address =
  ca_role :: string
  ca_endpoint :: string
  ca_owner :: string
  ca_capabilities :: "string list"
  ca_inputs :: "string list"
  ca_outputs :: "string list"
  ca_invariants :: "string list"
  ca_pointer_kind :: string
  ca_virtual :: bool

definition stable_endpoint :: "string \<Rightarrow> string" where
  "stable_endpoint role = ''virtual://simplicio-fast/'' @ role"

fun first_error :: "'e option list \<Rightarrow> 'e option" where
  "first_error [] = None"
| "first_error (e # es) = (case e of None \<Rightarrow> first_error es | Some x \<Rightarrow> Some x)"

definition check_address :: "custodian_address \<Rightarrow> custodian_error option" where
  "check_address a =
     (if ca_role a \<notin> set ROLE_NAMES then Some Unsupported_role
      else if ca_endpoint a = [] then Some Endpoint_empty
      else if ca_endpoint a \<noteq> stable_endpoint (ca_role a) then Some Endpoint_unstable
      else if ca_owner a = [] then Some Owner_empty
      else if ca_pointer_kind a \<noteq> VIRTUAL_POINTER_KIND then Some Pointer_kind_invalid
      else if \<not> ca_virtual a then Some Not_virtual
      else first_error (map validate_metadata [ca_capabilities a, ca_inputs a, ca_outputs a, ca_invariants a]))"

definition address_to_dict :: "custodian_address \<Rightarrow> json" where
  "address_to_dict a =
     JObj [(''schema'', JStr ADDRESS_SCHEMA), (''pointer_kind'', JStr (ca_pointer_kind a)),
           (''virtual'', JBool (ca_virtual a)), (''role'', JStr (ca_role a)),
           (''endpoint'', JStr (ca_endpoint a)), (''owner'', JStr (ca_owner a)),
           (''capabilities'', JList (map JStr (ca_capabilities a))),
           (''inputs'', JList (map JStr (ca_inputs a))),
           (''outputs'', JList (map JStr (ca_outputs a))),
           (''invariants'', JList (map JStr (ca_invariants a)))]"

definition address_to_json :: "custodian_address \<Rightarrow> string" where
  "address_to_json a = dumps (address_to_dict a)"

definition ROLE_METADATA ::
  "(string \<times> string \<times> string list \<times> string list \<times> string list \<times> string list) list" where
  "ROLE_METADATA =
     [(''IndexGenerationSteward'', ''simplicio-fast/index'',
       [''index-generation'', ''index-validation''], [''source-snapshot'', ''generation-contract''],
       [''generation-manifest'', ''index-receipt''], [''deterministic'', ''snapshot-bound'', ''no-dispatch'']),
      (''CacheIntegritySentinel'', ''simplicio-fast/cache'',
       [''cache-validation'', ''integrity-check''], [''cache-entry'', ''source-digest''],
       [''cache-verdict'', ''integrity-receipt''], [''digest-bound'', ''fail-closed'', ''no-mutation'']),
      (''KnowledgeFederationSteward'', ''simplicio-fast/knowledge'',
       [''knowledge-federation'', ''provenance-check''], [''knowledge-snapshot'', ''provenance-receipt''],
       [''federation-manifest'', ''provenance-receipt''], [''source-scoped'', ''provenance-preserving'', ''no-dispatch'']),
      (''PythonRustParityAuditor'', ''simplicio-fast/parity'',
       [''parity-audit'', ''contract-comparison''], [''python-contract'', ''rust-contract''],
       [''parity-verdict'', ''comparison-receipt''], [''read-only'', ''deterministic'', ''no-execution''])]"

definition CUSTODIAN_CATALOG :: "custodian_address list" where
  "CUSTODIAN_CATALOG =
     map (\<lambda>(role, owner, capabilities, inputs, outputs, invariants).
       \<lparr>ca_role = role, ca_endpoint = stable_endpoint role, ca_owner = owner, ca_capabilities = capabilities,
        ca_inputs = inputs, ca_outputs = outputs, ca_invariants = invariants,
        ca_pointer_kind = VIRTUAL_POINTER_KIND, ca_virtual = True\<rparr>) ROLE_METADATA"

definition CUSTODIANS :: "(string, custodian_address) dict" where
  "CUSTODIANS = map (\<lambda>a. (ca_role a, a)) CUSTODIAN_CATALOG"

definition no_dispatch :: json where
  "no_dispatch = JObj [(''allowed'', JBool False), (''reason_code'', JStr ''virtual_pointer_only'')]"

definition resolution :: "string \<Rightarrow> json \<Rightarrow> json \<Rightarrow> string \<Rightarrow> json" where
  "resolution status role address reason_code =
     JObj [(''schema'', JStr RESOLUTION_SCHEMA), (''status'', JStr status), (''role'', role),
           (''address'', address), (''reason_code'', JStr reason_code), (''dispatch'', no_dispatch)]"

definition resolve_custodian :: "json \<Rightarrow> json" where
  "resolve_custodian role =
     (case role of
        JStr r \<Rightarrow>
          if strip r = [] then resolution ''rejected'' JNull JNull ''invalid_role''
          else
            (case map_of CUSTODIANS r of
               None \<Rightarrow> resolution ''unavailable'' (JStr r) JNull ''unknown_role''
             | Some a \<Rightarrow> resolution ''available'' (JStr (ca_role a)) (address_to_dict a) ''catalog_match'')
      | _ \<Rightarrow> resolution ''rejected'' JNull JNull ''invalid_role'')"

definition catalog_json :: string where
  "catalog_json =
     dumps (JObj [(''schema'', JStr CATALOG_SCHEMA), (''custodians'', JList (map address_to_dict CUSTODIAN_CATALOG))])"

section \<open>The catalog\<close>

lemma catalog_valid: "list_all (\<lambda>a. check_address a = None) CUSTODIAN_CATALOG"
  by code_simp

lemma catalog_roles: "map ca_role CUSTODIAN_CATALOG = ROLE_NAMES"
  by code_simp

lemma custodian_keys: "map fst CUSTODIANS = ROLE_NAMES"
  by (simp add: CUSTODIANS_def catalog_roles [symmetric] comp_def)

lemma custodian_lookup: "map_of CUSTODIANS r = Some a \<Longrightarrow> a \<in> set CUSTODIAN_CATALOG \<and> ca_role a = r"
  by (auto simp: CUSTODIANS_def dest: map_of_SomeD)

lemma role_not_blank: "r \<in> set ROLE_NAMES \<Longrightarrow> strip r \<noteq> []"
proof -
  have "list_all (\<lambda>r. strip r \<noteq> []) ROLE_NAMES" by code_simp
  then show "r \<in> set ROLE_NAMES \<Longrightarrow> strip r \<noteq> []" by (simp add: list_all_iff)
qed

text \<open>Resolution is closed over the catalog and never dispatches: every answer forbids dispatch; it is
  \<open>available\<close> exactly for the four role names, and then its address is a catalog entry of that role
  which passes every check of the constructor; any other value is rejected or unavailable without an
  address.\<close>

theorem resolution_is_closed_and_inert:
  "jget (resolve_custodian role) ''dispatch'' = Some no_dispatch \<and>
   (jget (resolve_custodian role) ''status'' = Some (JStr ''available'') \<longleftrightarrow> (\<exists>r \<in> set ROLE_NAMES. role = JStr r)) \<and>
   (case jget (resolve_custodian role) ''address'' of
      Some JNull \<Rightarrow> jget (resolve_custodian role) ''status'' \<in> {Some (JStr ''rejected''), Some (JStr ''unavailable'')}
    | Some v \<Rightarrow> (\<exists>a \<in> set CUSTODIAN_CATALOG. v = address_to_dict a \<and> role = JStr (ca_role a) \<and> check_address a = None)
    | None \<Rightarrow> False)"
proof (cases "\<exists>r. role = JStr r \<and> strip r \<noteq> []")
  case True
  then obtain r where r: "role = JStr r" "strip r \<noteq> []" by blast
  show ?thesis
  proof (cases "map_of CUSTODIANS r")
    case None
    then have "r \<notin> set ROLE_NAMES" unfolding map_of_None_keys custodian_keys .
    with None r show ?thesis by (simp add: resolve_custodian_def resolution_def)
  next
    case (Some a)
    from custodian_lookup [OF Some] have a: "a \<in> set CUSTODIAN_CATALOG" "ca_role a = r" by auto
    then have "r \<in> set ROLE_NAMES" using catalog_roles by (metis image_eqI set_map)
    moreover have "check_address a = None" using catalog_valid a(1) by (simp add: list_all_iff)
    ultimately show ?thesis using Some r a
      by (auto simp: resolve_custodian_def resolution_def address_to_dict_def)
  qed
next
  case False
  then have "resolve_custodian role = resolution ''rejected'' JNull JNull ''invalid_role''"
    by (auto simp: resolve_custodian_def split: json.split)
  moreover have "\<not> (\<exists>r \<in> set ROLE_NAMES. role = JStr r)" using False role_not_blank by blast
  ultimately show ?thesis by (simp add: resolution_def)
qed

end
