(* ===== verification/Base64.thy ===== *)
theory Base64
  imports Prelude
begin

text \<open>
  Python's \<open>base64.b64encode\<close> and \<open>base64.b64decode(..., validate=True)\<close>, with the strict padding of
  the interpreters the program supports.
\<close>

definition b64_char :: "nat \<Rightarrow> char" where
  "b64_char n =
     (if n < 26 then char_of (65 + n) else if n < 52 then char_of (71 + n)
      else if n < 62 then char_of (n - 4) else if n = 62 then CHR ''+'' else CHR ''/'')"

definition b64_value :: "char \<Rightarrow> nat option" where
  "b64_value c =
     (let n = of_char c :: nat in
      if 65 \<le> n \<and> n \<le> 90 then Some (n - 65) else if 97 \<le> n \<and> n \<le> 122 then Some (n - 71)
      else if 48 \<le> n \<and> n \<le> 57 then Some (n + 4) else if n = 43 then Some 62
      else if n = 47 then Some 63 else None)"

fun b64_encode :: "bytes \<Rightarrow> string" where
  "b64_encode (a # b # c # r) =
     [b64_char (unat a div 4), b64_char (unat a mod 4 * 16 + unat b div 16),
      b64_char (unat b mod 16 * 4 + unat c div 64), b64_char (unat c mod 64)] @ b64_encode r"
| "b64_encode [a, b] =
     [b64_char (unat a div 4), b64_char (unat a mod 4 * 16 + unat b div 16), b64_char (unat b mod 16 * 4), CHR ''='']"
| "b64_encode [a] = [b64_char (unat a div 4), b64_char (unat a mod 4 * 16), CHR ''='', CHR ''='']"
| "b64_encode [] = []"

definition b64_quad :: "nat \<Rightarrow> nat \<Rightarrow> nat \<Rightarrow> nat \<Rightarrow> bytes" where
  "b64_quad a b c d =
     [word_of_nat (a * 4 + b div 16), word_of_nat (b mod 16 * 16 + c div 4), word_of_nat (c mod 4 * 64 + d)]"

fun b64_decode :: "string \<Rightarrow> bytes option" where
  "b64_decode [] = Some []"
| "b64_decode (a # b # c # d # r) =
     (case (b64_value a, b64_value b) of
        (Some x, Some y) \<Rightarrow>
          if d = CHR ''='' \<and> r = [] then
            (if c = CHR ''='' then Some (take 1 (b64_quad x y 0 0))
             else map_option (\<lambda>z. take 2 (b64_quad x y z 0)) (b64_value c))
          else
            (case (b64_value c, b64_value d) of
               (Some z, Some w) \<Rightarrow> map_option (\<lambda>t. b64_quad x y z w @ t) (b64_decode r)
             | _ \<Rightarrow> None)
      | _ \<Rightarrow> None)"
| "b64_decode _ = None"

lemma b64_value_char: "n < 64 \<Longrightarrow> b64_value (b64_char n) = Some n"
  by (auto simp: b64_value_def b64_char_def Let_def)

lemma b64_value_eq_pad [simp]: "b64_value (CHR ''='') = None"
  by (simp add: b64_value_def)

lemma b64_char_not_pad: "n < 64 \<Longrightarrow> b64_char n \<noteq> CHR ''=''"
  using b64_value_char by fastforce

lemma sextets:
  fixes a b c :: byte
  shows "unat a div 4 < 64" "unat a mod 4 * 16 + unat b div 16 < 64" "unat b mod 16 * 4 + unat c div 64 < 64"
    "unat c mod 64 < 64" "unat a mod 4 * 16 < 64" "unat b mod 16 * 4 < 64"
proof -
  have a: "unat a < 256" and b: "unat b < 256" and c: "unat c < 256" by (rule byte_lt_256)+
  show "unat a div 4 < 64" using a by (simp add: less_mult_imp_div_less)
  have "unat b div 16 < 16" "unat c div 64 < 4" using b c by (simp_all add: less_mult_imp_div_less)
  moreover have "unat a mod 4 < 4" "unat b mod 16 < 16" by simp_all
  ultimately show "unat a mod 4 * 16 + unat b div 16 < 64" "unat b mod 16 * 4 + unat c div 64 < 64"
    "unat a mod 4 * 16 < 64" "unat b mod 16 * 4 < 64"
    by linarith+
  show "unat c mod 64 < 64" by simp
qed

lemma quad_of_sextets:
  fixes a b c :: byte
  shows "b64_quad (unat a div 4) (unat a mod 4 * 16 + unat b div 16) (unat b mod 16 * 4 + unat c div 64) (unat c mod 64) = [a, b, c]"
    "take 2 (b64_quad (unat a div 4) (unat a mod 4 * 16 + unat b div 16) (unat b mod 16 * 4) 0) = [a, b]"
    "take 1 (b64_quad (unat a div 4) (unat a mod 4 * 16) 0 0) = [a]"
proof -
  have small: "unat b div 16 < 16" "unat c div 64 < 4" using byte_lt_256 [of b] byte_lt_256 [of c]
    by (simp_all add: less_mult_imp_div_less)
  have e1: "unat a div 4 * 4 + (unat a mod 4 * 16 + unat b div 16) div 16 = unat a"
    using small by simp
  have e2: "(unat a mod 4 * 16 + unat b div 16) mod 16 * 16 + (unat b mod 16 * 4 + unat c div 64) div 4 = unat b"
    using small by (simp add: mod_mult_self3 mult.commute)
  have e3: "(unat b mod 16 * 4 + unat c div 64) mod 4 * 64 + unat c mod 64 = unat c"
    using small by (simp add: mod_mult_self3 mult.commute)
  have e4: "(unat a mod 4 * 16 + unat b div 16) mod 16 * 16 + (unat b mod 16 * 4) div 4 = unat b"
    using small by (simp add: mod_mult_self3 mult.commute)
  have e5: "unat a div 4 * 4 + (unat a mod 4 * 16) div 16 = unat a" by simp
  show
    "b64_quad (unat a div 4) (unat a mod 4 * 16 + unat b div 16) (unat b mod 16 * 4 + unat c div 64) (unat c mod 64) = [a, b, c]"
    "take 2 (b64_quad (unat a div 4) (unat a mod 4 * 16 + unat b div 16) (unat b mod 16 * 4) 0) = [a, b]"
    "take 1 (b64_quad (unat a div 4) (unat a mod 4 * 16) 0 0) = [a]"
    by (simp_all only: b64_quad_def e1 e2 e3 e4 e5) (simp_all add: numeral_2_eq_2)
qed

lemma b64_decode_encode [simp]: "b64_decode (b64_encode b) = Some b"
proof (induction b rule: b64_encode.induct)
  case (1 a b c r)
  have "b64_char (unat c mod 64) \<noteq> CHR ''=''" by (rule b64_char_not_pad) simp
  with 1 show ?case by (simp add: b64_value_char sextets quad_of_sextets)
next
  case (2 a b)
  have "b64_char (unat b mod 16 * 4) \<noteq> CHR ''=''" by (rule b64_char_not_pad) (rule sextets(6))
  then show ?case by (simp add: b64_value_char sextets quad_of_sextets)
next
  case (3 a)
  show ?case using quad_of_sextets(3) [of a] by (simp add: b64_value_char sextets)
qed simp

end
