(* ===== verification/ChangeOps.thy ===== *)
theory ChangeOps
  imports Json Base64
begin

text \<open>
  The data of \<open>simplicio_fast/binary_changeset.py\<close>: paths, digests and change operations read from JSON,
  the changeset with its authority fields, its identity and its constructor checks.  Python's codec
  registry is a parameter: \<open>dec e b\<close> is \<open>b.decode(e)\<close>, \<open>None\<close> when that raises \<open>UnicodeDecodeError\<close>.
  Encodings Python does not know are outside the model: for these \<open>to_dict\<close>, and so every operation that
  needs the changeset id, raises \<open>LookupError\<close> before it has written anything.
\<close>

definition CHANGESET_SCHEMA :: string where
  "CHANGESET_SCHEMA = ''simplicio.fast.binary-changeset/v1''"

definition OP_TYPES :: "string list" where
  "OP_TYPES = [''create'', ''replace-range'', ''rename'', ''delete'']"

datatype change_error =
    Sha256_invalid
  | Path_invalid
  | Path_outside_repository
  | Operation_invalid
  | Operation_type_invalid
  | Content_invalid
  | Content_encoding_invalid
  | Ambiguous_byte_offset
  | Encoding_required
  | Encoding_invalid
  | Line_map_required
  | Line_map_invalid
  | Line_map_hash_invalid
  | Line_map_hash_mismatch
  | Create_payload_missing
  | Replace_payload_missing
  | Rename_payload_missing
  | Delete_payload_missing
  | Rename_destination_invalid
  | Schema_invalid
  | Binding_missing
  | Worktree_invalid
  | Authority_missing
  | Allowed_paths_invalid
  | Allowed_paths_missing
  | Operations_invalid
  | Operations_missing
  | Verification_commands_invalid
  | Path_not_allowed
  | Changeset_invalid
  | Changeset_id_mismatch
  | Binary_truncated
  | Binary_header_invalid
  | Binary_length_mismatch
  | Binary_checksum_mismatch
  | Metadata_invalid
  | Metadata_type_error
  | Record_truncated
  | Record_checksum_mismatch
  | Record_invalid
  | Section_length_mismatch
  | Binary_missing
  | Struct_error
  | Repository_mismatch
  | Lease_mismatch
  | Fence_mismatch
  | Path_symlink
  | Target_exists
  | Source_missing
  | Stale_source
  | After_hash_mismatch
  | Rename_destination_exists
  | Encoding_mismatch
  | Line_map_out_of_range
  | Unicode_encode_error
  | Unicode_decode_error
  | File_not_found
  | Not_an_object
  | Journal_header_invalid
  | Journal_truncated_tail
  | Journal_record_invalid
  | Journal_chain_mismatch
  | Journal_authority_mismatch
  | Cross_worktree
  | Dev_cli_unavailable
  | Dev_cli_invalid_receipt
  | Dev_cli_rejected
  | Dev_cli_unknown_effect string

definition jval :: "(string \<times> json) list \<Rightarrow> string \<Rightarrow> json" where
  "jval kvs k = (case map_of kvs k of None \<Rightarrow> JNull | Some v \<Rightarrow> v)"

section \<open>Digests, paths and text\<close>

definition cs_sha :: "json \<Rightarrow> change_error + string option" where
  "cs_sha v =
     (case v of
        JNull \<Rightarrow> Inr None
      | JStr s \<Rightarrow> if length s = 64 \<and> list_all is_hex_char (lower s) then Inr (Some (lower s)) else Inl Sha256_invalid
      | _ \<Rightarrow> Inl Sha256_invalid)"

definition slashes :: "string \<Rightarrow> string" where
  "slashes s = map (\<lambda>c. if c = CHR 0x5C then CHR ''/'' else c) s"

definition cs_path :: "string \<Rightarrow> change_error + string" where
  "cs_path v =
     (if v = [] \<or> CHR 0x00 \<in> set v \<or> CHR '':'' \<in> set v then Inl Path_invalid
      else
        (let normalized = slashes v; raw_parts = split_on (CHR ''/'') normalized in
         if ''..'' \<in> set raw_parts \<or> ''.'' \<in> set raw_parts then Inl Path_outside_repository
         else if [] \<in> set raw_parts then Inl Path_invalid
         else Inr normalized))"

definition cs_text :: "json \<Rightarrow> change_error \<Rightarrow> change_error + string" where
  "cs_text v reason =
     (case v of JStr s \<Rightarrow> if strip s = [] then Inl reason else Inr s | _ \<Rightarrow> Inl reason)"

definition cs_worktree :: "string \<Rightarrow> change_error + string" where
  "cs_worktree v =
     (if v = [] \<or> v = ''.'' \<or> v = ''..'' \<or> CHR ''/'' \<in> set v then Inl Worktree_invalid else Inr v)"

definition cs_unb64 :: "string \<Rightarrow> change_error + bytes" where
  "cs_unb64 s = (case b64_decode s of None \<Rightarrow> Inl Content_encoding_invalid | Some b \<Rightarrow> Inr b)"

section \<open>Operations\<close>

record change_operation =
  co_op :: string
  co_path :: string
  co_before :: "string option"
  co_after :: "string option"
  co_dest :: "string option"
  co_content_b64 :: "string option"
  co_encoding :: "string option"
  co_line_map :: "(int \<times> int) option"
  co_line_map_sha256 :: "string option"

definition line_map_json :: "int \<times> int \<Rightarrow> json" where
  "line_map_json m = JObj [(''start_line'', JInt (fst m)), (''end_line'', JInt (snd m))]"

definition line_map_hash :: "(bytes \<Rightarrow> bytes) \<Rightarrow> int \<times> int \<Rightarrow> string" where
  "line_map_hash sha m = hexdigest sha (canonical (line_map_json m))"

definition read_content :: "(string \<times> json) list \<Rightarrow> change_error + string option" where
  "read_content v =
     (if jval v ''content_b64'' = JNull
      then
        (case jval v ''content'' of
           JNull \<Rightarrow> Inr None
         | JStr s \<Rightarrow> Inr (Some (b64_encode (encode s)))
         | _ \<Rightarrow> Inl Content_invalid)
      else
        (case jval v ''content_b64'' of
           JStr s \<Rightarrow> ebind (cs_unb64 s) (\<lambda>_. Inr (Some s))
         | _ \<Rightarrow> Inl Content_encoding_invalid))"

definition read_line_map :: "(string \<times> json) list \<Rightarrow> change_error + int \<times> int" where
  "read_line_map v =
     (case jval v ''line_map'' of
        JNull \<Rightarrow>
          (case (if map_of v ''start_line'' = None then jval v ''line_start'' else jval v ''start_line'',
                 if map_of v ''end_line'' = None then jval v ''line_end'' else jval v ''end_line'') of
             (JInt a, JInt b) \<Rightarrow> Inr (a, b)
           | _ \<Rightarrow> Inl Line_map_required)
      | JObj m \<Rightarrow>
          (case (jval m ''start_line'', jval m ''end_line'') of
             (JInt a, JInt b) \<Rightarrow> Inr (a, b)
           | _ \<Rightarrow> Inl Line_map_invalid)
      | _ \<Rightarrow> Inl Line_map_invalid)"

text \<open>The encoding, line map and line map digest of an operation.\<close>

definition read_range ::
  "(bytes \<Rightarrow> bytes) \<Rightarrow> string \<Rightarrow> (string \<times> json) list \<Rightarrow>
     change_error + string option \<times> (int \<times> int) option \<times> string option" where
  "read_range sha opn v =
     (if opn = ''replace-range''
      then
        (if list_ex (\<lambda>k. map_of v k \<noteq> None) [''byte_start'', ''byte_end'', ''offset'', ''byte_offset'']
         then Inl Ambiguous_byte_offset
         else
           ebind (cs_text (case map_of v ''encoding'' of None \<Rightarrow> JStr ''utf-8'' | Some e \<Rightarrow> e) Encoding_required)
             (\<lambda>encoding. ebind (read_line_map v) (\<lambda>m.
               if fst m < 1 \<or> snd m < fst m then Inl Line_map_invalid
               else
                 (case jval v ''line_map_sha256'' of
                    JNull \<Rightarrow> Inr (Some encoding, Some m, Some (line_map_hash sha m))
                  | JStr h \<Rightarrow>
                      if h \<noteq> line_map_hash sha m then Inl Line_map_hash_mismatch
                      else Inr (Some encoding, Some m, Some (line_map_hash sha m))
                  | _ \<Rightarrow> Inl Line_map_hash_invalid))))
      else
        ebind (if jval v ''encoding'' = JNull then Inr None
               else ebind (cs_text (jval v ''encoding'') Encoding_invalid) (\<lambda>e. Inr (Some e)))
          (\<lambda>encoding.
             ebind (if jval v ''line_map_sha256'' = JNull then Inr None
                    else ebind (cs_text (jval v ''line_map_sha256'') Line_map_hash_invalid) (\<lambda>h. Inr (Some h)))
               (\<lambda>h. Inr (encoding, None, h))))"

definition check_operation :: "change_operation \<Rightarrow> change_error option" where
  "check_operation c =
     (if co_op c = ''create'' \<and> (co_content_b64 c = None \<or> co_after c = None) then Some Create_payload_missing
      else if co_op c = ''replace-range'' \<and> (co_content_b64 c = None \<or> co_before c = None \<or> co_after c = None)
        then Some Replace_payload_missing
      else if co_op c = ''rename'' \<and> (co_dest c = None \<or> co_before c = None \<or> co_after c = None)
        then Some Rename_payload_missing
      else if co_op c = ''delete'' \<and> co_before c = None then Some Delete_payload_missing
      else if co_op c = ''rename'' \<and> co_dest c = Some (co_path c) then Some Rename_destination_invalid
      else None)"

definition operation_from_dict :: "(bytes \<Rightarrow> bytes) \<Rightarrow> json \<Rightarrow> change_error + change_operation" where
  "operation_from_dict sha value =
     (case value of
        JObj v \<Rightarrow>
          (case (if map_of v ''op'' = None then JStr [] else jval v ''op'') of
             JStr raw \<Rightarrow>
               (let opn = map (\<lambda>c. if c = CHR ''_'' then CHR ''-'' else c) raw in
                if opn \<notin> set OP_TYPES then Inl Operation_type_invalid
                else
                  ebind (ebind (cs_text (jval v ''path'') Path_invalid) cs_path) (\<lambda>path.
                  ebind (if jval v ''dest'' = JNull then Inr None
                         else ebind (ebind (cs_text (jval v ''dest'') Path_invalid) cs_path) (\<lambda>d. Inr (Some d))) (\<lambda>dest.
                  ebind (cs_sha (jval v ''before_sha256'')) (\<lambda>before.
                  ebind (cs_sha (jval v ''after_sha256'')) (\<lambda>after.
                  ebind (read_content v) (\<lambda>content_b64.
                  ebind (read_range sha opn v) (\<lambda>(encoding, line_map, line_map_sha256).
                    (let c = \<lparr>co_op = opn, co_path = path, co_before = before, co_after = after,
                              co_dest = dest, co_content_b64 = content_b64, co_encoding = encoding,
                              co_line_map = line_map, co_line_map_sha256 = line_map_sha256\<rparr>
                     in case check_operation c of Some err \<Rightarrow> Inl err | None \<Rightarrow> Inr c))))))))
           | _ \<Rightarrow> Inl Operation_type_invalid)
      | _ \<Rightarrow> Inl Operation_invalid)"

definition operation_content :: "change_operation \<Rightarrow> bytes option" where
  "operation_content c = Option.bind (co_content_b64 c) b64_decode"

type_synonym codec = "string \<Rightarrow> bytes \<Rightarrow> string option"

definition content_text :: "codec \<Rightarrow> change_operation \<Rightarrow> string option" where
  "content_text dec c =
     Option.bind (operation_content c)
       (dec (case co_encoding c of None \<Rightarrow> ''utf-8'' | Some e \<Rightarrow> if e = [] then ''utf-8'' else e))"

definition operation_fields :: "codec \<Rightarrow> change_operation \<Rightarrow> (string \<times> json) list" where
  "operation_fields dec c =
     [(''op'', JStr (co_op c)), (''path'', JStr (co_path c)),
      (''before_sha256'', jopt (co_before c)), (''after_sha256'', jopt (co_after c))] @
     (case co_dest c of None \<Rightarrow> [] | Some d \<Rightarrow> [(''dest'', JStr d)]) @
     (case co_content_b64 c of
        None \<Rightarrow> []
      | Some b \<Rightarrow> (''content_b64'', JStr b) #
          (case content_text dec c of None \<Rightarrow> [] | Some t \<Rightarrow> [(''content'', JStr t)])) @
     (case co_encoding c of None \<Rightarrow> [] | Some e \<Rightarrow> [(''encoding'', JStr e)]) @
     (case co_line_map c of
        None \<Rightarrow> []
      | Some m \<Rightarrow> [(''line_map'', line_map_json m), (''line_map_sha256'', jopt (co_line_map_sha256 c))])"

definition operation_to_dict :: "codec \<Rightarrow> change_operation \<Rightarrow> json" where
  "operation_to_dict dec c = JObj (operation_fields dec c)"

definition operation_paths :: "change_operation \<Rightarrow> string list" where
  "operation_paths c = co_path c # (case co_dest c of None \<Rightarrow> [] | Some d \<Rightarrow> [d])"

section \<open>Changesets\<close>

record changeset =
  cs_repository :: string
  cs_base_generation :: string
  cs_overlay_generation :: string
  cs_attempt :: string
  cs_worktree_id :: string
  cs_lease_id :: string
  cs_fencing_token :: string
  cs_allowed_paths :: "string list"
  cs_operations :: "change_operation list"
  cs_verification_commands :: "string list"

text \<open>The constructor: the fields are checked and the allowed paths become a sorted set.\<close>

definition make_changeset :: "changeset \<Rightarrow> change_error + changeset" where
  "make_changeset c =
     (if cs_repository c = [] \<or> cs_base_generation c = [] \<or> cs_overlay_generation c = [] \<or> cs_attempt c = []
      then Inl Binding_missing
      else
        ebind (cs_worktree (cs_worktree_id c)) (\<lambda>_.
          if cs_lease_id c = [] \<or> cs_fencing_token c = [] then Inl Authority_missing
          else if list_ex (\<lambda>p. strip p = []) (cs_allowed_paths c) then Inl Allowed_paths_invalid
          else if list_ex (\<lambda>p. strip p = []) (cs_verification_commands c) then Inl Verification_commands_invalid
          else
            ebind (emap cs_path (cs_allowed_paths c)) (\<lambda>paths.
              (let allowed = sorted_set paths in
               if allowed = [] then Inl Allowed_paths_missing
               else if cs_operations c = [] then Inl Operations_missing
               else if list_ex (\<lambda>p. p \<notin> set allowed) (concat (map operation_paths (cs_operations c)))
                 then Inl Path_not_allowed
               else Inr (c\<lparr>cs_allowed_paths := allowed\<rparr>)))))"

definition changeset_identity :: "codec \<Rightarrow> changeset \<Rightarrow> (string \<times> json) list" where
  "changeset_identity dec c =
     [(''schema'', JStr CHANGESET_SCHEMA), (''repository'', JStr (cs_repository c)),
      (''base_generation'', JStr (cs_base_generation c)), (''overlay_generation'', JStr (cs_overlay_generation c)),
      (''attempt'', JStr (cs_attempt c)), (''worktree_id'', JStr (cs_worktree_id c)),
      (''lease_id'', JStr (cs_lease_id c)), (''fencing_token'', JStr (cs_fencing_token c)),
      (''allowed_paths'', JList (map JStr (cs_allowed_paths c))),
      (''operations'', JList (map (operation_to_dict dec) (cs_operations c))),
      (''verification_commands'', JList (map JStr (cs_verification_commands c)))]"

definition changeset_id :: "(bytes \<Rightarrow> bytes) \<Rightarrow> codec \<Rightarrow> changeset \<Rightarrow> string" where
  "changeset_id sha dec c = hexdigest sha (canonical (JObj (changeset_identity dec c)))"

definition changeset_to_dict :: "(bytes \<Rightarrow> bytes) \<Rightarrow> codec \<Rightarrow> changeset \<Rightarrow> json" where
  "changeset_to_dict sha dec c =
     JObj (changeset_identity dec c @ [(''changeset_id'', JStr (changeset_id sha dec c))])"

definition json_list :: "json \<Rightarrow> change_error \<Rightarrow> change_error + json list" where
  "json_list v reason = (case v of JList vs \<Rightarrow> Inr vs | _ \<Rightarrow> Inl reason)"

definition changeset_from_dict :: "(bytes \<Rightarrow> bytes) \<Rightarrow> codec \<Rightarrow> json \<Rightarrow> change_error + changeset" where
  "changeset_from_dict sha dec value =
     (case value of
        JObj v \<Rightarrow>
          (if jval v ''schema'' \<noteq> JStr CHANGESET_SCHEMA then Inl Schema_invalid
           else
             ebind (if map_of v ''operations'' = None then Inr [] else json_list (jval v ''operations'') Operations_invalid) (\<lambda>raw.
             ebind (emap (operation_from_dict sha) raw) (\<lambda>operations.
             ebind (if jval v ''allowed_paths'' = JNull then Inr []
                    else json_list (jval v ''allowed_paths'') Allowed_paths_invalid) (\<lambda>raw_allowed.
             ebind (if raw_allowed \<noteq> [] then emap (\<lambda>p. cs_text p Allowed_paths_invalid) raw_allowed
                    else Inr (sorted_set (concat (map operation_paths operations)))) (\<lambda>allowed.
             ebind (cs_text (jval v ''repository'') Binding_missing) (\<lambda>repository.
             ebind (cs_text (jval v ''base_generation'') Binding_missing) (\<lambda>base.
             ebind (cs_text (jval v ''overlay_generation'') Binding_missing) (\<lambda>overlay.
             ebind (cs_text (jval v ''attempt'') Binding_missing) (\<lambda>attempt.
             ebind (cs_text (jval v ''worktree_id'') Worktree_invalid) (\<lambda>worktree.
             ebind (cs_text (jval v ''lease_id'') Authority_missing) (\<lambda>lease.
             ebind (cs_text (jval v ''fencing_token'') Authority_missing) (\<lambda>fence.
             ebind (if map_of v ''verification_commands'' = None then Inr []
                    else json_list (jval v ''verification_commands'') Verification_commands_invalid) (\<lambda>raw_commands.
             ebind (emap (\<lambda>p. cs_text p Verification_commands_invalid) raw_commands) (\<lambda>commands.
             ebind (make_changeset
               \<lparr>cs_repository = repository, cs_base_generation = base, cs_overlay_generation = overlay,
                cs_attempt = attempt, cs_worktree_id = worktree, cs_lease_id = lease, cs_fencing_token = fence,
                cs_allowed_paths = allowed, cs_operations = operations,
                cs_verification_commands = commands\<rparr>) (\<lambda>c.
               if jval v ''changeset_id'' \<noteq> JNull \<and> jval v ''changeset_id'' \<noteq> JStr (changeset_id sha dec c)
               then Inl Changeset_id_mismatch else Inr c)))))))))))))))
      | _ \<Rightarrow> Inl Changeset_invalid)"

text \<open>\<open>prepare_from_json\<close> for a list of operations; an empty list of allowed paths means every path of the operations.\<close>

definition prepare_changeset ::
  "(bytes \<Rightarrow> bytes) \<Rightarrow> json list \<Rightarrow> changeset \<Rightarrow> change_error + changeset" where
  "prepare_changeset sha raw binding =
     ebind (emap (operation_from_dict sha) raw) (\<lambda>operations.
       make_changeset (binding\<lparr>cs_operations := operations,
         cs_allowed_paths := (if cs_allowed_paths binding \<noteq> [] then cs_allowed_paths binding
                              else concat (map operation_paths operations))\<rparr>))"

section \<open>Confinement of paths\<close>

lemma strip_Nil_iff: "strip s = [] \<longleftrightarrow> list_all is_space s"
proof -
  have "dropWhile is_space (rev (dropWhile is_space s)) = [] \<longleftrightarrow> list_all is_space s"
    by (auto simp: dropWhile_eq_Nil_conv list_all_iff)
       (metis set_dropWhileD set_takeWhileD takeWhile_dropWhile_id Un_iff set_append)+
  then show ?thesis by (simp add: strip_def)
qed

lemma slashes_idem [simp]: "slashes (slashes s) = slashes s"
  by (simp add: slashes_def)

lemma slashes_set: "CHR 0x5C \<notin> set (slashes s)" "c \<in> set (slashes s) \<Longrightarrow> c = CHR ''/'' \<or> c \<in> set s"
  by (auto simp: slashes_def)

lemma strip_slashes: "strip s \<noteq> [] \<Longrightarrow> strip (slashes s) \<noteq> []"
proof -
  assume "strip s \<noteq> []"
  then obtain c where "c \<in> set s" "\<not> is_space c" by (auto simp: strip_Nil_iff list_all_iff)
  then have "(if c = CHR 0x5C then CHR ''/'' else c) \<in> set (slashes s)" by (auto simp: slashes_def)
  moreover have "\<not> is_space (if c = CHR 0x5C then CHR ''/'' else c)"
    using \<open>\<not> is_space c\<close> by (auto simp: is_space_def)
  ultimately show ?thesis by (auto simp: strip_Nil_iff list_all_iff)
qed

lemma split_on_nonempty: "split_on d s \<noteq> []"
  by (induction s) (auto split: list.split)

lemma split_on_head: "split_on d (d # s) = [] # split_on d s"
  by simp

lemma cs_path_Inr:
  "cs_path v = Inr p \<Longrightarrow> p = slashes v \<and> v \<noteq> [] \<and> ''..'' \<notin> set (split_on (CHR ''/'') p) \<and>
     ''.'' \<notin> set (split_on (CHR ''/'') p) \<and> [] \<notin> set (split_on (CHR ''/'') p) \<and>
     CHR 0x00 \<notin> set v \<and> CHR '':'' \<notin> set v"
  by (auto simp: cs_path_def Let_def split: if_splits)

lemma cs_path_again: "cs_path v = Inr p \<Longrightarrow> cs_path p = Inr p"
proof -
  assume v: "cs_path v = Inr p"
  note c = cs_path_Inr [OF v]
  have "p \<noteq> []" using c by (auto simp: slashes_def)
  moreover have "CHR 0x00 \<notin> set p" "CHR '':'' \<notin> set p" using c slashes_set(2) [of _ v] by auto
  moreover have "slashes p = p" using c by simp
  ultimately have "\<not> (p = [] \<or> CHR 0x00 \<in> set p \<or> CHR '':'' \<in> set p)" "slashes p = p" by simp_all
  with c show ?thesis by (auto simp: cs_path_def Let_def)
qed

text \<open>C33: A changeset only names files inside the repository: every path accepted into an operation or into
  the allowed paths is relative, has no empty, \<open>.\<close> or \<open>..\<close> part and no backslash, drive or NUL, and is
  accepted unchanged a second time; and a constructed changeset names no path outside its allowed ones.\<close>

theorem changeset_paths_confined:
  assumes "make_changeset c = Inr d"
  shows "(\<forall>p \<in> set (cs_allowed_paths d). cs_path p = Inr p \<and> \<not> is_absolute p \<and> CHR 0x5C \<notin> set p \<and>
      (\<forall>part \<in> set (split_on (CHR ''/'') p). part \<notin> {[], ''.'', ''..''})) \<and>
    (\<forall>c \<in> set (cs_operations d). set (operation_paths c) \<subseteq> set (cs_allowed_paths d)) \<and>
    sorted (cs_allowed_paths d) \<and> distinct (cs_allowed_paths d) \<and> cs_operations d \<noteq> []"
proof -
  from assms obtain paths where paths: "emap cs_path (cs_allowed_paths c) = Inr paths"
      and d: "d = c\<lparr>cs_allowed_paths := sorted_set paths\<rparr>" "cs_operations c \<noteq> []"
      and ops: "\<not> list_ex (\<lambda>p. p \<notin> set (sorted_set paths)) (concat (map operation_paths (cs_operations c)))"
    by (auto simp: make_changeset_def ebind_Inr Let_def split: if_splits)
  have one: "cs_path p = Inr p \<and> \<not> is_absolute p \<and> CHR 0x5C \<notin> set p \<and>
      (\<forall>part \<in> set (split_on (CHR ''/'') p). part \<notin> {[], ''.'', ''..''})" if "p \<in> set paths" for p
  proof -
    from that paths obtain i where "i < length (cs_allowed_paths c)" "cs_path (cs_allowed_paths c ! i) = Inr p"
      by (auto simp: emap_Inr in_set_conv_nth)
    note v = this(2)
    note c = cs_path_Inr [OF v]
    have "\<not> is_absolute p"
    proof
      assume "is_absolute p"
      then obtain r where "p = CHR ''/'' # r" by (cases p) (auto simp: is_absolute_def)
      with c show False by simp
    qed
    with c cs_path_again [OF v] slashes_set(1) show ?thesis by auto
  qed
  from one d ops show ?thesis by (auto simp: list_ex_iff)
qed

definition sample_delete :: change_operation where
  "sample_delete = \<lparr>co_op = ''delete'', co_path = ''a/b'', co_before = Some (replicate 64 (CHR ''a'')),
     co_after = None, co_dest = None, co_content_b64 = None, co_encoding = None, co_line_map = None,
     co_line_map_sha256 = None\<rparr>"

definition sample_changeset :: changeset where
  "sample_changeset = \<lparr>cs_repository = ''/r'', cs_base_generation = ''g1'', cs_overlay_generation = ''g2'',
     cs_attempt = ''1'', cs_worktree_id = ''w'', cs_lease_id = ''l'', cs_fencing_token = ''f'',
     cs_allowed_paths = [[CHR ''a'', CHR 0x5C, CHR ''b'']], cs_operations = [sample_delete], cs_verification_commands = []\<rparr>"

lemma make_sample_changeset:
  "make_changeset sample_changeset = Inr (sample_changeset\<lparr>cs_allowed_paths := [''a/b'']\<rparr>)"
  by code_simp

theorem changeset_paths_confined_witness:
  "\<not> is_absolute ''a/b'' \<and> cs_path ''a/b'' = Inr ''a/b''"
  using changeset_paths_confined [OF make_sample_changeset] by simp

section \<open>Reading an operation back\<close>

definition op_wf :: "(bytes \<Rightarrow> bytes) \<Rightarrow> change_operation \<Rightarrow> bool" where
  "op_wf sha c \<longleftrightarrow>
     co_op c \<in> set OP_TYPES \<and>
     (\<forall>p \<in> set (operation_paths c). cs_path p = Inr p \<and> strip p \<noteq> []) \<and>
     cs_sha (jopt (co_before c)) = Inr (co_before c) \<and> cs_sha (jopt (co_after c)) = Inr (co_after c) \<and>
     (\<forall>s. co_content_b64 c = Some s \<longrightarrow> b64_decode s \<noteq> None) \<and>
     (\<forall>e. co_encoding c = Some e \<longrightarrow> strip e \<noteq> []) \<and>
     (if co_op c = ''replace-range''
      then (\<exists>a b. co_line_map c = Some (a, b) \<and> 1 \<le> a \<and> a \<le> b \<and>
              co_line_map_sha256 c = Some (line_map_hash sha (a, b))) \<and> co_encoding c \<noteq> None
      else co_line_map c = None) \<and>
     check_operation c = None"

lemma length_lower [simp]: "length (lower s) = length s"
  by (simp add: lower_def)

lemma cs_sha_again: "cs_sha v = Inr s \<Longrightarrow> cs_sha (jopt s) = Inr s"
  by (cases v) (auto simp: cs_sha_def jopt_def split: if_splits)

lemma cs_text_Inr: "cs_text v e = Inr s \<longleftrightarrow> v = JStr s \<and> strip s \<noteq> []"
  by (auto simp: cs_text_def split: json.splits)

lemma path_of_text:
  "ebind (cs_text v e) cs_path = Inr p \<Longrightarrow> cs_path p = Inr p \<and> strip p \<noteq> []"
  by (auto simp: ebind_Inr cs_text_Inr dest: cs_path_again cs_path_Inr strip_slashes)

lemma read_range_Inr:
  assumes "read_range sha opn v = Inr (e, m, h)"
  shows "(\<forall>x. e = Some x \<longrightarrow> strip x \<noteq> []) \<and>
    (if opn = ''replace-range''
     then (\<exists>a b. m = Some (a, b) \<and> 1 \<le> a \<and> a \<le> b \<and> h = Some (line_map_hash sha (a, b))) \<and> e \<noteq> None
     else m = None)"
proof (cases "opn = ''replace-range''")
  case True
  with assms show ?thesis
    by (cases "jval v ''line_map_sha256''") (auto simp: read_range_def ebind_Inr cs_text_Inr split: if_splits)
next
  case False
  with assms show ?thesis by (auto simp: read_range_def ebind_Inr cs_text_Inr split: if_splits)
qed

lemma operation_from_dict_wf:
  assumes "operation_from_dict sha v = Inr c"
  shows "op_wf sha c"
proof -
  from assms obtain kvs raw where v: "v = JObj kvs"
    by (auto simp: operation_from_dict_def split: json.splits)
  from assms v obtain path dest before after content range opn where
    opn: "opn \<in> set OP_TYPES" and
    path: "ebind (cs_text (jval kvs ''path'') Path_invalid) cs_path = Inr path" and
    dest: "(if jval kvs ''dest'' = JNull then Inr None
       else ebind (ebind (cs_text (jval kvs ''dest'') Path_invalid) cs_path) (\<lambda>d. Inr (Some d))) = Inr dest" and
    before: "cs_sha (jval kvs ''before_sha256'') = Inr before" and
    after: "cs_sha (jval kvs ''after_sha256'') = Inr after" and
    content: "read_content kvs = Inr content" and
    range: "read_range sha opn kvs = Inr range" and
    chk: "check_operation c = None" and
    c: "c = \<lparr>co_op = opn, co_path = path, co_before = before, co_after = after, co_dest = dest,
       co_content_b64 = content, co_encoding = fst range, co_line_map = fst (snd range),
       co_line_map_sha256 = snd (snd range)\<rparr>"
    by (auto simp: operation_from_dict_def ebind_Inr Let_def split: json.splits if_splits option.splits)
  have "\<forall>p \<in> set (operation_paths c). cs_path p = Inr p \<and> strip p \<noteq> []"
    using path_of_text [OF path] dest path_of_text
    by (auto simp: operation_paths_def c ebind_Inr [of "ebind _ _"] split: option.splits if_splits)
  moreover have "\<forall>s. content = Some s \<longrightarrow> b64_decode s \<noteq> None"
    using content by (auto simp: read_content_def cs_unb64_def ebind_Inr split: json.splits if_splits option.splits)
  moreover note read_range_Inr [of sha opn kvs "fst range" "fst (snd range)" "snd (snd range)"] range
  ultimately show ?thesis
    using opn chk cs_sha_again [OF before] cs_sha_again [OF after] by (simp add: op_wf_def c)
qed

end
