(* ===== verification/ChangeCodec.thy ===== *)
theory ChangeCodec
  imports ChangeOps
begin

text \<open>
  The sealed binary form of a changeset (\<open>encode\<close>, \<open>decode_binary\<close>, \<open>inspect_binary\<close> of
  \<open>binary_changeset.py\<close>): a 54-byte header, the canonical metadata, and one length-prefixed,
  digest-suffixed record per operation.  The first part shows that reading a changeset depends only on
  what its dictionaries map, so that it survives the reordering of \<open>json.dumps\<close>; the second that
  decoding undoes encoding.
\<close>

section \<open>The format\<close>

definition CHANGESET_MAGIC :: bytes where
  "CHANGESET_MAGIC = encode ''SFBCHG01''"

definition changeset_header_size :: nat where
  "changeset_header_size = 54"

definition pack_changeset_header :: "nat \<Rightarrow> nat \<Rightarrow> nat \<Rightarrow> bytes \<Rightarrow> bytes" where
  "pack_changeset_header metadata_len count section_len digest =
     CHANGESET_MAGIC @ [1, 0] @ be_bytes 4 metadata_len @ be_bytes 4 count @ be_bytes 4 section_len @ digest"

definition framed_record :: "(bytes \<Rightarrow> bytes) \<Rightarrow> bytes \<Rightarrow> bytes" where
  "framed_record sha payload = be_bytes 4 (length payload) @ payload @ sha payload"

definition operation_payload :: "codec \<Rightarrow> change_operation \<Rightarrow> bytes" where
  "operation_payload dec c = canonical (operation_to_dict dec c)"

definition fits32 :: "nat \<Rightarrow> bool" where
  "fits32 n \<longleftrightarrow> n < 2 ^ 32"

text \<open>\<open>struct.pack\<close> raises for a length that does not fit 32 bits.\<close>

definition encode_changeset :: "(bytes \<Rightarrow> bytes) \<Rightarrow> codec \<Rightarrow> changeset \<Rightarrow> change_error + bytes" where
  "encode_changeset sha dec c =
     (let metadata = canonical (changeset_to_dict sha dec c);
          payloads = map (operation_payload dec) (cs_operations c);
          records = concat (map (framed_record sha) payloads) in
      if list_all (\<lambda>p. fits32 (length p)) payloads \<and> fits32 (length metadata) \<and>
         fits32 (length payloads) \<and> fits32 (length records)
      then Inr (pack_changeset_header (length metadata) (length payloads) (length records)
                  (sha (metadata @ records)) @ metadata @ records)
      else Inl Struct_error)"

fun read_records :: "(bytes \<Rightarrow> bytes) \<Rightarrow> nat \<Rightarrow> bytes \<Rightarrow> change_error + json list \<times> bytes" where
  "read_records sha 0 s = Inr ([], s)"
| "read_records sha (Suc n) s =
     (if length s < 4 then Inl Record_truncated
      else
        (let len = be_nat (slice 0 4 s) in
         if length s < 36 + len then Inl Record_truncated
         else
           (let record = slice 4 (4 + len) s; checksum = slice (4 + len) (36 + len) s in
            if sha record \<noteq> checksum then Inl Record_checksum_mismatch
            else
              (case loads (decode record) of
                 None \<Rightarrow> Inl Record_invalid
               | Some v \<Rightarrow>
                   ebind (read_records sha n (drop (36 + len) s)) (\<lambda>(vs, r). Inr (v # vs, r))))))"

text \<open>The metadata and the records behind a header that passed its checks.\<close>

text \<open>\<open>value["operations"] = operations\<close> on metadata that is no object raises \<open>TypeError\<close>.\<close>

definition changeset_of_parts ::
  "(bytes \<Rightarrow> bytes) \<Rightarrow> codec \<Rightarrow> bytes \<Rightarrow> nat \<Rightarrow> bytes \<Rightarrow> change_error + changeset" where
  "changeset_of_parts sha dec metadata record_count body =
     (case loads (decode metadata) of
        None \<Rightarrow> Inl Metadata_invalid
      | Some v \<Rightarrow>
          ebind (read_records sha record_count body) (\<lambda>(operations, rest).
            if rest \<noteq> [] then Inl Section_length_mismatch
            else
              (case v of
                 JObj kvs \<Rightarrow> changeset_from_dict sha dec (JObj (dput ''operations'' (JList operations) kvs))
               | _ \<Rightarrow> Inl Metadata_type_error)))"

definition decode_binary :: "(bytes \<Rightarrow> bytes) \<Rightarrow> codec \<Rightarrow> bytes \<Rightarrow> change_error + changeset" where
  "decode_binary sha dec payload =
     (if length payload < changeset_header_size then Inl Binary_truncated
      else if slice 0 8 payload \<noteq> CHANGESET_MAGIC \<or> slice 8 9 payload \<noteq> [1] \<or> slice 9 10 payload \<noteq> [0]
        then Inl Binary_header_invalid
      else
        (let metadata_len = be_nat (slice 10 14 payload); record_count = be_nat (slice 14 18 payload);
             section_len = be_nat (slice 18 22 payload); digest = slice 22 54 payload;
             end_metadata = changeset_header_size + metadata_len;
             end_section = end_metadata + section_len in
         if end_section \<noteq> length payload then Inl Binary_length_mismatch
         else
           (let metadata = slice changeset_header_size end_metadata payload;
                body = slice end_metadata end_section payload in
            if sha (metadata @ body) \<noteq> digest then Inl Binary_checksum_mismatch
            else changeset_of_parts sha dec metadata record_count body)))"

definition read_binary :: "(bytes \<Rightarrow> bytes) \<Rightarrow> codec \<Rightarrow> bytes option \<Rightarrow> change_error + changeset" where
  "read_binary sha dec contents =
     (case contents of None \<Rightarrow> Inl Binary_missing | Some payload \<Rightarrow> decode_binary sha dec payload)"

definition inspect_binary :: "(bytes \<Rightarrow> bytes) \<Rightarrow> codec \<Rightarrow> bytes \<Rightarrow> change_error + json" where
  "inspect_binary sha dec raw =
     ebind (decode_binary sha dec raw) (\<lambda>c. Inr (JObj
       [(''schema'', JStr ''simplicio.fast.binary-changeset-inspection/v1''), (''status'', JStr ''valid''),
        (''changeset_id'', JStr (changeset_id sha dec c)), (''binary_sha256'', JStr (hexdigest sha raw)),
        (''bytes'', JInt (int (length raw))), (''repository'', JStr (cs_repository c)),
        (''base_generation'', JStr (cs_base_generation c)),
        (''overlay_generation'', JStr (cs_overlay_generation c)),
        (''worktree_id'', JStr (cs_worktree_id c)),
        (''operation_count'', JInt (int (length (cs_operations c)))),
        (''operations'', JList (map (JStr \<circ> co_op) (cs_operations c)))]))"

text \<open>\<open>seal_to\<close>: the file it leaves and its receipt.\<close>

definition seal_changeset ::
  "(bytes \<Rightarrow> bytes) \<Rightarrow> codec \<Rightarrow> string \<Rightarrow> changeset \<Rightarrow> change_error + bytes \<times> json" where
  "seal_changeset sha dec path c =
     ebind (encode_changeset sha dec c) (\<lambda>payload. Inr (payload, JObj
       [(''schema'', JStr ''simplicio.fast.binary-changeset-receipt/v1''), (''status'', JStr ''sealed''),
        (''changeset_id'', JStr (changeset_id sha dec c)), (''binary_sha256'', JStr (hexdigest sha payload)),
        (''bytes'', JInt (int (length payload))), (''path'', JStr path)]))"

section \<open>Reading depends only on what a dictionary maps\<close>

lemma jval_norm:
  "wf_json (JObj kvs) \<Longrightarrow> norm_json (JObj kvs) = JObj kvs' \<Longrightarrow>
     map_of kvs' k = map_option norm_json (map_of kvs k) \<and> jval kvs' k = norm_json (jval kvs k)"
  using jget_norm [of "JObj kvs" k] by (simp add: jval_def split: option.split)

lemma norm_atoms [simp]:
  "norm_json v = JNull \<longleftrightarrow> v = JNull" "norm_json v = JStr s \<longleftrightarrow> v = JStr s"
  by (cases v; simp)+

lemma cs_text_norm [simp]: "cs_text (norm_json v) e = cs_text v e"
  by (cases v) (simp_all add: cs_text_def)

lemma cs_text_other [simp]:
  "cs_text JNull e = Inl e" "cs_text (JBool b) e = Inl e" "cs_text (JInt i) e = Inl e"
  "cs_text (JList vs) e = Inl e" "cs_text (JObj kvs) e = Inl e"
  by (simp_all add: cs_text_def)

lemma cs_sha_norm [simp]: "cs_sha (norm_json v) = cs_sha v"
  by (cases v) (simp_all add: cs_sha_def)

definition same_reads :: "(string \<times> json) list \<Rightarrow> (string \<times> json) list \<Rightarrow> bool" where
  "same_reads kvs' kvs \<longleftrightarrow> (\<forall>k. map_of kvs' k = map_option norm_json (map_of kvs k) \<and>
     (\<forall>v. map_of kvs k = Some v \<longrightarrow> wf_json v))"

lemma same_readsD:
  assumes "same_reads kvs' kvs"
  shows "map_of kvs' k = map_option norm_json (map_of kvs k)" "jval kvs' k = norm_json (jval kvs k)"
    "wf_json (jval kvs k)"
  using assms by (auto simp: same_reads_def jval_def split: option.split)

lemma same_reads_norm:
  assumes w: "wf_json (JObj kvs)" and n: "norm_json (JObj kvs) = JObj kvs'"
  shows "same_reads kvs' kvs"
  using w jval_norm [OF w n] by (auto simp: same_reads_def dest!: map_of_SomeD)

lemma read_content_norm: "same_reads kvs' kvs \<Longrightarrow> read_content kvs' = read_content kvs"
  by (cases "jval kvs ''content_b64''"; cases "jval kvs ''content''")
     (simp_all add: read_content_def same_readsD(2))

definition int_pair :: "change_error \<Rightarrow> json \<Rightarrow> json \<Rightarrow> change_error + int \<times> int" where
  "int_pair err a b = (case (a, b) of (JInt i, JInt j) \<Rightarrow> Inr (i, j) | _ \<Rightarrow> Inl err)"

lemma int_pair_norm [simp]: "int_pair err (norm_json a) (norm_json b) = int_pair err a b"
  by (cases a; cases b) (simp_all add: int_pair_def)

lemma read_line_map_alt:
  "read_line_map v =
     (case jval v ''line_map'' of
        JNull \<Rightarrow> int_pair Line_map_required
          (if map_of v ''start_line'' = None then jval v ''line_start'' else jval v ''start_line'')
          (if map_of v ''end_line'' = None then jval v ''line_end'' else jval v ''end_line'')
      | JObj m \<Rightarrow> int_pair Line_map_invalid (jval m ''start_line'') (jval m ''end_line'')
      | _ \<Rightarrow> Inl Line_map_invalid)"
  by (simp only: read_line_map_def int_pair_def)

lemma read_line_map_norm:
  assumes s: "same_reads kvs' kvs"
  shows "read_line_map kvs' = read_line_map kvs"
proof (cases "jval kvs ''line_map''")
  case JNull
  have "(if map_of kvs' k = None then jval kvs' j else jval kvs' k) =
      norm_json (if map_of kvs k = None then jval kvs j else jval kvs k)" for k j
    by (simp add: same_readsD [OF s])
  with JNull show ?thesis by (simp add: read_line_map_alt same_readsD(2) [OF s] del: if_image_distrib)
next
  case (JObj m)
  with same_readsD(3) [OF s, of "''line_map''"] have w: "wf_json (JObj m)" by simp
  obtain m' where m': "norm_json (JObj m) = JObj m'" by simp
  have "same_reads m' m" using w m' by (rule same_reads_norm)
  with JObj m' show ?thesis
    by (simp add: read_line_map_alt same_readsD(2) [OF s] same_readsD(2) [of m' m] del: norm_json.simps)
qed (simp_all add: read_line_map_alt same_readsD(2) [OF s])

lemma read_range_norm:
  assumes s: "same_reads kvs' kvs"
  shows "read_range sha opn kvs' = read_range sha opn kvs"
  by (cases "map_of kvs ''encoding''"; cases "jval kvs ''line_map_sha256''")
     (simp_all add: read_range_def same_readsD(1,2) [OF s] read_line_map_norm [OF s] cong: if_cong)

lemma operation_from_dict_norm:
  assumes w: "wf_json v"
  shows "operation_from_dict sha (norm_json v) = operation_from_dict sha v"
proof (cases v)
  case (JObj kvs)
  obtain kvs' where n: "norm_json (JObj kvs) = JObj kvs'" by simp
  have s: "same_reads kvs' kvs" using w n unfolding JObj by (rule same_reads_norm)
  have opn: "(if map_of kvs' ''op'' = None then JStr [] else jval kvs' ''op'') =
      norm_json (if map_of kvs ''op'' = None then JStr [] else jval kvs ''op'')"
    by (simp add: same_readsD [OF s])
  show ?thesis
    unfolding JObj n operation_from_dict_def json.case opn
    by (cases "if map_of kvs ''op'' = None then JStr [] else jval kvs ''op''")
       (simp_all only: norm_json.simps json.case same_readsD(2) [OF s] read_content_norm [OF s]
         read_range_norm [OF s] cs_text_norm cs_sha_norm norm_atoms)
qed (simp_all add: operation_from_dict_def)

section \<open>Printing an operation and reading it back\<close>

text \<open>\<open>to_dict\<close> prints the digest of a line map only beside the map.\<close>

definition printed_operation :: "change_operation \<Rightarrow> change_operation" where
  "printed_operation c = (if co_line_map c = None then c\<lparr>co_line_map_sha256 := None\<rparr> else c)"

lemma printed_operation_get [simp]:
  "co_op (printed_operation c) = co_op c" "co_path (printed_operation c) = co_path c"
  "co_before (printed_operation c) = co_before c" "co_after (printed_operation c) = co_after c"
  "co_dest (printed_operation c) = co_dest c" "co_content_b64 (printed_operation c) = co_content_b64 c"
  "co_encoding (printed_operation c) = co_encoding c" "co_line_map (printed_operation c) = co_line_map c"
  by (simp_all add: printed_operation_def)

lemma printed_operation_paths [simp]: "operation_paths (printed_operation c) = operation_paths c"
  by (simp add: operation_paths_def)

lemma printed_operation_to_dict [simp]:
  "operation_to_dict dec (printed_operation c) = operation_to_dict dec c"
  by (auto simp: operation_to_dict_def operation_fields_def content_text_def operation_content_def
        printed_operation_def split: option.split)

definition member_if :: "'a option \<Rightarrow> string \<Rightarrow> ('a \<Rightarrow> json) \<Rightarrow> (string \<times> json) list" where
  "member_if x k f = (case x of None \<Rightarrow> [] | Some d \<Rightarrow> [(k, f d)])"
lemma member_if_simps: "map fst (member_if x k f) = (if x = None then [] else [k])"
  "map_of (member_if x k f) j = (if j = k then map_option f x else None)"
  by (auto simp: member_if_def split: option.split)

lemma operation_fields_alt:
  "operation_fields dec c =
     [(''op'', JStr (co_op c)), (''path'', JStr (co_path c)),
      (''before_sha256'', jopt (co_before c)), (''after_sha256'', jopt (co_after c))] @
     member_if (co_dest c) ''dest'' JStr @ member_if (co_content_b64 c) ''content_b64'' JStr @
     (if co_content_b64 c = None then [] else member_if (content_text dec c) ''content'' JStr) @
     member_if (co_encoding c) ''encoding'' JStr @
     member_if (co_line_map c) ''line_map'' line_map_json @
     member_if (co_line_map c) ''line_map_sha256'' (\<lambda>_. jopt (co_line_map_sha256 c))"
  by (simp add: operation_fields_def member_if_def split: option.split)

lemma case_option_Some: "(case x of None \<Rightarrow> None | Some v \<Rightarrow> Some v) = x"
  by (cases x) simp_all

lemma operation_fields_get [simp]:
  "map_of (operation_fields dec c) ''op'' = Some (JStr (co_op c))"
  "map_of (operation_fields dec c) ''path'' = Some (JStr (co_path c))"
  "map_of (operation_fields dec c) ''before_sha256'' = Some (jopt (co_before c))"
  "map_of (operation_fields dec c) ''after_sha256'' = Some (jopt (co_after c))"
  "map_of (operation_fields dec c) ''dest'' = map_option JStr (co_dest c)"
  "map_of (operation_fields dec c) ''content_b64'' = map_option JStr (co_content_b64 c)"
  "map_of (operation_fields dec c) ''encoding'' = map_option JStr (co_encoding c)"
  "map_of (operation_fields dec c) ''line_map'' = map_option line_map_json (co_line_map c)"
  "map_of (operation_fields dec c) ''line_map_sha256'' =
     (if co_line_map c = None then None else Some (jopt (co_line_map_sha256 c)))"
  "map_of (operation_fields dec c) ''byte_start'' = None"
  "map_of (operation_fields dec c) ''byte_end'' = None"
  "map_of (operation_fields dec c) ''offset'' = None"
  "map_of (operation_fields dec c) ''byte_offset'' = None"
  by (simp_all add: operation_fields_alt map_of_append map_add_def member_if_simps(2) map_option_case case_option_Some split: option.split)

lemma operation_fields_content:
  "co_content_b64 c = None \<Longrightarrow> map_of (operation_fields dec c) ''content'' = None"
  by (simp add: operation_fields_alt map_of_append map_add_def member_if_simps(2) split: option.split)

lemma member_if_set: "set (map fst (member_if x k f)) \<subseteq> {k}" "distinct (map fst (member_if x k f))"
  "(\<And>d. wf_json (f d)) \<Longrightarrow> list_all (\<lambda>m. wf_json (snd m)) (member_if x k f)"
  by (auto simp: member_if_def split: option.splits)

lemma wf_operation_to_dict [simp]: "wf_json (operation_to_dict dec c)"
proof -
  have "distinct (map fst (operation_fields dec c))"
    unfolding operation_fields_alt map_append member_if_simps(1) if_distrib [of "map fst"]
    by simp
  moreover have "wf_json (line_map_json m)" for m by (simp add: line_map_json_def)
  then have "list_all (\<lambda>m. wf_json (snd m)) (operation_fields dec c)"
    by (simp add: operation_fields_alt member_if_set(3))
  ultimately show ?thesis by (auto simp: operation_to_dict_def list_all_iff)
qed

lemma jval_line_map [simp]:
  "jval [(''start_line'', JInt a), (''end_line'', JInt b)] ''start_line'' = JInt a"
  "jval [(''start_line'', JInt a), (''end_line'', JInt b)] ''end_line'' = JInt b"
  by (simp_all add: jval_def)

lemma cs_text_strip [simp]: "strip s \<noteq> [] \<Longrightarrow> cs_text (JStr s) e = Inr s"
  by (simp add: cs_text_def)

lemma read_content_printed:
  assumes "\<forall>s. co_content_b64 c = Some s \<longrightarrow> b64_decode s \<noteq> None"
  shows "read_content (operation_fields dec c) = Inr (co_content_b64 c)"
  using assms operation_fields_content [of c dec]
  by (cases "co_content_b64 c") (auto simp: read_content_def jval_def cs_unb64_def)

lemma read_range_printed:
  assumes "op_wf sha c"
  shows "read_range sha (co_op c) (operation_fields dec c) =
    Inr (co_encoding c, co_line_map c, co_line_map_sha256 (printed_operation c))"
proof (cases "co_op c = ''replace-range''")
  case True
  with assms obtain a b e where
    "co_line_map c = Some (a, b)" "1 \<le> a" "a \<le> b" "co_line_map_sha256 c = Some (line_map_hash sha (a, b))"
    "co_encoding c = Some e" "strip e \<noteq> []"
    by (auto simp: op_wf_def)
  with True show ?thesis
    by (simp add: read_range_def read_line_map_alt int_pair_def line_map_json_def printed_operation_def jopt_def)
       (simp add: jval_def line_map_json_def int_pair_def jopt_def)
next
  case False
  with assms have m: "co_line_map c = None" "\<forall>e. co_encoding c = Some e \<longrightarrow> strip e \<noteq> []"
    by (auto simp: op_wf_def)
  with False show ?thesis
    by (cases "co_encoding c") (auto simp: read_range_def jval_def printed_operation_def)
qed

lemma op_type_dashes: "s \<in> set OP_TYPES \<Longrightarrow> map (\<lambda>c. if c = CHR ''_'' then CHR ''-'' else c) s = s"
  by (auto simp: OP_TYPES_def)

lemma check_operation_printed [simp]: "check_operation (printed_operation c) = check_operation c"
  unfolding check_operation_def by (simp only: printed_operation_get)

lemma operation_back:
  assumes wf: "op_wf sha c"
  shows "operation_from_dict sha (operation_to_dict dec c) = Inr (printed_operation c)"
proof -
  have p: "cs_path (co_path c) = Inr (co_path c)" "strip (co_path c) \<noteq> []"
    and d: "\<forall>d. co_dest c = Some d \<longrightarrow> cs_path d = Inr d \<and> strip d \<noteq> []"
    using wf by (auto simp: op_wf_def operation_paths_def split: option.splits)
  have dest: "(if jval (operation_fields dec c) ''dest'' = JNull then Inr None
      else ebind (ebind (cs_text (jval (operation_fields dec c) ''dest'') Path_invalid) cs_path) (\<lambda>d. Inr (Some d))) =
      Inr (co_dest c)"
    using d by (cases "co_dest c") (auto simp: jval_def)
  have opn: "co_op c \<in> set OP_TYPES" using wf by (simp add: op_wf_def)
  have content: "read_content (operation_fields dec c) = Inr (co_content_b64 c)"
    using wf by (intro read_content_printed) (simp add: op_wf_def)
  have sha: "cs_sha (jopt (co_before c)) = Inr (co_before c)" "cs_sha (jopt (co_after c)) = Inr (co_after c)"
    and chk: "check_operation c = None"
    using wf by (simp_all add: op_wf_def)
  have whole: "\<lparr>co_op = co_op c, co_path = co_path c, co_before = co_before c, co_after = co_after c,
      co_dest = co_dest c, co_content_b64 = co_content_b64 c, co_encoding = co_encoding c,
      co_line_map = co_line_map c, co_line_map_sha256 = co_line_map_sha256 (printed_operation c)\<rparr> =
      printed_operation c"
    by (simp add: printed_operation_def)
  have get: "jval (operation_fields dec c) ''op'' = JStr (co_op c)"
    "jval (operation_fields dec c) ''path'' = JStr (co_path c)"
    "jval (operation_fields dec c) ''before_sha256'' = jopt (co_before c)"
    "jval (operation_fields dec c) ''after_sha256'' = jopt (co_after c)"
    by (simp_all add: jval_def)
  show ?thesis
    unfolding operation_from_dict_def operation_to_dict_def json.case
    using p opn chk by (simp add: get op_type_dashes [OF opn] dest content read_range_printed [OF wf] sha whole Let_def)
qed

section \<open>Printing a changeset and reading it back\<close>

definition printed_changeset :: "changeset \<Rightarrow> changeset" where
  "printed_changeset c = c\<lparr>cs_operations := map printed_operation (cs_operations c)\<rparr>"

text \<open>What reading from a dictionary guarantees and a direct construction does not: texts are not blank.\<close>

definition changeset_texts :: "changeset \<Rightarrow> string list" where
  "changeset_texts c = [cs_repository c, cs_base_generation c, cs_overlay_generation c, cs_attempt c,
     cs_worktree_id c, cs_lease_id c, cs_fencing_token c] @ cs_verification_commands c"

definition changeset_wf :: "(bytes \<Rightarrow> bytes) \<Rightarrow> changeset \<Rightarrow> bool" where
  "changeset_wf sha c \<longleftrightarrow> make_changeset c = Inr c \<and> (\<forall>p \<in> set (cs_operations c). op_wf sha p) \<and>
     (\<forall>t \<in> set (changeset_texts c). strip t \<noteq> [])"

lemma printed_changeset_id [simp]: "changeset_id sha dec (printed_changeset c) = changeset_id sha dec c"
  by (simp add: changeset_id_def changeset_identity_def printed_changeset_def comp_def)

lemma printed_changeset_to_dict: "changeset_to_dict sha dec (printed_changeset c) = changeset_to_dict sha dec c"
proof -
  have "changeset_identity dec (printed_changeset c) = changeset_identity dec c"
    by (simp add: changeset_identity_def printed_changeset_def comp_def)
  then show ?thesis by (simp add: changeset_to_dict_def)
qed

lemma encode_printed_changeset: "encode_changeset sha dec (printed_changeset c) = encode_changeset sha dec c"
proof -
  have "map (operation_payload dec) (cs_operations (printed_changeset c)) =
      map (operation_payload dec) (cs_operations c)"
    by (simp add: printed_changeset_def operation_payload_def)
  then show ?thesis by (simp only: encode_changeset_def printed_changeset_to_dict)
qed

lemma make_changeset_Inr:
  "make_changeset c = Inr d \<Longrightarrow> \<exists>u paths. cs_repository c \<noteq> [] \<and> cs_base_generation c \<noteq> [] \<and>
      cs_overlay_generation c \<noteq> [] \<and> cs_attempt c \<noteq> [] \<and> cs_worktree (cs_worktree_id c) = Inr u \<and>
      cs_lease_id c \<noteq> [] \<and> cs_fencing_token c \<noteq> [] \<and> \<not> list_ex (\<lambda>p. strip p = []) (cs_allowed_paths c) \<and>
      \<not> list_ex (\<lambda>p. strip p = []) (cs_verification_commands c) \<and> cs_operations c \<noteq> [] \<and>
      emap cs_path (cs_allowed_paths c) = Inr paths \<and> sorted_set paths \<noteq> [] \<and>
      \<not> list_ex (\<lambda>p. p \<notin> set paths) (concat (map operation_paths (cs_operations c))) \<and>
      d = c\<lparr>cs_allowed_paths := sorted_set paths\<rparr>"
  by (auto simp: make_changeset_def ebind_Inr Let_def split: if_splits)

lemma make_printed_changeset:
  assumes "make_changeset c = Inr c"
  shows "make_changeset (printed_changeset c) = Inr (printed_changeset c)"
proof -
  from make_changeset_Inr [OF assms] obtain u paths where c: "cs_repository c \<noteq> []" "cs_base_generation c \<noteq> []"
      "cs_overlay_generation c \<noteq> []" "cs_attempt c \<noteq> []" "cs_worktree (cs_worktree_id c) = Inr u"
      "cs_lease_id c \<noteq> []" "cs_fencing_token c \<noteq> []" "\<not> list_ex (\<lambda>p. strip p = []) (cs_allowed_paths c)"
      "\<not> list_ex (\<lambda>p. strip p = []) (cs_verification_commands c)" "cs_operations c \<noteq> []"
      "sorted_set paths \<noteq> []" "\<not> list_ex (\<lambda>p. p \<notin> set paths) (concat (map operation_paths (cs_operations c)))"
    and paths: "emap cs_path (cs_allowed_paths c) = Inr paths" "c = c\<lparr>cs_allowed_paths := sorted_set paths\<rparr>"
    by blast
  from arg_cong [OF paths(2), of cs_allowed_paths] have "cs_allowed_paths c = sorted_set paths" by simp
  then have "printed_changeset c\<lparr>cs_allowed_paths := sorted_set paths\<rparr> = printed_changeset c"
    by (cases c) (simp add: printed_changeset_def)
  with c paths(1) show ?thesis
    by (simp add: make_changeset_def Let_def comp_def) (simp add: printed_changeset_def comp_def)
qed

definition changeset_fields :: "(bytes \<Rightarrow> bytes) \<Rightarrow> codec \<Rightarrow> changeset \<Rightarrow> (string \<times> json) list" where
  "changeset_fields sha dec c =
     changeset_identity dec c @ [(''changeset_id'', JStr (changeset_id sha dec c))]"

lemma changeset_fields_get:
  "map_of (changeset_fields sha dec c) ''schema'' = Some (JStr CHANGESET_SCHEMA)"
  "map_of (changeset_fields sha dec c) ''repository'' = Some (JStr (cs_repository c))"
  "map_of (changeset_fields sha dec c) ''base_generation'' = Some (JStr (cs_base_generation c))"
  "map_of (changeset_fields sha dec c) ''overlay_generation'' = Some (JStr (cs_overlay_generation c))"
  "map_of (changeset_fields sha dec c) ''attempt'' = Some (JStr (cs_attempt c))"
  "map_of (changeset_fields sha dec c) ''worktree_id'' = Some (JStr (cs_worktree_id c))"
  "map_of (changeset_fields sha dec c) ''lease_id'' = Some (JStr (cs_lease_id c))"
  "map_of (changeset_fields sha dec c) ''fencing_token'' = Some (JStr (cs_fencing_token c))"
  "map_of (changeset_fields sha dec c) ''allowed_paths'' = Some (JList (map JStr (cs_allowed_paths c)))"
  "map_of (changeset_fields sha dec c) ''operations'' = Some (JList (map (operation_to_dict dec) (cs_operations c)))"
  "map_of (changeset_fields sha dec c) ''verification_commands'' = Some (JList (map JStr (cs_verification_commands c)))"
  "map_of (changeset_fields sha dec c) ''changeset_id'' = Some (JStr (changeset_id sha dec c))"
  by (simp_all add: changeset_fields_def changeset_identity_def)

lemma wf_changeset_fields: "wf_json (JObj (changeset_fields sha dec c))"
  by (auto simp: changeset_fields_def changeset_identity_def)

lemma emap_JStr:
  "(\<forall>p \<in> set ps. strip p \<noteq> []) \<Longrightarrow> emap (\<lambda>p. cs_text p e) (map JStr ps) = Inr ps"
  by (induction ps) simp_all

lemma emap_operations:
  assumes "\<forall>c \<in> set ops. op_wf sha c"
  shows "emap (operation_from_dict sha) (map (\<lambda>c. norm_json (operation_to_dict dec c)) ops) =
    Inr (map printed_operation ops)"
  using assms by (induction ops) (simp_all add: operation_from_dict_norm operation_back)

lemma allowed_not_blank:
  assumes "make_changeset c = Inr c"
  shows "\<forall>p \<in> set (cs_allowed_paths c). strip p \<noteq> []" "cs_allowed_paths c \<noteq> []"
  using make_changeset_Inr [OF assms] by (fastforce simp: list_ex_iff sorted_set_def)+

text \<open>
  A dictionary that reads like the printed one, up to the order \<open>json.dumps\<close> gives the members of
  nested objects, is read back as the changeset.
\<close>

lemma changeset_back:
  assumes wf: "changeset_wf sha c" and get: "\<And>k. map_of kvs k = map_option norm_json (map_of (changeset_fields sha dec c) k)"
  shows "changeset_from_dict sha dec (JObj kvs) = Inr (printed_changeset c)"
proof -
  have mk: "make_changeset c = Inr c" and ops: "\<forall>c \<in> set (cs_operations c). op_wf sha c"
    and t: "\<forall>t \<in> set (changeset_texts c). strip t \<noteq> []"
    using wf by (simp_all add: changeset_wf_def)
  have strs: "map norm_json (map JStr ss) = map JStr ss" for ss by simp
  have whole: "\<lparr>cs_repository = cs_repository c, cs_base_generation = cs_base_generation c,
      cs_overlay_generation = cs_overlay_generation c, cs_attempt = cs_attempt c,
      cs_worktree_id = cs_worktree_id c, cs_lease_id = cs_lease_id c, cs_fencing_token = cs_fencing_token c,
      cs_allowed_paths = cs_allowed_paths c, cs_operations = map printed_operation (cs_operations c),
      cs_verification_commands = cs_verification_commands c\<rparr> = printed_changeset c"
    by (simp add: printed_changeset_def)
  show ?thesis
    unfolding changeset_from_dict_def json.case
    using t allowed_not_blank [OF mk]
    by (simp add: jval_def get changeset_fields_get json_list_def comp_def emap_operations [OF ops]
        emap_JStr changeset_texts_def whole make_printed_changeset [OF mk])
qed

section \<open>Everything read is well formed\<close>

lemma ebindE: "ebind m f = Inr y \<Longrightarrow> (\<And>x. m = Inr x \<Longrightarrow> f x = Inr y \<Longrightarrow> P) \<Longrightarrow> P"
  by (auto simp: ebind_Inr)

lemma emap_fixed: "emap f xs = Inr ys \<Longrightarrow> (\<And>x y. f x = Inr y \<Longrightarrow> f y = Inr y) \<Longrightarrow> y \<in> set ys \<Longrightarrow> f y = Inr y"
  by (induction xs arbitrary: ys) (auto simp: ebind_Inr)

lemma emap_text: "emap (\<lambda>p. cs_text p e) vs = Inr ts \<Longrightarrow> t \<in> set ts \<Longrightarrow> strip t \<noteq> []"
  by (induction vs arbitrary: ts) (auto simp: ebind_Inr cs_text_Inr)

lemma emap_wf: "emap (operation_from_dict sha) vs = Inr ops \<Longrightarrow> c \<in> set ops \<Longrightarrow> op_wf sha c"
  by (induction vs arbitrary: ops) (auto simp: ebind_Inr intro: operation_from_dict_wf)

lemma cs_path_blank: "cs_path v = Inr p \<Longrightarrow> strip v \<noteq> [] \<Longrightarrow> strip p \<noteq> []"
  using cs_path_Inr strip_slashes by blast

lemma emap_not_blank:
  "emap cs_path ps = Inr qs \<Longrightarrow> \<not> list_ex (\<lambda>p. strip p = []) ps \<Longrightarrow> q \<in> set qs \<Longrightarrow> strip q \<noteq> []"
  by (induction ps arbitrary: qs) (auto simp: ebind_Inr dest: cs_path_blank)

lemma make_changeset_again:
  assumes "make_changeset c = Inr d"
  shows "make_changeset d = Inr d"
proof -
  from make_changeset_Inr [OF assms] obtain u paths where c: "cs_repository c \<noteq> []" "cs_base_generation c \<noteq> []"
      "cs_overlay_generation c \<noteq> []" "cs_attempt c \<noteq> []" "cs_worktree (cs_worktree_id c) = Inr u"
      "cs_lease_id c \<noteq> []" "cs_fencing_token c \<noteq> []"
      "\<not> list_ex (\<lambda>p. strip p = []) (cs_verification_commands c)" "cs_operations c \<noteq> []"
      "sorted_set paths \<noteq> []" "\<not> list_ex (\<lambda>p. p \<notin> set paths) (concat (map operation_paths (cs_operations c)))"
    and blank: "\<not> list_ex (\<lambda>p. strip p = []) (cs_allowed_paths c)"
    and paths: "emap cs_path (cs_allowed_paths c) = Inr paths" and d: "d = c\<lparr>cs_allowed_paths := sorted_set paths\<rparr>"
    by blast
  have "cs_path p = Inr p" if "p \<in> set (sorted_set paths)" for p
    using emap_fixed [OF paths cs_path_again] that by simp
  then have "emap cs_path (sorted_set paths) = Inr (sorted_set paths)"
    using emap_all [of "sorted_set paths" cs_path "\<lambda>p. p"] by simp
  moreover have "\<not> list_ex (\<lambda>p. strip p = []) (sorted_set paths)"
    using emap_not_blank [OF paths blank] by (auto simp: list_ex_iff)
  moreover have "sorted_set (sorted_set paths) = sorted_set paths"
    by (rule sorted_set_cong [THEN trans, OF _ refl]) simp
  ultimately show ?thesis using c by (simp add: d make_changeset_def)
qed

lemma changeset_from_dict_wf:
  assumes "changeset_from_dict sha dec v = Inr c"
  shows "changeset_wf sha c"
proof -
  obtain kvs where v: "v = JObj kvs"
    using assms by (auto simp: changeset_from_dict_def split: json.splits)
  have "jval kvs ''schema'' = JStr CHANGESET_SCHEMA"
    using assms by (rule contrapos_pp) (simp add: v changeset_from_dict_def)
  note body = assms [unfolded v changeset_from_dict_def json.case this, simplified simp_thms if_False]
  from body show ?thesis
  proof (elim ebindE, goal_cases)
    case (1 raw ops raw_allowed allowed repository base overlay attempt worktree lease fence raw_commands commands d)
    then have c: "make_changeset \<lparr>cs_repository = repository, cs_base_generation = base,
        cs_overlay_generation = overlay, cs_attempt = attempt, cs_worktree_id = worktree, cs_lease_id = lease,
        cs_fencing_token = fence, cs_allowed_paths = allowed, cs_operations = ops,
        cs_verification_commands = commands\<rparr> = Inr c" (is "make_changeset ?b = _")
      by (simp split: if_split_asm)
    have texts: "\<forall>t \<in> set [repository, base, overlay, attempt, worktree, lease, fence]. strip t \<noteq> []"
      using 1 by (simp add: cs_text_Inr)
    obtain paths where d: "c = ?b\<lparr>cs_allowed_paths := paths\<rparr>" using make_changeset_Inr [OF c] by blast
    have "\<forall>p \<in> set ops. op_wf sha p" using emap_wf [OF 1(2)] by blast
    moreover have "\<forall>t \<in> set commands. strip t \<noteq> []" using emap_text [OF 1(13)] by blast
    moreover note make_changeset_again [OF c] texts
    ultimately show ?case by (simp add: changeset_wf_def changeset_texts_def d)
  qed
qed

lemma changeset_of_parts_wf:
  "changeset_of_parts sha dec m n body = Inr c \<Longrightarrow> changeset_wf sha c"
  by (auto simp: changeset_of_parts_def ebind_Inr split: option.splits if_splits json.splits
        dest: changeset_from_dict_wf)

lemma decode_binary_wf: "decode_binary sha dec payload = Inr c \<Longrightarrow> changeset_wf sha c"
  by (auto simp: decode_binary_def Let_def split: if_splits intro: changeset_of_parts_wf)

section \<open>Decoding undoes encoding\<close>

lemma unpack_framed_record:
  assumes "length (sha p) = 32" "fits32 (length p)"
  shows "be_nat (slice 0 4 (framed_record sha p @ r)) = length p"
    "slice 4 (4 + length p) (framed_record sha p @ r) = p"
    "slice (4 + length p) (36 + length p) (framed_record sha p @ r) = sha p"
    "drop (36 + length p) (framed_record sha p @ r) = r"
    "length (framed_record sha p) = 36 + length p"
  using assms by (simp_all add: framed_record_def slice_def be_nat_be_bytes fits32_def del: slice_append_left)

lemma read_framed_records:
  assumes sha: "\<And>b. length (sha b) = 32"
  shows "list_all (\<lambda>p. fits32 (length p)) ps \<Longrightarrow> (\<And>p. p \<in> set ps \<Longrightarrow> loads (decode p) = Some (f p)) \<Longrightarrow>
    read_records sha (length ps) (concat (map (framed_record sha) ps) @ r) = Inr (map f ps, r)"
proof (induction ps)
  case (Cons p ps)
  then have "fits32 (length p)" by simp
  note u = unpack_framed_record [OF sha this]
  show ?case using Cons by (simp add: u Let_def del: slice_append_left)
qed simp

lemma unpack_changeset_header:
  assumes "fits32 m" "fits32 n" "fits32 s" "length d = 32"
  defines "h \<equiv> pack_changeset_header m n s d"
  shows "length h = changeset_header_size" "slice 0 8 (h @ r) = CHANGESET_MAGIC" "slice 8 9 (h @ r) = [1]"
    "slice 9 10 (h @ r) = [0]" "be_nat (slice 10 14 (h @ r)) = m" "be_nat (slice 14 18 (h @ r)) = n"
    "be_nat (slice 18 22 (h @ r)) = s" "slice 22 54 (h @ r) = d"
proof -
  have magic: "length CHANGESET_MAGIC = 8" by (simp add: CHANGESET_MAGIC_def)
  have n: "numeral k = Suc (pred_numeral k)" for k by (rule numeral_eq_Suc)
  show "length h = changeset_header_size"
    by (simp add: h_def pack_changeset_header_def magic changeset_header_size_def assms(4))
  show "slice 0 8 (h @ r) = CHANGESET_MAGIC" "slice 8 9 (h @ r) = [1]" "slice 9 10 (h @ r) = [0]"
    "be_nat (slice 10 14 (h @ r)) = m" "be_nat (slice 14 18 (h @ r)) = n"
    "be_nat (slice 18 22 (h @ r)) = s" "slice 22 54 (h @ r) = d"
    using assms(1-4) by (simp_all add: h_def pack_changeset_header_def slice_def magic be_nat_be_bytes fits32_def)
qed

lemma changeset_of_parts_printed:
  assumes sha: "\<And>b. length (sha b) = 32" and wf: "changeset_wf sha c"
    and fits: "list_all (\<lambda>p. fits32 (length p)) (map (operation_payload dec) (cs_operations c))"
  shows "changeset_of_parts sha dec (canonical (changeset_to_dict sha dec c))
      (length (map (operation_payload dec) (cs_operations c)))
      (concat (map (framed_record sha) (map (operation_payload dec) (cs_operations c)))) =
    Inr (printed_changeset c)"
proof -
  let ?ops = "map (operation_to_dict dec) (cs_operations c)"
  have fields: "changeset_to_dict sha dec c = JObj (changeset_fields sha dec c)"
    by (simp add: changeset_to_dict_def changeset_fields_def)
  obtain kvs where kvs: "norm_json (JObj (changeset_fields sha dec c)) = JObj kvs" by simp
  have reads: "same_reads kvs (changeset_fields sha dec c)"
    using wf_changeset_fields kvs by (rule same_reads_norm)
  have metadata: "loads (decode (canonical (changeset_to_dict sha dec c))) = Some (JObj kvs)"
    using loads_dumps [OF wf_changeset_fields [of sha dec c]] kvs by (simp add: fields canonical_def)
  have "loads (decode (operation_payload dec p)) = Some (norm_json (operation_to_dict dec p))" for p
    by (simp add: operation_payload_def canonical_def loads_dumps)
  then have payloads: "\<And>p. p \<in> set (map (operation_payload dec) (cs_operations c)) \<Longrightarrow>
      loads (decode p) = Some (the (loads (decode p)))" by auto
  have "map (\<lambda>p. the (loads (decode p))) (map (operation_payload dec) (cs_operations c)) = map norm_json ?ops"
    by (simp add: operation_payload_def canonical_def loads_dumps)
  with read_framed_records [where r = "[]", OF sha fits payloads]
  have records: "read_records sha (length (map (operation_payload dec) (cs_operations c)))
      (concat (map (framed_record sha) (map (operation_payload dec) (cs_operations c)))) = Inr (map norm_json ?ops, [])"
    by (simp only: append_Nil2)
  have "map_of (dput ''operations'' (JList (map norm_json ?ops)) kvs) k =
      map_option norm_json (map_of (changeset_fields sha dec c) k)" for k
    using same_readsD(1) [OF reads, of k] changeset_fields_get(10) [of sha dec c]
    by (cases "k = ''operations''") (simp_all add: map_of_dput)
  from changeset_back [OF wf this] metadata records show ?thesis
    by (simp add: changeset_of_parts_def)
qed

lemma decode_encode_changeset:
  assumes sha: "\<And>b. length (sha b) = 32" and wf: "changeset_wf sha c"
    and enc: "encode_changeset sha dec c = Inr payload"
  shows "decode_binary sha dec payload = Inr (printed_changeset c)"
proof -
  let ?metadata = "canonical (changeset_to_dict sha dec c)"
  let ?payloads = "map (operation_payload dec) (cs_operations c)"
  let ?records = "concat (map (framed_record sha) ?payloads)"
  let ?digest = "sha (?metadata @ ?records)"
  from enc have fits: "fits32 (length ?metadata)" "fits32 (length ?payloads)" "fits32 (length ?records)"
      "list_all (\<lambda>p. fits32 (length p)) ?payloads"
    and payload: "payload = pack_changeset_header (length ?metadata) (length ?payloads) (length ?records) ?digest @
      ?metadata @ ?records" (is "_ = ?header @ _")
    by (simp_all add: encode_changeset_def Let_def split: if_split_asm)
  note size = unpack_changeset_header(1) [OF fits(1-3), where d = ?digest, OF sha]
  note u = unpack_changeset_header(2-8) [OF fits(1-3), where d = ?digest and r = "?metadata @ ?records", OF sha]
  have parts: "slice changeset_header_size (changeset_header_size + length ?metadata) payload = ?metadata"
      "slice (changeset_header_size + length ?metadata)
         (changeset_header_size + length ?metadata + length ?records) payload = ?records"
      "length payload = changeset_header_size + length ?metadata + length ?records"
    using slice_middle [of ?header ?metadata] slice_middle [of "?header @ ?metadata" ?records "[]"] size
    by (simp_all add: payload)
  have "decode_binary sha dec payload = changeset_of_parts sha dec ?metadata (length ?payloads) ?records"
    using size u parts unfolding payload by (simp add: decode_binary_def Let_def del: length_map)
  with changeset_of_parts_printed [OF sha wf fits(4)] show ?thesis by simp
qed

text \<open>C34: Sealing round-trips, for encodings Python knows.  Encoding a well-formed changeset fails only when a length
  does not fit the 32-bit fields; otherwise decoding the bytes gives a changeset with the same changeset id and
  bytes: the changeset itself, except that an operation without a line map loses a line map digest it
  carried, which is never printed.\<close>

theorem sealed_changeset_decodes:
  assumes sha: "\<And>b. length (sha b) = 32" and wf: "changeset_wf sha c"
  shows "case encode_changeset sha dec c of
      Inl err \<Rightarrow> err = Struct_error
    | Inr payload \<Rightarrow>
        (\<exists>d. decode_binary sha dec payload = Inr d \<and> d = printed_changeset c \<and>
           ((\<forall>p \<in> set (cs_operations c). co_line_map p = None \<longrightarrow> co_line_map_sha256 p = None) \<longrightarrow> d = c) \<and>
           changeset_id sha dec d = changeset_id sha dec c \<and> encode_changeset sha dec d = Inr payload)"
proof (cases "encode_changeset sha dec c")
  case (Inr payload)
  have "printed_changeset c = c"
    if "\<forall>p \<in> set (cs_operations c). co_line_map p = None \<longrightarrow> co_line_map_sha256 p = None"
  proof -
    have "map printed_operation (cs_operations c) = cs_operations c"
      using that by (intro map_idI) (simp add: printed_operation_def)
    then show ?thesis by (simp add: printed_changeset_def)
  qed
  with decode_encode_changeset [OF sha wf Inr] Inr show ?thesis
    by (simp add: encode_printed_changeset)
qed (simp add: encode_changeset_def Let_def split: if_split_asm)

definition const_sha :: "bytes \<Rightarrow> bytes" where
  "const_sha b = replicate 32 0xAA"

definition utf8_codec :: codec where
  "utf8_codec e b = (if e = ''utf-8'' then Some (decode b) else None)"

lemma sample_wf: "changeset_wf const_sha (sample_changeset\<lparr>cs_allowed_paths := [''a/b'']\<rparr>)"
proof -
  have "op_wf const_sha sample_delete"
  proof -
    have "co_op sample_delete \<in> set OP_TYPES" "\<forall>p \<in> set (operation_paths sample_delete). cs_path p = Inr p \<and> strip p \<noteq> []"
      "cs_sha (jopt (co_before sample_delete)) = Inr (co_before sample_delete)"
      "cs_sha (jopt (co_after sample_delete)) = Inr (co_after sample_delete)" "check_operation sample_delete = None"
      by code_simp+
    then show ?thesis by (simp add: op_wf_def) (simp add: sample_delete_def)
  qed
  moreover have "\<forall>t \<in> set (changeset_texts (sample_changeset\<lparr>cs_allowed_paths := [''a/b'']\<rparr>)). strip t \<noteq> []"
    by code_simp
  ultimately show ?thesis
    using make_changeset_again [OF make_sample_changeset] by (simp add: changeset_wf_def sample_changeset_def)
qed

definition sealed_sample :: changeset where
  "sealed_sample = sample_changeset\<lparr>cs_allowed_paths := [''a/b'']\<rparr>"

lemma const_digest: "hexdigest const_sha b = replicate 64 (CHR ''a'')"
  by (simp add: hexdigest_def const_sha_def) code_simp

lemma fits32_small: "n \<le> 2000 \<Longrightarrow> fits32 n"
  by (simp add: fits32_def)

lemma sample_payload: "length (operation_payload utf8_codec sample_delete) \<le> 300"
proof -
  have "length (dumps (operation_to_dict utf8_codec sample_delete)) \<le> 300" by code_simp
  then show ?thesis by (simp add: operation_payload_def canonical_def)
qed

lemma sample_metadata: "length (canonical (changeset_to_dict const_sha utf8_codec sealed_sample)) \<le> 1000"
proof -
  have "length (dumps (JObj (changeset_identity utf8_codec sealed_sample @
      [(''changeset_id'', JStr (replicate 64 (CHR ''a'')))]))) \<le> 1000"
    by code_simp
  then show ?thesis by (simp add: changeset_to_dict_def changeset_id_def const_digest canonical_def)
qed

lemma sealed_sample_encodes: "\<exists>payload. encode_changeset const_sha utf8_codec sealed_sample = Inr payload"
proof -
  have "cs_operations sealed_sample = [sample_delete]"
    by (simp add: sealed_sample_def sample_changeset_def)
  moreover have "length (framed_record const_sha (operation_payload utf8_codec sample_delete)) \<le> 2000"
    using sample_payload by (simp add: framed_record_def const_sha_def)
  ultimately show ?thesis
    using fits32_small sample_payload sample_metadata by (simp add: encode_changeset_def Let_def)
qed

lemma printed_sealed_sample: "printed_changeset sealed_sample = sealed_sample"
  by (simp add: printed_changeset_def printed_operation_def sealed_sample_def sample_delete_def sample_changeset_def)

theorem sealed_changeset_decodes_witness:
  "\<exists>payload. encode_changeset const_sha utf8_codec sealed_sample = Inr payload \<and>
     decode_binary const_sha utf8_codec payload = Inr sealed_sample"
proof -
  obtain payload where "encode_changeset const_sha utf8_codec sealed_sample = Inr payload"
    using sealed_sample_encodes by blast
  moreover have "length (const_sha b) = 32" for b by (simp add: const_sha_def)
  ultimately show ?thesis
    using sealed_changeset_decodes [OF _ sample_wf [folded sealed_sample_def], of utf8_codec] printed_sealed_sample
    by simp
qed

text \<open>C35: Nothing malformed gets past the decoder: whatever bytes it accepts, the changeset passes every
  constructor check again unchanged, its texts are not blank, and each of its operations is accepted
  again from its own printed form.\<close>

theorem decoded_changeset_is_well_formed:
  assumes "decode_binary sha dec payload = Inr c"
  shows "changeset_wf sha c \<and>
    map (\<lambda>p. operation_from_dict sha (operation_to_dict dec p)) (cs_operations c) =
      map (\<lambda>p. Inr (printed_operation p)) (cs_operations c)"
  using decode_binary_wf [OF assms] operation_back by (simp add: changeset_wf_def)

theorem decoded_changeset_is_well_formed_witness:
  "\<exists>payload. decode_binary const_sha utf8_codec payload = Inr sealed_sample \<and> changeset_wf const_sha sealed_sample"
proof -
  obtain payload where "decode_binary const_sha utf8_codec payload = Inr sealed_sample"
    using sealed_sample_encodes decode_encode_changeset [OF _ sample_wf [folded sealed_sample_def]]
    by (metis const_sha_def length_replicate printed_sealed_sample)
  with decoded_changeset_is_well_formed [OF this] show ?thesis by blast
qed

end
