(* ===== verification/ChangeValidate.thy ===== *)
theory ChangeValidate
  imports ChangeCodec
begin

text \<open>
  Validation of a changeset against a worktree (\<open>validate\<close>, \<open>_replace\<close>, \<open>_matches_hash\<close>,
  \<open>_safe_path\<close> of \<open>binary_changeset.py\<close>).  The worktree is what the file system answers: the contents
  of a path, \<open>None\<close> when there is no such file, and which prefixes of a path are symbolic links.  The
  codecs are parameters: \<open>dec e b\<close> and \<open>enc e t\<close> are \<open>None\<close> when Python raises a Unicode error.
\<close>

record worktree =
  wt_root :: string
  wt_read :: "string \<Rightarrow> bytes option"
  wt_symlink :: "string list \<Rightarrow> bool"

type_synonym encoder = "string \<Rightarrow> string \<Rightarrow> bytes option"

section \<open>Digests up to line ends\<close>

definition CRLF :: string where
  "CRLF = [CHR 0x0D, CHR 0x0A]"

definition LF :: string where
  "LF = [CHR 0x0A]"

text \<open>\<open>text.replace("\r\n", "\n").replace("\r", "\n")\<close>.\<close>

fun crlf_to_lf :: "string \<Rightarrow> string" where
  "crlf_to_lf (c # d # s) =
     (if c = CHR 0x0D \<and> d = CHR 0x0A then CHR 0x0A # crlf_to_lf s else c # crlf_to_lf (d # s))"
| "crlf_to_lf s = s"

definition unix_newlines :: "string \<Rightarrow> string" where
  "unix_newlines s = map (\<lambda>c. if c = CHR 0x0D then CHR 0x0A else c) (crlf_to_lf s)"

definition normalized_sha :: "(bytes \<Rightarrow> bytes) \<Rightarrow> codec \<Rightarrow> bytes \<Rightarrow> string" where
  "normalized_sha sha dec data =
     (case dec ''utf-8'' data of
        None \<Rightarrow> hexdigest sha data
      | Some t \<Rightarrow> hexdigest sha (encode (unix_newlines t)))"

definition matches_hash :: "(bytes \<Rightarrow> bytes) \<Rightarrow> codec \<Rightarrow> bytes \<Rightarrow> string option \<Rightarrow> bool" where
  "matches_hash sha dec data expected \<longleftrightarrow>
     (case expected of None \<Rightarrow> False | Some e \<Rightarrow> e = hexdigest sha data \<or> e = normalized_sha sha dec data)"

section \<open>Replacing a range of lines\<close>

text \<open>The length of the line boundary \<open>str.splitlines\<close> sees at the front of a text, in UTF-8 units.\<close>

definition boundary :: "string \<Rightarrow> nat" where
  "boundary s =
     (if take 2 s = CRLF then 2
      else if s \<noteq> [] \<and> hd s \<in> {CHR 0x0A, CHR 0x0D, CHR 0x0B, CHR 0x0C, CHR 0x1C, CHR 0x1D, CHR 0x1E} then 1
      else if take 2 s = [CHR 0xC2, CHR 0x85] then 2
      else if take 3 s = [CHR 0xE2, CHR 0x80, CHR 0xA8] \<or> take 3 s = [CHR 0xE2, CHR 0x80, CHR 0xA9] then 3
      else 0)"

text \<open>\<open>text.splitlines(keepends=True)\<close>.\<close>

function text_lines :: "string \<Rightarrow> string list" where
  "text_lines [] = []"
| "text_lines (c # s) =
     (if boundary (c # s) = 0
      then (case text_lines s of [] \<Rightarrow> [[c]] | l # ls \<Rightarrow> (c # l) # ls)
      else take (boundary (c # s)) (c # s) # text_lines (drop (boundary (c # s)) (c # s)))"
  by pat_completeness auto

termination
  by (relation "measure length") auto

declare text_lines.simps(2) [simp del]

definition ends_newline :: "string \<Rightarrow> bool" where
  "ends_newline s \<longleftrightarrow> s \<noteq> [] \<and> last s \<in> {CHR 0x0A, CHR 0x0D}"

definition fitted_replacement :: "string \<Rightarrow> string \<Rightarrow> string \<Rightarrow> string" where
  "fitted_replacement text last_line replacement =
     (let newline = (if has_sub CRLF text then CRLF else LF);
          closed = (if replacement \<noteq> [] \<and> \<not> ends_newline replacement \<and> ends_newline last_line
                    then replacement @ newline else replacement)
      in concat (map (\<lambda>c. if c = CHR 0x0A then newline else [c]) (unix_newlines closed)))"

definition replace_range ::
  "codec \<Rightarrow> encoder \<Rightarrow> bytes \<Rightarrow> change_operation \<Rightarrow> change_error + bytes" where
  "replace_range dec enc current c =
     (case (co_encoding c, co_line_map c) of
        (Some e, Some (start, stop)) \<Rightarrow>
          (case (dec e current, dec e (case operation_content c of None \<Rightarrow> [] | Some b \<Rightarrow> b)) of
             (Some text, Some replacement) \<Rightarrow>
               (let lines = text_lines text in
                if stop > int (length lines) then Inl Line_map_out_of_range
                else
                  (let fitted = fitted_replacement text (lines ! nat (stop - 1)) replacement in
                   case enc e (concat (take (nat (start - 1)) lines @ [fitted] @ drop (nat stop) lines)) of
                     None \<Rightarrow> Inl Unicode_encode_error
                   | Some b \<Rightarrow> Inr b))
           | _ \<Rightarrow> Inl Encoding_mismatch)
      | _ \<Rightarrow> Inl Line_map_required)"

section \<open>Validation\<close>

datatype op_status = Ready | Idempotent

type_synonym overlay = "(string, bytes option) dict"

definition current_content :: "worktree \<Rightarrow> overlay \<Rightarrow> string \<Rightarrow> bytes option" where
  "current_content W st p = (case map_of st p of None \<Rightarrow> wt_read W p | Some d \<Rightarrow> d)"

definition path_symlink :: "worktree \<Rightarrow> string \<Rightarrow> bool" where
  "path_symlink W p \<longleftrightarrow>
     list_ex (\<lambda>n. wt_symlink W (take (Suc n) (path_parts p))) [0..<length (path_parts p)]"

definition safe_path :: "worktree \<Rightarrow> string \<Rightarrow> change_error + string" where
  "safe_path W p = (if path_symlink W p then Inl Path_symlink else Inr p)"

definition op_dest :: "change_operation \<Rightarrow> string" where
  "op_dest c = (case co_dest c of None \<Rightarrow> [] | Some d \<Rightarrow> d)"

text \<open>One turn of the loop: the status of an operation and the overlay it leaves.\<close>

definition validate_op ::
  "(bytes \<Rightarrow> bytes) \<Rightarrow> codec \<Rightarrow> encoder \<Rightarrow> worktree \<Rightarrow> overlay \<Rightarrow> change_operation \<Rightarrow>
     change_error + op_status \<times> overlay" where
  "validate_op sha dec enc W st c =
     (let current = current_content W st (co_path c) in
      if co_op c = ''create'' then
        (case current of
           None \<Rightarrow> Inr (Ready, dput (co_path c) (operation_content c) st)
         | Some d \<Rightarrow> if matches_hash sha dec d (co_after c) then Inr (Idempotent, st) else Inl Target_exists)
      else if co_op c = ''replace-range'' then
        (case current of
           None \<Rightarrow> Inl Source_missing
         | Some d \<Rightarrow>
             if matches_hash sha dec d (co_after c) then Inr (Idempotent, st)
             else if \<not> matches_hash sha dec d (co_before c) then Inl Stale_source
             else ebind (replace_range dec enc d c) (\<lambda>updated.
               if \<not> matches_hash sha dec updated (co_after c) then Inl After_hash_mismatch
               else Inr (Ready, dput (co_path c) (Some updated) st)))
      else if co_op c = ''rename'' then
        (case current of
           None \<Rightarrow>
             (case current_content W st (op_dest c) of
                Some d \<Rightarrow> if matches_hash sha dec d (co_after c) then Inr (Idempotent, st) else Inl Source_missing
              | None \<Rightarrow> Inl Source_missing)
         | Some d \<Rightarrow>
             if \<not> matches_hash sha dec d (co_before c) then Inl Stale_source
             else if current_content W st (op_dest c) \<noteq> None then Inl Rename_destination_exists
             else Inr (Ready, dput (co_path c) None (dput (op_dest c) (Some d) st)))
      else
        (case current of
           None \<Rightarrow> Inr (Idempotent, st)
         | Some d \<Rightarrow>
             if \<not> matches_hash sha dec d (co_before c) then Inl Stale_source
             else Inr (Ready, dput (co_path c) None st)))"

fun validate_ops ::
  "(bytes \<Rightarrow> bytes) \<Rightarrow> codec \<Rightarrow> encoder \<Rightarrow> worktree \<Rightarrow> overlay \<Rightarrow> change_operation list \<Rightarrow>
     change_error + op_status list \<times> overlay" where
  "validate_ops sha dec enc W st [] = Inr ([], st)"
| "validate_ops sha dec enc W st (c # cs) =
     ebind (validate_op sha dec enc W st c) (\<lambda>(s, st1).
       ebind (validate_ops sha dec enc W st1 cs) (\<lambda>(ss, st2). Inr (s # ss, st2)))"

definition validate_changeset ::
  "(bytes \<Rightarrow> bytes) \<Rightarrow> codec \<Rightarrow> encoder \<Rightarrow> worktree \<Rightarrow> string option \<Rightarrow> string option \<Rightarrow> changeset \<Rightarrow>
     change_error + op_status list" where
  "validate_changeset sha dec enc W lease fence c =
     (if cs_repository c \<noteq> wt_root W then Inl Repository_mismatch
      else if lease \<noteq> None \<and> lease \<noteq> Some (cs_lease_id c) then Inl Lease_mismatch
      else if fence \<noteq> None \<and> fence \<noteq> Some (cs_fencing_token c) then Inl Fence_mismatch
      else
        ebind (emap (safe_path W) (concat (map operation_paths (cs_operations c)))) (\<lambda>_.
          ebind (validate_ops sha dec enc W [] (cs_operations c)) (\<lambda>(ss, _). Inr ss)))"

definition status_name :: "op_status \<Rightarrow> string" where
  "status_name s = (case s of Ready \<Rightarrow> ''ready'' | Idempotent \<Rightarrow> ''idempotent'')"

definition all_idempotent :: "op_status list \<Rightarrow> bool" where
  "all_idempotent ss = list_all (\<lambda>s. s = Idempotent) ss"

definition validation_report ::
  "(bytes \<Rightarrow> bytes) \<Rightarrow> codec \<Rightarrow> changeset \<Rightarrow> op_status list \<Rightarrow> json" where
  "validation_report sha dec c ss =
     JObj [(''schema'', JStr ''simplicio.fast.binary-changeset-validation/v1''),
       (''changeset_id'', JStr (changeset_id sha dec c)), (''status'', JStr ''valid''),
       (''operations'', JList (map2 (\<lambda>p s. JObj [(''path'', JStr (co_path p)), (''status'', JStr (status_name s))])
          (cs_operations c) ss)),
       (''idempotent'', JBool (all_idempotent ss))]"

section \<open>The overlay implements the repository after the ready operations\<close>

text \<open>The abstract repository is a function from paths to contents; an operation is one update of it.\<close>

type_synonym repository = "string \<Rightarrow> bytes option"

definition apply_operation :: "codec \<Rightarrow> encoder \<Rightarrow> change_operation \<Rightarrow> repository \<Rightarrow> repository" where
  "apply_operation dec enc c R =
     (if co_op c = ''create'' then R(co_path c := operation_content c)
      else if co_op c = ''replace-range'' then
        (case R (co_path c) of
           None \<Rightarrow> R
         | Some d \<Rightarrow> (case replace_range dec enc d c of Inl _ \<Rightarrow> R | Inr b \<Rightarrow> R(co_path c \<mapsto> b)))
      else if co_op c = ''rename'' then R(op_dest c := R (co_path c), co_path c := None)
      else R(co_path c := None))"

fun apply_ready ::
  "codec \<Rightarrow> encoder \<Rightarrow> change_operation list \<Rightarrow> op_status list \<Rightarrow> repository \<Rightarrow> repository" where
  "apply_ready dec enc (c # cs) (s # ss) R =
     apply_ready dec enc cs ss (if s = Ready then apply_operation dec enc c R else R)"
| "apply_ready dec enc _ _ R = R"

lemma current_content_dput [simp]:
  "current_content W (dput p d st) = (current_content W st)(p := d)"
  by (rule ext) (simp add: current_content_def map_of_dput)

lemma current_content_Nil [simp]: "current_content W [] = wt_read W"
  by (rule ext) (simp add: current_content_def)

lemma validate_op_step:
  "validate_op sha dec enc W st c = Inr (s, st') \<Longrightarrow>
     current_content W st' =
       (if s = Ready then apply_operation dec enc c (current_content W st) else current_content W st)"
  by (auto simp: validate_op_def apply_operation_def Let_def ebind_Inr split: if_splits option.splits)

lemma validate_ops_steps:
  "validate_ops sha dec enc W st cs = Inr (ss, st') \<Longrightarrow>
     length ss = length cs \<and>
     current_content W st' = apply_ready dec enc cs ss (current_content W st)"
proof (induction cs arbitrary: st ss)
  case (Cons c cs)
  then obtain s st1 ss1 where "validate_op sha dec enc W st c = Inr (s, st1)"
      "validate_ops sha dec enc W st1 cs = Inr (ss1, st')" "ss = s # ss1"
    by (auto simp: ebind_Inr)
  with Cons.IH validate_op_step show ?case by fastforce
qed simp

section \<open>Validating again after the operations were applied\<close>

definition changed_paths :: "change_operation list \<Rightarrow> string list" where
  "changed_paths cs = concat (map operation_paths cs)"

lemma apply_operation_other:
  "p \<notin> set (operation_paths c) \<Longrightarrow> co_op c = ''rename'' \<longrightarrow> co_dest c \<noteq> None \<Longrightarrow>
     apply_operation dec enc c R p = R p"
  by (auto simp: apply_operation_def operation_paths_def op_dest_def split: option.splits sum.splits)

lemma validate_op_other:
  assumes "validate_op sha dec enc W st c = Inr (s, st')" "p \<notin> set (operation_paths c)" "check_operation c = None"
  shows "current_content W st' p = current_content W st p"
proof -
  have "co_op c = ''rename'' \<longrightarrow> co_dest c \<noteq> None"
    using assms(3) by (auto simp: check_operation_def split: if_splits)
  with validate_op_step [OF assms(1)] apply_operation_other [OF assms(2)] show ?thesis by simp
qed

lemma validate_ops_other:
  "validate_ops sha dec enc W st cs = Inr (ss, st') \<Longrightarrow> p \<notin> set (changed_paths cs) \<Longrightarrow>
     \<forall>c \<in> set cs. check_operation c = None \<Longrightarrow> current_content W st' p = current_content W st p"
proof (induction cs arbitrary: st ss)
  case (Cons c cs)
  then obtain s st1 ss1 where c: "validate_op sha dec enc W st c = Inr (s, st1)"
      "validate_ops sha dec enc W st1 cs = Inr (ss1, st')"
    by (auto simp: ebind_Inr)
  with Cons have "current_content W st' p = current_content W st1 p"
    by (auto simp: changed_paths_def)
  with validate_op_other [OF c(1)] Cons.prems show ?case by (simp add: changed_paths_def)
qed simp

text \<open>
  An operation keeps its promise when applying it gives content with the digest it names afterwards;
  \<open>validate\<close> checks that of a replacement only.
\<close>

definition honest :: "(bytes \<Rightarrow> bytes) \<Rightarrow> codec \<Rightarrow> change_operation \<Rightarrow> bool" where
  "honest sha dec c \<longleftrightarrow>
     (co_op c = ''create'' \<longrightarrow>
        (case operation_content c of None \<Rightarrow> False | Some d \<Rightarrow> matches_hash sha dec d (co_after c))) \<and>
     (co_op c = ''rename'' \<longrightarrow> co_after c = co_before c)"

lemma validate_op_again:
  assumes ok: "validate_op sha dec enc W st c = Inr (s, st')" and "check_operation c = None"
    and "honest sha dec c" and same: "\<forall>p \<in> set (operation_paths c). wt_read V p = current_content W st' p"
  shows "validate_op sha dec enc V [] c = Inr (Idempotent, [])"
proof -
  have "wt_read V (co_path c) = current_content W st' (co_path c)"
    using same by (simp add: operation_paths_def)
  moreover have "wt_read V (op_dest c) = current_content W st' (op_dest c)" "op_dest c \<noteq> co_path c"
    if "co_op c = ''rename''"
    using assms(2) same that by (auto simp: check_operation_def operation_paths_def op_dest_def split: if_splits)
  ultimately show ?thesis
    using ok assms(3)
    by (auto simp: validate_op_def honest_def Let_def ebind_Inr split: if_splits option.splits)
qed

lemma validate_ops_again:
  "validate_ops sha dec enc W st cs = Inr (ss, st') \<Longrightarrow>
     \<forall>c \<in> set cs. check_operation c = None \<and> honest sha dec c \<Longrightarrow> distinct (changed_paths cs) \<Longrightarrow>
     \<forall>p \<in> set (changed_paths cs). wt_read V p = current_content W st' p \<Longrightarrow>
     validate_ops sha dec enc V [] cs = Inr (map (\<lambda>_. Idempotent) cs, [])"
proof (induction cs arbitrary: st ss)
  case (Cons c cs)
  then obtain s st1 ss1 where c: "validate_op sha dec enc W st c = Inr (s, st1)"
      "validate_ops sha dec enc W st1 cs = Inr (ss1, st')"
    by (auto simp: ebind_Inr)
  have "current_content W st' p = current_content W st1 p" if "p \<in> set (operation_paths c)" for p
  proof -
    have "p \<notin> set (changed_paths cs)" using that Cons.prems(3) by (auto simp: changed_paths_def)
    with validate_ops_other [OF c(2)] Cons.prems(2) show ?thesis by simp
  qed
  with Cons.prems have "validate_op sha dec enc V [] c = Inr (Idempotent, [])"
    by (intro validate_op_again [OF c(1)]) (auto simp: changed_paths_def)
  moreover have "validate_ops sha dec enc V [] cs = Inr (map (\<lambda>_. Idempotent) cs, [])"
    using Cons.prems by (intro Cons.IH [OF c(2)]) (auto simp: changed_paths_def)
  ultimately show ?case by simp
qed simp

section \<open>What validation guarantees\<close>

lemma emap_safe_path: "emap (safe_path W) ps = Inr qs \<longleftrightarrow> qs = ps \<and> \<not> list_ex (path_symlink W) ps"
  by (induction ps arbitrary: qs) (auto simp: ebind_Inr safe_path_def)

lemma validate_changeset_Inr:
  "validate_changeset sha dec enc W lease fence c = Inr ss \<longleftrightarrow>
     cs_repository c = wt_root W \<and> (lease = None \<or> lease = Some (cs_lease_id c)) \<and>
     (fence = None \<or> fence = Some (cs_fencing_token c)) \<and>
     \<not> list_ex (path_symlink W) (changed_paths (cs_operations c)) \<and>
     (\<exists>st. validate_ops sha dec enc W [] (cs_operations c) = Inr (ss, st))"
  by (auto simp: validate_changeset_def ebind_Inr emap_safe_path changed_paths_def)

text \<open>C18: Validation simulates the repository.  When a changeset is valid, its overlay holds for every path
  exactly the content the repository would have after applying the ready operations in order (later
  operations see what earlier ones did), every operation gets a status, and no path of the changeset goes
  through a symbolic link.\<close>

theorem validation_simulates_the_repository:
  assumes "validate_changeset sha dec enc W lease fence c = Inr ss"
  shows "(\<exists>st. validate_ops sha dec enc W [] (cs_operations c) = Inr (ss, st) \<and>
      current_content W st = apply_ready dec enc (cs_operations c) ss (wt_read W)) \<and>
    length ss = length (cs_operations c) \<and>
    (\<forall>p \<in> set (changed_paths (cs_operations c)). \<not> path_symlink W p)"
proof -
  from assms obtain st where "validate_ops sha dec enc W [] (cs_operations c) = Inr (ss, st)"
      and links: "\<not> list_ex (path_symlink W) (changed_paths (cs_operations c))"
    unfolding validate_changeset_Inr by blast
  with validate_ops_steps [OF this(1)] show ?thesis by (auto simp: list_ex_iff)
qed

text \<open>C19: Applying an honest changeset is idempotent.  Take a valid changeset whose operations touch different
  files, whose creations name the digest of their own content and whose renames name one digest before and
  after: once the ready operations are applied, validating it again reports every operation as already done,
  whatever the first statuses were.  (A creation that names another digest locks itself out, see below.)\<close>

theorem applied_changeset_is_idempotent:
  assumes valid: "validate_changeset sha dec enc W lease fence c = Inr ss"
    and ops: "\<forall>p \<in> set (cs_operations c). check_operation p = None \<and> honest sha dec p"
    and apart: "distinct (changed_paths (cs_operations c))"
  shows "validate_changeset sha dec enc
      (W\<lparr>wt_read := apply_ready dec enc (cs_operations c) ss (wt_read W)\<rparr>) lease fence c =
    Inr (map (\<lambda>_. Idempotent) (cs_operations c))"
proof -
  from valid obtain st where st: "validate_ops sha dec enc W [] (cs_operations c) = Inr (ss, st)"
    unfolding validate_changeset_Inr by blast
  let ?V = "W\<lparr>wt_read := apply_ready dec enc (cs_operations c) ss (wt_read W)\<rparr>"
  have "wt_read ?V = current_content W st" using validate_ops_steps [OF st] by simp
  then have "validate_ops sha dec enc ?V [] (cs_operations c) = Inr (map (\<lambda>_. Idempotent) (cs_operations c), [])"
    by (intro validate_ops_again [OF st ops apart]) simp
  moreover have "path_symlink ?V = path_symlink W" by (rule ext) (simp add: path_symlink_def)
  ultimately show ?thesis using valid unfolding validate_changeset_Inr by auto
qed

text \<open>A creation is applied before its digest is looked at: with content that does not match the
  \<open>after_sha256\<close> it names, the first validation answers ready, and once the file is written every later
  validation of the same changeset fails because the target exists.\<close>

theorem mismatched_creation_locks_itself_out:
  assumes "validate_changeset sha dec enc W lease fence c = Inr ss" "cs_operations c = [p]"
    and "co_op p = ''create''" "operation_content p = Some d" "\<not> matches_hash sha dec d (co_after p)"
    and "wt_read W (co_path p) = None"
  shows "ss = [Ready] \<and>
    validate_changeset sha dec enc (W\<lparr>wt_read := apply_ready dec enc [p] ss (wt_read W)\<rparr>) lease fence c =
      Inl Target_exists"
proof -
  have ss: "ss = [Ready]"
    using assms by (auto simp: validate_changeset_Inr validate_op_def ebind_Inr)
  have "path_symlink (W\<lparr>wt_read := R\<rparr>) = path_symlink W" for R
    by (rule ext) (simp add: path_symlink_def)
  then have "safe_path (W\<lparr>wt_read := R\<rparr>) = safe_path W" for R
    by (intro ext) (simp add: safe_path_def)
  with ss assms show ?thesis
    by (auto simp: validate_changeset_def validate_op_def apply_operation_def ebind_Inr split: if_splits)
qed

section \<open>Examples\<close>

definition sample_digest :: string where
  "sample_digest = replicate 64 (CHR ''a'')"

definition sample_create :: "string \<Rightarrow> change_operation" where
  "sample_create digest = \<lparr>co_op = ''create'', co_path = ''new'', co_before = None, co_after = Some digest,
     co_dest = None, co_content_b64 = Some ''YQ=='', co_encoding = None, co_line_map = None,
     co_line_map_sha256 = None\<rparr>"

definition sample_rename :: change_operation where
  "sample_rename = \<lparr>co_op = ''rename'', co_path = ''old'', co_before = Some sample_digest,
     co_after = Some sample_digest, co_dest = Some ''kept'', co_content_b64 = None, co_encoding = None,
     co_line_map = None, co_line_map_sha256 = None\<rparr>"

definition sample_worktree :: worktree where
  "sample_worktree = \<lparr>wt_root = ''/r'', wt_read = (\<lambda>p. if p = ''old'' then Some [1] else None),
     wt_symlink = (\<lambda>_. False)\<rparr>"

definition sample_edit :: "string \<Rightarrow> changeset" where
  "sample_edit digest = sample_changeset\<lparr>cs_allowed_paths := [''kept'', ''new'', ''old''],
     cs_operations := [sample_create digest, sample_rename]\<rparr>"

definition ascii_encoder :: encoder where
  "ascii_encoder e t = Some (encode t)"

lemma sample_content: "operation_content (sample_create digest) = Some [97]"
proof -
  have "b64_decode ''YQ=='' = Some [97]" by code_simp
  then show ?thesis by (simp add: operation_content_def sample_create_def)
qed

lemma sample_matches [simp]: "matches_hash const_sha dec d (Some sample_digest)"
  by (simp add: matches_hash_def const_digest sample_digest_def)

lemma sample_mismatch: "\<not> matches_hash const_sha dec d (Some ''0'')"
proof -
  have "replicate 64 (CHR ''a'') \<noteq> ''0''" by code_simp
  then show ?thesis by (auto simp: matches_hash_def normalized_sha_def const_digest split: option.split)
qed

lemma sample_op_fields [simp]:
  "co_op (sample_create h) = ''create''" "co_path (sample_create h) = ''new''"
  "co_after (sample_create h) = Some h" "co_dest (sample_create h) = None"
  "co_content_b64 (sample_create h) = Some ''YQ==''" "co_op sample_rename = ''rename''"
  "co_path sample_rename = ''old''" "co_dest sample_rename = Some ''kept''"
  "co_before sample_rename = Some sample_digest" "co_after sample_rename = Some sample_digest"
  by (simp_all add: sample_create_def sample_rename_def)

lemma sample_edit_fields [simp]:
  "cs_operations (sample_edit h) = [sample_create h, sample_rename]" "cs_repository (sample_edit h) = ''/r''"
  by (simp_all add: sample_edit_def sample_changeset_def)

lemma sample_worktree_fields [simp]:
  "wt_root sample_worktree = ''/r''" "wt_read sample_worktree p = (if p = ''old'' then Some [1] else None)"
  "wt_symlink sample_worktree ps = False"
  by (simp_all add: sample_worktree_def)

lemma no_symlink: "\<not> list_ex (path_symlink sample_worktree) ps"
  by (simp add: path_symlink_def list_ex_iff)

lemma sample_edit_valid:
  "validate_changeset const_sha utf8_codec ascii_encoder sample_worktree None None (sample_edit sample_digest) =
     Inr [Ready, Ready]"
  by (simp add: validate_changeset_Inr no_symlink validate_op_def sample_content op_dest_def)

theorem validation_simulates_the_repository_witness:
  "\<exists>st. validate_ops const_sha utf8_codec ascii_encoder sample_worktree [] [sample_create sample_digest, sample_rename] =
      Inr ([Ready, Ready], st) \<and> current_content sample_worktree st ''kept'' = Some [1] \<and>
    current_content sample_worktree st ''old'' = None"
  using validation_simulates_the_repository [OF sample_edit_valid]
  by (auto simp: apply_operation_def op_dest_def)

theorem applied_changeset_is_idempotent_witness:
  "\<exists>R. R ''new'' = Some [97] \<and> R ''old'' = None \<and>
    validate_changeset const_sha utf8_codec ascii_encoder (sample_worktree\<lparr>wt_read := R\<rparr>) None None
      (sample_edit sample_digest) = Inr [Idempotent, Idempotent]"
proof -
  let ?ops = "[sample_create sample_digest, sample_rename]"
  let ?R = "apply_ready utf8_codec ascii_encoder ?ops [Ready, Ready] (wt_read sample_worktree)"
  have "\<forall>p \<in> set ?ops. check_operation p = None \<and> honest const_sha utf8_codec p" "distinct (changed_paths ?ops)"
    by (simp_all add: check_operation_def honest_def sample_content changed_paths_def operation_paths_def)
  with applied_changeset_is_idempotent [OF sample_edit_valid]
  have "validate_changeset const_sha utf8_codec ascii_encoder (sample_worktree\<lparr>wt_read := ?R\<rparr>) None None
      (sample_edit sample_digest) = Inr [Idempotent, Idempotent]"
    by simp
  moreover have "?R ''new'' = Some [97]" "?R ''old'' = None"
    by (simp_all add: apply_operation_def sample_content op_dest_def)
  ultimately show ?thesis by blast
qed

theorem mismatched_creation_locks_itself_out_witness:
  "\<exists>c R. cs_operations c = [sample_create ''0''] \<and>
    validate_changeset const_sha utf8_codec ascii_encoder sample_worktree None None c = Inr [Ready] \<and>
    validate_changeset const_sha utf8_codec ascii_encoder (sample_worktree\<lparr>wt_read := R\<rparr>) None None c =
      Inl Target_exists"
proof -
  let ?c = "sample_edit ''0''\<lparr>cs_operations := [sample_create ''0'']\<rparr>"
  have valid: "validate_changeset const_sha utf8_codec ascii_encoder sample_worktree None None ?c = Inr [Ready]"
    by (simp add: validate_changeset_Inr no_symlink validate_op_def)
  have "\<not> matches_hash const_sha utf8_codec [97] (co_after (sample_create ''0''))"
    using sample_mismatch by simp
  with mismatched_creation_locks_itself_out [OF valid, of "sample_create ''0''" "[97]"] valid show ?thesis
    by (intro exI [of _ ?c] exI) (auto simp: sample_content)
qed

end
