(* ===== verification/ChangePlan.thy ===== *)
theory ChangePlan
  imports ChangeValidate
begin

text \<open>
  The plan \<open>DevCliAdapter.materialize\<close> of \<open>binary_changeset.py\<close> hands to the Dev CLI: one mechanical edit per
  operation, read from the worktree again, with \<open>_selected_range\<close> and \<open>_replacement_text\<close>; and the proof
  that the text it sends for a replaced range is the text validation checked, up to line ends.
\<close>

section \<open>The plan for the Dev CLI\<close>

definition operation_encoding :: "change_operation \<Rightarrow> string" where
  "operation_encoding c =
     (case co_encoding c of None \<Rightarrow> ''utf-8'' | Some e \<Rightarrow> if e = [] then ''utf-8'' else e)"

definition operation_text :: "codec \<Rightarrow> change_operation \<Rightarrow> change_error + string" where
  "operation_text dec c =
     (case dec (operation_encoding c) (case operation_content c of None \<Rightarrow> [] | Some b \<Rightarrow> b) of
        None \<Rightarrow> Inl Unicode_decode_error | Some t \<Rightarrow> Inr t)"

definition range_text :: "string \<Rightarrow> int \<Rightarrow> int \<Rightarrow> string" where
  "range_text text start stop =
     concat (take (nat stop - nat (start - 1)) (drop (nat (start - 1)) (text_lines text)))"

definition selected_range :: "codec \<Rightarrow> encoder \<Rightarrow> bytes \<Rightarrow> change_operation \<Rightarrow> change_error + bytes" where
  "selected_range dec enc raw c =
     (case dec (operation_encoding c) raw of
        None \<Rightarrow> Inl Unicode_decode_error
      | Some text \<Rightarrow>
          (case co_line_map c of
             None \<Rightarrow> Inl Line_map_required
           | Some (start, stop) \<Rightarrow>
               if stop > int (length (text_lines text)) then Inl Line_map_out_of_range
               else
                 (case enc (operation_encoding c) (range_text text start stop) of
                    None \<Rightarrow> Inl Unicode_encode_error | Some b \<Rightarrow> Inr b)))"

definition ends_with_byte :: "bytes \<Rightarrow> bool" where
  "ends_with_byte b \<longleftrightarrow> b \<noteq> [] \<and> last b \<in> {0x0A, 0x0D}"

definition ends_with_crlf :: "bytes \<Rightarrow> bool" where
  "ends_with_crlf b \<longleftrightarrow> length b \<ge> 2 \<and> drop (length b - 2) b = [0x0D, 0x0A]"

definition closed_text :: "string \<Rightarrow> bytes \<Rightarrow> string" where
  "closed_text text selected =
     (if text \<noteq> [] \<and> \<not> ends_newline text \<and> ends_with_byte selected
      then text @ (if ends_with_crlf selected then CRLF else LF) else text)"

definition replacement_text :: "codec \<Rightarrow> change_operation \<Rightarrow> bytes \<Rightarrow> change_error + string" where
  "replacement_text dec c selected =
     ebind (operation_text dec c) (\<lambda>text. Inr (closed_text text selected))"

definition read_source :: "worktree \<Rightarrow> string \<Rightarrow> change_error + bytes" where
  "read_source W p = (case wt_read W p of None \<Rightarrow> Inl File_not_found | Some b \<Rightarrow> Inr b)"

definition plan_operation ::
  "(bytes \<Rightarrow> bytes) \<Rightarrow> codec \<Rightarrow> encoder \<Rightarrow> worktree \<Rightarrow> change_operation \<Rightarrow> change_error + json" where
  "plan_operation sha dec enc W c =
     (let path = (''path'', JStr (co_path c)) in
      if co_op c = ''create'' then
        ebind (operation_text dec c) (\<lambda>text. Inr (JObj [(''op'', JStr ''create_file''), path, (''text'', JStr text)]))
      else if co_op c = ''replace-range'' then
        ebind (read_source W (co_path c)) (\<lambda>raw.
        ebind (selected_range dec enc raw c) (\<lambda>selected.
        ebind (replacement_text dec c selected) (\<lambda>text.
          (case co_line_map c of
             None \<Rightarrow> Inl Line_map_required
           | Some (start, stop) \<Rightarrow> Inr (JObj
               [(''op'', JStr ''replace_range''), path, (''start_line'', JInt start), (''end_line'', JInt stop),
                (''text'', JStr text), (''file_sha256'', JStr (normalized_sha sha dec raw)),
                (''range_sha256'', JStr (normalized_sha sha dec selected))])))))
      else if co_op c = ''rename'' then
        ebind (read_source W (co_path c)) (\<lambda>raw. Inr (JObj
          [(''op'', JStr ''move_file''), path, (''dest'', JStr (op_dest c)),
           (''file_sha256'', JStr (normalized_sha sha dec raw))]))
      else
        ebind (read_source W (co_path c)) (\<lambda>raw. Inr (JObj
          [(''op'', JStr ''delete_file''), path, (''file_sha256'', JStr (normalized_sha sha dec raw))])))"

definition mechanical_plan ::
  "(bytes \<Rightarrow> bytes) \<Rightarrow> codec \<Rightarrow> encoder \<Rightarrow> worktree \<Rightarrow> changeset \<Rightarrow> change_error + json" where
  "mechanical_plan sha dec enc W c =
     ebind (emap (safe_path W) (changed_paths (cs_operations c))) (\<lambda>_.
       ebind (emap (plan_operation sha dec enc W) (cs_operations c)) (\<lambda>operations. Inr (JObj
         [(''schema'', JStr ''simplicio.mechanical-edit/v1''),
          (''touched_files'', JList (map JStr (sorted_set (changed_paths (cs_operations c))))),
          (''operations'', JList operations), (''validation'', JList [])])))"

section \<open>Line ends\<close>

definition no_cr :: "string \<Rightarrow> bool" where
  "no_cr s \<longleftrightarrow> CHR 0x0D \<notin> set s"

lemma no_cr_unix [simp]: "no_cr (unix_newlines s)"
  by (auto simp: no_cr_def unix_newlines_def)

lemma crlf_to_lf_plain: "no_cr s \<Longrightarrow> crlf_to_lf s = s"
  by (induction s rule: crlf_to_lf.induct) (auto simp: no_cr_def)

lemma unix_newlines_plain: "no_cr s \<Longrightarrow> unix_newlines s = s"
  by (auto simp: unix_newlines_def crlf_to_lf_plain no_cr_def intro: map_idI)

lemma crlf_to_lf_Cons:
  "c \<noteq> CHR 0x0D \<Longrightarrow> crlf_to_lf (c # s) = c # crlf_to_lf s"
  by (cases s) auto

lemma crlf_expanded:
  "no_cr s \<Longrightarrow> crlf_to_lf (concat (map (\<lambda>c. if c = CHR 0x0A then CRLF else [c]) s)) = s"
  by (induction s) (auto simp: no_cr_def CRLF_def crlf_to_lf_Cons)

lemma map_no_cr: "no_cr s \<Longrightarrow> map (\<lambda>c. if c = CHR 0x0D then CHR 0x0A else c) s = s"
  by (induction s) (auto simp: no_cr_def)

lemma unix_newlines_expanded:
  assumes "no_cr s" "nl = CRLF \<or> nl = LF"
  shows "unix_newlines (concat (map (\<lambda>c. if c = CHR 0x0A then nl else [c]) s)) = s"
proof (cases "nl = CRLF")
  case True
  show ?thesis unfolding True
    using assms(1) by (simp add: unix_newlines_def crlf_expanded map_no_cr)
next
  case False
  then have "concat (map (\<lambda>c. if c = CHR 0x0A then nl else [c]) s) = s"
    using assms(2) by (induction s) (auto simp: LF_def)
  then show ?thesis using assms(1) by (simp add: unix_newlines_plain)
qed

lemma crlf_to_lf_append:
  "s = [] \<or> last s \<noteq> CHR 0x0D \<Longrightarrow> crlf_to_lf (s @ t) = crlf_to_lf s @ crlf_to_lf t"
  by (induction s rule: crlf_to_lf.induct) (auto simp: crlf_to_lf_Cons split: if_splits)

lemma unix_newlines_close:
  "\<not> ends_newline s \<Longrightarrow> nl = CRLF \<or> nl = LF \<Longrightarrow> unix_newlines (s @ nl) = unix_newlines s @ LF"
  by (subgoal_tac "s = [] \<or> last s \<noteq> CHR 0x0D")
     (auto simp: unix_newlines_def crlf_to_lf_append CRLF_def LF_def ends_newline_def)

section \<open>Lines\<close>

lemma text_lines_concat: "concat (text_lines s) = s"
proof (induction s rule: text_lines.induct)
  case (2 c s)
  then show ?case
    by (simp add: text_lines.simps(2) split: list.split) (metis append_Cons append_take_drop_id concat.simps)
qed simp

lemma text_lines_nonempty: "l \<in> set (text_lines s) \<Longrightarrow> l \<noteq> []"
proof (induction s rule: text_lines.induct)
  case (2 c s)
  then show ?case by (auto simp: text_lines.simps(2) split: if_split_asm list.split_asm)
qed simp

lemma ends_with_byte_encode: "ends_with_byte (encode s) = ends_newline s"
proof (cases s rule: rev_cases)
  case (snoc t c)
  have "(word_of_nat (of_char c) :: byte) = word_of_nat (of_char d) \<longleftrightarrow> c = d" for d
    using encode_inject [of "[c]" "[d]"] by (simp add: encode_def)
  from this [of "CHR 0x0A"] this [of "CHR 0x0D"]
  have "(word_of_nat (of_char c) :: byte) = 0x0A \<longleftrightarrow> c = CHR 0x0A"
    "(word_of_nat (of_char c) :: byte) = 0x0D \<longleftrightarrow> c = CHR 0x0D" by simp_all
  then show ?thesis by (simp add: snoc ends_with_byte_def ends_newline_def encode_def)
qed (simp add: ends_with_byte_def ends_newline_def encode_def)

lemma range_text_last:
  assumes "1 \<le> start" "start \<le> stop" "stop \<le> int (length (text_lines text))"
  shows "range_text text start stop \<noteq> [] \<and> last (range_text text start stop) = last (text_lines text ! nat (stop - 1))"
proof -
  let ?ls = "text_lines text"
  have n: "nat (stop - 1) < length ?ls" "nat (start - 1) \<le> nat (stop - 1)" "nat stop = Suc (nat (stop - 1))"
    using assms by linarith+
  let ?k = "nat (stop - 1) - nat (start - 1)" and ?d = "drop (nat (start - 1)) ?ls"
  have "?k < length ?d" "?d ! ?k = ?ls ! nat (stop - 1)" "nat stop - nat (start - 1) = Suc ?k"
    using n by (simp_all, linarith+)
  then have "take (nat stop - nat (start - 1)) ?d = take ?k ?d @ [?ls ! nat (stop - 1)]"
    by (simp add: take_Suc_conv_app_nth)
  moreover have "?ls ! nat (stop - 1) \<noteq> []" using n(1) text_lines_nonempty nth_mem by blast
  ultimately show ?thesis by (simp add: range_text_def)
qed

lemma closed_text_fits:
  assumes "1 \<le> start" "start \<le> stop" "stop \<le> int (length (text_lines text))"
  shows "unix_newlines (closed_text replacement (encode (range_text text start stop))) =
    unix_newlines (fitted_replacement text (text_lines text ! nat (stop - 1)) replacement)"
proof -
  let ?last = "text_lines text ! nat (stop - 1)" and ?selected = "encode (range_text text start stop)"
  let ?nl = "if has_sub CRLF text then CRLF else LF"
  note r = range_text_last [OF assms]
  have "nat (stop - 1) < length (text_lines text)" using assms by linarith
  then have "?last \<noteq> []" by (intro text_lines_nonempty [OF nth_mem])
  with r have same: "ends_with_byte ?selected = ends_newline ?last"
    by (simp add: ends_with_byte_encode) (simp add: ends_newline_def)
  let ?closed = "if replacement \<noteq> [] \<and> \<not> ends_newline replacement \<and> ends_newline ?last
    then replacement @ ?nl else replacement"
  have "fitted_replacement text ?last replacement =
      concat (map (\<lambda>c. if c = CHR 0x0A then ?nl else [c]) (unix_newlines ?closed))"
    by (simp add: fitted_replacement_def Let_def)
  then have "unix_newlines (fitted_replacement text ?last replacement) = unix_newlines ?closed"
    by (simp only: unix_newlines_expanded [OF no_cr_unix]) (simp add: unix_newlines_expanded)
  also have "\<dots> = unix_newlines (closed_text replacement ?selected)"
    using same by (simp add: closed_text_def unix_newlines_close)
  finally show ?thesis ..
qed

definition lines_before :: "string \<Rightarrow> int \<Rightarrow> string" where
  "lines_before text start = concat (take (nat (start - 1)) (text_lines text))"

definition lines_after :: "string \<Rightarrow> int \<Rightarrow> string" where
  "lines_after text stop = concat (drop (nat stop) (text_lines text))"

lemma range_text_split:
  assumes "1 \<le> start" "start \<le> stop"
  shows "text = lines_before text start @ range_text text start stop @ lines_after text stop"
proof -
  let ?ls = "text_lines text" and ?a = "nat (start - 1)" and ?b = "nat stop"
  have "take (?b - ?a) (drop ?a ?ls) @ drop ?b ?ls = drop ?a ?ls"
    using append_take_drop_id [of "?b - ?a" "drop ?a ?ls"] assms by simp
  then have "take ?a ?ls @ take (?b - ?a) (drop ?a ?ls) @ drop ?b ?ls = ?ls" by simp
  then have "concat (take ?a ?ls @ take (?b - ?a) (drop ?a ?ls) @ drop ?b ?ls) = text" by (simp only: text_lines_concat)
  then show ?thesis by (simp add: range_text_def lines_before_def lines_after_def)
qed


definition utf8_encoder :: encoder where
  "utf8_encoder e t = (if e = ''utf-8'' then Some (encode t) else None)"

definition sample_replace :: change_operation where
  "sample_replace = \<lparr>co_op = ''replace-range'', co_path = ''f'', co_before = None, co_after = None, co_dest = None,
     co_content_b64 = Some (b64_encode (encode ''x'')), co_encoding = Some ''utf-8'', co_line_map = Some (2, 2),
     co_line_map_sha256 = None\<rparr>"

definition sample_lines :: worktree where
  "sample_lines = sample_worktree\<lparr>wt_read := (\<lambda>p. if p = ''f'' then Some (encode (''a'' @ CRLF @ ''b'' @ LF)) else None)\<rparr>"


end
