(* ===== verification/ChangeJournal.thy ===== *)
theory ChangeJournal
  imports ChangeCodec HashChain
begin

text \<open>
  \<open>BinaryChangeJournal\<close> of \<open>binary_changeset.py\<close> over the bytes of its file: a fixed header, then
  length-prefixed canonical JSON events, each followed by its 32-byte record hash, which chains it to the
  event before.  \<open>None\<close> is a file that does not exist.
\<close>

type_synonym journal_bytes = "bytes option"

definition CHANGE_JOURNAL_SCHEMA :: string where
  "CHANGE_JOURNAL_SCHEMA = ''simplicio.fast.binary-changeset-journal/v1''"

definition change_journal_header :: bytes where
  "change_journal_header = encode ''SFBJRN01'' @ [1]"

record journal_authority =
  ja_worktree_id :: string
  ja_lease_id :: string
  ja_fencing_token :: string

section \<open>Events\<close>

type_synonym event = "(string \<times> json) list"

definition event_previous :: "event \<Rightarrow> json" where
  "event_previous e = jval e ''prev_hash''"

definition event_hash :: "event \<Rightarrow> json" where
  "event_hash e = jval e ''record_hash''"

definition event_material :: "event \<Rightarrow> json" where
  "event_material e = JObj (filter (\<lambda>m. fst m \<noteq> ''record_hash'') e)"

definition chained_digest :: "(bytes \<Rightarrow> bytes) \<Rightarrow> string \<Rightarrow> event \<Rightarrow> bytes" where
  "chained_digest sha previous e = sha (encode previous @ canonical (event_material e))"

definition json_text :: "json \<Rightarrow> string" where
  "json_text v = (case v of JStr s \<Rightarrow> s | _ \<Rightarrow> [])"

definition last_event_hash :: "event list \<Rightarrow> string" where
  "last_event_hash events = (if events = [] then zero_hash else json_text (event_hash (last events)))"

section \<open>Reading\<close>

definition check_event ::
  "(bytes \<Rightarrow> bytes) \<Rightarrow> journal_authority \<Rightarrow> string \<Rightarrow> event \<Rightarrow> bytes \<Rightarrow> change_error option" where
  "check_event sha A previous e supplied =
     (if hex supplied \<noteq> hex (chained_digest sha previous e) \<or> event_hash e \<noteq> JStr (hex supplied) \<or>
         event_previous e \<noteq> JStr previous
      then Some Journal_chain_mismatch
      else if jval e ''worktree_id'' \<noteq> JStr (ja_worktree_id A) \<or> jval e ''lease_id'' \<noteq> JStr (ja_lease_id A) \<or>
         jval e ''fencing_token'' \<noteq> JStr (ja_fencing_token A)
      then Some Journal_authority_mismatch else None)"

text \<open>The loop over the frames; an event that is no object has no \<open>items\<close> (\<open>AttributeError\<close>).\<close>

function read_frames ::
  "(bytes \<Rightarrow> bytes) \<Rightarrow> journal_authority \<Rightarrow> bool \<Rightarrow> string \<Rightarrow> bytes \<Rightarrow> change_error + event list" where
  "read_frames sha A recover previous raw =
     (if raw = [] then Inr []
      else if length raw < 4 \<or> length raw < 36 + be_nat (slice 0 4 raw)
        then (if recover then Inr [] else Inl Journal_truncated_tail)
      else
        (let len = be_nat (slice 0 4 raw); body = slice 4 (4 + len) raw;
             supplied = slice (4 + len) (36 + len) raw in
         case loads (decode body) of
           None \<Rightarrow> Inl Journal_record_invalid
         | Some (JObj e) \<Rightarrow>
             (case check_event sha A previous e supplied of
                Some err \<Rightarrow> Inl err
              | None \<Rightarrow>
                  ebind (read_frames sha A recover (json_text (event_hash e)) (drop (36 + len) raw))
                    (\<lambda>es. Inr (e # es)))
         | Some _ \<Rightarrow> Inl Not_an_object))"
  by pat_completeness auto

termination
  by (relation "measure (\<lambda>(sha, A, recover, previous, raw). length raw)") auto

declare read_frames.simps [simp del]

definition read_change_journal ::
  "(bytes \<Rightarrow> bytes) \<Rightarrow> journal_authority \<Rightarrow> bool \<Rightarrow> journal_bytes \<Rightarrow> change_error + event list" where
  "read_change_journal sha A recover file =
     (case file of
        None \<Rightarrow> Inr []
      | Some raw \<Rightarrow>
          if take (length change_journal_header) raw \<noteq> change_journal_header then Inl Journal_header_invalid
          else read_frames sha A recover zero_hash (drop (length change_journal_header) raw))"

section \<open>Appending\<close>

definition change_journal_event ::
  "(bytes \<Rightarrow> bytes) \<Rightarrow> codec \<Rightarrow> journal_authority \<Rightarrow> changeset \<Rightarrow> bytes \<Rightarrow> string \<Rightarrow> json \<Rightarrow> event list \<Rightarrow> event" where
  "change_journal_event sha dec A c sealed state evidence events =
     (let previous = last_event_hash events;
          e = [(''schema'', JStr CHANGE_JOURNAL_SCHEMA), (''sequence'', JInt (int (length events) + 1)),
               (''changeset_id'', JStr (changeset_id sha dec c)), (''binary_sha256'', JStr (hexdigest sha sealed)),
               (''worktree_id'', JStr (ja_worktree_id A)), (''lease_id'', JStr (ja_lease_id A)),
               (''fencing_token'', JStr (ja_fencing_token A)), (''state'', JStr state),
               (''prev_hash'', JStr previous), (''evidence'', evidence)]
      in e @ [(''record_hash'', JStr (hex (chained_digest sha previous e)))])"

definition framed_event :: "event \<Rightarrow> bytes \<Rightarrow> bytes" where
  "framed_event e digest = be_bytes 4 (length (canonical (JObj e))) @ canonical (JObj e) @ digest"

definition ensure_change_header :: "journal_bytes \<Rightarrow> bytes" where
  "ensure_change_header file = (case file of None \<Rightarrow> change_journal_header | Some raw \<Rightarrow> raw)"

fun hex_bytes :: "string \<Rightarrow> bytes" where
  "hex_bytes (a # b # s) = word_of_nat (16 * the (hex_val a) + the (hex_val b)) # hex_bytes s"
| "hex_bytes _ = []"

text \<open>
  An event of the same changeset and state is answered again, marked idempotent, and nothing is written.
  The header is written before the frame is packed.
\<close>

definition append_event ::
  "(bytes \<Rightarrow> bytes) \<Rightarrow> codec \<Rightarrow> journal_authority \<Rightarrow> changeset \<Rightarrow> string \<Rightarrow> json \<Rightarrow> journal_bytes \<Rightarrow>
     (change_error + event) \<times> journal_bytes" where
  "append_event sha dec A c state evidence file =
     (if cs_worktree_id c \<noteq> ja_worktree_id A then (Inl Cross_worktree, file)
      else if cs_lease_id c \<noteq> ja_lease_id A then (Inl Lease_mismatch, file)
      else if cs_fencing_token c \<noteq> ja_fencing_token A then (Inl Fence_mismatch, file)
      else
        (case read_change_journal sha A False file of
           Inl err \<Rightarrow> (Inl err, file)
         | Inr events \<Rightarrow>
             (case find (\<lambda>e. jval e ''changeset_id'' = JStr (changeset_id sha dec c) \<and> jval e ''state'' = JStr state) events of
                Some e \<Rightarrow> (Inr (dput ''idempotent'' (JBool True) e), file)
              | None \<Rightarrow>
                  (case encode_changeset sha dec c of
                     Inl err \<Rightarrow> (Inl err, file)
                   | Inr sealed \<Rightarrow>
                       (let e = change_journal_event sha dec A c sealed state evidence events; raw = ensure_change_header file in
                        if fits32 (length (canonical (JObj e)))
                        then (Inr e, Some (raw @ framed_event e (hex_bytes (json_text (event_hash e)))))
                        else (Inl Struct_error, Some raw))))))"

section \<open>Recovery and inspection\<close>

record journal_recovery =
  jc_status :: string
  jc_records :: nat
  jc_truncated :: nat
  jc_last_hash :: "string option"

definition valid_end :: "event list \<Rightarrow> nat" where
  "valid_end events =
     length change_journal_header + sum_list (map (\<lambda>e. 4 + length (canonical (JObj e)) + 32) events)"

definition recover_change_journal ::
  "(bytes \<Rightarrow> bytes) \<Rightarrow> journal_authority \<Rightarrow> journal_bytes \<Rightarrow> (change_error + journal_recovery) \<times> journal_bytes" where
  "recover_change_journal sha A file =
     (case file of
        None \<Rightarrow> (Inr \<lparr>jc_status = ''valid'', jc_records = 0, jc_truncated = 0, jc_last_hash = None\<rparr>, file)
      | Some raw \<Rightarrow>
          (case read_change_journal sha A True file of
             Inl err \<Rightarrow> (Inl err, file)
           | Inr events \<Rightarrow>
               (let truncated = length raw - valid_end events in
                (Inr \<lparr>jc_status = (if truncated > 0 then ''recovered'' else ''valid''),
                      jc_records = length events, jc_truncated = truncated,
                      jc_last_hash = Some (last_event_hash events)\<rparr>,
                 if truncated > 0 then Some (take (valid_end events) raw) else file))))"

definition inspect_change_journal ::
  "(bytes \<Rightarrow> bytes) \<Rightarrow> journal_authority \<Rightarrow> string \<Rightarrow> journal_bytes \<Rightarrow> change_error + json" where
  "inspect_change_journal sha A path file =
     ebind (read_change_journal sha A False file) (\<lambda>events. Inr (JObj
       [(''schema'', JStr ''simplicio.fast.binary-changeset-journal-inspection/v1''), (''status'', JStr ''valid''),
        (''path'', JStr path), (''worktree_id'', JStr (ja_worktree_id A)),
        (''records'', JInt (int (length events))), (''states'', JList (map (\<lambda>e. jval e ''state'') events)),
        (''last_hash'', JStr (last_event_hash events))]))"

section \<open>An event survives printing\<close>

lemma hex_bytes_hex [simp]: "hex_bytes (hex b) = b"
proof (induction b)
  case (Cons w b)
  have "unat w mod 16 < 16" by simp
  then have "hex_val (hexdigit (unat w div 16)) = Some (unat w div 16)"
      "hex_val (hexdigit (unat w mod 16)) = Some (unat w mod 16)"
    using byte_div_16 [of w] by (auto intro: hex_val_hexdigit)
  moreover have "16 * (unat w div 16) + unat w mod 16 = unat w" by simp
  ultimately have "(word_of_nat (16 * the (hex_val (hexdigit (unat w div 16))) +
      the (hex_val (hexdigit (unat w mod 16)))) :: byte) = w"
    by (simp only: option.sel) simp
  with Cons show ?case by (simp add: hex_def)
qed (simp add: hex_def)

definition norm_event :: "event \<Rightarrow> event" where
  "norm_event e = sort_key fst (map (\<lambda>(k, v). (k, norm_json v)) e)"

lemma norm_event: "norm_json (JObj e) = JObj (norm_event e)"
  by (simp add: norm_event_def)

lemma canonical_norm_event [simp]: "canonical (JObj (norm_event e)) = canonical (JObj e)"
  by (metis canonical_norm norm_event)

lemma norm_event_get: "wf_json (JObj e) \<Longrightarrow> jval (norm_event e) k = norm_json (jval e k)"
  using jval_norm [OF _ norm_event] by blast

lemma material_norm_event: "event_material (norm_event e) = norm_json (event_material e)"
proof -
  let ?P = "\<lambda>m :: string \<times> json. fst m \<noteq> ''record_hash''"
  have "?P \<circ> (\<lambda>(k, v). (k, norm_json v)) = ?P" by (rule ext) (simp split: prod.split)
  then show ?thesis by (simp add: event_material_def norm_event_def filter_sort filter_map)
qed

lemma chained_digest_norm [simp]: "chained_digest sha previous (norm_event e) = chained_digest sha previous e"
  by (simp add: chained_digest_def material_norm_event)

lemma read_event:
  "wf_json (JObj e) \<Longrightarrow> loads (decode (canonical (JObj e))) = Some (JObj (norm_event e))"
  using loads_dumps [of "JObj e"] by (simp add: canonical_def norm_event del: norm_json.simps)

section \<open>Appending and reading\<close>

definition event_fields ::
  "(bytes \<Rightarrow> bytes) \<Rightarrow> codec \<Rightarrow> journal_authority \<Rightarrow> changeset \<Rightarrow> bytes \<Rightarrow> string \<Rightarrow> json \<Rightarrow> event list \<Rightarrow> event" where
  "event_fields sha dec A c sealed state evidence events =
     [(''schema'', JStr CHANGE_JOURNAL_SCHEMA), (''sequence'', JInt (int (length events) + 1)),
      (''changeset_id'', JStr (changeset_id sha dec c)), (''binary_sha256'', JStr (hexdigest sha sealed)),
      (''worktree_id'', JStr (ja_worktree_id A)), (''lease_id'', JStr (ja_lease_id A)),
      (''fencing_token'', JStr (ja_fencing_token A)), (''state'', JStr state),
      (''prev_hash'', JStr (last_event_hash events)), (''evidence'', evidence)]"

lemma change_journal_event_fields:
  assumes "wf_json evidence" and e_def: "e = change_journal_event sha dec A c sealed state evidence events"
  shows "event_hash e = JStr (hex (chained_digest sha (last_event_hash events) e))"
    "event_previous e = JStr (last_event_hash events)" "wf_json (JObj e)"
    "jval e ''worktree_id'' = JStr (ja_worktree_id A)" "jval e ''lease_id'' = JStr (ja_lease_id A)"
    "jval e ''fencing_token'' = JStr (ja_fencing_token A)" "jval e ''state'' = JStr state"
    "jval e ''changeset_id'' = JStr (changeset_id sha dec c)"
proof -
  let ?f = "event_fields sha dec A c sealed state evidence events"
  have e: "e = ?f @ [(''record_hash'', JStr (hex (chained_digest sha (last_event_hash events) ?f)))]"
    by (simp add: e_def change_journal_event_def event_fields_def Let_def)
  have "event_material e = event_material ?f"
    by (simp add: e event_material_def)
  then have "chained_digest sha (last_event_hash events) e = chained_digest sha (last_event_hash events) ?f"
    by (simp add: chained_digest_def)
  then show "event_hash e = JStr (hex (chained_digest sha (last_event_hash events) e))"
    by (simp add: event_hash_def jval_def) (simp add: e event_fields_def)
  show "event_previous e = JStr (last_event_hash events)" "wf_json (JObj e)"
    "jval e ''worktree_id'' = JStr (ja_worktree_id A)" "jval e ''lease_id'' = JStr (ja_lease_id A)"
    "jval e ''fencing_token'' = JStr (ja_fencing_token A)" "jval e ''state'' = JStr state"
    "jval e ''changeset_id'' = JStr (changeset_id sha dec c)"
    using assms(1) by (auto simp: e event_fields_def event_previous_def jval_def)
qed

lemma unpack_framed_event:
  assumes "fits32 (length (canonical (JObj e)))" "length d = 32"
  shows "be_nat (slice 0 4 (framed_event e d @ r)) = length (canonical (JObj e))"
    "slice 4 (4 + length (canonical (JObj e))) (framed_event e d @ r) = canonical (JObj e)"
    "slice (4 + length (canonical (JObj e))) (36 + length (canonical (JObj e))) (framed_event e d @ r) = d"
    "drop (36 + length (canonical (JObj e))) (framed_event e d @ r) = r"
    "length (framed_event e d) = 36 + length (canonical (JObj e))"
  using assms by (simp_all add: framed_event_def slice_def be_nat_be_bytes fits32_def del: slice_append_left)

lemma read_frames_Nil [simp]: "read_frames sha A recover previous [] = Inr []"
  by (simp add: read_frames.simps)

lemma read_frames_event:
  assumes e: "wf_json (JObj e)" "event_hash e = JStr (hex d)" "d = chained_digest sha previous e"
      "event_previous e = JStr previous" "length d = 32" "fits32 (length (canonical (JObj e)))"
    and auth: "jval e ''worktree_id'' = JStr (ja_worktree_id A)" "jval e ''lease_id'' = JStr (ja_lease_id A)"
      "jval e ''fencing_token'' = JStr (ja_fencing_token A)"
  shows "read_frames sha A recover previous (framed_event e d @ r) =
    ebind (read_frames sha A recover (hex d) r) (\<lambda>es. Inr (norm_event e # es))"
proof -
  note u = unpack_framed_event [OF e(6) e(5)]
  have "check_event sha A previous (norm_event e) d = None"
    using e auth by (simp add: check_event_def event_hash_def event_previous_def norm_event_get [OF e(1)])
  moreover have "json_text (event_hash (norm_event e)) = hex d"
    using e by (simp add: event_hash_def norm_event_get [OF e(1)] json_text_def)
  moreover have "framed_event e d @ r \<noteq> []" using e(5) by (auto simp: framed_event_def)
  ultimately show ?thesis
    by (subst read_frames.simps) (simp add: u read_event [OF e(1)] Let_def del: slice_append_left append_is_Nil_conv)
qed

lemma read_frames_Cons:
  assumes "read_frames sha A recover previous raw = Inr es" "raw \<noteq> []" "4 \<le> length raw"
    "36 + be_nat (slice 0 4 raw) \<le> length raw"
  shows "\<exists>e fs. loads (decode (slice 4 (4 + be_nat (slice 0 4 raw)) raw)) = Some (JObj e) \<and>
    check_event sha A previous e (slice (4 + be_nat (slice 0 4 raw)) (36 + be_nat (slice 0 4 raw)) raw) = None \<and>
    read_frames sha A recover (json_text (event_hash e)) (drop (36 + be_nat (slice 0 4 raw)) raw) = Inr fs \<and>
    es = e # fs"
  using assms
  by (subst (asm) read_frames.simps)
     (auto simp: Let_def ebind_Inr split: option.splits json.splits)

definition event_digest :: "(bytes \<Rightarrow> bytes) \<Rightarrow> event \<Rightarrow> json" where
  "event_digest sha e = JStr (hex (chained_digest sha (json_text (event_previous e)) e))"

lemma check_event_chain:
  "check_event sha A previous e supplied = None \<Longrightarrow>
     event_previous e = JStr previous \<and> event_hash e = event_digest sha e \<and>
     JStr (json_text (event_hash e)) = event_hash e"
  by (auto simp: check_event_def event_digest_def json_text_def split: if_splits)

lemma read_frames_more:
  "read_frames sha A False previous raw = Inr es \<Longrightarrow>
     read_frames sha A recover previous (raw @ rest) =
       ebind (read_frames sha A recover (if es = [] then previous else json_text (event_hash (last es))) rest)
         (\<lambda>fs. Inr (es @ fs)) \<and>
     chained event_previous event_hash (event_digest sha) (JStr previous) es \<and>
     (es \<noteq> [] \<longrightarrow> JStr (json_text (event_hash (last es))) = event_hash (last es))"
proof (induction "length raw" arbitrary: previous raw es rule: less_induct)
  case less
  show ?case
  proof (cases "raw = []")
    case True
    with less.prems have "es = []" by simp
    with True show ?thesis by (cases "read_frames sha A recover previous rest") simp_all
  next
    case False
    let ?n = "be_nat (slice 0 4 raw)"
    have fits: "4 \<le> length raw" "36 + ?n \<le> length raw"
      using less.prems False by (subst (asm) read_frames.simps; simp split: if_split_asm)+
    from read_frames_Cons [OF less.prems False fits] obtain e fs where
      e: "loads (decode (slice 4 (4 + ?n) raw)) = Some (JObj e)"
        "check_event sha A previous e (slice (4 + ?n) (36 + ?n) raw) = None" and
      fs: "read_frames sha A False (json_text (event_hash e)) (drop (36 + ?n) raw) = Inr fs" and es: "es = e # fs"
      by blast
    have "read_frames sha A recover previous (raw @ rest) =
        ebind (read_frames sha A recover (json_text (event_hash e)) (drop (36 + ?n) raw @ rest)) (\<lambda>es. Inr (e # es))"
      using False fits e by (subst read_frames.simps) (simp add: Let_def)
    moreover have "length (drop (36 + ?n) raw) < length raw" using fits by simp
    note less.hyps [OF this fs]
    moreover note check_event_chain [OF e(2)]
    ultimately show ?thesis
      by (cases "read_frames sha A recover (json_text (event_hash (last es))) rest") (auto simp: es)
  qed
qed

lemma read_change_journal_chained:
  assumes "read_change_journal sha A False file = Inr es"
  shows "chained event_previous event_hash (event_digest sha) (JStr zero_hash) es"
    "JStr (last_event_hash es) = chain_head event_hash (JStr zero_hash) es"
proof -
  have "chained event_previous event_hash (event_digest sha) (JStr zero_hash) es \<and>
      (es \<noteq> [] \<longrightarrow> JStr (json_text (event_hash (last es))) = event_hash (last es))"
    using assms read_frames_more [where recover = False and rest = "[]"]
    by (auto simp: read_change_journal_def split: option.splits if_splits)
  then show "chained event_previous event_hash (event_digest sha) (JStr zero_hash) es"
      "JStr (last_event_hash es) = chain_head event_hash (JStr zero_hash) es"
    by (auto simp: last_event_hash_def chain_head_last)
qed

text \<open>The three ways an append ends: an answer that writes nothing, an oversized event, a new event.\<close>

lemma change_append_cases:
  assumes "append_event sha dec A c state evidence file = (r, file')"
  obtains (kept) "file' = file"
  | (header) events where "read_change_journal sha A False file = Inr events" "r = Inl Struct_error"
      "file' = Some (ensure_change_header file)"
  | (appended) events sealed e where "read_change_journal sha A False file = Inr events"
      "e = change_journal_event sha dec A c sealed state evidence events" "r = Inr e"
      "fits32 (length (canonical (JObj e)))"
      "file' = Some (ensure_change_header file @ framed_event e (hex_bytes (json_text (event_hash e))))"
proof -
  let ?old = "\<lambda>e. jval e ''changeset_id'' = JStr (changeset_id sha dec c) \<and> jval e ''state'' = JStr state"
  consider (refused) "cs_worktree_id c \<noteq> ja_worktree_id A \<or> cs_lease_id c \<noteq> ja_lease_id A \<or>
      cs_fencing_token c \<noteq> ja_fencing_token A"
    | (unread) err where "read_change_journal sha A False file = Inl err"
    | (found) events e where "read_change_journal sha A False file = Inr events" "find ?old events = Some e"
    | (unsealed) err where "encode_changeset sha dec c = Inl err"
    | (fresh) events sealed where "cs_worktree_id c = ja_worktree_id A" "cs_lease_id c = ja_lease_id A"
        "cs_fencing_token c = ja_fencing_token A" "read_change_journal sha A False file = Inr events"
        "find ?old events = None" "encode_changeset sha dec c = Inr sealed"
    by (cases "read_change_journal sha A False file"; cases "encode_changeset sha dec c"; fastforce)
  then show thesis
  proof cases
    case (fresh events sealed)
    let ?e = "change_journal_event sha dec A c sealed state evidence events"
    show thesis
    proof (cases "fits32 (length (canonical (JObj ?e)))")
      case True
      with fresh assms show thesis by (intro appended [of events ?e sealed]) (simp_all add: append_event_def Let_def)
    next
      case False
      with fresh assms show thesis by (intro header [of events]) (simp_all add: append_event_def Let_def)
    qed
  qed (use assms in \<open>auto simp: append_event_def Let_def split: if_split_asm sum.split_asm option.split_asm intro!: kept\<close>)
qed

lemma read_ensured_header:
  assumes "read_change_journal sha A False file = Inr events"
  shows "take (length change_journal_header) (ensure_change_header file) = change_journal_header"
    "read_frames sha A False zero_hash (drop (length change_journal_header) (ensure_change_header file)) = Inr events"
  using assms by (auto simp: read_change_journal_def ensure_change_header_def split: option.splits if_splits)

lemma read_journal_more:
  assumes "read_change_journal sha A False file = Inr events"
  shows "read_change_journal sha A recover (Some (ensure_change_header file @ rest)) =
    ebind (read_frames sha A recover (last_event_hash events) rest) (\<lambda>fs. Inr (events @ fs))"
proof -
  note h = read_ensured_header [OF assms]
  from h(1) have "length change_journal_header \<le> length (ensure_change_header file)"
    by (metis length_take min.cobounded1 min_def order_refl)
  then have "take (length change_journal_header) (ensure_change_header file @ rest) = change_journal_header"
      "drop (length change_journal_header) (ensure_change_header file @ rest) =
       drop (length change_journal_header) (ensure_change_header file) @ rest"
    using h(1) by simp_all
  then show ?thesis
    using read_frames_more [OF h(2), of recover rest]
    by (simp add: read_change_journal_def last_event_hash_def)
qed

lemma read_appended:
  assumes sha: "\<And>b. length (sha b) = 32" and ev: "wf_json evidence"
    and read: "read_change_journal sha A False file = Inr events"
    and e: "e = change_journal_event sha dec A c sealed state evidence events"
    and fits: "fits32 (length (canonical (JObj e)))"
  shows "read_change_journal sha A False
      (Some (ensure_change_header file @ framed_event e (hex_bytes (json_text (event_hash e))))) =
    Inr (events @ [norm_event e])"
proof -
  note f = change_journal_event_fields [OF ev e]
  have digest: "hex_bytes (json_text (event_hash e)) = chained_digest sha (last_event_hash events) e"
    by (simp add: f(1) json_text_def)
  have "length (chained_digest sha (last_event_hash events) e) = 32" by (simp add: chained_digest_def sha)
  from read_frames_event [OF f(3,1) refl f(2) this fits f(4-6), where r = "[]"] digest read_journal_more [OF read]
  show ?thesis by simp
qed

section \<open>The journal is an append-only log\<close>

definition change_journal_events :: "(bytes \<Rightarrow> bytes) \<Rightarrow> journal_authority \<Rightarrow> journal_bytes \<Rightarrow> event list" where
  "change_journal_events sha A file = (case read_change_journal sha A False file of Inl _ \<Rightarrow> [] | Inr es \<Rightarrow> es)"

definition change_append_step ::
  "(bytes \<Rightarrow> bytes) \<Rightarrow> codec \<Rightarrow> journal_authority \<Rightarrow> journal_bytes \<Rightarrow> journal_bytes \<Rightarrow> bool" where
  "change_append_step sha dec A s t \<longleftrightarrow> (\<forall>b. length (sha b) = 32) \<and>
     (\<exists>c state evidence. wf_json evidence \<and> t = snd (append_event sha dec A c state evidence s))"

lemma append_event_reads:
  assumes sha: "\<And>b. length (sha b) = 32" and ev: "wf_json evidence"
    and r: "append_event sha dec A c state evidence file = (r, file')"
    and read: "read_change_journal sha A False file = Inr es"
  shows "read_change_journal sha A False file' = Inr es \<or>
    (\<exists>e sealed. e = change_journal_event sha dec A c sealed state evidence es \<and> r = Inr e \<and>
       read_change_journal sha A False file' = Inr (es @ [norm_event e]))"
  using r
proof (cases rule: change_append_cases)
  case kept
  with read show ?thesis by simp
next
  case (header events)
  with read_journal_more [OF read, of False "[]"] show ?thesis by simp
next
  case (appended events sealed e)
  with read read_appended [OF sha ev read] show ?thesis by auto
qed

interpretation change_log: append_log event_previous event_hash "event_digest sha" "JStr zero_hash"
  "change_journal_events sha A" "change_append_step sha dec A"
  for sha dec A
proof unfold_locales
  fix s t
  assume "change_append_step sha dec A s t"
  then obtain c state evidence where sha: "\<And>b. length (sha b) = 32" and ev: "wf_json evidence"
      and t: "t = snd (append_event sha dec A c state evidence s)"
    by (auto simp: change_append_step_def)
  obtain r where r: "append_event sha dec A c state evidence s = (r, t)"
    using t by (cases "append_event sha dec A c state evidence s") auto
  let ?es = "change_journal_events sha A"
  show "?es t = ?es s \<or> (\<exists>e. ?es t = ?es s @ [e] \<and> event_previous e = chain_head event_hash (JStr zero_hash) (?es s) \<and>
      event_hash e = event_digest sha e)"
  proof (cases "read_change_journal sha A False s")
    case (Inl err)
    then have "t = s" using r by (simp add: append_event_def split: if_split_asm)
    then show ?thesis by simp
  next
    case (Inr es)
    from append_event_reads [OF sha ev r Inr] Inr show ?thesis
    proof (elim disjE exE conjE)
      fix e sealed
      assume e: "e = change_journal_event sha dec A c sealed state evidence es"
        and new: "read_change_journal sha A False t = Inr (es @ [norm_event e])"
      note f = change_journal_event_fields [OF ev e]
      have "event_previous (norm_event e) = JStr (last_event_hash es)"
        using f(2) norm_event_get [OF f(3)] by (simp add: event_previous_def)
      moreover have "event_hash (norm_event e) = event_digest sha (norm_event e)"
        using f(1,2) norm_event_get [OF f(3)]
        by (simp add: event_hash_def event_digest_def event_previous_def json_text_def)
      ultimately show ?thesis
        using new Inr read_change_journal_chained(2) [OF Inr] by (simp add: change_journal_events_def)
    qed (simp add: change_journal_events_def)
  qed
qed

type_synonym append_call = "changeset \<times> string \<times> json"

definition change_journal_run ::
  "(bytes \<Rightarrow> bytes) \<Rightarrow> codec \<Rightarrow> journal_authority \<Rightarrow> append_call list \<Rightarrow> journal_bytes \<Rightarrow> journal_bytes" where
  "change_journal_run sha dec A calls file =
     fold (\<lambda>(c, state, evidence) f. snd (append_event sha dec A c state evidence f)) calls file"

lemma change_run_readable:
  assumes sha: "\<And>b. length (sha b) = 32"
  shows "\<forall>(c, state, evidence) \<in> set calls. wf_json evidence \<Longrightarrow> read_change_journal sha A False file = Inr es \<Longrightarrow>
     (change_append_step sha dec A)\<^sup>*\<^sup>* file (change_journal_run sha dec A calls file) \<and>
     (\<exists>fs. read_change_journal sha A False (change_journal_run sha dec A calls file) = Inr fs)"
  unfolding change_journal_run_def
proof (induction calls arbitrary: es "file")
  case (Cons call calls)
  obtain c state evidence where call: "call = (c, state, evidence)" by (cases call)
  let ?f = "snd (append_event sha dec A c state evidence file)"
  obtain r where r: "append_event sha dec A c state evidence file = (r, ?f)"
    by (cases "append_event sha dec A c state evidence file") simp
  have ev: "wf_json evidence" using Cons.prems(1) call by simp
  obtain fs where fs: "read_change_journal sha A False ?f = Inr fs"
    using append_event_reads [OF sha ev r Cons.prems(2)] by blast
  have "change_append_step sha dec A file ?f" using ev sha by (auto simp: change_append_step_def)
  with Cons.IH [OF _ fs] Cons.prems(1) call show ?case by (auto intro: converse_rtranclp_into_rtranclp)
qed auto

text \<open>The changeset journal is append-only.  After any sequence of appends to a readable journal, whatever
  their outcome, it is still readable for its authority, the events it held are an unchanged prefix, and
  the whole file is one hash chain from the zero hash.\<close>

theorem change_journal_append_only:
  assumes sha: "\<And>b. length (sha b) = 32" and "\<forall>(c, state, evidence) \<in> set calls. wf_json evidence"
    and "read_change_journal sha A False file = Inr es"
  shows "\<exists>fs. read_change_journal sha A False (change_journal_run sha dec A calls file) = Inr (es @ fs) \<and>
    chained event_previous event_hash (event_digest sha) (JStr zero_hash) (es @ fs)"
proof -
  from change_run_readable [OF sha assms(2,3), of dec] obtain gs where
    run: "(change_append_step sha dec A)\<^sup>*\<^sup>* file (change_journal_run sha dec A calls file)" and
    gs: "read_change_journal sha A False (change_journal_run sha dec A calls file) = Inr gs" by blast
  from change_log.run_extends [OF run] change_log.run_chained [OF run] read_change_journal_chained(1) [OF assms(3)]
    gs assms(3) show ?thesis
    by (auto simp: change_journal_events_def)
qed

section \<open>Recovering a torn append\<close>

text \<open>The bytes are exactly the canonical events that are read from them.\<close>

definition canonical_journal :: "(bytes \<Rightarrow> bytes) \<Rightarrow> journal_authority \<Rightarrow> journal_bytes \<Rightarrow> bool" where
  "canonical_journal sha A file \<longleftrightarrow>
     (case read_change_journal sha A False file of
        Inl _ \<Rightarrow> False
      | Inr es \<Rightarrow> valid_end es = length (ensure_change_header file))"

lemma canonical_journal_new: "canonical_journal sha A None"
  by (simp add: canonical_journal_def read_change_journal_def valid_end_def ensure_change_header_def)

lemma valid_end_snoc [simp]: "valid_end (es @ [e]) = valid_end es + 36 + length (canonical (JObj e))"
  by (simp add: valid_end_def)

lemma canonical_journal_append:
  assumes sha: "\<And>b. length (sha b) = 32" and ev: "wf_json evidence" and "canonical_journal sha A file"
    and r: "append_event sha dec A c state evidence file = (r, file')"
  shows "canonical_journal sha A file'"
  using r
proof (cases rule: change_append_cases)
  case kept
  with assms show ?thesis by simp
next
  case (header events)
  with read_journal_more [OF header(1), of False "[]"] assms(3) show ?thesis
    by (simp add: canonical_journal_def ensure_change_header_def split: option.splits)
next
  case (appended events sealed e)
  note f = change_journal_event_fields [OF ev appended(2)]
  have "length (hex_bytes (json_text (event_hash e))) = 32"
    by (simp add: f(1) json_text_def chained_digest_def sha)
  with appended assms(3) read_appended [OF sha ev appended(1,2,4)] show ?thesis
    by (simp add: canonical_journal_def framed_event_def ensure_change_header_def split: option.splits)
qed

lemma read_torn_frame:
  assumes "fits32 (length (canonical (JObj e)))" "length d = 32" "j < length (framed_event e d)"
  shows "read_frames sha A True previous (take j (framed_event e d)) = Inr []"
proof (cases "j < 4")
  case True
  then have "length (take j (framed_event e d)) < 4" by simp
  then show ?thesis by (subst read_frames.simps) (simp del: length_take)
next
  case False
  then have "slice 0 4 (take j (framed_event e d)) = be_bytes 4 (length (canonical (JObj e)))"
    by (simp add: slice_def framed_event_def)
  then have "be_nat (slice 0 4 (take j (framed_event e d))) = length (canonical (JObj e))"
    using assms(1) by (simp add: be_nat_be_bytes fits32_def)
  moreover have "length (take j (framed_event e d)) = j" "j < 36 + length (canonical (JObj e))"
    using assms(2,3) by (simp_all add: framed_event_def)
  ultimately show ?thesis by (subst read_frames.simps) (simp del: length_take)
qed

text \<open>A crash in the middle of an append loses at most that event.  Cut the file an append leaves at any
  byte of the new frame: recovery keeps every earlier event, truncates exactly the torn bytes and reports
  their number.\<close>

theorem torn_change_append_recovers:
  assumes sha: "\<And>b. length (sha b) = 32" and ev: "wf_json evidence" and own: "canonical_journal sha A file"
    and r: "append_event sha dec A c state evidence file = (Inr e, Some full)"
    and k: "length (ensure_change_header file) \<le> k" "k < length full"
  shows "\<exists>es. read_change_journal sha A False file = Inr es \<and>
    recover_change_journal sha A (Some (take k full)) =
      (Inr \<lparr>jc_status = (if length (ensure_change_header file) < k then ''recovered'' else ''valid''),
            jc_records = length es, jc_truncated = k - length (ensure_change_header file),
            jc_last_hash = Some (last_event_hash es)\<rparr>,
       Some (ensure_change_header file))"
  using r
proof (cases rule: change_append_cases)
  case (appended events sealed f)
  let ?raw = "ensure_change_header file" and ?d = "hex_bytes (json_text (event_hash f))"
  let ?t = "take (k - length ?raw) (framed_event f ?d)"
  from appended have full: "full = ?raw @ framed_event f ?d" by simp
  with k have cut: "take k full = ?raw @ ?t" by simp
  have "length ?d = 32"
    using change_journal_event_fields(1) [OF ev appended(2)] by (simp add: json_text_def chained_digest_def sha)
  with read_torn_frame [OF appended(4)] full k have "read_frames sha A True (last_event_hash events) ?t = Inr []"
    by simp
  then have read: "read_change_journal sha A True (Some (?raw @ ?t)) = Inr events"
    using read_journal_more [OF appended(1)] by simp
  have "valid_end events = length ?raw" using own appended(1) by (simp add: canonical_journal_def)
  moreover have "length ?t = k - length ?raw" using full k by simp
  ultimately show ?thesis
    using appended(1) read k(1) unfolding cut by (simp add: recover_change_journal_def Let_def)
next
  case kept
  then have "ensure_change_header file = full"
    by (metis ensure_change_header_def option.simps(5))
  with k have False by simp
  then show ?thesis ..
qed simp_all

section \<open>Examples\<close>

definition sample_authority :: journal_authority where
  "sample_authority = \<lparr>ja_worktree_id = ''w'', ja_lease_id = ''l'', ja_fencing_token = ''f''\<rparr>"

lemma sample_append:
  "\<exists>e full. append_event const_sha utf8_codec sample_authority sealed_sample ''sealed'' (JObj []) None = (Inr e, Some full)"
proof -
  obtain payload where p: "encode_changeset const_sha utf8_codec sealed_sample = Inr payload"
    using sealed_sample_encodes by blast
  let ?e = "change_journal_event const_sha utf8_codec sample_authority sealed_sample payload ''sealed'' (JObj []) []"
  have "length (dumps (JObj [(''schema'', JStr CHANGE_JOURNAL_SCHEMA), (''sequence'', JInt 1),
      (''changeset_id'', JStr sample_hex), (''binary_sha256'', JStr sample_hex),
      (''worktree_id'', JStr ''w''), (''lease_id'', JStr ''l''), (''fencing_token'', JStr ''f''),
      (''state'', JStr ''sealed''), (''prev_hash'', JStr zero_hash), (''evidence'', JObj []),
      (''record_hash'', JStr sample_hex)])) \<le> 2000" if "sample_hex = replicate 64 (CHR ''a'')" for sample_hex
    unfolding that by code_simp
  moreover have "hex (chained_digest const_sha p e) = replicate 64 (CHR ''a'')" for p e
    using const_digest by (simp add: hexdigest_def chained_digest_def)
  ultimately have "length (dumps (JObj ?e)) \<le> 2000"
    by (simp add: change_journal_event_def changeset_id_def const_digest sample_authority_def last_event_hash_def del: dumps.simps)
  then have "fits32 (length (canonical (JObj ?e)))"
    by (intro fits32_small) (simp add: canonical_def del: dumps.simps)
  moreover have "cs_worktree_id sealed_sample = ''w''" "cs_lease_id sealed_sample = ''l''"
      "cs_fencing_token sealed_sample = ''f''"
    by (simp_all add: sealed_sample_def sample_changeset_def)
  ultimately show ?thesis
    using p by (simp add: append_event_def sample_authority_def read_change_journal_def Let_def)
qed

lemma const_sha_length [simp]: "length (const_sha b) = 32"
  by (simp add: const_sha_def)

theorem change_journal_append_only_witness:
  "\<exists>es. read_change_journal const_sha sample_authority False
      (change_journal_run const_sha utf8_codec sample_authority
        [(sealed_sample, ''sealed'', JObj []), (sealed_sample, ''applied'', JObj [])] None) = Inr es \<and>
    chained event_previous event_hash (event_digest const_sha) (JStr zero_hash) es"
proof -
  have "read_change_journal const_sha sample_authority False None = Inr []"
    by (simp add: read_change_journal_def)
  from change_journal_append_only [OF const_sha_length _ this,
      of "[(sealed_sample, ''sealed'', JObj []), (sealed_sample, ''applied'', JObj [])]" utf8_codec]
  show ?thesis by simp
qed

theorem torn_change_append_recovers_witness:
  "\<exists>full. length change_journal_header < length full \<and>
    snd (recover_change_journal const_sha sample_authority (Some (take (length full - 1) full))) =
      Some change_journal_header"
proof -
  obtain e full where a: "append_event const_sha utf8_codec sample_authority sealed_sample ''sealed'' (JObj []) None =
      (Inr e, Some full)"
    using sample_append by blast
  then have long: "length change_journal_header + 4 \<le> length full"
    by (cases rule: change_append_cases) (auto simp: ensure_change_header_def framed_event_def)
  then have "length (ensure_change_header None) \<le> length full - 1" "length full - 1 < length full"
    by (simp_all add: ensure_change_header_def)
  from torn_change_append_recovers [OF const_sha_length _ canonical_journal_new a this] long show ?thesis
    by (intro exI [of _ full]) (auto simp: ensure_change_header_def)
qed

end
