(* ===== verification/ChangeMaterialize.thy ===== *)
theory ChangeMaterialize
  imports ChangePlan ChangeJournal
begin

text \<open>
  Materializing a changeset (\<open>DevCliAdapter\<close>, \<open>materialize\<close>, \<open>reconcile_unknown_effect\<close> of
  \<open>binary_changeset.py\<close>).  The state is the journal file and the worktree.  The Dev CLI is a parameter:
  \<open>en_run plan W\<close> is what the process answers to the plan and the worktree it leaves; so are the mapper
  refresh and the message texts of exceptions.
\<close>

definition CHANGE_RECEIPT_SCHEMA :: string where
  "CHANGE_RECEIPT_SCHEMA = ''simplicio.fast.binary-changeset-receipt/v1''"

definition ADAPTER_SCHEMA :: string where
  "ADAPTER_SCHEMA = ''simplicio.fast.dev-cli-adapter/v1''"

text \<open>No executable, an exception of \<open>subprocess.run\<close> by its class name, or an exit code and its output.\<close>

datatype cli_outcome = Cli_absent | Cli_raised string | Cli_finished int string

record change_env =
  en_sha :: "bytes \<Rightarrow> bytes"
  en_dec :: codec
  en_enc :: encoder
  en_message :: "change_error \<Rightarrow> string"
  en_run :: "json \<Rightarrow> worktree \<Rightarrow> cli_outcome \<times> worktree"
  en_refresh :: "string list \<Rightarrow> json"

section \<open>The answer of the Dev CLI\<close>

definition cli_receipt :: "int \<Rightarrow> string \<Rightarrow> change_error + json" where
  "cli_receipt returncode stdout =
     (case loads stdout of
        None \<Rightarrow> Inl Dev_cli_invalid_receipt
      | Some (JObj r) \<Rightarrow>
          if returncode \<noteq> 0 \<or> jval r ''status'' \<noteq> JStr ''ok'' \<or> \<not> truthy (jval r ''applied'')
          then Inl Dev_cli_rejected
          else Inr (JObj [(''schema'', JStr ADAPTER_SCHEMA), (''status'', JStr ''applied''), (''result'', JObj r)])
      | Some _ \<Rightarrow> Inl Dev_cli_rejected)"

definition adapter_materialize ::
  "change_env \<Rightarrow> worktree \<Rightarrow> changeset \<Rightarrow> (change_error + json) \<times> worktree" where
  "adapter_materialize E W c =
     (case mechanical_plan (en_sha E) (en_dec E) (en_enc E) W c of
        Inl err \<Rightarrow> (Inl err, W)
      | Inr plan \<Rightarrow>
          (case en_run E plan W of
             (Cli_absent, _) \<Rightarrow> (Inl Dev_cli_unavailable, W)
           | (Cli_raised name, W1) \<Rightarrow> (Inl (Dev_cli_unknown_effect name), W1)
           | (Cli_finished code out, W1) \<Rightarrow> (cli_receipt code out, W1)))"

section \<open>Materialization\<close>

text \<open>Exceptions that are no \<open>BinaryChangeSetError\<close> and pass through every handler.\<close>

definition unstructured :: "change_error \<Rightarrow> bool" where
  "unstructured err \<longleftrightarrow> err \<in> {Metadata_type_error, Struct_error, Unicode_encode_error, Unicode_decode_error,
     File_not_found, Not_an_object}"

definition is_unknown_effect :: "change_error \<Rightarrow> bool" where
  "is_unknown_effect err = (case err of Dev_cli_unknown_effect _ \<Rightarrow> True | _ \<Rightarrow> False)"

definition REASON_CODES :: "(change_error \<times> string) list" where
  "REASON_CODES =
     [(Sha256_invalid, ''sha256_invalid''), (Path_invalid, ''path_invalid''),
      (Path_outside_repository, ''path_outside_repository''), (Operation_invalid, ''operation_invalid''),
      (Operation_type_invalid, ''operation_type_invalid''), (Content_invalid, ''content_invalid''),
      (Content_encoding_invalid, ''content_encoding_invalid''), (Ambiguous_byte_offset, ''ambiguous_byte_offset''),
      (Encoding_required, ''encoding_required''), (Encoding_invalid, ''encoding_invalid''),
      (Line_map_required, ''line_map_required''), (Line_map_invalid, ''line_map_invalid''),
      (Line_map_hash_invalid, ''line_map_hash_invalid''), (Line_map_hash_mismatch, ''line_map_hash_mismatch''),
      (Create_payload_missing, ''create_payload_missing''), (Replace_payload_missing, ''replace_payload_missing''),
      (Rename_payload_missing, ''rename_payload_missing''), (Delete_payload_missing, ''delete_payload_missing''),
      (Rename_destination_invalid, ''rename_destination_invalid''), (Schema_invalid, ''schema_invalid''),
      (Binding_missing, ''binding_missing''), (Worktree_invalid, ''worktree_invalid''),
      (Authority_missing, ''authority_missing''), (Allowed_paths_invalid, ''allowed_paths_invalid''),
      (Allowed_paths_missing, ''allowed_paths_missing''), (Operations_invalid, ''operations_invalid''),
      (Operations_missing, ''operations_missing''), (Verification_commands_invalid, ''verification_commands_invalid''),
      (Path_not_allowed, ''path_not_allowed''), (Changeset_invalid, ''changeset_invalid''),
      (Changeset_id_mismatch, ''changeset_id_mismatch''), (Binary_truncated, ''binary_truncated''),
      (Binary_header_invalid, ''binary_header_invalid''), (Binary_length_mismatch, ''binary_length_mismatch''),
      (Binary_checksum_mismatch, ''binary_checksum_mismatch''), (Metadata_invalid, ''metadata_invalid''),
      (Record_truncated, ''record_truncated''), (Record_checksum_mismatch, ''record_checksum_mismatch''),
      (Record_invalid, ''record_invalid''), (Section_length_mismatch, ''section_length_mismatch''),
      (Binary_missing, ''binary_missing''), (Repository_mismatch, ''repository_mismatch''),
      (Lease_mismatch, ''lease_mismatch''), (Fence_mismatch, ''fence_mismatch''), (Path_symlink, ''path_symlink''),
      (Target_exists, ''target_exists''), (Source_missing, ''source_missing''), (Stale_source, ''stale_source''),
      (After_hash_mismatch, ''after_hash_mismatch''), (Rename_destination_exists, ''rename_destination_exists''),
      (Encoding_mismatch, ''encoding_mismatch''), (Line_map_out_of_range, ''line_map_out_of_range''),
      (Journal_header_invalid, ''journal_header_invalid''), (Journal_truncated_tail, ''journal_truncated_tail''),
      (Journal_record_invalid, ''journal_record_invalid''), (Journal_chain_mismatch, ''journal_chain_mismatch''),
      (Journal_authority_mismatch, ''journal_authority_mismatch''), (Cross_worktree, ''cross_worktree''),
      (Dev_cli_unavailable, ''dev_cli_unavailable''), (Dev_cli_invalid_receipt, ''dev_cli_invalid_receipt''),
      (Dev_cli_rejected, ''dev_cli_rejected'')]"

definition reason_code :: "change_error \<Rightarrow> string" where
  "reason_code err =
     (case err of
        Dev_cli_unknown_effect name \<Rightarrow> ''dev_cli_'' @ name
      | _ \<Rightarrow> (case map_of REASON_CODES err of None \<Rightarrow> [] | Some code \<Rightarrow> code))"

definition last_change_event :: "change_env \<Rightarrow> changeset \<Rightarrow> event list \<Rightarrow> event option" where
  "last_change_event E c events =
     find (\<lambda>e. jval e ''changeset_id'' = JStr (changeset_id (en_sha E) (en_dec E) c)) (rev events)"

definition change_receipt :: "change_env \<Rightarrow> changeset \<Rightarrow> string \<Rightarrow> (string \<times> json) list \<Rightarrow> json" where
  "change_receipt E c status rest =
     JObj ([(''schema'', JStr CHANGE_RECEIPT_SCHEMA), (''status'', JStr status),
       (''changeset_id'', JStr (changeset_id (en_sha E) (en_dec E) c)),
       (''source_writer'', JStr ''simplicio-dev-cli'')] @ rest)"

definition validation_of :: "change_env \<Rightarrow> changeset \<Rightarrow> op_status list \<Rightarrow> json" where
  "validation_of E c ss = validation_report (en_sha E) (en_dec E) c ss"

type_synonym change_answer = "(change_error + json) \<times> journal_bytes \<times> worktree"

definition not_needed :: json where
  "not_needed = JObj [(''status'', JStr ''not-needed'')]"

definition journal_append ::
  "change_env \<Rightarrow> journal_authority \<Rightarrow> changeset \<Rightarrow> string \<Rightarrow> json \<Rightarrow> journal_bytes \<Rightarrow> (change_error + event) \<times> journal_bytes" where
  "journal_append E A c state evidence file = append_event (en_sha E) (en_dec E) A c state evidence file"

definition validate_for ::
  "change_env \<Rightarrow> worktree \<Rightarrow> changeset \<Rightarrow> change_error + op_status list" where
  "validate_for E W c = validate_changeset (en_sha E) (en_dec E) (en_enc E) W None None c"

text \<open>The two \<open>except\<close> clauses.\<close>

definition failed_attempt ::
  "change_env \<Rightarrow> journal_authority \<Rightarrow> changeset \<Rightarrow> change_error \<Rightarrow> journal_bytes \<Rightarrow> worktree \<Rightarrow> change_answer" where
  "failed_attempt E A c err file W =
     (let evidence = JObj [(''reason_code'', JStr (reason_code err)), (''message'', JStr (en_message E err))] in
      if unstructured err then (Inl err, file, W)
      else if is_unknown_effect err then
        (case journal_append E A c ''unknown'' evidence file of
           (Inl jerr, file1) \<Rightarrow>
             (if unstructured jerr then Inl jerr
              else Inr (change_receipt E c ''unknown''
                [(''reason_code'', JStr ''unknown_effect''), (''evidence'', evidence),
                 (''journal_error'', JStr (reason_code jerr)), (''reconcile_required'', JBool True)]), file1, W)
         | (Inr event, file1) \<Rightarrow>
             (Inr (change_receipt E c ''locked''
                [(''reason_code'', JStr ''unknown_effect''), (''evidence'', evidence), (''journal'', JObj event),
                 (''reconcile_required'', JBool True)]), file1, W))
      else
        (case journal_append E A c ''rejected'' evidence file of
           (r, file1) \<Rightarrow>
             (if (case r of Inl jerr \<Rightarrow> unstructured jerr | Inr _ \<Rightarrow> False) then Inl (case r of Inl jerr \<Rightarrow> jerr | Inr _ \<Rightarrow> err)
              else Inr (change_receipt E c ''rejected''
                [(''reason_code'', JStr (reason_code err)), (''evidence'', evidence)]), file1, W)))"

definition apply_changeset ::
  "change_env \<Rightarrow> journal_authority \<Rightarrow> changeset \<Rightarrow> journal_bytes \<Rightarrow> worktree \<Rightarrow> change_answer" where
  "apply_changeset E A c file W =
     (case adapter_materialize E W c of
        (Inl err, W1) \<Rightarrow> failed_attempt E A c err file W1
      | (Inr applied, W1) \<Rightarrow>
          (case validate_for E W1 c of
             Inl err \<Rightarrow> failed_attempt E A c err file W1
           | Inr after \<Rightarrow>
               (let refreshed = en_refresh E (sorted_set (changed_paths (cs_operations c))) in
                case journal_append E A c ''applied''
                    (JObj [(''adapter'', applied), (''validation'', validation_of E c after), (''refresh'', refreshed)]) file of
                  (Inl err, file1) \<Rightarrow> failed_attempt E A c err file1 W1
                | (Inr event, file1) \<Rightarrow>
                    (Inr (change_receipt E c ''applied''
                       [(''validation'', validation_of E c after), (''adapter'', applied), (''refresh'', refreshed),
                        (''journal'', JObj event)]), file1, W1))))"

definition attempt_changeset ::
  "change_env \<Rightarrow> journal_authority \<Rightarrow> changeset \<Rightarrow> journal_bytes \<Rightarrow> worktree \<Rightarrow> change_answer" where
  "attempt_changeset E A c file W =
     (case validate_for E W c of
        Inl err \<Rightarrow> failed_attempt E A c err file W
      | Inr ss \<Rightarrow>
          (let evidence = JObj [(''validation'', validation_of E c ss)] in
           case journal_append E A c ''sealed'' evidence file of
             (Inl err, file1) \<Rightarrow> failed_attempt E A c err file1 W
           | (Inr _, file1) \<Rightarrow>
               if all_idempotent ss
               then
                 (case journal_append E A c ''idempotent'' evidence file1 of
                    (Inl err, file2) \<Rightarrow> failed_attempt E A c err file2 W
                  | (Inr event, file2) \<Rightarrow>
                      (Inr (change_receipt E c ''idempotent''
                         [(''journal'', JObj event), (''validation'', validation_of E c ss), (''refresh'', not_needed)]),
                       file2, W))
               else apply_changeset E A c file1 W))"

definition state_in :: "event \<Rightarrow> string list \<Rightarrow> bool" where
  "state_in e states \<longleftrightarrow> list_ex (\<lambda>s. jval e ''state'' = JStr s) states"

definition materialize ::
  "change_env \<Rightarrow> journal_authority \<Rightarrow> changeset \<Rightarrow> journal_bytes \<Rightarrow> worktree \<Rightarrow> change_answer" where
  "materialize E A c file W =
     (case read_change_journal (en_sha E) A False file of
        Inl err \<Rightarrow> (Inl err, file, W)
      | Inr existing \<Rightarrow>
          (case last_change_event E c existing of
             None \<Rightarrow> attempt_changeset E A c file W
           | Some e \<Rightarrow>
               if state_in e [''applied'', ''idempotent'']
               then (Inr (change_receipt E c ''idempotent'' [(''journal'', JObj e), (''refresh'', not_needed)]), file, W)
               else if state_in e [''unknown'', ''reconcile_ambiguous'']
               then (Inr (change_receipt E c ''locked''
                  [(''reason_code'', JStr ''unknown_effect''), (''journal'', JObj e), (''reconcile_required'', JBool True)]),
                  file, W)
               else attempt_changeset E A c file W))"

section \<open>Reconciliation\<close>

definition reconciliation_field :: "event \<Rightarrow> string \<Rightarrow> json \<Rightarrow> json" where
  "reconciliation_field e k absent =
     (case jval e ''evidence'' of
        JObj m \<Rightarrow> (case map_of m k of None \<Rightarrow> absent | Some v \<Rightarrow> v)
      | _ \<Rightarrow> absent)"

definition reconcile_unknown_effect ::
  "change_env \<Rightarrow> journal_authority \<Rightarrow> changeset \<Rightarrow> journal_bytes \<Rightarrow> worktree \<Rightarrow> (change_error + json) \<times> journal_bytes" where
  "reconcile_unknown_effect E A c file W =
     (case read_change_journal (en_sha E) A False file of
        Inl err \<Rightarrow> (Inl err, file)
      | Inr existing \<Rightarrow>
          (case last_change_event E c existing of
             None \<Rightarrow> (Inr (change_receipt E c ''rejected'' [(''reason_code'', JStr ''unknown_effect_missing'')]), file)
           | Some e \<Rightarrow>
               if \<not> state_in e [''unknown'', ''reconciled'']
               then (Inr (change_receipt E c ''rejected'' [(''reason_code'', JStr ''unknown_effect_missing'')]), file)
               else if state_in e [''reconciled'']
               then (Inr (change_receipt E c ''reconciled''
                  [(''reconciliation'', reconciliation_field e ''reconciliation'' JNull), (''journal'', JObj e),
                   (''retry_allowed'', reconciliation_field e ''retry_allowed'' (JBool False))]), file)
               else
                 (case validate_for E W c of
                    Inl err \<Rightarrow>
                      (if unstructured err then Inl err
                       else Inr (change_receipt E c ''locked''
                         [(''reason_code'', JStr ''unknown_effect''),
                          (''evidence'', JObj [(''reconciliation'', JStr ''ambiguous''),
                             (''reason_code'', JStr (reason_code err)), (''message'', JStr (en_message E err)),
                             (''retry_allowed'', JBool False)]),
                          (''journal'', JObj e), (''reconcile_required'', JBool True)]), file)
                  | Inr ss \<Rightarrow>
                      (let outcome = (if all_idempotent ss then ''already_applied'' else ''not_applied'');
                           retry = JBool (\<not> all_idempotent ss);
                           evidence = JObj [(''reconciliation'', JStr outcome), (''unknown_record_hash'', event_hash e),
                             (''validation'', validation_of E c ss), (''retry_allowed'', retry)] in
                       case journal_append E A c (if all_idempotent ss then ''applied'' else ''reconciled'') evidence file of
                         (Inl err, file1) \<Rightarrow> (Inl err, file1)
                       | (Inr event, file1) \<Rightarrow>
                           (Inr (change_receipt E c ''reconciled''
                              [(''reconciliation'', JStr outcome), (''journal'', JObj event), (''retry_allowed'', retry)]),
                            file1)))))"

section \<open>What a call may write to the journal\<close>

definition env_ok :: "change_env \<Rightarrow> bool" where
  "env_ok E \<longleftrightarrow> (\<forall>b. length (en_sha E b) = 32) \<and> (\<forall>ps. wf_json (en_refresh E ps))"

definition same_change :: "change_env \<Rightarrow> changeset \<Rightarrow> event \<Rightarrow> bool" where
  "same_change E c e \<longleftrightarrow> jval e ''changeset_id'' = JStr (changeset_id (en_sha E) (en_dec E) c)"

definition journal_events_of :: "change_env \<Rightarrow> journal_authority \<Rightarrow> journal_bytes \<Rightarrow> change_error + event list" where
  "journal_events_of E A file = read_change_journal (en_sha E) A False file"

text \<open>The journal grows by events of the changeset only.\<close>

definition extends :: "change_env \<Rightarrow> journal_authority \<Rightarrow> changeset \<Rightarrow> journal_bytes \<Rightarrow> journal_bytes \<Rightarrow> bool" where
  "extends E A c file file' \<longleftrightarrow>
     (\<forall>es. journal_events_of E A file = Inr es \<longrightarrow>
        (\<exists>fs. journal_events_of E A file' = Inr (es @ fs) \<and> list_all (same_change E c) fs))"

lemma extends_refl [simp]: "extends E A c file file"
  unfolding extends_def by (intro allI impI exI [of _ "[]"]) simp

lemma extends_trans [trans]: "extends E A c f g \<Longrightarrow> extends E A c g h \<Longrightarrow> extends E A c f h"
  unfolding extends_def
proof (intro allI impI)
  fix es
  assume f: "\<forall>es. journal_events_of E A f = Inr es \<longrightarrow>
      (\<exists>fs. journal_events_of E A g = Inr (es @ fs) \<and> list_all (same_change E c) fs)"
    and g: "\<forall>es. journal_events_of E A g = Inr es \<longrightarrow>
      (\<exists>fs. journal_events_of E A h = Inr (es @ fs) \<and> list_all (same_change E c) fs)"
    and es: "journal_events_of E A f = Inr es"
  from f es obtain fs where fs: "journal_events_of E A g = Inr (es @ fs)" "list_all (same_change E c) fs" by blast
  from g fs(1) obtain gs where "journal_events_of E A h = Inr ((es @ fs) @ gs)" "list_all (same_change E c) gs" by blast
  with fs(2) show "\<exists>fs. journal_events_of E A h = Inr (es @ fs) \<and> list_all (same_change E c) fs"
    by (intro exI [of _ "fs @ gs"]) simp
qed

lemma journal_append_fresh:
  assumes "env_ok E" "wf_json evidence" "journal_append E A c state evidence file = (Inr event, file')"
    and "journal_events_of E A file = Inr es"
    and "\<not> list_ex (\<lambda>e. same_change E c e \<and> jval e ''state'' = JStr state) es"
  shows "\<exists>f. journal_events_of E A file' = Inr (es @ [f]) \<and> same_change E c f \<and> jval f ''state'' = JStr state"
  using assms(3) [unfolded journal_append_def]
proof (cases rule: change_append_cases)
  case kept
  have "find (\<lambda>e. jval e ''changeset_id'' = JStr (changeset_id (en_sha E) (en_dec E) c) \<and>
      jval e ''state'' = JStr state) es = None"
    using assms(5) by (auto simp: find_None_iff list_ex_iff same_change_def)
  moreover have "framed_event e d \<noteq> []" for e d
  proof -
    have "4 \<le> length (framed_event e d)" by (simp add: framed_event_def)
    then show ?thesis by auto
  qed
  ultimately show ?thesis
    using assms(3,4) kept
    by (auto simp: journal_append_def append_event_def journal_events_of_def ensure_change_header_def
        Let_def split: if_split_asm sum.split_asm option.split_asm)
next
  case (header events)
  then show ?thesis by simp
next
  case (appended events sealed e)
  with assms(4) have events: "events = es" by (simp add: journal_events_of_def)
  note f = change_journal_event_fields [OF assms(2) appended(2)]
  have "length (en_sha E b) = 32" for b using assms(1) by (simp add: env_ok_def)
  from read_appended [OF this assms(2) appended(1,2,4)] appended(5) norm_event_get [OF f(3)] f(7,8) events
  show ?thesis by (auto simp: journal_events_of_def same_change_def)
qed

lemma journal_append_events:
  assumes "env_ok E" "wf_json evidence" "journal_append E A c state evidence file = (r, file')"
    and es: "journal_events_of E A file = Inr es"
  shows "journal_events_of E A file' = Inr es \<or>
    (\<exists>f. journal_events_of E A file' = Inr (es @ [f]) \<and> same_change E c f \<and> jval f ''state'' = JStr state)"
proof -
  have sha: "length (en_sha E b) = 32" for b using assms(1) by (simp add: env_ok_def)
  from append_event_reads [OF sha assms(2) assms(3) [unfolded journal_append_def] es [unfolded journal_events_of_def]]
  show ?thesis
  proof (elim disjE exE conjE)
    fix e sealed
    assume e: "e = change_journal_event (en_sha E) (en_dec E) A c sealed state evidence es"
      and new: "read_change_journal (en_sha E) A False file' = Inr (es @ [norm_event e])"
    note f = change_journal_event_fields [OF assms(2) e]
    from new f(7,8) norm_event_get [OF f(3)] show ?thesis
      by (simp add: journal_events_of_def same_change_def)
  qed (simp add: journal_events_of_def)
qed

lemma journal_append_extends:
  assumes "env_ok E" "wf_json evidence" "journal_append E A c state evidence file = (r, file')"
  shows "extends E A c file file'"
  unfolding extends_def
proof (intro allI impI)
  fix es
  assume "journal_events_of E A file = Inr es"
  from journal_append_events [OF assms this]
  show "\<exists>fs. journal_events_of E A file' = Inr (es @ fs) \<and> list_all (same_change E c) fs"
    by (elim disjE exE conjE, intro exI [of _ "[]"], simp, intro exI [of _ "[_]"], simp)
qed

lemma failed_attempt_extends:
  assumes "env_ok E" "failed_attempt E A c err file W = (r, file', W')"
  shows "extends E A c file file' \<and> W' = W"
proof -
  let ?ev = "JObj [(''reason_code'', JStr (reason_code err)), (''message'', JStr (en_message E err))]"
  have ev: "wf_json ?ev" by simp
  note ext = journal_append_extends [OF assms(1) ev]
  show ?thesis
    using assms(2) ext
    by (fastforce simp: failed_attempt_def Let_def split: if_split_asm prod.split_asm sum.split_asm)
qed

lemma wf_validation_report [simp]: "wf_json (validation_report sha dec c ss)"
  by (auto simp: validation_report_def dest: set_zip_leftD)

lemma wf_adapter:
  "adapter_materialize E W c = (Inr applied, W1) \<Longrightarrow> wf_json applied"
  by (auto simp: adapter_materialize_def cli_receipt_def split: sum.split_asm prod.split_asm cli_outcome.split_asm
        option.split_asm json.split_asm if_split_asm dest!: wf_loads)

lemma apply_changeset_extends:
  assumes ok: "env_ok E" and a: "apply_changeset E A c file W = (r, file', W')"
  shows "extends E A c file file'"
proof (cases "adapter_materialize E W c")
  case (Pair m W1)
  show ?thesis
  proof (cases m)
    case (Inl err)
    with a Pair show ?thesis
      by (auto simp: apply_changeset_def dest: failed_attempt_extends [OF ok])
  next
    case (Inr applied)
    show ?thesis
    proof (cases "validate_for E W1 c")
      case (Inl err)
      with a Pair Inr show ?thesis
        by (auto simp: apply_changeset_def dest: failed_attempt_extends [OF ok])
    next
      case (Inr after)
      let ?ev = "JObj [(''adapter'', applied), (''validation'', validation_of E c after),
        (''refresh'', en_refresh E (sorted_set (changed_paths (cs_operations c))))]"
      have "wf_json ?ev"
        using wf_adapter Pair \<open>m = Inr applied\<close> ok by (simp add: validation_of_def env_ok_def)
      obtain q file1 where j: "journal_append E A c ''applied'' ?ev file = (q, file1)"
        by (cases "journal_append E A c ''applied'' ?ev file")
      have "extends E A c file file1" by (rule journal_append_extends [OF ok \<open>wf_json ?ev\<close> j])
      moreover have "extends E A c file1 file'"
        using a Pair \<open>m = Inr applied\<close> Inr j failed_attempt_extends [OF ok]
        by (cases q) (auto simp: apply_changeset_def Let_def)
      ultimately show ?thesis by (rule extends_trans)
    qed
  qed
qed

lemma attempt_changeset_extends:
  assumes ok: "env_ok E" and a: "attempt_changeset E A c file W = (r, file', W')"
  shows "extends E A c file file'"
proof (cases "validate_for E W c")
  case (Inl err)
  with a show ?thesis by (auto simp: attempt_changeset_def dest: failed_attempt_extends [OF ok])
next
  case (Inr ss)
  let ?ev = "JObj [(''validation'', validation_of E c ss)]"
  have ev: "wf_json ?ev" by (simp add: validation_of_def)
  obtain q file1 where j: "journal_append E A c ''sealed'' ?ev file = (q, file1)"
    by (cases "journal_append E A c ''sealed'' ?ev file")
  obtain p file2 where k: "journal_append E A c ''idempotent'' ?ev file1 = (p, file2)"
    by (cases "journal_append E A c ''idempotent'' ?ev file1")
  note ext = journal_append_extends [OF ok ev j] journal_append_extends [OF ok ev k]
  have "extends E A c file1 file'"
  proof (cases q)
    case Inl
    with a Inr j show ?thesis
      by (auto simp: attempt_changeset_def Let_def dest: failed_attempt_extends [OF ok])
  next
    fix event assume q: "q = Inr event"
    show ?thesis
    proof (cases "all_idempotent ss")
      case False
      with a Inr j q show ?thesis
        by (auto simp: attempt_changeset_def Let_def dest: apply_changeset_extends [OF ok])
    next
      case True
      with a Inr j k q ext(2) extends_trans [OF ext(2)] failed_attempt_extends [OF ok] show ?thesis
        by (cases p) (auto simp: attempt_changeset_def Let_def)
    qed
  qed
  with ext(1) show ?thesis by (rule extends_trans)
qed

lemma materialize_extends:
  assumes "env_ok E" "materialize E A c file W = (r, file', W')"
  shows "extends E A c file file'"
  using assms attempt_changeset_extends [OF assms(1)]
  by (auto simp: materialize_def split: sum.split_asm option.split_asm if_split_asm)

lemma last_change_event_mem: "last_change_event E c es = Some e \<Longrightarrow> e \<in> set es \<and> same_change E c e"
  by (auto simp: last_change_event_def find_Some_iff same_change_def) (metis nth_mem length_rev set_rev)

lemma journal_event_hash:
  "journal_events_of E A file = Inr es \<Longrightarrow> e \<in> set es \<Longrightarrow> wf_json (event_hash e)"
  using chained_mem [OF read_change_journal_chained(1)]
  by (fastforce simp: journal_events_of_def event_digest_def)

lemma reconcile_extends:
  assumes ok: "env_ok E" and a: "reconcile_unknown_effect E A c file W = (r, file')"
  shows "extends E A c file file'"
proof (cases "\<exists>es e ss. journal_events_of E A file = Inr es \<and> last_change_event E c es = Some e \<and>
    state_in e [''unknown''] \<and> validate_for E W c = Inr ss")
  case False
  then have "file' = file"
    using a by (auto simp: reconcile_unknown_effect_def journal_events_of_def state_in_def
        split: sum.split_asm option.split_asm if_split_asm)
  then show ?thesis by simp
next
  case True
  then obtain es e ss where es: "journal_events_of E A file = Inr es" "last_change_event E c es = Some e"
      "state_in e [''unknown'']" "validate_for E W c = Inr ss" by blast
  let ?ev = "\<lambda>t b. JObj [(''reconciliation'', JStr t), (''unknown_record_hash'', event_hash e),
      (''validation'', validation_of E c ss), (''retry_allowed'', JBool b)]"
  have "wf_json (?ev t b)" for t b
    using journal_event_hash [OF es(1)] last_change_event_mem [OF es(2)] by (simp add: validation_of_def)
  note ext = journal_append_extends [OF ok this]
  have "\<exists>t b state q. journal_append E A c state (?ev t b) file = (q, file')"
    using a es by (auto simp: reconcile_unknown_effect_def journal_events_of_def state_in_def Let_def
        split: prod.split_asm sum.split_asm if_split_asm)
  then show ?thesis using ext by blast
qed

section \<open>An applied changeset is never applied again\<close>

definition final_event :: "event \<Rightarrow> bool" where
  "final_event e \<longleftrightarrow> state_in e [''applied'', ''idempotent'']"

text \<open>Calls that share the journal: any changeset, any worktree, any behaviour of the Dev CLI.\<close>

inductive change_call :: "change_env \<Rightarrow> journal_authority \<Rightarrow> journal_bytes \<Rightarrow> journal_bytes \<Rightarrow> bool"
  for E :: change_env and A :: journal_authority where
  materialized: "\<lbrakk>env_ok F; en_sha F = en_sha E; en_dec F = en_dec E;
      materialize F A c file W = (r, file', W')\<rbrakk> \<Longrightarrow> change_call E A file file'"
| reconciled: "\<lbrakk>env_ok F; en_sha F = en_sha E; en_dec F = en_dec E;
      reconcile_unknown_effect F A c file W = (r, file')\<rbrakk> \<Longrightarrow> change_call E A file file'"

definition settled :: "change_env \<Rightarrow> journal_authority \<Rightarrow> changeset \<Rightarrow> journal_bytes \<Rightarrow> bool" where
  "settled E A c file \<longleftrightarrow>
     (\<exists>es e. journal_events_of E A file = Inr es \<and> last_change_event E c es = Some e \<and> final_event e)"

lemma find_append: "find P (xs @ ys) = (case find P xs of Some x \<Rightarrow> Some x | None \<Rightarrow> find P ys)"
  by (induction xs) auto

lemma last_change_event_append:
  "last_change_event E c (es @ fs) =
     (case last_change_event E c fs of Some e \<Rightarrow> Some e | None \<Rightarrow> last_change_event E c es)"
  by (simp add: last_change_event_def find_append split: option.split)

lemma same_env:
  "en_sha F = en_sha E \<Longrightarrow> en_dec F = en_dec E \<Longrightarrow>
     last_change_event F c = last_change_event E c \<and> journal_events_of F A file = journal_events_of E A file \<and>
     same_change F c = same_change E c"
  by (intro conjI ext) (simp_all add: last_change_event_def journal_events_of_def same_change_def)

lemma settled_materialize:
  assumes "settled E A c file" "en_sha F = en_sha E" "en_dec F = en_dec E"
  shows "\<exists>receipt. materialize F A c file W = (Inr receipt, file, W) \<and> jget receipt ''status'' = Some (JStr ''idempotent'')"
  using assms same_env [OF assms(2,3), of c A "file"]
  by (auto simp: settled_def materialize_def final_event_def journal_events_of_def change_receipt_def)

lemma settled_reconcile:
  assumes "settled E A c file" "en_sha F = en_sha E" "en_dec F = en_dec E"
  shows "snd (reconcile_unknown_effect F A c file W) = file"
  using assms same_env [OF assms(2,3), of c A "file"]
  by (auto simp: settled_def reconcile_unknown_effect_def final_event_def journal_events_of_def state_in_def)

lemma settled_extends:
  assumes "settled E A c file" "extends F A d file file'" "en_sha F = en_sha E" "en_dec F = en_dec E"
    and "changeset_id (en_sha E) (en_dec E) d \<noteq> changeset_id (en_sha E) (en_dec E) c"
  shows "settled E A c file'"
proof -
  from assms(1,2) same_env [OF assms(3,4)] obtain es e fs where es: "journal_events_of E A file = Inr es"
      "last_change_event E c es = Some e" "final_event e" "journal_events_of E A file' = Inr (es @ fs)"
      "list_all (same_change E d) fs"
    unfolding settled_def extends_def by metis
  have "last_change_event E c fs = None"
    using es(5) assms(5) by (auto simp: last_change_event_def find_None_iff list_all_iff same_change_def)
  with es show ?thesis by (auto simp: settled_def last_change_event_append)
qed

lemma same_id_event: "changeset_id (en_sha E) (en_dec E) d = changeset_id (en_sha E) (en_dec E) c \<Longrightarrow>
    settled E A d file = settled E A c file"
  by (simp add: settled_def last_change_event_def)

lemma change_call_settled:
  assumes "change_call E A file file'" "settled E A c file"
  shows "settled E A c file'"
  using assms
proof (cases rule: change_call.cases)
  case (materialized F d W r W')
  show ?thesis
  proof (cases "changeset_id (en_sha E) (en_dec E) d = changeset_id (en_sha E) (en_dec E) c")
    case True
    then have "settled E A d file" using assms(2) same_id_event by blast
    from settled_materialize [OF this materialized(2,3), of W] materialized(4) have "file' = file" by auto
    with assms(2) show ?thesis by (simp only:)
  next
    case False
    show ?thesis
      by (rule settled_extends [OF assms(2) materialize_extends [OF materialized(1,4)] materialized(2,3) False])
  qed
next
  case (reconciled F d W r)
  show ?thesis
  proof (cases "changeset_id (en_sha E) (en_dec E) d = changeset_id (en_sha E) (en_dec E) c")
    case True
    then have "settled E A d file" using assms(2) same_id_event by blast
    from settled_reconcile [OF this reconciled(2,3), of W] reconciled(4) have "file' = file" by simp
    with assms(2) show ?thesis by (simp only:)
  next
    case False
    show ?thesis
      by (rule settled_extends [OF assms(2) reconcile_extends [OF reconciled(1,4)] reconciled(2,3) False])
  qed
qed

lemma change_calls_settled:
  "(change_call E A)\<^sup>*\<^sup>* file file' \<Longrightarrow> settled E A c file \<Longrightarrow> settled E A c file'"
  by (induction rule: rtranclp_induct) (auto intro: change_call_settled)

lemma failed_attempt_status:
  "failed_attempt E A c err file W = (Inr receipt, file', W') \<Longrightarrow>
     jget receipt ''status'' \<notin> {Some (JStr ''applied''), Some (JStr ''idempotent'')}"
  by (auto simp: failed_attempt_def Let_def change_receipt_def split: if_split_asm prod.split_asm sum.split_asm)

definition success :: "json \<Rightarrow> bool" where
  "success receipt \<longleftrightarrow> jget receipt ''status'' \<in> {Some (JStr ''applied''), Some (JStr ''idempotent'')}"

lemma apply_success:
  assumes ok: "env_ok E" and a: "apply_changeset E A c file W = (Inr receipt, file', W')" "success receipt"
  shows "\<exists>ev event. wf_json ev \<and> journal_append E A c ''applied'' ev file = (Inr event, file')"
proof (cases "adapter_materialize E W c")
  case (Pair m W1)
  show ?thesis
  proof (cases m)
    case (Inl err)
    with a Pair failed_attempt_status show ?thesis by (fastforce simp: apply_changeset_def success_def)
  next
    case (Inr applied)
    show ?thesis
    proof (cases "validate_for E W1 c")
      case (Inl err)
      with a Pair Inr failed_attempt_status show ?thesis by (fastforce simp: apply_changeset_def success_def)
    next
      case (Inr after)
      let ?ev = "JObj [(''adapter'', applied), (''validation'', validation_of E c after),
        (''refresh'', en_refresh E (sorted_set (changed_paths (cs_operations c))))]"
      have ev: "wf_json ?ev"
        using wf_adapter Pair \<open>m = Inr applied\<close> ok by (simp add: validation_of_def env_ok_def)
      obtain q file1 where j: "journal_append E A c ''applied'' ?ev file = (q, file1)"
        by (cases "journal_append E A c ''applied'' ?ev file")
      show ?thesis
      proof (cases q)
        case Inl
        with a Pair \<open>m = Inr applied\<close> Inr j failed_attempt_status show ?thesis
          by (fastforce simp: apply_changeset_def Let_def success_def)
      next
        fix event assume "q = Inr event"
        with a Pair \<open>m = Inr applied\<close> Inr j have "file' = file1" by (simp add: apply_changeset_def Let_def)
        with ev j \<open>q = Inr event\<close> show ?thesis by blast
      qed
    qed
  qed
qed

lemma attempt_success:
  assumes ok: "env_ok E" and a: "attempt_changeset E A c file W = (Inr receipt, file', W')" "success receipt"
  shows "\<exists>ev0 q file0 state ev event. wf_json ev0 \<and> wf_json ev \<and> journal_append E A c ''sealed'' ev0 file = (Inr q, file0) \<and>
    journal_append E A c state ev file0 = (Inr event, file') \<and> state \<in> {''applied'', ''idempotent''}"
proof (cases "validate_for E W c")
  case (Inl err)
  with a failed_attempt_status show ?thesis by (fastforce simp: attempt_changeset_def success_def)
next
  case (Inr ss)
  let ?ev = "JObj [(''validation'', validation_of E c ss)]"
  have ev: "wf_json ?ev" by (simp add: validation_of_def)
  obtain q file0 where j: "journal_append E A c ''sealed'' ?ev file = (q, file0)"
    by (cases "journal_append E A c ''sealed'' ?ev file")
  obtain p file2 where k: "journal_append E A c ''idempotent'' ?ev file0 = (p, file2)"
    by (cases "journal_append E A c ''idempotent'' ?ev file0")
  show ?thesis
  proof (cases q)
    case (Inl err)
    with a Inr j failed_attempt_status show ?thesis
      by (fastforce simp: attempt_changeset_def Let_def success_def)
  next
    fix event assume q: "q = Inr event"
    show ?thesis
    proof (cases "all_idempotent ss")
      case False
      with a Inr j q have "apply_changeset E A c file0 W = (Inr receipt, file', W')"
        by (simp add: attempt_changeset_def Let_def)
      from apply_success [OF ok this a(2)] ev j q show ?thesis by blast
    next
      case True
      show ?thesis
      proof (cases p)
        case (Inl err)
        with a \<open>validate_for E W c = Inr ss\<close> j k q True failed_attempt_status show ?thesis
          by (fastforce simp: attempt_changeset_def Let_def success_def)
      next
        fix event' assume p: "p = Inr event'"
        with a Inr j k q True have "file' = file2" by (simp add: attempt_changeset_def Let_def)
        with ev j k p q show ?thesis by blast
      qed
    qed
  qed
qed

lemma success_settles:
  assumes ok: "env_ok E" and es: "journal_events_of E A file = Inr es"
    and fresh: "list_ex (\<lambda>e. same_change E c e \<and> final_event e) es \<longrightarrow> settled E A c file"
    and m: "materialize E A c file W = (Inr receipt, file', W')" "success receipt"
  shows "settled E A c file'"
proof (cases "settled E A c file")
  case True
  from settled_materialize [OF this refl refl, of W] m(1) have "file' = file" by auto
  with True show ?thesis by (simp only:)
next
  case False
  then have none: "\<not> list_ex (\<lambda>e. same_change E c e \<and> final_event e) es" using fresh by blast
  have "attempt_changeset E A c file W = (Inr receipt, file', W')"
    using m es False by (auto simp: materialize_def journal_events_of_def settled_def final_event_def
        change_receipt_def success_def split: option.split_asm if_split_asm)
  from attempt_success [OF ok this m(2)] obtain ev0 q file0 state ev event where
    ev: "wf_json ev0" "wf_json ev" and
    j: "journal_append E A c ''sealed'' ev0 file = (Inr q, file0)" "journal_append E A c state ev file0 = (Inr event, file')"
    and state: "state \<in> {''applied'', ''idempotent''}" by blast
  from journal_append_events [OF ok ev(1) j(1) es] obtain fs where
    fs: "journal_events_of E A file0 = Inr (es @ fs)" "\<forall>f \<in> set fs. jval f ''state'' = JStr ''sealed''"
    by (metis append_Nil2 empty_iff list.set(1) list.set(2) singletonD)
  have "\<not> list_ex (\<lambda>e. same_change E c e \<and> jval e ''state'' = JStr state) (es @ fs)"
    using none fs(2) state by (auto simp: list_ex_iff final_event_def state_in_def)
  from journal_append_fresh [OF ok ev(2) j(2) fs(1) this] obtain f where
    "journal_events_of E A file' = Inr ((es @ fs) @ [f])" "same_change E c f" "jval f ''state'' = JStr state"
    by blast
  then show ?thesis using state
    by (auto simp: settled_def last_change_event_def same_change_def final_event_def state_in_def)
qed

text \<open>C1: A changeset is applied at most once after a success.  When a materialization answered \<open>applied\<close> or
  \<open>idempotent\<close>, then after any interleaving of later materializations and reconciliations of this and
  other changesets on the same journal, materializing it again answers \<open>idempotent\<close>, runs no Dev CLI,
  and touches neither the worktree nor the journal.\<close>

theorem applied_changeset_is_never_applied_again:
  assumes "env_ok E" "journal_events_of E A file = Inr es"
    and "list_ex (\<lambda>e. same_change E c e \<and> final_event e) es \<longrightarrow> settled E A c file"
    and "materialize E A c file W = (Inr receipt, file1, W1)" "success receipt"
    and "(change_call E A)\<^sup>*\<^sup>* file1 file2" "en_sha F = en_sha E" "en_dec F = en_dec E"
  shows "\<exists>again. materialize F A c file2 W2 = (Inr again, file2, W2) \<and>
    jget again ''status'' = Some (JStr ''idempotent'')"
proof -
  have "settled E A c file1" by (rule success_settles [OF assms(1-5)])
  then have "settled E A c file2" by (rule change_calls_settled [OF assms(6)])
  then show ?thesis using assms(7,8) by (rule settled_materialize)
qed

section \<open>Unknown effects\<close>

definition attempted :: "change_env \<Rightarrow> changeset \<Rightarrow> event list \<Rightarrow> bool" where
  "attempted E c es \<longleftrightarrow>
     (case last_change_event E c es of
        None \<Rightarrow> True
      | Some e \<Rightarrow> \<not> state_in e [''applied'', ''idempotent'', ''unknown'', ''reconcile_ambiguous''])"

lemma materialize_attempts:
  "journal_events_of E A file = Inr es \<Longrightarrow> attempted E c es \<Longrightarrow>
     materialize E A c file W = attempt_changeset E A c file W"
  by (auto simp: materialize_def journal_events_of_def attempted_def state_in_def split: option.splits)

lemma encode_changeset_error: "encode_changeset sha dec c = Inl err \<Longrightarrow> err = Struct_error"
  by (simp add: encode_changeset_def Let_def split: if_split_asm)

lemma journal_append_error:
  "journal_events_of E A file = Inr es \<Longrightarrow> journal_append E A c state ev file = (Inl err, file') \<Longrightarrow>
     err \<in> {Cross_worktree, Lease_mismatch, Fence_mismatch, Struct_error}"
  by (auto simp: journal_append_def append_event_def journal_events_of_def Let_def
        split: if_split_asm option.split_asm sum.split_asm dest: encode_changeset_error)

lemma failed_attempt_rejected:
  "\<not> is_unknown_effect err \<Longrightarrow> failed_attempt E A c err file W = (Inr receipt, file', W') \<Longrightarrow>
     jget receipt ''status'' = Some (JStr ''rejected'')"
  by (auto simp: failed_attempt_def Let_def change_receipt_def split: if_split_asm prod.split_asm)

lemma failed_attempt_locked:
  assumes "failed_attempt E A c (Dev_cli_unknown_effect name) file W = (Inr receipt, file', W')"
    and "jget receipt ''status'' = Some (JStr ''locked'')"
  shows "W' = W \<and> (\<exists>ev event. wf_json ev \<and> journal_append E A c ''unknown'' ev file = (Inr event, file'))"
proof -
  let ?err = "Dev_cli_unknown_effect name"
  let ?ev = "JObj [(''reason_code'', JStr (reason_code ?err)), (''message'', JStr (en_message E ?err))]"
  obtain q file1 where j: "journal_append E A c ''unknown'' ?ev file = (q, file1)"
    by (cases "journal_append E A c ''unknown'' ?ev file")
  have "wf_json ?ev" by simp
  with assms j show ?thesis
    by (cases q) (auto simp: failed_attempt_def is_unknown_effect_def unstructured_def change_receipt_def Let_def
        split: if_split_asm simp del: wf_json.simps)
qed

text \<open>C12: An unknown effect locks the changeset.  The first time the Dev CLI is interrupted and the attempt is
  journaled as locked, materializing again, in any worktree, runs nothing and answers locked.\<close>

theorem unknown_effect_locks:
  assumes ok: "env_ok E" and es: "journal_events_of E A file = Inr es" and att: "attempted E c es"
    and new: "\<not> list_ex (\<lambda>e. same_change E c e \<and> jval e ''state'' = JStr ''unknown'') es"
    and valid: "validate_for E W c = Inr ss" "\<not> all_idempotent ss"
    and cli: "adapter_materialize E W c = (Inl (Dev_cli_unknown_effect name), W1)"
    and m: "materialize E A c file W = (Inr receipt, file1, W')" "jget receipt ''status'' = Some (JStr ''locked'')"
    and F: "en_sha F = en_sha E" "en_dec F = en_dec E"
  shows "W' = W1 \<and> (\<exists>again. materialize F A c file1 W2 = (Inr again, file1, W2) \<and>
    jget again ''status'' = Some (JStr ''locked''))"
proof -
  let ?ev = "JObj [(''validation'', validation_of E c ss)]"
  let ?err = "Dev_cli_unknown_effect name"
  let ?ev1 = "JObj [(''reason_code'', JStr (reason_code ?err)), (''message'', JStr (en_message E ?err))]"
  obtain q file0 where j: "journal_append E A c ''sealed'' ?ev file = (q, file0)"
    by (cases "journal_append E A c ''sealed'' ?ev file")
  have att': "attempt_changeset E A c file W = (Inr receipt, file1, W')"
    using m(1) materialize_attempts [OF es att, of W] by simp
  obtain event where q: "q = Inr event"
  proof (cases q)
    case (Inl err)
    from journal_append_error [OF es j [unfolded Inl]] have "\<not> is_unknown_effect err"
      by (auto simp: is_unknown_effect_def)
    with failed_attempt_rejected att' valid j Inl m(2) show ?thesis
      by (fastforce simp: attempt_changeset_def Let_def)
  qed
  have ev: "wf_json ?ev" by (simp add: validation_of_def)
  from journal_append_events [OF ok ev j es] obtain fs where
    fs: "journal_events_of E A file0 = Inr (es @ fs)" "\<forall>f \<in> set fs. jval f ''state'' = JStr ''sealed''"
    by (metis append_Nil2 empty_iff list.set(1) list.set(2) singletonD)
  have "failed_attempt E A c (Dev_cli_unknown_effect name) file0 W1 = (Inr receipt, file1, W')"
    using att' valid j q cli by (simp add: attempt_changeset_def apply_changeset_def Let_def)
  from failed_attempt_locked [OF this m(2)] obtain ev1 event1 where
    W': "W' = W1" and ev1: "wf_json ev1" "journal_append E A c ''unknown'' ev1 file0 = (Inr event1, file1)"
    by blast
  have "\<not> list_ex (\<lambda>e. same_change E c e \<and> jval e ''state'' = JStr ''unknown'') (es @ fs)"
    using new fs(2) by (auto simp: list_ex_iff)
  from journal_append_fresh [OF ok ev1 fs(1) this] obtain f where
    f: "journal_events_of E A file1 = Inr ((es @ fs) @ [f])" "same_change E c f" "jval f ''state'' = JStr ''unknown''"
    by blast
  then have "last_change_event F c ((es @ fs) @ [f]) = Some f"
    using F by (simp add: last_change_event_def same_change_def)
  with f F W' show ?thesis
    by (simp add: materialize_def journal_events_of_def state_in_def change_receipt_def)
qed

text \<open>The lock holds only once.  A changeset that was locked, reconciled as not applied and is interrupted
  again gets a receipt that says locked, but the journal is left as it was, because an event of this
  changeset and state is never written twice; so the next materialization attempts it again at once.\<close>

theorem second_unknown_effect_is_not_locked:
  assumes es: "journal_events_of E A file = Inr es" and last: "last_change_event E c es = Some e" "state_in e [''reconciled'']"
    and old: "find (\<lambda>e. same_change E c e \<and> jval e ''state'' = JStr ''sealed'') es = Some e1"
      "find (\<lambda>e. same_change E c e \<and> jval e ''state'' = JStr ''unknown'') es = Some e2"
    and auth: "cs_worktree_id c = ja_worktree_id A" "cs_lease_id c = ja_lease_id A"
      "cs_fencing_token c = ja_fencing_token A"
    and valid: "validate_for E W c = Inr ss" "\<not> all_idempotent ss"
    and cli: "adapter_materialize E W c = (Inl (Dev_cli_unknown_effect name), W1)"
    and F: "en_sha F = en_sha E" "en_dec F = en_dec E"
  shows "(\<exists>receipt. materialize E A c file W = (Inr receipt, file, W1) \<and>
      jget receipt ''status'' = Some (JStr ''locked'')) \<and>
    materialize F A c file W2 = attempt_changeset F A c file W2"
proof -
  have kept: "journal_append E A c ''sealed'' ev file = (Inr (dput ''idempotent'' (JBool True) e1), file)"
    "journal_append E A c ''unknown'' ev file = (Inr (dput ''idempotent'' (JBool True) e2), file)" for ev
    using es old auth by (simp_all add: journal_append_def append_event_def journal_events_of_def same_change_def)
  have att: "attempted E c es" "attempted F c es"
    using last F by (auto simp: attempted_def state_in_def last_change_event_def)
  have "journal_events_of F A file = Inr es" using es F by (simp add: journal_events_of_def)
  with att materialize_attempts es have "materialize E A c file W = attempt_changeset E A c file W"
      "materialize F A c file W2 = attempt_changeset F A c file W2" by blast+
  then show ?thesis
    using valid cli kept
    by (simp add: attempt_changeset_def apply_changeset_def failed_attempt_def is_unknown_effect_def unstructured_def
        change_receipt_def Let_def)
qed

text \<open>A partly applied changeset cannot be finished.  When its first operation is a removal or a move that
  is already done and another one is still to do, validation accepts it, but building the plan reads the
  missing file: \<open>FileNotFoundError\<close> escapes every handler and no receipt is written.\<close>

theorem partly_applied_changeset_escapes:
  assumes "journal_events_of E A file = Inr es" "attempted E c es"
    and "validate_for E W c = Inr ss" "\<not> all_idempotent ss"
    and "cs_operations c = p # ps" "co_op p \<in> {''rename'', ''delete''}" "wt_read W (co_path p) = None"
  shows "materialize E A c file W =
      (case journal_append E A c ''sealed'' (JObj [(''validation'', validation_of E c ss)]) file of
         (Inl err, file1) \<Rightarrow> failed_attempt E A c err file1 W
       | (Inr _, file1) \<Rightarrow> (Inl File_not_found, file1, W)) \<and> hd ss = Idempotent"
proof -
  have "adapter_materialize E W c = (Inl File_not_found, W)"
  proof -
    have "emap (safe_path W) (changed_paths (cs_operations c)) = Inr (changed_paths (cs_operations c))"
      using assms(3) by (auto simp: validate_for_def validate_changeset_Inr emap_safe_path)
    moreover have "plan_operation (en_sha E) (en_dec E) (en_enc E) W p = Inl File_not_found"
      using assms(6,7) by (auto simp: plan_operation_def read_source_def)
    ultimately show ?thesis by (simp add: adapter_materialize_def mechanical_plan_def assms(5))
  qed
  moreover have "hd ss = Idempotent"
    using assms(3,5-7)
    by (auto simp: validate_for_def validate_changeset_Inr validate_op_def ebind_Inr Let_def split: option.split_asm if_split_asm)
  ultimately show ?thesis
    using assms(3,4) materialize_attempts [OF assms(1,2), of W]
    by (simp add: attempt_changeset_def apply_changeset_def failed_attempt_def [of _ _ _ File_not_found]
        unstructured_def Let_def split: prod.split sum.split)
qed

section \<open>Examples\<close>

lemma length_escape: "length (escape_char c) \<le> 6"
  by (simp add: escape_char_def Let_def)

lemma length_quote: "length (quote s) \<le> 6 * length s + 2"
proof -
  have "length (concat (map escape_char s)) \<le> 6 * length s"
  proof (induction s)
    case (Cons c s)
    then show ?case using length_escape [of c] by simp
  qed simp
  then show ?thesis by (simp add: quote_def)
qed

lemma length_join: "length (join ss) \<le> sum_list (map (\<lambda>s. length s + 1) ss)"
  by (induction ss rule: join.induct) simp_all

lemma sum_list_sort_key: "sum_list (map g (sort_key f xs)) = (sum_list (map g xs) :: nat)"
proof -
  have insort: "sum_list (map g (insort_key f x ys)) = g x + sum_list (map g ys)" for x ys
    by (induction ys) simp_all
  show ?thesis by (induction xs) (simp_all add: insort)
qed

lemma length_dumps_obj:
  "length (dumps (JObj kvs)) \<le> 2 + sum_list (map (\<lambda>(k, v). 6 * length k + 4 + length (dumps v)) kvs)"
proof -
  let ?S = "sort_key fst kvs"
  have "length (dumps (JObj kvs)) = 2 + length (join (map member_str ?S))"
    using sorted_members [of kvs] by simp
  also have "\<dots> \<le> 2 + sum_list (map (\<lambda>s. length s + 1) (map member_str ?S))"
    using length_join [of "map member_str ?S"] by (simp only: add_le_cancel_left)
  also have "sum_list (map (\<lambda>s. length s + 1) (map member_str ?S)) = sum_list (map (\<lambda>m. length (member_str m) + 1) kvs)"
    using sum_list_sort_key [of "\<lambda>m. length (member_str m) + 1"] by (simp add: comp_def)
  also have "\<dots> \<le> sum_list (map (\<lambda>(k, v). 6 * length k + 4 + length (dumps v)) kvs)"
  proof (rule sum_list_mono)
    fix m :: "string \<times> json"
    show "length (member_str m) + 1 \<le> (case m of (k, v) \<Rightarrow> 6 * length k + 4 + length (dumps v))"
      using length_quote [of "fst m"] by (cases m) (simp add: member_str_def)
  qed
  finally show ?thesis by simp
qed

lemma length_dumps_str: "length (dumps (JStr s)) \<le> 6 * length s + 2"
  using length_quote [of s] by simp

lemma length_nat_str: "length (nat_str n) \<le> n + 1"
proof (induction n rule: nat_str.induct)
  case (1 n)
  show ?case
  proof (cases "n < 10")
    case True
    then show ?thesis by (simp add: nat_str.simps [of n])
  next
    case False
    then have "length (nat_str n) = length (nat_str (n div 10)) + 1" by (simp add: nat_str.simps [of n])
    with 1 [OF False] False show ?thesis by simp
  qed
qed

definition interrupted :: "json \<Rightarrow> worktree \<Rightarrow> cli_outcome \<times> worktree" where
  "interrupted plan W = (Cli_raised ''TimeoutExpired'', W)"

definition sample_env :: "(json \<Rightarrow> worktree \<Rightarrow> cli_outcome \<times> worktree) \<Rightarrow> change_env" where
  "sample_env run = \<lparr>en_sha = const_sha, en_dec = utf8_codec, en_enc = ascii_encoder, en_message = (\<lambda>_. []),
     en_run = run, en_refresh = (\<lambda>_. JNull)\<rparr>"

lemma sample_env_fields [simp]:
  "en_sha (sample_env run) = const_sha" "en_dec (sample_env run) = utf8_codec"
  "en_enc (sample_env run) = ascii_encoder" "en_message (sample_env run) err = []"
  "en_run (sample_env run) = run" "en_refresh (sample_env run) ps = JNull" "env_ok (sample_env run)"
  by (simp_all add: sample_env_def env_ok_def)

lemma sample_last_hash:
  assumes "journal_events_of (sample_env run) sample_authority file = Inr es"
  shows "length (last_event_hash es) = 64"
proof (cases "es = []")
  case False
  have "chained event_previous event_hash (event_digest const_sha) (JStr zero_hash) es"
    using assms read_change_journal_chained(1) by (simp add: journal_events_of_def)
  from chained_mem [OF this] False have "event_hash (last es) = event_digest const_sha (last es)" by simp
  then show ?thesis using False
    by (simp add: last_event_hash_def event_digest_def json_text_def chained_digest_def const_sha_def)
qed (simp add: last_event_hash_def zero_hash_def)

lemma sample_sealed_fields [simp]:
  "cs_worktree_id sealed_sample = ''w''" "cs_lease_id sealed_sample = ''l''" "cs_fencing_token sealed_sample = ''f''"
  "cs_operations sealed_sample = [sample_delete]" "cs_repository sealed_sample = ''/r''"
  by (simp_all add: sealed_sample_def sample_changeset_def)

lemma sample_append_ok:
  assumes es: "journal_events_of (sample_env run) sample_authority file = Inr es" and "length es \<le> 100"
    and "length state \<le> 100" "length (dumps evidence) \<le> 100000"
  shows "\<exists>event file'. journal_append (sample_env run) sample_authority sealed_sample state evidence file = (Inr event, file')"
proof -
  obtain payload where p: "encode_changeset const_sha utf8_codec sealed_sample = Inr payload"
    using sealed_sample_encodes by blast
  let ?e = "change_journal_event const_sha utf8_codec sample_authority sealed_sample payload state evidence es"
  have hash: "length (hex (chained_digest const_sha h e)) = 64" for h e
    by (simp add: chained_digest_def const_sha_def)
  have int: "length (dumps (JInt (int (length es) + 1))) \<le> 200"
    using length_nat_str [of "length es + 1"] assms(2) by (simp add: int_str_def nat_add_distrib)
  have str: "length (dumps (JStr s)) \<le> 1000" if "length s \<le> 100" for s
    using length_dumps_str [of s] that by linarith
  have "length (dumps (JObj ?e)) \<le> 200000"
    using length_dumps_obj [of ?e] int assms(4) str [OF assms(3)]
      str [of CHANGE_JOURNAL_SCHEMA] str [of "''w''"] str [of "''l''"] str [of "''f''"]
      str [of "last_event_hash es"] sample_last_hash [OF es]
      str [of "hexdigest const_sha payload"] str [of "changeset_id const_sha utf8_codec sealed_sample"]
      str [of "hex (chained_digest const_sha (last_event_hash es) (event_fields const_sha utf8_codec sample_authority
        sealed_sample payload state evidence es))"] hash
    by (simp add: change_journal_event_def event_fields_def Let_def sample_authority_def CHANGE_JOURNAL_SCHEMA_def
        changeset_id_def const_digest del: dumps.simps)
  then have "fits32 (length (canonical (JObj ?e)))" by (simp add: fits32_def canonical_def del: dumps.simps)
  with es p show ?thesis
    by (auto simp: journal_append_def append_event_def journal_events_of_def sample_authority_def Let_def
        simp del: dumps.simps split: option.split)
qed

lemma sample_delete_fields [simp]:
  "co_op sample_delete = ''delete''" "co_path sample_delete = ''a/b''" "co_dest sample_delete = None"
  "co_before sample_delete = Some (replicate 64 (CHR ''a''))"
  by (simp_all add: sample_delete_def)

lemma sample_evidence:
  "length (dumps (JObj [(''validation'', validation_of (sample_env run) sealed_sample [s])])) \<le> 100000"
proof -
  have obj: "length (dumps (JObj kvs)) \<le> b"
    if "2 + sum_list (map (\<lambda>(k, v). 6 * length k + 4 + length (dumps v)) kvs) \<le> b" for kvs b
    using length_dumps_obj [of kvs] that by linarith
  have str: "length (dumps (JStr t)) \<le> 1000" if "length t \<le> 100" for t
    using length_dumps_str [of t] that by linarith
  let ?status = "JObj [(''path'', JStr ''a/b''), (''status'', JStr (status_name s))]"
  have "length (status_name s) \<le> 100" by (cases s) (simp_all add: status_name_def)
  then have "length (dumps ?status) \<le> 3000"
    using str [of "status_name s"] str [of "''a/b''"] by (intro obj) (simp del: dumps.simps)
  then have "length (dumps (JList [?status])) \<le> 3002" by simp
  moreover have "length (dumps (JBool (all_idempotent [s]))) \<le> 5" by simp
  ultimately have "length (dumps (validation_of (sample_env run) sealed_sample [s])) \<le> 9000"
    using str [of "''simplicio.fast.binary-changeset-validation/v1''"] str [of "replicate 64 (CHR ''a'')"] str [of "''valid''"]
    unfolding validation_of_def validation_report_def
    by (intro obj) (simp add: changeset_id_def const_digest del: dumps.simps)
  then show ?thesis by (intro obj) (simp del: dumps.simps)
qed

definition sample_tree :: "string list \<Rightarrow> worktree" where
  "sample_tree ps = \<lparr>wt_root = ''/r'', wt_read = (\<lambda>p. if p \<in> set ps then Some [1] else None), wt_symlink = (\<lambda>_. False)\<rparr>"

lemma sample_tree_fields [simp]:
  "wt_root (sample_tree ps) = ''/r''" "wt_read (sample_tree ps) p = (if p \<in> set ps then Some [1] else None)"
  "path_symlink (sample_tree ps) p = False" "list_ex (path_symlink (sample_tree ps)) qs = False"
  by (simp_all add: sample_tree_def path_symlink_def list_ex_iff)

lemma sample_delete_status:
  "validate_op const_sha utf8_codec ascii_encoder (sample_tree ps) [] sample_delete =
     (if ''a/b'' \<in> set ps then Inr (Ready, [(''a/b'', None)]) else Inr (Idempotent, []))"
  by (simp add: validate_op_def matches_hash_def const_digest current_content_def dput_def)

lemma sample_validates:
  "validate_for (sample_env run) (sample_tree ps) sealed_sample = Inr [if ''a/b'' \<in> set ps then Ready else Idempotent]"
  by (simp add: validate_for_def validate_changeset_Inr sample_delete_status)

lemma sample_empty: "journal_events_of (sample_env run) sample_authority None = Inr []"
  by (simp add: journal_events_of_def read_change_journal_def)

definition sample_states :: "string list" where
  "sample_states = [''sealed'', ''idempotent'', ''applied'', ''unknown'', ''reconciled'', ''rejected'']"

lemma sample_append_new:
  assumes es: "journal_events_of (sample_env run) sample_authority file = Inr es" "length es \<le> 100"
    and "state \<in> set sample_states" "wf_json evidence" "length (dumps evidence) \<le> 100000"
    and "\<not> list_ex (\<lambda>e. same_change (sample_env run) sealed_sample e \<and> jval e ''state'' = JStr state) es"
  shows "\<exists>event file' f. journal_append (sample_env run) sample_authority sealed_sample state evidence file = (Inr event, file') \<and>
    journal_events_of (sample_env run) sample_authority file' = Inr (es @ [f]) \<and>
    same_change (sample_env run) sealed_sample f \<and> jval f ''state'' = JStr state"
proof -
  have "length state \<le> 100" using assms(3) by (auto simp: sample_states_def)
  from sample_append_ok [OF es this assms(5)] obtain event file' where
    j: "journal_append (sample_env run) sample_authority sealed_sample state evidence file = (Inr event, file')" by blast
  from journal_append_fresh [OF sample_env_fields(7) assms(4) j es(1) assms(6)] j show ?thesis by blast
qed

lemma sample_evidence_wf: "wf_json (JObj [(''validation'', validation_of E c ss)])"
  by (simp add: validation_of_def)

lemma sample_sealed:
  "\<exists>event file f. journal_append (sample_env run) sample_authority sealed_sample ''sealed''
      (JObj [(''validation'', validation_of (sample_env run) sealed_sample [s])]) None = (Inr event, file) \<and>
    journal_events_of (sample_env run) sample_authority file = Inr [f] \<and>
    same_change (sample_env run) sealed_sample f \<and> jval f ''state'' = JStr ''sealed''"
  using sample_append_new [OF sample_empty _ _ sample_evidence_wf sample_evidence, of "''sealed''"]
  by (simp add: sample_states_def)

theorem applied_changeset_is_never_applied_again_witness:
  "\<exists>file W receipt. materialize (sample_env interrupted) sample_authority sealed_sample None (sample_tree []) = (Inr receipt, file, W) \<and>
    success receipt \<and>
    (\<exists>again. materialize (sample_env interrupted) sample_authority sealed_sample file (sample_tree [''a/b'']) =
      (Inr again, file, sample_tree [''a/b'']) \<and> jget again ''status'' = Some (JStr ''idempotent''))"
proof -
  let ?E = "sample_env interrupted" and ?A = sample_authority
  let ?ev = "JObj [(''validation'', validation_of ?E sealed_sample [Idempotent])]"
  from sample_sealed obtain e1 f1 f where j: "journal_append ?E ?A sealed_sample ''sealed'' ?ev None = (Inr e1, f1)"
      "journal_events_of ?E ?A f1 = Inr [f]" "same_change ?E sealed_sample f" "jval f ''state'' = JStr ''sealed''" by metis
  from sample_append_ok [OF j(2) _ _ sample_evidence, of "''idempotent''"] obtain e2 f2 where
    k: "journal_append ?E ?A sealed_sample ''idempotent'' ?ev f1 = (Inr e2, f2)" by fastforce
  let ?receipt = "change_receipt ?E sealed_sample ''idempotent''
    [(''journal'', JObj e2), (''validation'', validation_of ?E sealed_sample [Idempotent]), (''refresh'', not_needed)]"
  have m: "materialize ?E ?A sealed_sample None (sample_tree []) = (Inr ?receipt, f2, sample_tree [])"
    using j(1) k sample_validates [of interrupted "[]"]
    by (simp add: materialize_attempts [OF sample_empty] attempted_def last_change_event_def attempt_changeset_def
        all_idempotent_def Let_def)
  have "success ?receipt" by (simp add: success_def change_receipt_def)
  with applied_changeset_is_never_applied_again [OF sample_env_fields(7) sample_empty _ m this rtranclp.rtrancl_refl,
      of "sample_env interrupted" "sample_tree [''a/b'']"] m show ?thesis by simp
qed

lemma sample_plan:
  "\<exists>plan. mechanical_plan const_sha utf8_codec ascii_encoder (sample_tree [''a/b'']) sealed_sample = Inr plan"
  by (simp add: mechanical_plan_def plan_operation_def read_source_def safe_path_def changed_paths_def
      operation_paths_def ebind_def)

lemma sample_interrupted:
  "adapter_materialize (sample_env interrupted) (sample_tree [''a/b'']) sealed_sample =
     (Inl (Dev_cli_unknown_effect ''TimeoutExpired''), sample_tree [''a/b''])"
  using sample_plan by (auto simp: adapter_materialize_def interrupted_def)

lemma sample_locked:
  "\<exists>receipt file e f. materialize (sample_env interrupted) sample_authority sealed_sample None (sample_tree [''a/b'']) =
      (Inr receipt, file, sample_tree [''a/b'']) \<and> jget receipt ''status'' = Some (JStr ''locked'') \<and>
    journal_events_of (sample_env interrupted) sample_authority file = Inr [e, f] \<and>
    same_change (sample_env interrupted) sealed_sample e \<and> jval e ''state'' = JStr ''sealed'' \<and>
    same_change (sample_env interrupted) sealed_sample f \<and> jval f ''state'' = JStr ''unknown''"
proof -
  let ?E = "sample_env interrupted" and ?A = sample_authority and ?err = "Dev_cli_unknown_effect ''TimeoutExpired''"
  let ?ev = "JObj [(''validation'', validation_of ?E sealed_sample [Ready])]"
  let ?ev1 = "JObj [(''reason_code'', JStr (reason_code ?err)), (''message'', JStr (en_message ?E ?err))]"
  from sample_sealed obtain e1 f1 f where j: "journal_append ?E ?A sealed_sample ''sealed'' ?ev None = (Inr e1, f1)"
      "journal_events_of ?E ?A f1 = Inr [f]" "same_change ?E sealed_sample f" "jval f ''state'' = JStr ''sealed''" by metis
  have small: "length (dumps ?ev1) \<le> 100000"
  proof -
    have "length (dumps ?ev1) \<le> 2000"
      by (simp add: reason_code_def REASON_CODES_def) code_simp
    then show ?thesis by simp
  qed
  from sample_append_new [OF j(2) _ _ _ small, of "''unknown''"] j(4) obtain e2 f2 g where
    k: "journal_append ?E ?A sealed_sample ''unknown'' ?ev1 f1 = (Inr e2, f2)" "journal_events_of ?E ?A f2 = Inr [f, g]"
      "same_change ?E sealed_sample g" "jval g ''state'' = JStr ''unknown''"
    by (fastforce simp: sample_states_def)
  let ?receipt = "change_receipt ?E sealed_sample ''locked'' [(''reason_code'', JStr ''unknown_effect''), (''evidence'', ?ev1),
    (''journal'', JObj e2), (''reconcile_required'', JBool True)]"
  have "materialize ?E ?A sealed_sample None (sample_tree [''a/b'']) = (Inr ?receipt, f2, sample_tree [''a/b''])"
    using j(1) k(1) sample_validates [of interrupted "[''a/b'']"] sample_interrupted
    by (simp add: materialize_attempts [OF sample_empty] attempted_def last_change_event_def attempt_changeset_def
        all_idempotent_def apply_changeset_def failed_attempt_def unstructured_def is_unknown_effect_def Let_def)
  moreover have "jget ?receipt ''status'' = Some (JStr ''locked'')" by (simp add: change_receipt_def)
  ultimately show ?thesis using j k by blast
qed

theorem unknown_effect_locks_witness:
  "\<exists>receipt file. materialize (sample_env interrupted) sample_authority sealed_sample None (sample_tree [''a/b'']) =
      (Inr receipt, file, sample_tree [''a/b'']) \<and>
    (\<exists>again. materialize (sample_env interrupted) sample_authority sealed_sample file (sample_tree []) =
      (Inr again, file, sample_tree []) \<and> jget again ''status'' = Some (JStr ''locked''))"
proof -
  from sample_locked obtain receipt "file" where
    m: "materialize (sample_env interrupted) sample_authority sealed_sample None (sample_tree [''a/b'']) =
      (Inr receipt, file, sample_tree [''a/b''])" "jget receipt ''status'' = Some (JStr ''locked'')" by blast
  have "attempted (sample_env interrupted) sealed_sample []" by (simp add: attempted_def last_change_event_def)
  from unknown_effect_locks [OF sample_env_fields(7) sample_empty this _ _ _ sample_interrupted m,
      where F = "sample_env interrupted" and ?W2.0 = "sample_tree []"]
    sample_validates [of interrupted "[''a/b'']"] m show ?thesis
    by (simp add: all_idempotent_def)
qed

lemma sample_reconciled:
  "\<exists>file e f g. journal_events_of (sample_env interrupted) sample_authority file = Inr [e, f, g] \<and>
    same_change (sample_env interrupted) sealed_sample e \<and> jval e ''state'' = JStr ''sealed'' \<and>
    same_change (sample_env interrupted) sealed_sample f \<and> jval f ''state'' = JStr ''unknown'' \<and>
    same_change (sample_env interrupted) sealed_sample g \<and> jval g ''state'' = JStr ''reconciled''"
proof -
  from sample_locked obtain "file" e f where
    f: "journal_events_of (sample_env interrupted) sample_authority file = Inr [e, f]"
      "same_change (sample_env interrupted) sealed_sample e" "jval e ''state'' = JStr ''sealed''"
      "same_change (sample_env interrupted) sealed_sample f" "jval f ''state'' = JStr ''unknown''" by blast
  from sample_append_new [OF f(1), of "''reconciled''" "JObj []"] f(2-5) show ?thesis
    by (fastforce simp: sample_states_def)
qed

theorem second_unknown_effect_is_not_locked_witness:
  "\<exists>file receipt. materialize (sample_env interrupted) sample_authority sealed_sample file (sample_tree [''a/b'']) =
      (Inr receipt, file, sample_tree [''a/b'']) \<and> jget receipt ''status'' = Some (JStr ''locked'') \<and>
    materialize (sample_env interrupted) sample_authority sealed_sample file (sample_tree []) =
      attempt_changeset (sample_env interrupted) sample_authority sealed_sample file (sample_tree [])"
proof -
  from sample_reconciled obtain "file" e f g where
    es: "journal_events_of (sample_env interrupted) sample_authority file = Inr [e, f, g]"
      "same_change (sample_env interrupted) sealed_sample e" "jval e ''state'' = JStr ''sealed''"
      "same_change (sample_env interrupted) sealed_sample f" "jval f ''state'' = JStr ''unknown''"
      "same_change (sample_env interrupted) sealed_sample g" "jval g ''state'' = JStr ''reconciled''" by blast
  have last: "last_change_event (sample_env interrupted) sealed_sample [e, f, g] = Some g"
    using es(6) by (simp add: last_change_event_def same_change_def)
  from second_unknown_effect_is_not_locked [OF es(1) last _ _ _ _ _ _ _ _ sample_interrupted,
      where F = "sample_env interrupted" and ?W2.0 = "sample_tree []"]
    es(2-7) sample_validates [of interrupted "[''a/b'']"] show ?thesis
    by (fastforce simp: state_in_def sample_authority_def all_idempotent_def)
qed

definition two_removals :: changeset where
  "two_removals = sealed_sample\<lparr>cs_operations := [sample_delete, sample_delete\<lparr>co_path := ''x''\<rparr>]\<rparr>"

theorem partly_applied_changeset_escapes_witness:
  "validate_for (sample_env interrupted) (sample_tree [''x'']) two_removals = Inr [Idempotent, Ready] \<and>
   (materialize (sample_env interrupted) sample_authority two_removals None (sample_tree [''x'']) =
      (case journal_append (sample_env interrupted) sample_authority two_removals ''sealed''
          (JObj [(''validation'', validation_of (sample_env interrupted) two_removals [Idempotent, Ready])]) None of
         (Inl err, file1) \<Rightarrow> failed_attempt (sample_env interrupted) sample_authority two_removals err file1 (sample_tree [''x''])
       | (Inr _, file1) \<Rightarrow> (Inl File_not_found, file1, sample_tree [''x''])))"
proof -
  have ops: "cs_operations two_removals = [sample_delete, sample_delete\<lparr>co_path := ''x''\<rparr>]"
    "cs_repository two_removals = ''/r''"
    by (simp_all add: two_removals_def)
  have valid: "validate_for (sample_env interrupted) (sample_tree [''x'']) two_removals = Inr [Idempotent, Ready]"
    by (simp add: validate_for_def validate_changeset_Inr ops validate_op_def matches_hash_def const_digest
        current_content_def)
  have "attempted (sample_env interrupted) two_removals []" by (simp add: attempted_def last_change_event_def)
  from partly_applied_changeset_escapes [OF sample_empty this valid _ ops(1)] valid show ?thesis
    by (simp add: all_idempotent_def)
qed

end
