(* ===== verification/JsonFields.thy ===== *)
theory JsonFields
  imports Json
begin

text \<open>
  Python's ways of taking a parsed JSON value apart, with the exceptions they raise when the value
  has another shape: \<open>value[key]\<close>, \<open>value.get(key)\<close>, \<open>int(value)\<close>, \<open>str(value)\<close>, iteration and
  \<open>dict(value)\<close>; and POSIX paths: their resolution and their final component.  A component theory wraps an exception its code does not catch
  in its own error type.
\<close>

datatype py_exc = Key_error | Type_error | Value_error | Attribute_error

section \<open>Subscripts and lookups\<close>

definition py_getitem :: "json \<Rightarrow> string \<Rightarrow> py_exc + json" where
  "py_getitem v k =
     (case v of
        JObj kvs \<Rightarrow> (case map_of kvs k of None \<Rightarrow> Inl Key_error | Some w \<Rightarrow> Inr w)
      | _ \<Rightarrow> Inl Type_error)"

definition field_or_null :: "(string \<times> json) list \<Rightarrow> string \<Rightarrow> json" where
  "field_or_null kvs k = (case map_of kvs k of None \<Rightarrow> JNull | Some w \<Rightarrow> w)"

definition py_get :: "json \<Rightarrow> string \<Rightarrow> py_exc + json" where
  "py_get v k = (case v of JObj kvs \<Rightarrow> Inr (field_or_null kvs k) | _ \<Rightarrow> Inl Attribute_error)"

section \<open>\<open>int(value)\<close>\<close>

definition int_digits :: "string \<Rightarrow> nat option" where
  "int_digits s =
     (if s \<noteq> [] \<and> is_digit (hd s) \<and> is_digit (last s) \<and> \<not> has_sub ''__'' s \<and>
         list_all (\<lambda>c. is_digit c \<or> c = CHR ''_'') s
      then Some (digits_val (filter is_digit s)) else None)"

definition int_text :: "string \<Rightarrow> int option" where
  "int_text s =
     (case strip s of
        [] \<Rightarrow> None
      | c # r \<Rightarrow>
          if c = CHR ''-'' then map_option (\<lambda>n. - int n) (int_digits r)
          else if c = CHR ''+'' then map_option int (int_digits r)
          else map_option int (int_digits (c # r)))"

definition py_int :: "json \<Rightarrow> py_exc + int" where
  "py_int v =
     (case v of
        JInt i \<Rightarrow> Inr i
      | JBool b \<Rightarrow> Inr (if b then 1 else 0)
      | JStr s \<Rightarrow> (case int_text s of None \<Rightarrow> Inl Value_error | Some i \<Rightarrow> Inr i)
      | _ \<Rightarrow> Inl Type_error)"

section \<open>\<open>str(value)\<close>, \<open>for item in value\<close> and \<open>dict(value)\<close>\<close>

text \<open>
  The text Python gives a value: a string as it is, the elements of a container by their \<open>repr\<close>, which
  quotes and escapes strings.  Characters above the ASCII range are taken to be printable.
\<close>

definition repr_char :: "char \<Rightarrow> char \<Rightarrow> string" where
  "repr_char q c =
     (let n = of_char c :: nat in
      if c = q \<or> c = CHR 0x5C then [CHR 0x5C, c]
      else if n = 9 then [CHR 0x5C, CHR ''t'']
      else if n = 10 then [CHR 0x5C, CHR ''n'']
      else if n = 13 then [CHR 0x5C, CHR ''r'']
      else if n < 32 \<or> n = 127 then [CHR 0x5C, CHR ''x''] @ hex (encode [c])
      else [c])"

definition py_quote :: "string \<Rightarrow> string" where
  "py_quote s =
     (let q = (if CHR 0x27 \<in> set s \<and> CHR 0x22 \<notin> set s then CHR 0x22 else CHR 0x27)
      in q # concat (map (repr_char q) s) @ [q])"

fun join_comma :: "string list \<Rightarrow> string" where
  "join_comma [] = []"
| "join_comma [s] = s"
| "join_comma (s # t # ss) = s @ '', '' @ join_comma (t # ss)"

fun py_repr :: "json \<Rightarrow> string" where
  "py_repr JNull = ''None''"
| "py_repr (JBool b) = (if b then ''True'' else ''False'')"
| "py_repr (JInt i) = int_str i"
| "py_repr (JStr s) = py_quote s"
| "py_repr (JList vs) = ''['' @ join_comma (map py_repr vs) @ '']''"
| "py_repr (JObj kvs) = ''{'' @ join_comma (map (\<lambda>(k, v). py_quote k @ '': '' @ py_repr v) kvs) @ ''}''"

definition py_str :: "json \<Rightarrow> string" where
  "py_str v = (case v of JStr s \<Rightarrow> s | _ \<Rightarrow> py_repr v)"

definition iterate :: "json \<Rightarrow> py_exc + json list" where
  "iterate v =
     (case v of
        JList vs \<Rightarrow> Inr vs
      | JObj kvs \<Rightarrow> Inr (map (\<lambda>(k, _). JStr k) kvs)
      | JStr s \<Rightarrow> Inr (map (\<lambda>c. JStr [c]) s)
      | _ \<Rightarrow> Inl Type_error)"

text \<open>\<open>dict\<close> of a mapping copies it; of another iterable, every item has to be a pair with a hashable key.\<close>

definition as_pair :: "json \<Rightarrow> py_exc + json \<times> json" where
  "as_pair v =
     ebind (iterate v) (\<lambda>vs.
       (case vs of
          [k, w] \<Rightarrow> (case k of JList _ \<Rightarrow> Inl Type_error | JObj _ \<Rightarrow> Inl Type_error | _ \<Rightarrow> Inr (k, w))
        | _ \<Rightarrow> Inl Value_error))"

text \<open>A key equal to one already there (\<open>True\<close> and \<open>1\<close>) keeps that one.\<close>

definition put_pair :: "json \<times> json \<Rightarrow> (json, json) dict \<Rightarrow> (json, json) dict" where
  "put_pair kw d =
     (case List.find (\<lambda>(j, _). json_eq j (fst kw)) d of
        None \<Rightarrow> d @ [kw]
      | Some (j, _) \<Rightarrow> dput j (snd kw) d)"

definition py_dict :: "json \<Rightarrow> py_exc + (json, json) dict" where
  "py_dict v =
     (case v of
        JObj kvs \<Rightarrow> Inr (map (\<lambda>(k, w). (JStr k, w)) kvs)
      | _ \<Rightarrow> ebind (iterate v) (\<lambda>vs. ebind (emap as_pair vs) (\<lambda>ps. Inr (fold put_pair ps []))))"

lemma py_str_JStr [simp]: "py_str (JStr s) = s"
  by (simp add: py_str_def)

lemma py_dict_JObj [simp]: "py_dict (JObj kvs) = Inr (map (\<lambda>(k, w). (JStr k, w)) kvs)"
  by (simp add: py_dict_def)

lemma field_simps [simp]:
  "py_get (JObj kvs) k = Inr (field_or_null kvs k)"
  "py_getitem (JObj kvs) k = (case map_of kvs k of None \<Rightarrow> Inl Key_error | Some w \<Rightarrow> Inr w)"
  "py_int (JInt i) = Inr i"
  by (simp_all add: py_get_def py_getitem_def py_int_def)

lemma field_or_null_dput [dict_simps]:
  "field_or_null (dput k v kvs) j = (if j = k then v else field_or_null kvs j)"
  by (simp add: field_or_null_def dict_simps)

section \<open>\<open>Path(s).name\<close>\<close>

definition path_name :: "string \<Rightarrow> string" where
  "path_name s = (if path_parts s = [] then [] else last (path_parts s))"

lemma path_name_component:
  assumes "path_name s = s"
  shows "CHR ''/'' \<notin> set s"
proof
  assume slash: "CHR ''/'' \<in> set s"
  have parts: "p \<in> set (split_on d t) \<Longrightarrow> d \<notin> set p" for p d and t :: string
    by (induction t arbitrary: p) (auto split: if_splits list.splits)
  have "path_parts s \<noteq> []" using assms slash by (auto simp: path_name_def)
  then have "s \<in> set (path_parts s)" using assms by (metis last_in_set path_name_def)
  then have "s \<in> set (split_on (CHR ''/'') s)" by (simp add: path_parts_def)
  with slash parts show False by blast
qed

section \<open>Paths\<close>

text \<open>An absolute path is the list of its components; resolution drops \<open>..\<close> with the component before.\<close>

fun resolve_path :: "string list \<Rightarrow> string list \<Rightarrow> string list" where
  "resolve_path base [] = base"
| "resolve_path base (p # ps) = resolve_path (if p = ''..'' then butlast base else base @ [p]) ps"

definition join_path :: "string list \<Rightarrow> string \<Rightarrow> string list" where
  "join_path base s = resolve_path (if is_absolute s then [] else base) (path_parts s)"

definition strictly_inside :: "string list \<Rightarrow> string list \<Rightarrow> bool" where
  "strictly_inside dir p \<longleftrightarrow> length dir < length p \<and> take (length dir) p = dir"

lemma values_dput: "(\<forall>(j, w) \<in> set d. P j w) \<Longrightarrow> P k v \<Longrightarrow> (\<forall>(j, w) \<in> set (dput k v d). P j w)"
  using set_dput [of k v d] by fast

section \<open>Reading back a flat object\<close>

lemma plain_JList [simp]: "plain (JList vs) \<longleftrightarrow> (\<forall>v \<in> set vs. plain v)"
  by (induction vs) (auto simp: plain_def)

lemma plain_JBool [simp]: "plain (JBool b)"
  by (simp add: plain_def)

section \<open>Objects read back from their text\<close>

definition norm_members :: "(string \<times> json) list \<Rightarrow> (string \<times> json) list" where
  "norm_members kvs = sort_key fst (map (\<lambda>(k, v). (k, norm_json v)) kvs)"

lemma norm_JObj: "norm_json (JObj kvs) = JObj (norm_members kvs)"
  by (simp add: norm_members_def)

lemma norm_members_dpop: "norm_members (dpop k kvs) = dpop k (norm_members kvs)"
proof -
  have "dpop k (norm_members kvs) = sort_key fst (dpop k (map (\<lambda>(k, v). (k, norm_json v)) kvs))"
    unfolding norm_members_def dpop_def by (rule filter_sort)
  also have "dpop k (map (\<lambda>(k, v). (k, norm_json v)) kvs) = map (\<lambda>(k, v). (k, norm_json v)) (dpop k kvs)"
    by (induction kvs) (auto simp: dpop_def)
  finally show ?thesis by (simp add: norm_members_def)
qed

lemma map_of_norm_members:
  assumes "distinct (keys kvs)"
  shows "map_of (norm_members kvs) k = map_option norm_json (map_of kvs k)"
proof -
  have "distinct (keys (map (\<lambda>(k, v). (k, norm_json v)) kvs))" using assms by (simp only: map_fst_norm)
  then have "map_of (norm_members kvs) = map_of (map (\<lambda>(k, v). (k, norm_json v)) kvs)"
    unfolding norm_members_def by (rule map_of_sort_key_fst)
  then show ?thesis by (simp add: map_of_map)
qed

lemma field_or_null_norm:
  "distinct (keys kvs) \<Longrightarrow> field_or_null (norm_members kvs) k = norm_json (field_or_null kvs k)"
  by (simp add: field_or_null_def map_of_norm_members split: option.split)

lemma canonical_norm_members: "canonical (JObj (norm_members kvs)) = canonical (JObj kvs)"
  using canonical_norm [of "JObj kvs"] by (simp only: norm_JObj)

lemma wf_field_or_null: "wf_json (JObj kvs) \<Longrightarrow> wf_json (field_or_null kvs k)"
  by (auto simp: field_or_null_def split: option.split dest!: map_of_SomeD)

lemma loads_object_line:
  "wf_json (JObj kvs) \<Longrightarrow> loads (dumps (JObj kvs) @ [CHR 0x0A]) = Some (JObj (norm_members kvs))"
  using loads_dumps_line [of "JObj kvs"] by (simp only: norm_JObj)

end
