(* ===== verification/Streaming.thy ===== *)
theory Streaming
  imports JsonFields
begin

text \<open>
  \<open>simplicio_fast/streaming.py\<close>: blocks of a byte stream appended to one segment file, a checkpoint
  rewritten after every block, and a manifest published at the end.  The files of the store are a
  map from directory (the generation, \<open>[]\<close> for the root) and file name to bytes.  A replace of a
  file that Windows keeps locked is tried four times; how often each coming replace is refused is
  the environment's answer, the list \<open>st_refusals\<close>.  The temporary file of a replace, which
  nothing reads, is not part of the state.
\<close>

section \<open>The store\<close>

definition STREAM_SCHEMA :: string where
  "STREAM_SCHEMA = ''simplicio.fast.streaming-store/v1''"

definition MAX_BLOCK_BYTES :: int where
  "MAX_BLOCK_BYTES = 16 * 1024 * 1024"

definition MAX_RANGE_BYTES :: int where
  "MAX_RANGE_BYTES = 64 * 1024 * 1024"

definition ATOMIC_REPLACE_ATTEMPTS :: nat where
  "ATOMIC_REPLACE_ATTEMPTS = 4"

datatype stream_error =
    Atomic_replace_unavailable
  | Invalid_chunk
  | Invalid_checkpoint
  | Missing_segment
  | Checkpoint_sequence
  | Checkpoint_bounds
  | Checkpoint_digest
  | Segment_tail
  | Invalid_generation
  | Invalid_block_size
  | Checkpoint_mismatch
  | Resume_source_mismatch
  | Checkpoint_ahead
  | Checkpoint_length
  | Source_unavailable
  | Invalid_range
  | Missing_manifest
  | Invalid_manifest
  | Segment_bounds
  | Block_digest
  | Manifest_digest
  | Injected_stream_failure
  | Is_a_directory
  | Stream_escape py_exc

definition SEGMENT_FILE :: string where
  "SEGMENT_FILE = ''segment-000000.bin''"

definition CHECKPOINT_FILE :: string where
  "CHECKPOINT_FILE = ''checkpoint.json''"

definition MANIFEST_FILE :: string where
  "MANIFEST_FILE = ''manifest.json''"

definition CURRENT_FILE :: string where
  "CURRENT_FILE = ''current.json''"

record stream_store =
  st_files :: "string \<times> string \<Rightarrow> bytes option"
  st_refusals :: "nat list"

definition put_file :: "string \<times> string \<Rightarrow> bytes \<Rightarrow> stream_store \<Rightarrow> stream_store" where
  "put_file p b s = s\<lparr>st_files := (st_files s)(p \<mapsto> b)\<rparr>"

definition remove_file :: "string \<times> string \<Rightarrow> stream_store \<Rightarrow> stream_store" where
  "remove_file p s = s\<lparr>st_files := (st_files s)(p := None)\<rparr>"

definition escape :: "py_exc + 'a \<Rightarrow> stream_error + 'a" where
  "escape m = (case m of Inl e \<Rightarrow> Inl (Stream_escape e) | Inr x \<Rightarrow> Inr x)"

section \<open>Atomic publication\<close>

text \<open>One \<open>os.replace\<close> that is refused \<open>refused\<close> times before it is let through.\<close>

function replace_attempts :: "nat \<Rightarrow> nat \<Rightarrow> bool" where
  "replace_attempts attempt refused =
     (if attempt < ATOMIC_REPLACE_ATTEMPTS then
        (if refused = 0 then True
         else if attempt + 1 \<ge> ATOMIC_REPLACE_ATTEMPTS then False
         else replace_attempts (attempt + 1) (refused - 1))
      else True)"
  by pat_completeness auto
termination by (relation "measure (\<lambda>(attempt, refused). ATOMIC_REPLACE_ATTEMPTS - attempt)") auto

declare replace_attempts.simps [simp del]

definition atomic_replace ::
  "string \<times> string \<Rightarrow> bytes \<Rightarrow> stream_store \<Rightarrow> (stream_error + unit) \<times> stream_store" where
  "atomic_replace p content s =
     (let refused = (case st_refusals s of [] \<Rightarrow> 0 | n # _ \<Rightarrow> n);
          s1 = s\<lparr>st_refusals := drop 1 (st_refusals s)\<rparr>
      in if replace_attempts 0 refused then (Inr (), put_file p content s1)
         else (Inl Atomic_replace_unavailable, s1))"

definition json_line :: "json \<Rightarrow> bytes" where
  "json_line v = encode (dumps v @ [CHR 0x0A])"

definition atomic_json ::
  "string \<times> string \<Rightarrow> json \<Rightarrow> stream_store \<Rightarrow> (stream_error + unit) \<times> stream_store" where
  "atomic_json p v s = atomic_replace p (json_line v) s"

section \<open>Cutting a stream into blocks\<close>

function full_blocks :: "nat \<Rightarrow> bytes \<Rightarrow> bytes list \<times> bytes" where
  "full_blocks b pending =
     (if 0 < b \<and> b \<le> length pending then
        (let (blocks, rest) = full_blocks b (drop b pending) in (take b pending # blocks, rest))
      else ([], pending))"
  by pat_completeness auto
termination by (relation "measure (\<lambda>(b, pending). length pending)") auto

declare full_blocks.simps [simp del]

text \<open>
  The blocks the generator yields, and whether it then raises \<open>invalid_chunk\<close>; a chunk that is
  not a \<open>bytes\<close> object is \<open>None\<close>.
\<close>

fun blocks :: "nat \<Rightarrow> bytes option list \<Rightarrow> bytes \<Rightarrow> bytes list \<times> bool" where
  "blocks b [] pending = (if pending \<noteq> [] then [pending] else [], False)"
| "blocks b (None # chunks) pending = ([], True)"
| "blocks b (Some chunk # chunks) pending =
     (let (yielded, rest) = full_blocks b (pending @ chunk);
          (later, raises) = blocks b chunks rest
      in (yielded @ later, raises))"

section \<open>Checkpoints\<close>

definition load_checkpoint :: "string \<Rightarrow> stream_store \<Rightarrow> stream_error + (string \<times> json) list" where
  "load_checkpoint generation s =
     (case Option.bind (st_files s (generation, CHECKPOINT_FILE)) (\<lambda>raw. loads (decode raw)) of
        None \<Rightarrow> Inl Invalid_checkpoint
      | Some (JObj kvs) \<Rightarrow>
          (if \<not> json_eq (field_or_null kvs ''schema'') (JStr STREAM_SCHEMA) \<or>
              (case map_of kvs ''blocks'' of Some (JList _) \<Rightarrow> False | _ \<Rightarrow> True)
           then Inl Invalid_checkpoint else Inr kvs)
      | Some _ \<Rightarrow> Inl (Stream_escape Attribute_error))"

definition checkpoint_blocks :: "(string \<times> json) list \<Rightarrow> json list" where
  "checkpoint_blocks kvs = (case map_of kvs ''blocks'' of Some (JList bs) \<Rightarrow> bs | _ \<Rightarrow> [])"

primrec validate_blocks ::
  "(bytes \<Rightarrow> bytes) \<Rightarrow> bytes \<Rightarrow> nat \<Rightarrow> nat \<Rightarrow> json list \<Rightarrow> stream_error + nat" where
  "validate_blocks sha data cursor index [] = Inr cursor"
| "validate_blocks sha data cursor index (block # rest) =
     ebind (escape (py_get block ''index'')) (\<lambda>i.
       if \<not> json_eq i (JInt (int index)) then Inl Checkpoint_sequence
       else
         ebind (escape (ebind (py_getitem block ''length'') py_int)) (\<lambda>len.
           if len < 1 \<or> int cursor + len > int (length data) then Inl Checkpoint_bounds
           else
             (let payload = slice cursor (cursor + nat len) data in
              ebind (escape (py_get block ''sha256'')) (\<lambda>digest.
                if \<not> json_eq (JStr (hexdigest sha payload)) digest then Inl Checkpoint_digest
                else validate_blocks sha data (cursor + nat len) (Suc index) rest))))"

definition validate_existing ::
  "(bytes \<Rightarrow> bytes) \<Rightarrow> string \<Rightarrow> (string \<times> json) list \<Rightarrow> stream_store \<Rightarrow> stream_error + unit" where
  "validate_existing sha generation checkpoint s =
     (case st_files s (generation, SEGMENT_FILE) of
        None \<Rightarrow> Inl Missing_segment
      | Some data \<Rightarrow>
          ebind (validate_blocks sha data 0 0 (checkpoint_blocks checkpoint)) (\<lambda>cursor.
            if cursor \<noteq> length data then Inl Segment_tail else Inr ()))"

section \<open>Building a generation\<close>

definition block_entry :: "(bytes \<Rightarrow> bytes) \<Rightarrow> nat \<Rightarrow> bytes \<Rightarrow> json" where
  "block_entry sha index payload =
     JObj [(''index'', JInt (int index)), (''length'', JInt (int (length payload))),
           (''sha256'', JStr (hexdigest sha payload))]"

definition new_checkpoint :: "string \<Rightarrow> nat \<Rightarrow> (string \<times> json) list" where
  "new_checkpoint generation b =
     [(''schema'', JStr STREAM_SCHEMA), (''generation'', JStr generation),
      (''block_bytes'', JInt (int b)), (''input_bytes'', JInt 0), (''blocks'', JList [])]"

definition extend_checkpoint :: "json \<Rightarrow> nat \<Rightarrow> (string \<times> json) list \<Rightarrow> (string \<times> json) list" where
  "extend_checkpoint entry input_bytes kvs =
     dput ''input_bytes'' (JInt (int input_bytes))
       (dput ''blocks'' (JList (checkpoint_blocks kvs @ [entry])) kvs)"

text \<open>
  The loop of \<open>build\<close> over the yielded blocks.  \<open>source\<close> is what was fed to the running digest;
  the result carries the checkpoint, the source and the number of appended blocks.
\<close>

primrec build_loop ::
  "(bytes \<Rightarrow> bytes) \<Rightarrow> string \<Rightarrow> nat option \<Rightarrow> bytes list \<Rightarrow> nat \<Rightarrow> bytes \<Rightarrow> nat \<Rightarrow>
     (string \<times> json) list \<Rightarrow> stream_store \<Rightarrow>
     (stream_error + (string \<times> json) list \<times> bytes \<times> nat) \<times> stream_store" where
  "build_loop sha generation fail_after [] index source appended checkpoint s =
     (Inr (checkpoint, source, appended), s)"
| "build_loop sha generation fail_after (payload # rest) index source appended checkpoint s =
     (if index < length (checkpoint_blocks checkpoint) then
        (let expected = checkpoint_blocks checkpoint ! index in
         case escape (ebind (py_getitem expected ''length'') (\<lambda>len.
                if \<not> json_eq (JInt (int (length payload))) len then Inr False
                else ebind (py_getitem expected ''sha256'') (\<lambda>digest.
                       Inr (json_eq (JStr (hexdigest sha payload)) digest)))) of
           Inl e \<Rightarrow> (Inl e, s)
         | Inr same \<Rightarrow>
             (if \<not> same then (Inl Resume_source_mismatch, s)
              else build_loop sha generation fail_after rest (Suc index) (source @ payload) appended
                     checkpoint s))
      else
        (let written = (case st_files s (generation, SEGMENT_FILE) of None \<Rightarrow> [] | Some d \<Rightarrow> d);
             s1 = put_file (generation, SEGMENT_FILE) (written @ payload) s;
             checkpoint1 = extend_checkpoint (block_entry sha index payload)
                 (length (source @ payload)) checkpoint
         in case atomic_json (generation, CHECKPOINT_FILE) (JObj checkpoint1) s1 of
              (Inl e, s2) \<Rightarrow> (Inl e, s2)
            | (Inr _, s2) \<Rightarrow>
                (if (case fail_after of None \<Rightarrow> False | Some k \<Rightarrow> appended + 1 \<ge> k)
                 then (Inl Injected_stream_failure, s2)
                 else build_loop sha generation fail_after rest (Suc index) (source @ payload)
                        (appended + 1) checkpoint1 s2)))"

definition block_length_sum :: "json list \<Rightarrow> stream_error + int" where
  "block_length_sum bs =
     ebind (emap (\<lambda>v. escape (ebind (py_getitem v ''length'') py_int)) bs) (\<lambda>ns. Inr (sum_list ns))"

definition stream_manifest ::
  "(bytes \<Rightarrow> bytes) \<Rightarrow> string \<Rightarrow> nat \<Rightarrow> bytes \<Rightarrow> json list \<Rightarrow> (string \<times> json) list" where
  "stream_manifest sha generation b source bs =
     [(''schema'', JStr STREAM_SCHEMA), (''generation'', JStr generation),
      (''block_bytes'', JInt (int b)), (''input_bytes'', JInt (int (length source))),
      (''source_sha256'', JStr (hexdigest sha source)), (''blocks'', JList bs),
      (''segment'', JStr SEGMENT_FILE)]"

definition publish_manifest ::
  "(bytes \<Rightarrow> bytes) \<Rightarrow> string \<Rightarrow> nat \<Rightarrow> (string \<times> json) list \<times> bytes \<times> nat \<Rightarrow> stream_store \<Rightarrow>
     (stream_error + (string \<times> json) list) \<times> stream_store" where
  "publish_manifest sha generation b built s =
     (case built of (checkpoint, source, appended) \<Rightarrow>
        let bs = checkpoint_blocks checkpoint; n = length source in
        if length bs > n div b + (if n mod b \<noteq> 0 then 1 else 0) then (Inl Checkpoint_ahead, s)
        else
          (case block_length_sum bs of
             Inl e \<Rightarrow> (Inl e, s)
           | Inr input_size \<Rightarrow>
               (if int n \<noteq> input_size then (Inl Checkpoint_length, s)
                else
                  (let manifest = stream_manifest sha generation b source bs in
                   case atomic_json (generation, MANIFEST_FILE) (JObj manifest) s of
                     (Inl e, s1) \<Rightarrow> (Inl e, s1)
                   | (Inr _, s1) \<Rightarrow>
                       (case atomic_json ([], CURRENT_FILE) (JObj manifest) s1 of
                          (Inl e, s2) \<Rightarrow> (Inl e, s2)
                        | (Inr _, s2) \<Rightarrow>
                            (Inr (manifest @ [(''status'', JStr ''published''),
                                   (''appended_blocks'', JInt (int appended))]),
                             remove_file (generation, CHECKPOINT_FILE) s2))))))"

definition start_build ::
  "(bytes \<Rightarrow> bytes) \<Rightarrow> string \<Rightarrow> nat \<Rightarrow> bool \<Rightarrow> stream_store \<Rightarrow>
     (stream_error + (string \<times> json) list) \<times> stream_store" where
  "start_build sha generation b resume s =
     (if resume then
        (ebind (load_checkpoint generation s) (\<lambda>checkpoint.
           if \<not> json_eq (field_or_null checkpoint ''generation'') (JStr generation) \<or>
              \<not> json_eq (field_or_null checkpoint ''block_bytes'') (JInt (int b))
           then Inl Checkpoint_mismatch
           else ebind (validate_existing sha generation checkpoint s) (\<lambda>_. Inr checkpoint)), s)
      else
        (case atomic_json (generation, CHECKPOINT_FILE) (JObj (new_checkpoint generation b)) s of
           (Inl e, s1) \<Rightarrow> (Inl e, s1)
         | (Inr _, s1) \<Rightarrow>
             (Inr (new_checkpoint generation b), put_file (generation, SEGMENT_FILE) [] s1)))"

definition build_stream ::
  "(bytes \<Rightarrow> bytes) \<Rightarrow> bytes option list \<Rightarrow> string \<Rightarrow> int \<Rightarrow> bool \<Rightarrow> nat option \<Rightarrow> stream_store \<Rightarrow>
     (stream_error + (string \<times> json) list) \<times> stream_store" where
  "build_stream sha chunks generation block_bytes resume fail_after s =
     (if generation = [] \<or> path_name generation \<noteq> generation then (Inl Invalid_generation, s)
      else if \<not> (1 \<le> block_bytes \<and> block_bytes \<le> MAX_BLOCK_BYTES) then (Inl Invalid_block_size, s)
      else
        (let b = nat block_bytes in
         case start_build sha generation b resume s of
           (Inl e, s1) \<Rightarrow> (Inl e, s1)
         | (Inr checkpoint, s1) \<Rightarrow>
             (case blocks b chunks [] of (payloads, raises) \<Rightarrow>
                (case build_loop sha generation fail_after payloads 0 [] 0 checkpoint s1 of
                   (Inl e, s2) \<Rightarrow> (Inl e, s2)
                 | (Inr built, s2) \<Rightarrow>
                     (if raises then (Inl Invalid_chunk, s2)
                      else publish_manifest sha generation b built s2)))))"

text \<open>\<open>build_file\<close> reads the source \<open>block_bytes\<close> at a time; \<open>None\<close> is a source that cannot be opened.\<close>

definition file_chunks :: "int \<Rightarrow> bytes \<Rightarrow> bytes option list" where
  "file_chunks block_bytes data =
     (let (full, rest) = full_blocks (nat block_bytes) data
      in map Some (full @ (if rest \<noteq> [] then [rest] else [])))"

definition build_file ::
  "(bytes \<Rightarrow> bytes) \<Rightarrow> bytes option \<Rightarrow> string \<Rightarrow> int \<Rightarrow> bool \<Rightarrow> stream_store \<Rightarrow>
     (stream_error + (string \<times> json) list) \<times> stream_store" where
  "build_file sha source generation block_bytes resume s =
     (case source of
        None \<Rightarrow> (Inl Source_unavailable, s)
      | Some data \<Rightarrow>
          build_stream sha (file_chunks block_bytes data) generation block_bytes resume None s)"

section \<open>Reading\<close>

primrec range_loop ::
  "(bytes \<Rightarrow> bytes) \<Rightarrow> bytes \<Rightarrow> int \<Rightarrow> int \<Rightarrow> int \<Rightarrow> json list \<Rightarrow> nat \<Rightarrow> bytes \<Rightarrow>
     stream_error + nat \<times> bytes" where
  "range_loop sha data input_size start len [] cursor result = Inr (cursor, result)"
| "range_loop sha data input_size start len (block # rest) cursor result =
     (case ebind (py_getitem block ''length'') py_int of
        Inl _ \<Rightarrow> Inl Invalid_manifest
      | Inr block_length \<Rightarrow>
          (if block_length < 1 \<or> int cursor + block_length > input_size then Inl Invalid_manifest
           else
             (let block_end = cursor + nat block_length;
                  payload = slice cursor block_end data;
                  left = nat (max start (int cursor)) - cursor;
                  right = nat (min (start + len) (int block_end)) - cursor;
                  wanted = (int cursor < start + len \<and> int block_end > start)
              in if wanted \<and> length payload \<noteq> nat block_length then Inl Segment_bounds
                 else if wanted \<and> py_get block ''sha256'' \<noteq> Inr (JStr (hexdigest sha payload))
                   then Inl Block_digest
                 else
                   (let result1 = (if wanted then result @ slice left right payload else result) in
                    if int block_end \<ge> start + len then Inr (block_end, result1)
                    else range_loop sha data input_size start len rest block_end result1))))"

definition load_manifest :: "string \<Rightarrow> stream_store \<Rightarrow> json option" where
  "load_manifest generation s =
     Option.bind (st_files s (generation, MANIFEST_FILE)) (\<lambda>raw. loads (decode raw))"

definition read_range ::
  "(bytes \<Rightarrow> bytes) \<Rightarrow> string \<Rightarrow> int \<Rightarrow> int \<Rightarrow> stream_store \<Rightarrow> stream_error + bytes" where
  "read_range sha generation start len s =
     (if start < 0 \<or> len < 0 \<or> len > MAX_RANGE_BYTES then Inl Invalid_range
      else
        (case load_manifest generation s of
           None \<Rightarrow> Inl Missing_manifest
         | Some (JObj kvs) \<Rightarrow>
             (if \<not> json_eq (field_or_null kvs ''schema'') (JStr STREAM_SCHEMA) then Inl Invalid_manifest
              else
                (case (map_of kvs ''input_bytes'', map_of kvs ''blocks'', map_of kvs ''segment'') of
                   (Some (JInt input_size), Some (JList bs), Some (JStr segment)) \<Rightarrow>
                     (if input_size < 0 \<or> path_name segment \<noteq> segment \<or> start + len > input_size
                      then Inl Invalid_range
                      else if len = 0 then Inr []
                      else if segment = [] \<or> segment = ''..'' then Inl Is_a_directory
                      else
                        (case st_files s (generation, segment) of
                           None \<Rightarrow> Inl Missing_segment
                         | Some data \<Rightarrow>
                             ebind (range_loop sha data input_size start len bs 0 []) (\<lambda>(cursor, result).
                               if int cursor < start + len \<or> int (length result) \<noteq> len
                               then Inl Segment_bounds else Inr result)))
                 | _ \<Rightarrow> Inl Invalid_range))
         | Some _ \<Rightarrow> Inl Invalid_manifest))"

definition read_all :: "(bytes \<Rightarrow> bytes) \<Rightarrow> string \<Rightarrow> stream_store \<Rightarrow> stream_error + bytes" where
  "read_all sha generation s =
     (case load_manifest generation s of
        None \<Rightarrow> Inl Missing_manifest
      | Some manifest \<Rightarrow>
          (case py_getitem manifest ''segment'' of
             Inl Key_error \<Rightarrow> Inl Missing_manifest
           | Inl e \<Rightarrow> Inl (Stream_escape e)
           | Inr (JStr segment) \<Rightarrow>
               (if segment = [] \<or> segment = ''..'' then Inl Is_a_directory
                else
                  (case st_files s (generation, segment) of
                     None \<Rightarrow> Inl Missing_manifest
                   | Some data \<Rightarrow>
                       ebind (escape (py_getitem manifest ''input_bytes'')) (\<lambda>input_size.
                         if \<not> json_eq (JInt (int (length data))) input_size then Inl Manifest_digest
                         else
                           ebind (escape (py_getitem manifest ''source_sha256'')) (\<lambda>digest.
                             if \<not> json_eq (JStr (hexdigest sha data)) digest
                             then Inl Manifest_digest else Inr data))))
           | Inr _ \<Rightarrow> Inl (Stream_escape Type_error)))"

section \<open>The blocks of a stream\<close>

definition cut_blocks :: "nat \<Rightarrow> bytes \<Rightarrow> bytes list" where
  "cut_blocks b data = (let (full, rest) = full_blocks b data in full @ (if rest \<noteq> [] then [rest] else []))"

lemma full_blocks_step:
  "0 < b \<Longrightarrow> b \<le> length p \<Longrightarrow> full_blocks b (drop b p) = (f, r) \<Longrightarrow> full_blocks b p = (take b p # f, r)"
  by (subst full_blocks.simps) simp

lemma full_blocks_stop: "\<not> (0 < b \<and> b \<le> length p) \<Longrightarrow> full_blocks b p = ([], p)"
  by (subst full_blocks.simps) auto

lemma full_blocks_spec:
  "0 < b \<Longrightarrow> full_blocks b p = (f, r) \<Longrightarrow>
     concat f @ r = p \<and> length r < b \<and> (\<forall>x \<in> set f. length x = b)"
proof (induction b p arbitrary: f r rule: full_blocks.induct)
  case (1 b p)
  show ?case
  proof (cases "b \<le> length p")
    case True
    obtain f1 r1 where q: "full_blocks b (drop b p) = (f1, r1)" by (cases "full_blocks b (drop b p)")
    have IH: "concat f1 @ r1 = drop b p \<and> length r1 < b \<and> (\<forall>x \<in> set f1. length x = b)"
      using "1.IH" [OF _ "1.prems"(1) q] "1.prems"(1) True by blast
    have fr: "f = take b p # f1" "r = r1"
      using full_blocks_step [OF "1.prems"(1) True q] "1.prems"(2) by simp_all
    have "concat f @ r = take b p @ (concat f1 @ r1)" using fr by simp
    then have "concat f @ r = p" using IH by (simp only: append_take_drop_id)
    with IH fr True show ?thesis by simp
  next
    case False
    then show ?thesis using 1 full_blocks_stop [of b p] by simp
  qed
qed

lemma full_blocks_append:
  "0 < b \<Longrightarrow> full_blocks b p = (f, r) \<Longrightarrow> full_blocks b (r @ q) = (f', r') \<Longrightarrow>
     full_blocks b (p @ q) = (f @ f', r')"
proof (induction b p arbitrary: f r rule: full_blocks.induct)
  case (1 b p)
  show ?case
  proof (cases "b \<le> length p")
    case True
    obtain f1 r1 where d: "full_blocks b (drop b p) = (f1, r1)" by (cases "full_blocks b (drop b p)")
    have fr: "f = take b p # f1" "r = r1"
      using full_blocks_step [OF "1.prems"(1) True d] "1.prems"(2) by simp_all
    have "full_blocks b (drop b p @ q) = (f1 @ f', r')"
      using "1.IH" [OF _ "1.prems"(1) d] "1.prems" True fr by blast
    then have "full_blocks b (drop b (p @ q)) = (f1 @ f', r')" using True by simp
    from full_blocks_step [OF "1.prems"(1) _ this] True fr show ?thesis by simp
  next
    case False
    then show ?thesis using 1 full_blocks_stop [of b p] by simp
  qed
qed

lemma cut_append:
  assumes "0 < b" "full_blocks b p = (f, r)"
  shows "cut_blocks b (p @ q) = f @ cut_blocks b (r @ q)"
proof -
  obtain f' r' where "full_blocks b (r @ q) = (f', r')" by (cases "full_blocks b (r @ q)")
  with full_blocks_append [OF assms this] show ?thesis by (simp add: cut_blocks_def)
qed

lemma blocks_cut:
  "0 < b \<Longrightarrow> length pending < b \<Longrightarrow> blocks b (map Some chunks) pending = (cut_blocks b (pending @ concat chunks), False)"
proof (induction chunks arbitrary: pending)
  case Nil
  then show ?case by (simp add: cut_blocks_def full_blocks_stop)
next
  case (Cons c chunks)
  obtain f r where fr: "full_blocks b (pending @ c) = (f, r)" by (cases "full_blocks b (pending @ c)")
  then have "length r < b" using full_blocks_spec [OF Cons.prems(1) fr] by blast
  from Cons.IH [OF Cons.prems(1) this] cut_append [OF Cons.prems(1) fr, of "concat chunks"] fr
  show ?case by simp
qed

lemma cut_concat: "0 < b \<Longrightarrow> concat (cut_blocks b p) = p"
  using full_blocks_spec [of b p] by (cases "full_blocks b p") (auto simp: cut_blocks_def)

lemma cut_sizes: "0 < b \<Longrightarrow> x \<in> set (cut_blocks b p) \<Longrightarrow> 0 < length x \<and> length x \<le> b"
  using full_blocks_spec [of b p] by (cases "full_blocks b p") (auto simp: cut_blocks_def split: if_splits)

lemma length_concat_const: "(\<And>x. x \<in> set f \<Longrightarrow> length x = b) \<Longrightarrow> length (concat f) = length f * b"
  by (induction f) auto

lemma length_cut: "0 < b \<Longrightarrow> length (cut_blocks b p) = length p div b + (if length p mod b \<noteq> 0 then 1 else 0)"
proof -
  assume b: "0 < b"
  obtain f r where fr: "full_blocks b p = (f, r)" by (cases "full_blocks b p")
  from full_blocks_spec [OF b fr] have spec: "p = concat f @ r" "length r < b" "\<And>x. x \<in> set f \<Longrightarrow> length x = b"
    by auto
  then have "length p = length f * b + length r"
    using length_concat_const [of f b] by simp
  with spec(2) b fr show ?thesis by (simp add: cut_blocks_def)
qed

section \<open>Entries and checkpoints\<close>

primrec entries :: "(bytes \<Rightarrow> bytes) \<Rightarrow> nat \<Rightarrow> bytes list \<Rightarrow> json list" where
  "entries sha i [] = []"
| "entries sha i (p # ps) = block_entry sha i p # entries sha (Suc i) ps"

lemma length_entries [simp]: "length (entries sha i ps) = length ps"
  by (induction ps arbitrary: i) simp_all

lemma entries_append: "entries sha i (ps @ qs) = entries sha i ps @ entries sha (i + length ps) qs"
  by (induction ps arbitrary: i) simp_all

lemma nth_entries: "j < length ps \<Longrightarrow> entries sha i ps ! j = block_entry sha (i + j) (ps ! j)"
  by (induction ps arbitrary: i j) (auto simp: less_Suc_eq_0_disj)

lemma plain_block_entry: "plain (block_entry sha i p)"
  by (simp add: plain_def block_entry_def)

lemma plain_entries: "v \<in> set (entries sha i ps) \<Longrightarrow> plain v"
  by (induction ps arbitrary: i) (auto simp: plain_block_entry)

lemma entry_fields [simp]:
  "py_get (block_entry sha i p) ''index'' = Inr (JInt (int i))"
  "py_getitem (block_entry sha i p) ''length'' = Inr (JInt (int (length p)))"
  "py_getitem (block_entry sha i p) ''sha256'' = Inr (JStr (hexdigest sha p))"
  "py_get (block_entry sha i p) ''sha256'' = Inr (JStr (hexdigest sha p))"
  by (simp_all add: block_entry_def py_get_def field_or_null_def)

lemma block_length_sum_entries:
  "block_length_sum (entries sha i ps) = Inr (int (length (concat ps)))"
proof -
  have "ebind (emap (\<lambda>v. escape (ebind (py_getitem v ''length'') py_int)) (entries sha i ps))
      (\<lambda>ns. Inr (sum_list ns)) = Inr (int (length (concat ps)))" for i
  proof (induction ps arbitrary: i)
    case (Cons p ps)
    then obtain ns where
      "emap (\<lambda>v. escape (ebind (py_getitem v ''length'') py_int)) (entries sha (Suc i) ps) = Inr ns"
      "sum_list ns = int (length (concat ps))"
      by (auto simp: ebind_Inr)
    then show ?case by (simp add: escape_def)
  qed simp
  then show ?thesis by (simp add: block_length_sum_def)
qed

lemma validate_entries:
  "(\<And>p. p \<in> set ps \<Longrightarrow> p \<noteq> []) \<Longrightarrow> length pre = cursor \<Longrightarrow>
     validate_blocks sha (pre @ concat ps @ post) cursor i (entries sha i ps) =
       Inr (cursor + length (concat ps))"
proof (induction ps arbitrary: cursor i pre)
  case (Cons p ps)
  have "p \<noteq> []" using Cons.prems by simp
  then have pos: "0 < length p" by simp
  have "slice cursor (cursor + length p) (pre @ concat (p # ps) @ post) = p"
    using slice_middle [of pre p "concat ps @ post"] Cons.prems(2) by simp
  moreover have "validate_blocks sha ((pre @ p) @ concat ps @ post) (cursor + length p) (Suc i)
      (entries sha (Suc i) ps) = Inr (cursor + length p + length (concat ps))"
    using Cons.prems by (intro Cons.IH) auto
  ultimately show ?case using pos Cons.prems(2) by (simp add: escape_def Suc_le_eq)
qed simp

definition good_checkpoint ::
  "(bytes \<Rightarrow> bytes) \<Rightarrow> string \<Rightarrow> nat \<Rightarrow> bytes list \<Rightarrow> (string \<times> json) list \<Rightarrow> bool" where
  "good_checkpoint sha generation b done cp \<longleftrightarrow>
     distinct (keys cp) \<and> (\<forall>(k, v) \<in> set cp. plain v) \<and>
     map_of cp ''schema'' = Some (JStr STREAM_SCHEMA) \<and>
     map_of cp ''generation'' = Some (JStr generation) \<and>
     map_of cp ''block_bytes'' = Some (JInt (int b)) \<and>
     map_of cp ''blocks'' = Some (JList (entries sha 0 done))"

lemma good_checkpoint_blocks: "good_checkpoint sha g b done cp \<Longrightarrow> checkpoint_blocks cp = entries sha 0 done"
  by (simp add: good_checkpoint_def checkpoint_blocks_def)

lemma good_new_checkpoint: "good_checkpoint sha g b [] (new_checkpoint g b)"
  by (simp add: good_checkpoint_def new_checkpoint_def)

lemma good_extend_checkpoint:
  assumes "good_checkpoint sha g b done cp"
  shows "good_checkpoint sha g b (done @ [p]) (extend_checkpoint (block_entry sha (length done) p) n cp)"
proof -
  have "plain (JList (entries sha 0 done @ [block_entry sha (length done) p]))"
    by (auto simp: plain_entries plain_block_entry)
  then have "\<forall>(k, v) \<in> set (extend_checkpoint (block_entry sha (length done) p) n cp). plain v"
    using assms good_checkpoint_blocks [OF assms]
    unfolding good_checkpoint_def extend_checkpoint_def by (intro values_dput plain_simps) simp_all
  then show ?thesis using assms good_checkpoint_blocks [OF assms]
    by (simp add: good_checkpoint_def extend_checkpoint_def dict_simps entries_append)
qed

lemma good_sorted_checkpoint:
  "good_checkpoint sha g b done cp \<Longrightarrow> good_checkpoint sha g b done (sort_key fst cp)"
  unfolding good_checkpoint_def by (simp add: distinct_sort_key_fst map_of_sort_key_fst)

section \<open>A generation while it is built\<close>

text \<open>Of \<open>s0\<close>, the generation has \<open>done\<close> on disk and nothing else has changed.\<close>

definition building ::
  "stream_store \<Rightarrow> (bytes \<Rightarrow> bytes) \<Rightarrow> string \<Rightarrow> nat \<Rightarrow> bytes list \<Rightarrow> stream_store \<Rightarrow> bool" where
  "building s0 sha g b done s \<longleftrightarrow>
     st_refusals s = [] \<and>
     (\<exists>cp. good_checkpoint sha g b done cp \<and>
        st_files s = (st_files s0)((g, SEGMENT_FILE) \<mapsto> concat done, (g, CHECKPOINT_FILE) \<mapsto> json_line (JObj cp)))"

lemma replace_unrefused: "replace_attempts a 0"
  by (subst replace_attempts.simps) simp

lemma atomic_json_unrefused:
  "st_refusals s = [] \<Longrightarrow>
     atomic_json p v s = (Inr (), put_file p (json_line v) (s\<lparr>st_refusals := []\<rparr>))"
  by (simp add: atomic_json_def atomic_replace_def Let_def replace_unrefused)

lemma file_names [simp]:
  "SEGMENT_FILE \<noteq> CHECKPOINT_FILE" "CHECKPOINT_FILE \<noteq> SEGMENT_FILE"
  "MANIFEST_FILE \<noteq> CHECKPOINT_FILE" "MANIFEST_FILE \<noteq> SEGMENT_FILE"
  "CHECKPOINT_FILE \<noteq> MANIFEST_FILE" "SEGMENT_FILE \<noteq> MANIFEST_FILE"
  by (simp_all add: SEGMENT_FILE_def CHECKPOINT_FILE_def MANIFEST_FILE_def)

lemma put_file_simps [simp]:
  "st_files (put_file p b s) = (st_files s)(p \<mapsto> b)" "st_refusals (put_file p b s) = st_refusals s"
  "st_files (remove_file p s) = (st_files s)(p := None)" "st_refusals (remove_file p s) = st_refusals s"
  by (simp_all add: put_file_def remove_file_def)

lemma start_fresh:
  assumes "st_refusals s0 = []"
  shows "\<exists>s. start_build sha g b False s0 = (Inr (new_checkpoint g b), s) \<and> building s0 sha g b [] s"
  using good_new_checkpoint [of sha g b] assms
  by (auto simp: start_build_def atomic_json_unrefused building_def fun_upd_twist)

lemma start_resumed:
  assumes "building s0 sha g b done s" "\<And>p. p \<in> set done \<Longrightarrow> p \<noteq> []"
  shows "\<exists>cp. start_build sha g b True s = (Inr cp, s) \<and> good_checkpoint sha g b done cp"
proof -
  from assms(1) obtain cp where cp: "good_checkpoint sha g b done cp"
    and files: "st_files s (g, SEGMENT_FILE) = Some (concat done)"
      "st_files s (g, CHECKPOINT_FILE) = Some (json_line (JObj cp))"
    by (auto simp: building_def)
  let ?cp = "sort_key fst cp"
  have good: "good_checkpoint sha g b done ?cp" using cp by (rule good_sorted_checkpoint)
  have "loads (dumps (JObj cp) @ [CHR 0x0A]) = Some (JObj ?cp)"
    using cp by (intro loads_flat(2)) (auto simp: good_checkpoint_def)
  then have load: "load_checkpoint g s = Inr ?cp"
    using files(2) good
    by (simp add: load_checkpoint_def json_line_def good_checkpoint_def field_or_null_def)
  have "validate_blocks sha ([] @ concat done @ []) 0 0 (entries sha 0 done) = Inr (0 + length (concat done))"
    by (intro validate_entries) (auto simp: assms(2))
  then have "validate_existing sha g ?cp s = Inr ()"
    using files(1) good_checkpoint_blocks [OF good] by (simp add: validate_existing_def)
  then have "start_build sha g b True s = (Inr ?cp, s)"
    using load good by (simp add: start_build_def good_checkpoint_def field_or_null_def)
  with good show ?thesis by blast
qed

lemma loop_skips:
  assumes "good_checkpoint sha g b done cp"
  shows "n + length ps \<le> length done \<Longrightarrow> take (length ps) (drop n done) = ps \<Longrightarrow>
     build_loop sha g fail (ps @ rest) n source a cp s =
     build_loop sha g fail rest (n + length ps) (source @ concat ps) a cp s"
proof (induction ps arbitrary: n source)
  case (Cons p ps)
  have lt: "n < length done" using Cons.prems by simp
  then have "drop n done = done ! n # drop (Suc n) done"
    by (rule Cons_nth_drop_Suc [symmetric])
  with Cons.prems have p: "done ! n = p" and ps: "take (length ps) (drop (Suc n) done) = ps"
    by auto
  have "checkpoint_blocks cp ! n = block_entry sha n p"
    using nth_entries [OF lt, of sha 0] p good_checkpoint_blocks [OF assms] by simp
  then have "build_loop sha g fail ((p # ps) @ rest) n source a cp s =
      build_loop sha g fail (ps @ rest) (Suc n) (source @ p) a cp s"
    using lt good_checkpoint_blocks [OF assms] by (simp add: escape_def)
  also have "\<dots> = build_loop sha g fail rest (Suc n + length ps) ((source @ p) @ concat ps) a cp s"
    using Cons.IH [of "Suc n" "source @ p"] Cons.prems ps by simp
  finally show ?case by simp
qed simp

definition stops_after :: "nat option \<Rightarrow> nat \<Rightarrow> nat \<Rightarrow> bool" where
  "stops_after fail a n = (case fail of None \<Rightarrow> False | Some k \<Rightarrow> 0 < n \<and> k \<le> a + n)"

text \<open>From \<open>done\<close>, the loop appends the rest, or stops after the injected number of blocks.\<close>

lemma loop_appends:
  assumes "building s0 sha g b done s" "good_checkpoint sha g b done cp"
    and "\<And>k. fail = Some k \<Longrightarrow> a < k"
  shows "\<exists>s'. if stops_after fail a (length ps)
     then build_loop sha g fail ps (length done) (concat done) a cp s = (Inl Injected_stream_failure, s') \<and>
       building s0 sha g b (done @ take (the fail - a) ps) s'
     else \<exists>cp'. build_loop sha g fail ps (length done) (concat done) a cp s =
         (Inr (cp', concat (done @ ps), a + length ps), s') \<and>
       building s0 sha g b (done @ ps) s' \<and> good_checkpoint sha g b (done @ ps) cp'"
  using assms
proof (induction ps arbitrary: "done" s cp a)
  case Nil
  then show ?case by (auto simp: stops_after_def split: option.splits)
next
  case (Cons p ps)
  let ?cp = "extend_checkpoint (block_entry sha (length done) p) (length (concat done @ p)) cp"
  have good: "good_checkpoint sha g b (done @ [p]) ?cp"
    using Cons.prems(2) by (rule good_extend_checkpoint)
  obtain s1 where step: "build_loop sha g fail (p # ps) (length done) (concat done) a cp s =
      (if (case fail of None \<Rightarrow> False | Some k \<Rightarrow> a + 1 \<ge> k) then (Inl Injected_stream_failure, s1)
       else build_loop sha g fail ps (length (done @ [p])) (concat (done @ [p])) (a + 1) ?cp s1)"
    and s1: "building s0 sha g b (done @ [p]) s1"
  proof -
    let ?t = "put_file (g, SEGMENT_FILE) (concat done @ p) s"
    from Cons.prems(1) have seg: "st_files s (g, SEGMENT_FILE) = Some (concat done)" and r: "st_refusals ?t = []"
      by (auto simp: building_def)
    let ?u = "put_file (g, CHECKPOINT_FILE) (json_line (JObj ?cp)) (?t\<lparr>st_refusals := []\<rparr>)"
    have "building s0 sha g b (done @ [p]) ?u"
      using Cons.prems(1) good unfolding building_def by (auto simp: fun_upd_twist)
    moreover have "atomic_json (g, CHECKPOINT_FILE) (JObj ?cp) ?t = (Inr (), ?u)"
      using atomic_json_unrefused [OF r] .
    ultimately show thesis using seg good_checkpoint_blocks [OF Cons.prems(2)]
      by (intro that [of ?u]) (simp_all add: Let_def)
  qed
  show ?case
  proof (cases "fail = Some (a + 1)")
    case True
    with step s1 show ?thesis by (auto simp: stops_after_def)
  next
    case False
    then have go: "\<not> (case fail of None \<Rightarrow> False | Some k \<Rightarrow> a + 1 \<ge> k)" and "\<And>k. fail = Some k \<Longrightarrow> a + 1 < k"
      using Cons.prems(3) by (auto split: option.splits simp: le_less_Suc_eq less_Suc_eq_le)
    note IH = Cons.IH [OF s1 good this(2)]
    have "stops_after fail a (length (p # ps)) = stops_after fail (a + 1) (length ps)"
      using Cons.prems(3) False by (auto simp: stops_after_def split: option.splits) 
    moreover have "take (the fail - a) (p # ps) = p # take (the fail - (a + 1)) ps" if "fail \<noteq> None"
      using that Cons.prems(3) by (auto simp: take_Cons' )
    ultimately show ?thesis using IH step go by (auto simp: stops_after_def split: if_splits option.splits)
  qed
qed

section \<open>Whole builds\<close>

text \<open>What a build of \<open>src\<close> leaves behind: its three files, and no checkpoint.\<close>

definition published_manifest :: "(bytes \<Rightarrow> bytes) \<Rightarrow> string \<Rightarrow> nat \<Rightarrow> bytes \<Rightarrow> (string \<times> json) list" where
  "published_manifest sha g b src = stream_manifest sha g b src (entries sha 0 (cut_blocks b src))"

definition published ::
  "stream_store \<Rightarrow> (bytes \<Rightarrow> bytes) \<Rightarrow> string \<Rightarrow> nat \<Rightarrow> bytes \<Rightarrow> stream_store \<Rightarrow> bool" where
  "published s0 sha g b src s \<longleftrightarrow>
     st_refusals s = [] \<and>
     st_files s = (st_files s0)((g, SEGMENT_FILE) \<mapsto> src, (g, CHECKPOINT_FILE) := None,
       (g, MANIFEST_FILE) \<mapsto> json_line (JObj (published_manifest sha g b src)),
       ([], CURRENT_FILE) \<mapsto> json_line (JObj (published_manifest sha g b src)))"

lemma published_unique:
  "published s0 sha g b src s \<Longrightarrow> published s0 sha g b src t \<Longrightarrow> (s :: stream_store) = t"
  by (simp add: published_def)

lemma publish_complete:
  assumes "building s0 sha g b (cut_blocks b src) s" "good_checkpoint sha g b (cut_blocks b src) cp" "0 < b" "g \<noteq> []"
  shows "\<exists>s'. publish_manifest sha g b (cp, src, a) s =
      (Inr (published_manifest sha g b src @
         [(''status'', JStr ''published''), (''appended_blocks'', JInt (int a))]), s') \<and>
      published s0 sha g b src s'"
proof -
  from assms(1) obtain cp' where r: "st_refusals s = []"
    and files: "st_files s = (st_files s0)((g, SEGMENT_FILE) \<mapsto> src, (g, CHECKPOINT_FILE) \<mapsto> json_line (JObj cp'))"
    using cut_concat [OF assms(3), of src] by (auto simp: building_def)
  note bs = good_checkpoint_blocks [OF assms(2)] length_cut [OF assms(3), of src]
    block_length_sum_entries [of sha 0 "cut_blocks b src"] cut_concat [OF assms(3), of src]
  let ?m = "JObj (published_manifest sha g b src)"
  let ?s = "remove_file (g, CHECKPOINT_FILE) (put_file ([], CURRENT_FILE) (json_line ?m)
      (put_file (g, MANIFEST_FILE) (json_line ?m) (s\<lparr>st_refusals := []\<rparr>)\<lparr>st_refusals := []\<rparr>))"
  have "publish_manifest sha g b (cp, src, a) s = (Inr (published_manifest sha g b src @
         [(''status'', JStr ''published''), (''appended_blocks'', JInt (int a))]), ?s)"
    unfolding publish_manifest_def by (simp add: bs Let_def atomic_json_unrefused r published_manifest_def)
  moreover have "published s0 sha g b src ?s"
    unfolding published_def using files r assms(4) by (auto simp: fun_eq_iff)
  ultimately show ?thesis by blast
qed

text \<open>One attempt, fresh or resumed: it stops at the injected failure or publishes.\<close>

lemma attempt_outcome:
  assumes g: "g \<noteq> []" "path_name g = g" and b: "1 \<le> B" "B \<le> MAX_BLOCK_BYTES"
    and start: "if resume then building s0 sha g (nat B) (take n (cut_blocks (nat B) src)) s else s = s0 \<and> st_refusals s0 = [] \<and> n = 0"
    and chunks: "chunks = map Some cs" "concat cs = src" and n: "n \<le> length (cut_blocks (nat B) src)"
    and pos: "\<And>k. fail = Some k \<Longrightarrow> 0 < k"
  shows "\<exists>s'. if stops_after fail 0 (length (cut_blocks (nat B) src) - n)
     then build_stream sha chunks g B resume fail s = (Inl Injected_stream_failure, s') \<and>
       building s0 sha g (nat B) (take (n + the fail) (cut_blocks (nat B) src)) s'
     else (\<exists>m. build_stream sha chunks g B resume fail s = (Inr m, s') \<and>
         take 7 m = published_manifest sha g (nat B) src) \<and> published s0 sha g (nat B) src s'"
proof -
  let ?b = "nat B" and ?ps = "cut_blocks (nat B) src"
  have B: "0 < ?b" using b by simp
  have nonempty: "p \<noteq> []" if "p \<in> set (take n ?ps)" for p
    using cut_sizes [OF B] in_set_takeD [OF that] by fastforce
  obtain cp s1 where st: "start_build sha g ?b resume s = (Inr cp, s1)"
    and s1: "building s0 sha g ?b (take n ?ps) s1" and cp: "good_checkpoint sha g ?b (take n ?ps) cp"
  proof (cases resume)
    case True
    with start have bd: "building s0 sha g ?b (take n ?ps) s" by simp
    then obtain c where "start_build sha g ?b True s = (Inr c, s)" "good_checkpoint sha g ?b (take n ?ps) c"
      using start_resumed [OF bd nonempty] by blast
    with True bd that show thesis by simp
  next
    case False
    with start have s: "s = s0" "st_refusals s0 = []" "n = 0" by auto
    obtain t where "start_build sha g ?b False s0 = (Inr (new_checkpoint g ?b), t)" "building s0 sha g ?b [] t"
      using start_fresh [OF s(2)] by blast
    with False s that show thesis by (auto simp: good_new_checkpoint)
  qed
  have bl: "blocks ?b chunks [] = (?ps, False)"
    using blocks_cut [OF B, of "[]" cs] B chunks by simp
  have whole: "take n ?ps @ drop n ?ps = ?ps" by (rule append_take_drop_id)
  have len: "length (take n ?ps) = n" using n by simp
  have skip: "build_loop sha g fail ?ps 0 [] 0 cp s1 =
      build_loop sha g fail (drop n ?ps) (length (take n ?ps)) (concat (take n ?ps)) 0 cp s1"
    using loop_skips [OF cp, of 0 "take n ?ps" fail "drop n ?ps"] whole by (simp add: n min_absorb2)
  note app = loop_appends [OF s1 cp, of fail 0 "drop n ?ps", unfolded skip [symmetric] whole]
  have bs: "build_stream sha chunks g B resume fail s =
      (case build_loop sha g fail ?ps 0 [] 0 cp s1 of
         (Inl e, s2) \<Rightarrow> (Inl e, s2)
       | (Inr built, s2) \<Rightarrow> publish_manifest sha g ?b built s2)"
    using g b st bl by (simp add: build_stream_def Let_def split: prod.split sum.split)
  show ?thesis
  proof (cases "stops_after fail 0 (length ?ps - n)")
    case True
    then obtain s2 where "build_loop sha g fail ?ps 0 [] 0 cp s1 = (Inl Injected_stream_failure, s2)"
      "building s0 sha g ?b (take n ?ps @ take (the fail) (drop n ?ps)) s2"
      using app pos by auto
    with True bs show ?thesis by (auto simp: take_add)
  next
    case False
    then obtain cp2 s2 where "build_loop sha g fail ?ps 0 [] 0 cp s1 = (Inr (cp2, src, length ?ps - n), s2)"
      "building s0 sha g ?b ?ps s2" "good_checkpoint sha g ?b ?ps cp2"
      using app pos cut_concat [OF B, of src] by auto
    with publish_complete [OF this(2,3) B g(1)] bs False show ?thesis
      by (fastforce simp: published_manifest_def stream_manifest_def)
  qed
qed

section \<open>Reading back\<close>

lemma range_entries:
  assumes "\<And>p. p \<in> set ps \<Longrightarrow> p \<noteq> []" "data = pre @ concat ps" "length pre = cursor"
    and "cursor < a + l" "a + l \<le> length data"
  shows "\<exists>c. range_loop sha data (int (length data)) (int a) (int l) (entries sha i ps) cursor (slice a cursor data) =
      Inr (c, slice a (a + l) data) \<and> a + l \<le> c"
  using assms
proof (induction ps arbitrary: pre cursor i)
  case (Cons p ps)
  let ?e = "cursor + length p"
  have p: "0 < length p" "?e \<le> length data" using Cons.prems by auto
  have pay: "slice cursor ?e data = p"
    using slice_middle [of pre p "concat ps"] Cons.prems(2,3) by simp
  let ?r = "min (a + l) ?e"
  have grow: "(if a < ?e then slice a cursor data @ slice (max a cursor - cursor) (?r - cursor) p
      else slice a cursor data) = slice a ?r data"
  proof (cases "a < ?e")
    case True
    have "cursor + (?r - cursor) \<le> ?e" using Cons.prems(4) by simp
    from slice_slice [OF this, of "max a cursor - cursor" data] Cons.prems(4) pay
    have "slice (max a cursor - cursor) (?r - cursor) p = slice (max a cursor) ?r data"
      by (simp add: max_def min_def)
    with True slice_join [of cursor ?r a data] Cons.prems(4) p show ?thesis by simp
  next
    case False
    then show ?thesis using Cons.prems(4) by (simp add: slice_def)
  qed
  have step: "range_loop sha data (int (length data)) (int a) (int l) (entries sha i (p # ps)) cursor (slice a cursor data) =
      (if a + l \<le> ?e then Inr (?e, slice a ?r data)
       else range_loop sha data (int (length data)) (int a) (int l) (entries sha (Suc i) ps) ?e (slice a ?r data))"
    using p pay grow Cons.prems(4) by (cases "a + l \<le> ?e"; cases "a < ?e") (simp_all add: Let_def flip: of_nat_add of_nat_max of_nat_min)
  show ?case
  proof (cases "a + l \<le> ?e")
    case True
    with step show ?thesis by (simp add: min_def)
  next
    case False
    then have "?r = ?e" by simp
    moreover have "\<exists>c. range_loop sha data (int (length data)) (int a) (int l) (entries sha (Suc i) ps) ?e
        (slice a ?e data) = Inr (c, slice a (a + l) data) \<and> a + l \<le> c"
      using Cons.prems False by (intro Cons.IH [of "pre @ p"]) auto
    ultimately show ?thesis using step False by simp
  qed
qed simp

lemma published_reads:
  assumes "published s0 sha g b src s" "0 < b" "g \<noteq> []"
  shows "read_all sha g s = Inr src"
    "\<lbrakk>0 \<le> start; 0 \<le> len; len \<le> MAX_RANGE_BYTES\<rbrakk> \<Longrightarrow> read_range sha g start len s =
       (if start + len \<le> int (length src) then Inr (slice (nat start) (nat (start + len)) src)
        else Inl Invalid_range)"
proof -
  let ?m = "published_manifest sha g b src"
  have d: "distinct (keys ?m)" "\<forall>(k, v) \<in> set ?m. plain v"
    by (auto simp: published_manifest_def stream_manifest_def plain_entries)
  have seg: "st_files s (g, SEGMENT_FILE) = Some src"
    using assms(1,3) by (simp add: published_def)
  have load: "load_manifest g s = Some (JObj (sort_key fst ?m))"
    using assms(1,3) loads_flat(2) [OF d] by (simp add: published_def load_manifest_def json_line_def)
  note fields = map_of_sort_key_fst [OF d(1)]
  have name: "path_name SEGMENT_FILE = SEGMENT_FILE" "SEGMENT_FILE \<noteq> []" "SEGMENT_FILE \<noteq> ''..''"
    by (simp_all add: SEGMENT_FILE_def path_name_def path_parts_def)
  show "read_all sha g s = Inr src"
    using load seg name
    by (simp add: read_all_def fields published_manifest_def stream_manifest_def escape_def)
  assume r: "0 \<le> start" "0 \<le> len" "len \<le> MAX_RANGE_BYTES"
  show "read_range sha g start len s =
       (if start + len \<le> int (length src) then Inr (slice (nat start) (nat (start + len)) src)
        else Inl Invalid_range)"
  proof (cases "start + len \<le> int (length src) \<and> len \<noteq> 0")
    case True
    obtain a l where al: "start = int a" "len = int l" using r by (metis nonneg_int_cases)
    have "p \<noteq> []" if "p \<in> set (cut_blocks b src)" for p
      using cut_sizes [OF assms(2) that] by auto
    then obtain c where "range_loop sha src (int (length src)) (int a) (int l)
        (entries sha 0 (cut_blocks b src)) 0 (slice a 0 src) = Inr (c, slice a (a + l) src)" "a + l \<le> c"
      using range_entries [of "cut_blocks b src" src "[]" 0 a l sha 0] True al cut_concat [OF assms(2), of src]
      by auto
    moreover have "slice a 0 src = []" by (simp add: slice_def)
    moreover have "\<not> int c < int a + int l" "min (a + l) (length src) - a = l"
      using \<open>a + l \<le> c\<close> True al by simp_all
    ultimately show ?thesis
      using load seg name r True al
      by (simp add: read_range_def fields published_manifest_def stream_manifest_def field_or_null_def nat_int_add)
  next
    case False
    then show ?thesis
      using load name r
      by (auto simp: read_range_def fields published_manifest_def stream_manifest_def field_or_null_def slice_def)
  qed
qed

section \<open>Properties\<close>

text \<open>A build that is interrupted after \<open>k\<close> new blocks and resumed, once for every \<open>k\<close> given.\<close>

primrec interrupted_builds ::
  "(bytes \<Rightarrow> bytes) \<Rightarrow> bytes option list \<Rightarrow> string \<Rightarrow> int \<Rightarrow> nat list \<Rightarrow> bool \<Rightarrow> stream_store \<Rightarrow>
     (stream_error + (string \<times> json) list) \<times> stream_store" where
  "interrupted_builds sha chunks g B [] resume s = (Inl Injected_stream_failure, s)"
| "interrupted_builds sha chunks g B (k # ks) resume s =
     (case build_stream sha chunks g B resume (Some k) s of
        (Inr m, s1) \<Rightarrow> (Inr m, s1)
      | (Inl e, s1) \<Rightarrow>
          if e = Injected_stream_failure then interrupted_builds sha chunks g B ks True s1 else (Inl e, s1))"

lemma interrupted_publishes:
  assumes g: "g \<noteq> []" "path_name g = g" and b: "1 \<le> B" "B \<le> MAX_BLOCK_BYTES"
    and chunks: "chunks = map Some cs" "concat cs = src"
  shows "\<lbrakk>if resume then building s0 sha g (nat B) (take n (cut_blocks (nat B) src)) s
      else s = s0 \<and> st_refusals s0 = [] \<and> n = 0;
     n \<le> length (cut_blocks (nat B) src); \<forall>k \<in> set ks. 0 < k; length (cut_blocks (nat B) src) < n + sum_list ks\<rbrakk>
     \<Longrightarrow> \<exists>m s'. interrupted_builds sha chunks g B ks resume s = (Inr m, s') \<and>
         take 7 m = published_manifest sha g (nat B) src \<and> published s0 sha g (nat B) src s'"
proof (induction ks arbitrary: resume n s)
  case (Cons k ks)
  let ?N = "length (cut_blocks (nat B) src)"
  have pos: "\<And>j. Some k = Some j \<Longrightarrow> 0 < j" using Cons.prems(3) by simp
  note out = attempt_outcome [OF g b Cons.prems(1) chunks Cons.prems(2), of "Some k", OF pos]
  show ?case
  proof (cases "stops_after (Some k) 0 (?N - n)")
    case True
    with out obtain s1 where stop: "build_stream sha chunks g B resume (Some k) s = (Inl Injected_stream_failure, s1)"
      and s1: "building s0 sha g (nat B) (take (n + k) (cut_blocks (nat B) src)) s1" by auto
    have "n + k \<le> ?N" using True by (auto simp: stops_after_def)
    from Cons.IH [of True "n + k" s1] s1 this Cons.prems(3,4) stop show ?thesis by simp
  next
    case False
    with out show ?thesis by auto
  qed
qed simp

lemma fresh_build_publishes:
  assumes "g \<noteq> []" "path_name g = g" "1 \<le> B" "B \<le> MAX_BLOCK_BYTES" "st_refusals s = []"
  shows "\<exists>m s'. build_stream sha (map Some cs) g B False None s = (Inr m, s') \<and>
     take 7 m = published_manifest sha g (nat B) (concat cs) \<and> published s sha g (nat B) (concat cs) s'"
proof -
  have "if False then building s sha g (nat B) (take 0 (cut_blocks (nat B) (concat cs))) s
      else s = s \<and> st_refusals s = [] \<and> (0 :: nat) = 0"
    using assms(5) by simp
  from attempt_outcome [OF assms(1-4) this refl refl] show ?thesis
    by (fastforce simp: stops_after_def)
qed

text \<open>C9: A stream that keeps being interrupted is still published: if every attempt appends at
  least one block before it fails and the attempts allow more blocks in total than the stream has,
  one of them publishes, with the store and the manifest an uninterrupted build would have left.\<close>

theorem interrupted_stream_is_completed:
  assumes "g \<noteq> []" "path_name g = g" "1 \<le> B" "B \<le> MAX_BLOCK_BYTES" "st_refusals s = []"
    and "\<forall>k \<in> set ks. 0 < k" "length (fst (blocks (nat B) (map Some cs) [])) < sum_list ks"
  shows "\<exists>m m' s'. interrupted_builds sha (map Some cs) g B ks False s = (Inr m, s') \<and>
     build_stream sha (map Some cs) g B False None s = (Inr m', s') \<and> take 7 m = take 7 m'"
proof -
  have "length (cut_blocks (nat B) (concat cs)) < 0 + sum_list ks"
    using assms(3,7) blocks_cut [of "nat B" "[]" cs] by simp
  then obtain m s' where m: "interrupted_builds sha (map Some cs) g B ks False s = (Inr m, s')"
      "take 7 m = published_manifest sha g (nat B) (concat cs)" "published s sha g (nat B) (concat cs) s'"
    using interrupted_publishes [OF assms(1-4) refl refl, of False s sha 0 cs s ks] assms(5,6) by auto
  obtain m' s'' where m': "build_stream sha (map Some cs) g B False None s = (Inr m', s'')"
      "take 7 m' = published_manifest sha g (nat B) (concat cs)" "published s sha g (nat B) (concat cs) s''"
    using fresh_build_publishes [OF assms(1-5)] by blast
  from m m' published_unique [OF m(3) m'(3)] show ?thesis by auto
qed

text \<open>C24: Every published stream reads back, however it was chunked: \<open>read_all\<close> gives the
  concatenated chunks, and \<open>read_range\<close> within the limit gives exactly that part of them or, past
  the end, \<open>invalid_range\<close>.\<close>

theorem published_stream_reads_back:
  assumes "g \<noteq> []" "path_name g = g" "1 \<le> B" "B \<le> MAX_BLOCK_BYTES" "st_refusals s = []"
    and "0 \<le> start" "0 \<le> len" "len \<le> MAX_RANGE_BYTES"
  shows "\<exists>m s'. build_stream sha (map Some cs) g B False None s = (Inr m, s') \<and>
     read_all sha g s' = Inr (concat cs) \<and>
     read_range sha g start len s' =
       (if start + len \<le> int (length (concat cs))
        then Inr (slice (nat start) (nat (start + len)) (concat cs)) else Inl Invalid_range)"
proof -
  obtain m s' where m: "build_stream sha (map Some cs) g B False None s = (Inr m, s')"
      "published s sha g (nat B) (concat cs) s'"
    using fresh_build_publishes [OF assms(1-5)] by blast
  have "0 < nat B" using assms(3) by simp
  from m published_reads [OF m(2) this assms(1)] assms(6-8) show ?thesis by blast
qed

definition empty_store :: stream_store where
  "empty_store = \<lparr>st_files = Map.empty, st_refusals = []\<rparr>"

lemma path_name_gen: "path_name ''gen'' = ''gen''"
  by (simp add: path_name_def path_parts_def)

theorem interrupted_stream_is_completed_witness:
  "\<exists>m m' s'. interrupted_builds id (map Some [[1, 2], [3 :: byte]]) ''gen'' 2 [1, 1, 1] False empty_store = (Inr m, s') \<and>
     build_stream id (map Some [[1, 2], [3]]) ''gen'' 2 False None empty_store = (Inr m', s') \<and> take 7 m = take 7 m'"
proof (rule interrupted_stream_is_completed)
  have "fst (blocks 2 (map Some [[1, 2], [3 :: byte]]) []) = cut_blocks 2 [1, 2, 3]"
    using blocks_cut [of 2 "[]" "[[1, 2], [3 :: byte]]"] by simp
  then show "length (fst (blocks (nat 2) (map Some [[1, 2], [3 :: byte]]) [])) < sum_list [1, 1, 1]"
    by (simp add: length_cut)
qed (simp_all add: path_name_gen MAX_BLOCK_BYTES_def empty_store_def)

theorem published_stream_reads_back_witness:
  "\<exists>m s'. build_stream id (map Some [[1, 2], [3 :: byte]]) ''gen'' 2 False None empty_store = (Inr m, s') \<and>
     read_all id ''gen'' s' = Inr [1, 2, 3] \<and> read_range id ''gen'' 1 2 s' = Inr [2, 3]"
  using published_stream_reads_back [of "''gen''" 2 empty_store 1 2 id "[[1, 2], [3 :: byte]]"]
  by (simp add: path_name_gen MAX_BLOCK_BYTES_def MAX_RANGE_BYTES_def empty_store_def slice_def)

text \<open>A block that reached the segment without its checkpoint cannot be resumed over: when
  the replace of the checkpoint stays refused after the first block was written, the build fails,
  and every later resume raises \<open>segment_tail\<close> and leaves the store as it is.\<close>

theorem torn_block_blocks_resume:
  assumes "g \<noteq> []" "path_name g = g" "1 \<le> B" "B \<le> MAX_BLOCK_BYTES"
    and "st_refusals s = [0, r]" "ATOMIC_REPLACE_ATTEMPTS \<le> r" "concat cs \<noteq> []"
  shows "\<exists>s'. build_stream sha (map Some cs) g B False None s = (Inl Atomic_replace_unavailable, s') \<and>
     build_stream sha chunks g B True fail_after s' = (Inl Segment_tail, s')"
proof -
  have refused: "\<not> replace_attempts a n" if "ATOMIC_REPLACE_ATTEMPTS \<le> a + n" "a < ATOMIC_REPLACE_ATTEMPTS" for a n
    using that
  proof (induction a n rule: replace_attempts.induct)
    case (1 a n)
    then show ?case by (subst replace_attempts.simps) auto
  qed
  let ?b = "nat B"
  have B: "0 < ?b" using assms(3) by simp
  obtain p ps where ps: "cut_blocks ?b (concat cs) = p # ps" "p \<noteq> []"
    using cut_concat [OF B, of "concat cs"] cut_sizes [OF B, of _ "concat cs"] assms(7)
    by (cases "cut_blocks ?b (concat cs)") fastforce+
  let ?cp = "new_checkpoint g ?b"
  let ?s = "s\<lparr>st_refusals := [], st_files := (st_files s)((g, CHECKPOINT_FILE) \<mapsto> json_line (JObj ?cp), (g, SEGMENT_FILE) \<mapsto> p)\<rparr>"
  have start: "start_build sha g ?b False s =
      (Inr ?cp, s\<lparr>st_refusals := [r], st_files := (st_files s)((g, CHECKPOINT_FILE) \<mapsto> json_line (JObj ?cp), (g, SEGMENT_FILE) \<mapsto> [])\<rparr>)"
    using assms(5) by (simp add: start_build_def atomic_json_def atomic_replace_def replace_unrefused put_file_def)
  have "\<not> replace_attempts 0 r" using refused [of 0 r] assms(6) by (simp add: ATOMIC_REPLACE_ATTEMPTS_def)
  then have "build_stream sha (map Some cs) g B False None s = (Inl Atomic_replace_unavailable, ?s)"
    using assms(1-4) start ps blocks_cut [OF B, of "[]" cs] B
    by (simp add: build_stream_def Let_def atomic_json_def atomic_replace_def checkpoint_blocks_def new_checkpoint_def
        put_file_def split: prod.split)
  moreover have "load_checkpoint g ?s = Inr (sort_key fst ?cp)"
    using loads_flat(2) [of ?cp] by (simp add: load_checkpoint_def json_line_def new_checkpoint_def field_or_null_def)
  moreover have "validate_existing sha g (sort_key fst ?cp) ?s = Inl Segment_tail"
    using ps(2) by (simp add: validate_existing_def checkpoint_blocks_def new_checkpoint_def)
  ultimately show ?thesis
    using assms(1-4) by (simp add: build_stream_def start_build_def new_checkpoint_def field_or_null_def)
qed

theorem torn_block_blocks_resume_witness:
  "\<exists>s'. build_stream id (map Some [[7 :: byte]]) ''gen'' 4 False None \<lparr>st_files = Map.empty, st_refusals = [0, 4]\<rparr> =
       (Inl Atomic_replace_unavailable, s') \<and>
     build_stream id (map Some [[7]]) ''gen'' 4 True None s' = (Inl Segment_tail, s')"
  by (rule torn_block_blocks_resume [where r = 4]) (simp_all add: path_name_gen MAX_BLOCK_BYTES_def ATOMIC_REPLACE_ATTEMPTS_def)

end
