(* ===== verification/ValidationCache.thy ===== *)
theory ValidationCache
  imports JsonFields
begin

text \<open>
  \<open>simplicio_fast/validation_cache.py\<close>: results of validation commands under the digest of
  everything they depend on, leases that keep a result through a collection, the file the cache is
  saved to, and the selection of the tests a change affects.  Fields that the code only checks to be
  strings or booleans have that type here; results read back from a file are JSON values and are
  checked as the constructor checks them.  A lock makes each operation one step.
\<close>

section \<open>Keys\<close>

definition CACHE_KEY_SCHEMA :: string where
  "CACHE_KEY_SCHEMA = ''simplicio.fast.validation-cache-key/v1''"

definition RESULT_SCHEMA :: string where
  "RESULT_SCHEMA = ''simplicio.fast.validation-result/v1''"

definition CACHE_SCHEMA :: string where
  "CACHE_SCHEMA = ''simplicio.fast.validation-cache/v1''"

definition MAX_AFFECTED_TESTS :: int where
  "MAX_AFFECTED_TESTS = 100000"

datatype validation_error =
    Key_required_missing
  | Cache_environment_invalid
  | Result_status_invalid
  | Result_digest_invalid
  | Result_command_invalid
  | Result_evidence_invalid
  | Result_provenance_invalid
  | Result_provenance_required
  | Cache_document_invalid
  | Cache_schema_unsupported
  | Cache_digest_mismatch
  | Cache_entries_invalid
  | Cache_entry_invalid
  | Cache_duplicate_entry
  | Lease_id_invalid
  | Cache_entry_missing
  | Gc_budget_invalid
  | Gc_generations_invalid
  | Selection_budget_invalid
  | Changed_handles_invalid
  | Test_mapping_invalid
  | Test_values_invalid
  | Permission_error

definition string_sequence :: "string list \<Rightarrow> validation_error \<Rightarrow> validation_error + string list" where
  "string_sequence vs reason = (if [] \<in> set vs then Inl reason else Inr vs)"

definition cache_digest :: "(bytes \<Rightarrow> bytes) \<Rightarrow> json \<Rightarrow> string" where
  "cache_digest sha v = ''sha256:'' @ hexdigest sha (canonical v)"

record validation_key =
  vk_source_merkle :: string
  vk_lockfiles_digest :: string
  vk_toolchain :: string
  vk_command :: "string list"
  vk_environment :: "(string \<times> string) list"
  vk_platform :: string
  vk_config_digest :: string
  vk_fixture_digest :: string
  vk_generation :: string
  vk_producer_schema :: string
  vk_freshness_class :: string

definition key_to_dict :: "validation_key \<Rightarrow> validation_error + json" where
  "key_to_dict k =
     (if list_ex (\<lambda>s. strip s = [])
           [vk_source_merkle k, vk_lockfiles_digest k, vk_toolchain k, vk_platform k,
            vk_producer_schema k, vk_freshness_class k] \<or>
         vk_command k = [] \<or> [] \<in> set (vk_command k)
      then Inl Key_required_missing
      else if list_ex (\<lambda>(name, _). name = []) (vk_environment k) then Inl Cache_environment_invalid
      else Inr (JObj
        [(''schema'', JStr CACHE_KEY_SCHEMA),
         (''source_merkle'', JStr (vk_source_merkle k)),
         (''lockfiles_digest'', JStr (vk_lockfiles_digest k)),
         (''toolchain'', JStr (vk_toolchain k)),
         (''command'', JList (map JStr (vk_command k))),
         (''environment'', JList (map (\<lambda>p. JList (map JStr p))
            (sort (map (\<lambda>(name, v). [name, v]) (vk_environment k))))),
         (''platform'', JStr (vk_platform k)),
         (''config_digest'', JStr (vk_config_digest k)),
         (''fixture_digest'', JStr (vk_fixture_digest k)),
         (''generation'', JStr (vk_generation k)),
         (''producer_schema'', JStr (vk_producer_schema k)),
         (''freshness_class'', JStr (vk_freshness_class k))]))"

definition key_digest :: "(bytes \<Rightarrow> bytes) \<Rightarrow> validation_key \<Rightarrow> validation_error + string" where
  "key_digest sha k = ebind (key_to_dict k) (\<lambda>v. Inr (cache_digest sha v))"

section \<open>Results\<close>

record validation_result =
  vr_key_digest :: string
  vr_status :: string
  vr_result_digest :: string
  vr_command :: "string list"
  vr_fresh :: bool
  vr_evidence :: "string list"
  vr_verified :: bool
  vr_provenance :: "string list"
  vr_nondeterministic :: bool
  vr_generation :: string

definition make_result :: "validation_result \<Rightarrow> validation_error + validation_result" where
  "make_result r =
     (if vr_status r \<notin> {''pass'', ''fail'', ''partial''} then Inl Result_status_invalid
      else if vr_key_digest r = [] \<or> vr_result_digest r = [] then Inl Result_digest_invalid
      else if [] \<in> set (vr_command r) \<or> vr_command r = [] then Inl Result_command_invalid
      else if [] \<in> set (vr_evidence r) then Inl Result_evidence_invalid
      else if [] \<in> set (vr_provenance r) then Inl Result_provenance_invalid
      else if vr_verified r \<and> vr_provenance r = [] then Inl Result_provenance_required
      else Inr r)"

definition result_to_dict :: "validation_result \<Rightarrow> json" where
  "result_to_dict r = JObj
     [(''schema'', JStr RESULT_SCHEMA),
      (''key_digest'', JStr (vr_key_digest r)),
      (''status'', JStr (vr_status r)),
      (''result_digest'', JStr (vr_result_digest r)),
      (''command'', JList (map JStr (vr_command r))),
      (''fresh'', JBool (vr_fresh r)),
      (''evidence'', JList (map JStr (vr_evidence r))),
      (''verified'', JBool (vr_verified r)),
      (''provenance'', JList (map JStr (vr_provenance r))),
      (''nondeterministic'', JBool (vr_nondeterministic r)),
      (''generation'', JStr (vr_generation r))]"

section \<open>The cache\<close>

record validation_cache =
  vc_entries :: "(string, validation_result) dict"
  vc_leases :: "(string, string list) dict"

definition empty_results :: validation_cache where
  "empty_results = \<lparr>vc_entries = [], vc_leases = []\<rparr>"

definition leases_of :: "validation_cache \<Rightarrow> string \<Rightarrow> string list" where
  "leases_of c d = (case map_of (vc_leases c) d of None \<Rightarrow> [] | Some ls \<Rightarrow> ls)"

record put_request =
  pr_status :: string
  pr_result :: json
  pr_command :: "string list option"
  pr_fresh :: bool
  pr_evidence :: "string list"
  pr_verified :: bool
  pr_provenance :: "string list"

definition entry_of_result ::
  "validation_key \<Rightarrow> put_request \<Rightarrow> string \<Rightarrow> string \<Rightarrow> string list \<Rightarrow> string list \<Rightarrow> string list \<Rightarrow>
     validation_error + validation_result" where
  "entry_of_result k q d result_digest command evidence provenance =
     (if pr_verified q \<and> provenance = [] then Inl Result_provenance_required
      else
        make_result
          \<lparr>vr_key_digest = d, vr_status = pr_status q, vr_result_digest = result_digest,
           vr_command = command, vr_fresh = pr_fresh q, vr_evidence = evidence,
           vr_verified = pr_verified q, vr_provenance = provenance,
           vr_nondeterministic = False, vr_generation = vk_generation k\<rparr>)"

text \<open>
  The entry \<open>put\<close> stores: when the key already has another result, a partial, unverified one
  marked as nondeterministic.
\<close>

definition entry_of_put ::
  "validation_key \<Rightarrow> put_request \<Rightarrow> string \<Rightarrow> string \<Rightarrow> validation_result option \<Rightarrow>
     string list \<Rightarrow> string list \<Rightarrow> string list \<Rightarrow> validation_error + validation_result" where
  "entry_of_put k q d result_digest previous command evidence provenance =
     (case previous of
        Some p \<Rightarrow>
          if vr_result_digest p \<noteq> result_digest then
            make_result
              \<lparr>vr_key_digest = d, vr_status = ''partial'', vr_result_digest = result_digest,
               vr_command = command, vr_fresh = False,
               vr_evidence = sorted_set (evidence @ vr_evidence p @ [''nondeterministic'']),
               vr_verified = False, vr_provenance = [], vr_nondeterministic = True,
               vr_generation = vk_generation k\<rparr>
          else entry_of_result k q d result_digest command evidence provenance
      | None \<Rightarrow> entry_of_result k q d result_digest command evidence provenance)"

definition put_result ::
  "(bytes \<Rightarrow> bytes) \<Rightarrow> validation_key \<Rightarrow> put_request \<Rightarrow> validation_cache \<Rightarrow>
     (validation_error + validation_result) \<times> validation_cache" where
  "put_result sha k q c =
     (case ebind (key_digest sha k) (\<lambda>d.
             ebind (case pr_command q of None \<Rightarrow> Inr (vk_command k)
                    | Some command \<Rightarrow> string_sequence command Result_command_invalid) (\<lambda>command.
               ebind (string_sequence (pr_evidence q) Result_evidence_invalid) (\<lambda>evidence.
                 ebind (string_sequence (pr_provenance q) Result_provenance_invalid) (\<lambda>provenance.
                   entry_of_put k q d (cache_digest sha (pr_result q)) (map_of (vc_entries c) d)
                     command evidence provenance)))) of
        Inl e \<Rightarrow> (Inl e, c)
      | Inr entry \<Rightarrow> (Inr entry, c\<lparr>vc_entries := dput (vr_key_digest entry) entry (vc_entries c)\<rparr>))"

definition lease_result ::
  "(bytes \<Rightarrow> bytes) \<Rightarrow> validation_key \<Rightarrow> string \<Rightarrow> validation_cache \<Rightarrow>
     (validation_error + string) \<times> validation_cache" where
  "lease_result sha k lease_id c =
     (if lease_id = [] \<or> list_ex (\<lambda>ch. ch \<in> {CHR 0x5C, CHR ''/'', CHR 0x00}) lease_id
      then (Inl Lease_id_invalid, c)
      else
        (case key_digest sha k of
           Inl e \<Rightarrow> (Inl e, c)
         | Inr d \<Rightarrow>
             (if d \<notin> set (keys (vc_entries c)) then (Inl Cache_entry_missing, c)
              else (Inr d, c\<lparr>vc_leases := dput d (List.insert lease_id (leases_of c d)) (vc_leases c)\<rparr>))))"

definition unlease_result ::
  "(bytes \<Rightarrow> bytes) \<Rightarrow> validation_key \<Rightarrow> string \<Rightarrow> validation_cache \<Rightarrow>
     (validation_error + string) \<times> validation_cache" where
  "unlease_result sha k lease_id c =
     (if lease_id = [] then (Inl Lease_id_invalid, c)
      else
        (case key_digest sha k of
           Inl e \<Rightarrow> (Inl e, c)
         | Inr d \<Rightarrow>
             (let left = removeAll lease_id (leases_of c d) in
              (Inr d, c\<lparr>vc_leases := (if left \<noteq> [] then dput d left (vc_leases c) else dpop d (vc_leases c))\<rparr>))))"

record gc_report =
  gr_removed :: "string list"
  gr_candidates :: "string list"
  gr_retained_generations :: "string list"
  gr_leased_entries :: "string list"
  gr_truncated :: bool

definition gc_results ::
  "string list \<Rightarrow> int \<Rightarrow> bool \<Rightarrow> validation_cache \<Rightarrow> (validation_error + gc_report) \<times> validation_cache" where
  "gc_results keep_generations max_entries dry_run c =
     (if max_entries < 1 then (Inl Gc_budget_invalid, c)
      else
        (case string_sequence keep_generations Gc_generations_invalid of
           Inl e \<Rightarrow> (Inl e, c)
         | Inr keep \<Rightarrow>
             (let candidates = take (nat max_entries) (sort (map fst
                    (filter (\<lambda>(d, entry). vr_generation entry \<notin> set keep \<and> leases_of c d = []) (vc_entries c))))
              in (Inr \<lparr>gr_removed = (if dry_run then [] else candidates), gr_candidates = candidates,
                       gr_retained_generations = sorted_set keep,
                       gr_leased_entries = sort (map fst (filter (\<lambda>(_, ls). ls \<noteq> []) (vc_leases c))),
                       gr_truncated = (int (length candidates) = max_entries)\<rparr>,
                  if dry_run then c else c\<lparr>vc_entries := fold dpop candidates (vc_entries c)\<rparr>))))"

definition lookup_result ::
  "(bytes \<Rightarrow> bytes) \<Rightarrow> validation_key \<Rightarrow> bool \<Rightarrow> bool \<Rightarrow> bool \<Rightarrow> validation_cache \<Rightarrow>
     validation_error + validation_result option" where
  "lookup_result sha k require_fresh require_verified reusable c =
     ebind (key_digest sha k) (\<lambda>d. Inr
       (case map_of (vc_entries c) d of
          None \<Rightarrow> None
        | Some entry \<Rightarrow>
            if (require_fresh \<and> \<not> vr_fresh entry) \<or> (require_verified \<and> \<not> vr_verified entry) \<or>
               (reusable \<and> (\<not> vr_verified entry \<or> \<not> vr_fresh entry \<or> vr_nondeterministic entry))
            then None else Some entry))"

section \<open>The saved file\<close>

definition results_body :: "validation_cache \<Rightarrow> json" where
  "results_body c = JObj
     [(''schema'', JStr CACHE_SCHEMA),
      (''entries'', JList (map (\<lambda>d. result_to_dict (the (map_of (vc_entries c) d)))
         (sort (keys (vc_entries c)))))]"

definition results_document :: "(bytes \<Rightarrow> bytes) \<Rightarrow> validation_cache \<Rightarrow> json" where
  "results_document sha c =
     JObj [(''body'', results_body c), (''cache_sha256'', JStr (cache_digest sha (results_body c)))]"

text \<open>
  The bytes the file holds afterwards: \<open>refused\<close> says how many of the replaces the operating
  system refuses, the eighth refusal in a row is raised and leaves the old file.
\<close>

definition save_results ::
  "(bytes \<Rightarrow> bytes) \<Rightarrow> nat \<Rightarrow> validation_cache \<Rightarrow> bytes option \<Rightarrow>
     (validation_error + nat \<times> string) \<times> bytes option" where
  "save_results sha refused c old =
     (if refused \<ge> 8 then (Inl Permission_error, old)
      else (Inr (length (vc_entries c), cache_digest sha (results_body c)),
            Some (canonical (results_document sha c) @ encode [CHR 0x0A])))"

fun json_strings :: "json \<Rightarrow> string list option" where
  "json_strings (JList []) = Some []"
| "json_strings (JList (JStr s # vs)) = map_option ((#) s) (json_strings (JList vs))"
| "json_strings _ = None"

definition field_or :: "json \<Rightarrow> string \<Rightarrow> json \<Rightarrow> json" where
  "field_or v k d = (case jget v k of None \<Rightarrow> d | Some w \<Rightarrow> w)"

definition load_entry :: "json \<Rightarrow> validation_error + validation_result" where
  "load_entry raw =
     (case (jget raw ''key_digest'', jget raw ''status'', jget raw ''result_digest'',
            Option.bind (jget raw ''command'') json_strings, jget raw ''fresh'',
            json_strings (field_or raw ''evidence'' (JList [])), field_or raw ''verified'' (JBool False),
            json_strings (field_or raw ''provenance'' (JList [])),
            field_or raw ''nondeterministic'' (JBool False), field_or raw ''generation'' (JStr [])) of
        (Some (JStr d), Some (JStr status), Some (JStr result), Some command, Some (JBool fresh),
         Some evidence, JBool verified, Some provenance, JBool nondeterministic, JStr generation) \<Rightarrow>
          (case make_result
             \<lparr>vr_key_digest = d, vr_status = status, vr_result_digest = result, vr_command = command,
              vr_fresh = fresh, vr_evidence = evidence, vr_verified = verified,
              vr_provenance = provenance, vr_nondeterministic = nondeterministic,
              vr_generation = generation\<rparr> of
             Inl _ \<Rightarrow> Inl Cache_entry_invalid
           | Inr r \<Rightarrow> Inr r)
      | _ \<Rightarrow> Inl Cache_entry_invalid)"

fun load_entries ::
  "json list \<Rightarrow> (string, validation_result) dict \<Rightarrow> validation_error + (string, validation_result) dict" where
  "load_entries [] loaded = Inr loaded"
| "load_entries (raw # raws) loaded =
     (case raw of
        JObj _ \<Rightarrow>
          ebind (load_entry raw) (\<lambda>entry.
            if vr_key_digest entry \<in> set (keys loaded) then Inl Cache_duplicate_entry
            else load_entries raws (dput (vr_key_digest entry) entry loaded))
      | _ \<Rightarrow> Inl Cache_entries_invalid)"

definition load_results :: "(bytes \<Rightarrow> bytes) \<Rightarrow> bytes option \<Rightarrow> validation_error + validation_cache" where
  "load_results sha file =
     (case Option.bind file (\<lambda>raw. loads (decode raw)) of
        None \<Rightarrow> Inl Cache_document_invalid
      | Some (JObj document) \<Rightarrow>
          (case map_of document ''body'' of
             Some (JObj body) \<Rightarrow>
               (if \<not> json_eq (field_or_null body ''schema'') (JStr CACHE_SCHEMA) then Inl Cache_schema_unsupported
                else if \<not> json_eq (field_or_null document ''cache_sha256'') (JStr (cache_digest sha (JObj body)))
                  then Inl Cache_digest_mismatch
                else
                  (case map_of body ''entries'' of
                     Some (JList raws) \<Rightarrow>
                       ebind (load_entries raws []) (\<lambda>loaded. Inr \<lparr>vc_entries = loaded, vc_leases = []\<rparr>)
                   | _ \<Rightarrow> Inl Cache_entries_invalid))
           | _ \<Rightarrow> Inl Cache_schema_unsupported)
      | Some _ \<Rightarrow> Inl Cache_document_invalid)"

section \<open>Affected tests\<close>

record affected_report =
  ar_tests :: "string list"
  ar_changed_handles :: "string list"
  ar_reason_paths :: "(string \<times> string list) list"
  ar_complete :: bool

definition affected_tests ::
  "string list \<Rightarrow> (string, string list) dict \<Rightarrow> int \<Rightarrow> validation_error + affected_report" where
  "affected_tests changed_handles tests max_tests =
     (if \<not> (0 < max_tests \<and> max_tests \<le> MAX_AFFECTED_TESTS) then Inl Selection_budget_invalid
      else
        ebind (string_sequence changed_handles Changed_handles_invalid) (\<lambda>changed.
          ebind (emap (\<lambda>(handle, vs).
                   if handle = [] then Inl Test_mapping_invalid
                   else ebind (string_sequence vs Test_values_invalid) (\<lambda>ws. Inr (handle, ws))) tests) (\<lambda>normalized.
            let selected_by_handle = map (\<lambda>(handle, vs). (handle, sorted_set vs))
                  (filter (\<lambda>(handle, _). handle \<in> set changed) normalized);
                selected = sorted_set (concat (map snd selected_by_handle))
            in Inr \<lparr>ar_tests = take (nat max_tests) selected, ar_changed_handles = sorted_set changed,
                    ar_reason_paths = sort_key fst selected_by_handle,
                    ar_complete = (int (length selected) \<le> max_tests)\<rparr>)))"

section \<open>What every operation keeps\<close>

definition results_wf :: "validation_cache \<Rightarrow> bool" where
  "results_wf c \<longleftrightarrow>
     distinct (keys (vc_entries c)) \<and>
     (\<forall>(d, r) \<in> set (vc_entries c). vr_key_digest r = d \<and> make_result r = Inr r)"

datatype validation_op =
    Put validation_key put_request
  | Lease validation_key string
  | Unlease validation_key string
  | Collect "string list" int bool

primrec validation_step :: "(bytes \<Rightarrow> bytes) \<Rightarrow> validation_op \<Rightarrow> validation_cache \<Rightarrow> validation_cache" where
  "validation_step sha (Put k q) c = snd (put_result sha k q c)"
| "validation_step sha (Lease k i) c = snd (lease_result sha k i c)"
| "validation_step sha (Unlease k i) c = snd (unlease_result sha k i c)"
| "validation_step sha (Collect keep n dry) c = snd (gc_results keep n dry c)"

abbreviation validation_run :: "(bytes \<Rightarrow> bytes) \<Rightarrow> validation_op list \<Rightarrow> validation_cache \<Rightarrow> validation_cache" where
  "validation_run sha ops c \<equiv> fold (validation_step sha) ops c"

lemma make_result_same: "make_result r = Inr r' \<Longrightarrow> r' = r"
  by (simp add: make_result_def split: if_splits)

lemma entry_of_put_Inr:
  assumes "entry_of_put k q d rd previous command evidence provenance = Inr r"
  shows "make_result r = Inr r" "vr_key_digest r = d" "vr_result_digest r = rd"
    "vr_nondeterministic r \<longleftrightarrow> (case previous of None \<Rightarrow> False | Some p \<Rightarrow> vr_result_digest p \<noteq> rd)"
    "vr_nondeterministic r \<Longrightarrow> \<not> vr_verified r"
  using assms
  by (auto simp: entry_of_put_def entry_of_result_def dest: make_result_same split: option.splits if_splits)

lemma put_result_cases:
  obtains (raised) e where "put_result sha k q c = (Inl e, c)"
  | (stored) d r command evidence provenance where "key_digest sha k = Inr d"
      "entry_of_put k q d (cache_digest sha (pr_result q)) (map_of (vc_entries c) d) command evidence provenance = Inr r"
      "put_result sha k q c = (Inr r, c\<lparr>vc_entries := dput d r (vc_entries c)\<rparr>)"
proof (cases "put_result sha k q c")
  case (Pair a c')
  show thesis
  proof (cases a)
    case (Inl e)
    with Pair raised show thesis by (auto simp: put_result_def split: sum.splits)
  next
    case (Inr r)
    with Pair obtain d command evidence provenance where d: "key_digest sha k = Inr d"
      and e: "entry_of_put k q d (cache_digest sha (pr_result q)) (map_of (vc_entries c) d)
         command evidence provenance = Inr r"
      and c': "c' = c\<lparr>vc_entries := dput (vr_key_digest r) r (vc_entries c)\<rparr>"
      by (auto simp: put_result_def ebind_Inr split: sum.splits)
    from stored [OF d e] Pair Inr c' entry_of_put_Inr(2) [OF e] show thesis by simp
  qed
qed

lemma put_result_wf: "results_wf c \<Longrightarrow> results_wf (snd (put_result sha k q c))"
proof (cases rule: put_result_cases [of sha k q c])
  case (stored d r command evidence provenance)
  assume wf: "results_wf c"
  have "\<forall>(j, w) \<in> set (dput d r (vc_entries c)). vr_key_digest w = j \<and> make_result w = Inr w"
    by (rule values_dput) (use wf entry_of_put_Inr(1,2) [OF stored(2)] in \<open>auto simp: results_wf_def\<close>)
  with wf stored(3) show ?thesis by (simp add: results_wf_def distinct_dput)
qed simp

lemma lease_result_entries [simp]:
  "vc_entries (snd (lease_result sha k i c)) = vc_entries c"
  "vc_entries (snd (unlease_result sha k i c)) = vc_entries c"
  by (auto simp: lease_result_def unlease_result_def Let_def split: sum.splits)

lemma map_of_gc_results:
  "map_of (vc_entries (snd (gc_results keep n dry c))) d = None \<or>
   map_of (vc_entries (snd (gc_results keep n dry c))) d = map_of (vc_entries c) d"
  by (auto simp: gc_results_def Let_def map_of_fold_dpop split: sum.splits)

lemma fold_dpop_subset: "set (fold dpop ks d) \<subseteq> set d"
  by (induction ks arbitrary: d) (fastforce simp: dpop_def)+

lemma distinct_fold_dpop: "distinct (keys d) \<Longrightarrow> distinct (keys (fold dpop ks d))"
  by (induction ks arbitrary: d) (auto intro: distinct_dpop)

lemma gc_results_wf: "results_wf c \<Longrightarrow> results_wf (snd (gc_results keep n dry c))"
proof -
  assume wf: "results_wf c"
  have "vc_entries (snd (gc_results keep n dry c)) = vc_entries c \<or>
      (\<exists>ks. vc_entries (snd (gc_results keep n dry c)) = fold dpop ks (vc_entries c))"
    by (auto simp: gc_results_def Let_def split: sum.splits)
  then show ?thesis
  proof
    assume "\<exists>ks. vc_entries (snd (gc_results keep n dry c)) = fold dpop ks (vc_entries c)"
    then obtain ks where "vc_entries (snd (gc_results keep n dry c)) = fold dpop ks (vc_entries c)" ..
    with wf show ?thesis
      using fold_dpop_subset [of ks "vc_entries c"] distinct_fold_dpop [of "vc_entries c" ks]
      by (auto simp: results_wf_def)
  qed (use wf in \<open>simp add: results_wf_def\<close>)
qed

lemma validation_step_wf: "results_wf c \<Longrightarrow> results_wf (validation_step sha opn c)"
  by (cases opn) (simp_all add: put_result_wf gc_results_wf, simp_all add: results_wf_def)

lemma validation_run_wf: "results_wf c \<Longrightarrow> results_wf (validation_run sha ops c)"
  by (induction ops arbitrary: c) (auto intro: validation_step_wf)

lemma empty_results_wf: "results_wf empty_results"
  by (simp add: results_wf_def empty_results_def)

section \<open>Reading the saved file back\<close>

lemma json_strings_map [simp]: "json_strings (JList (map JStr ss)) = Some ss"
  by (induction ss) simp_all

lemma wf_result_to_dict [simp]: "wf_json (result_to_dict r)"
  by (auto simp: result_to_dict_def)

lemma load_entry_result:
  assumes "make_result r = Inr r"
  shows "load_entry (norm_json (result_to_dict r)) = Inr r"
proof -
  have get: "jget (norm_json (result_to_dict r)) k = map_option norm_json (jget (result_to_dict r) k)" for k
    by (rule jget_norm) simp
  have strs: "map (norm_json \<circ> JStr) ss = map JStr ss" for ss by simp
  show ?thesis
    unfolding load_entry_def field_or_def get using assms
    by (cases r) (simp add: result_to_dict_def strs)
qed

lemma norm_result_JObj: "\<exists>kvs. norm_json (result_to_dict r) = JObj kvs"
  by (simp add: result_to_dict_def)

lemma load_entries_results:
  "\<lbrakk>distinct (map vr_key_digest rs @ keys loaded); \<forall>r \<in> set rs. make_result r = Inr r\<rbrakk> \<Longrightarrow>
     load_entries (map (norm_json \<circ> result_to_dict) rs) loaded =
       Inr (loaded @ map (\<lambda>r. (vr_key_digest r, r)) rs)"
proof (induction rs arbitrary: loaded)
  case (Cons r rs)
  obtain kvs where kvs: "norm_json (result_to_dict r) = JObj kvs" using norm_result_JObj by blast
  have "load_entry (JObj kvs) = Inr r" using load_entry_result [of r] kvs Cons.prems(2) by simp
  moreover have "vr_key_digest r \<notin> set (keys loaded)" using Cons.prems(1) by auto
  moreover from this have "dput (vr_key_digest r) r loaded = loaded @ [(vr_key_digest r, r)]"
    by (rule dput_new)
  ultimately show ?case using Cons kvs by simp
qed simp

lemma sorted_entries_keys:
  assumes "results_wf c"
  defines "rs \<equiv> map (\<lambda>d. the (map_of (vc_entries c) d)) (sort (keys (vc_entries c)))"
  shows "map vr_key_digest rs = sort (keys (vc_entries c))" "\<forall>r \<in> set rs. make_result r = Inr r"
    "map_of (map (\<lambda>r. (vr_key_digest r, r)) rs) = map_of (vc_entries c)"
proof -
  have entry: "vr_key_digest (the (map_of (vc_entries c) d)) = d \<and>
      make_result (the (map_of (vc_entries c) d)) = Inr (the (map_of (vc_entries c) d))"
    if "d \<in> set (keys (vc_entries c))" for d
  proof -
    from that obtain r where "map_of (vc_entries c) d = Some r"
      by (metis map_of_None_keys not_None_eq)
    with assms(1) show ?thesis by (auto simp: results_wf_def dest: map_of_SomeD)
  qed
  show keys: "map vr_key_digest rs = sort (keys (vc_entries c))"
    unfolding rs_def map_map by (rule map_idI) (simp add: entry)
  show "\<forall>r \<in> set rs. make_result r = Inr r" unfolding rs_def using entry by simp
  have pairs: "map (\<lambda>r. (vr_key_digest r, r)) rs = map (\<lambda>d. (d, the (map_of (vc_entries c) d))) (sort (keys (vc_entries c)))"
    unfolding rs_def using entry by simp
  show "map_of (map (\<lambda>r. (vr_key_digest r, r)) rs) = map_of (vc_entries c)"
  proof
    fix d
    show "map_of (map (\<lambda>r. (vr_key_digest r, r)) rs) d = map_of (vc_entries c) d"
      unfolding pairs map_of_map_restrict
      using map_of_None_keys [of "vc_entries c" d] by (auto simp: restrict_map_def)
  qed
qed

section \<open>Leases\<close>

lemma leases_of_put [simp]: "leases_of (snd (put_result sha k q c)) d = leases_of c d"
  by (cases rule: put_result_cases [of sha k q c]) (simp_all add: leases_of_def)

lemma leases_of_gc [simp]: "leases_of (snd (gc_results keep n dry c)) d = leases_of c d"
  by (auto simp: gc_results_def leases_of_def Let_def split: sum.splits)

lemma gc_keeps:
  assumes "leases_of c d \<noteq> [] \<or> (\<exists>r. map_of (vc_entries c) d = Some r \<and> vr_generation r \<in> set keep)"
    and "results_wf c"
  shows "map_of (vc_entries (snd (gc_results keep n dry c))) d = map_of (vc_entries c) d"
proof -
  have keep: "string_sequence keep e = Inr ks \<Longrightarrow> ks = keep" for e ks
    by (auto simp: string_sequence_def split: if_splits)
  have "d \<notin> set (take m (sort (map fst (filter (\<lambda>(d, entry). vr_generation entry \<notin> set keep \<and> leases_of c d = [])
      (vc_entries c)))))" for m
  proof
    assume "d \<in> set (take m (sort (map fst (filter (\<lambda>(d, entry). vr_generation entry \<notin> set keep \<and> leases_of c d = [])
      (vc_entries c)))))"
    then obtain r where "(d, r) \<in> set (vc_entries c)" "vr_generation r \<notin> set keep" "leases_of c d = []"
      by (fastforce dest: in_set_takeD)
    moreover from this have "map_of (vc_entries c) d = Some r"
      using assms(2) by (simp add: results_wf_def)
    ultimately show False using assms(1) by auto
  qed
  then show ?thesis
    by (auto simp: gc_results_def Let_def map_of_fold_dpop split: sum.splits dest!: keep)
qed

text \<open>An operation that is not the release of \<open>i\<close> under the digest \<open>d\<close>.\<close>

definition no_release :: "(bytes \<Rightarrow> bytes) \<Rightarrow> string \<Rightarrow> string \<Rightarrow> validation_op \<Rightarrow> bool" where
  "no_release sha d i opn \<longleftrightarrow> (case opn of Unlease k j \<Rightarrow> \<not> (j = i \<and> key_digest sha k = Inr d) | _ \<Rightarrow> True)"

lemma leased_step:
  assumes "results_wf c" "i \<in> set (leases_of c d)" "map_of (vc_entries c) d \<noteq> None" "no_release sha d i opn"
  shows "i \<in> set (leases_of (validation_step sha opn c) d) \<and>
    map_of (vc_entries (validation_step sha opn c)) d \<noteq> None"
proof (cases opn)
  case (Put k q)
  show ?thesis
    by (cases rule: put_result_cases [of sha k q c]) (use assms Put in \<open>auto simp: dict_simps leases_of_def\<close>)
next
  case (Lease k j)
  then show ?thesis using assms
    by (auto simp: lease_result_def leases_of_def dict_simps split: sum.splits option.splits if_splits)
next
  case (Unlease k j)
  have "removeAll j xs = [] \<longleftrightarrow> set xs \<subseteq> {j}" for xs :: "string list"
    by (induction xs) auto
  then show ?thesis using Unlease assms
    by (auto simp: unlease_result_def no_release_def leases_of_def dict_simps Let_def split: sum.splits option.splits)
next
  case (Collect keep n dry)
  have "leases_of c d \<noteq> []" using assms(2) by auto
  with assms Collect gc_keeps [of c d keep n dry] show ?thesis by simp
qed

section \<open>Properties\<close>

text \<open>A saved cache loads back: for every cache the operations can produce, the file that
  \<open>save\<close> writes is accepted by \<open>load\<close>, which finds exactly the same entry under every key, in
  the order of the keys, and no lease.\<close>

theorem saved_results_load_back:
  assumes "refused < 8"
  shows "\<exists>c'. load_results sha (snd (save_results sha refused (validation_run sha ops empty_results) old)) = Inr c' \<and>
     map_of (vc_entries c') = map_of (vc_entries (validation_run sha ops empty_results)) \<and>
     sorted (keys (vc_entries c')) \<and> vc_leases c' = []"
proof -
  let ?c = "validation_run sha ops empty_results"
  let ?rs = "map (\<lambda>d. the (map_of (vc_entries ?c) d)) (sort (keys (vc_entries ?c)))"
  have wf: "results_wf ?c" by (intro validation_run_wf empty_results_wf)
  note rs = sorted_entries_keys [OF wf]
  have body: "cache_digest sha (norm_json (results_body ?c)) = cache_digest sha (results_body ?c)"
    by (simp add: cache_digest_def)
  have wfb: "wf_json (results_body ?c)" by (auto simp: results_body_def)
  then have wfd: "wf_json (results_document sha ?c)" by (simp add: results_document_def)
  obtain document where document: "norm_json (results_document sha ?c) = JObj document"
    by (simp add: results_document_def)
  obtain b where b: "norm_json (results_body ?c) = JObj b" by (simp add: results_body_def)
  have doc: "map_of document k = map_option norm_json (jget (results_document sha ?c) k)" for k
    using jget_norm [OF wfd, of k] document by simp
  have bod: "map_of b k = map_option norm_json (jget (results_body ?c) k)" for k
    using jget_norm [OF wfb, of k] b by simp
  have "norm_json (JList (map result_to_dict ?rs)) = JList (map (norm_json \<circ> result_to_dict) ?rs)" by simp
  then have entries: "map_of b ''entries'' = Some (JList (map (norm_json \<circ> result_to_dict) ?rs))"
    unfolding bod by (simp add: results_body_def comp_def)
  have load: "load_entries (map (norm_json \<circ> result_to_dict) ?rs) [] = Inr (map (\<lambda>r. (vr_key_digest r, r)) ?rs)"
    using load_entries_results [of ?rs "[]"] rs(1,2) wf by (simp add: results_wf_def del: map_map)
  have "loads (dumps (results_document sha ?c) @ [CHR 0x0A]) = Some (JObj document)"
    using loads_dumps_line [OF wfd] document by simp
  then have "load_results sha (snd (save_results sha refused ?c old)) =
      Inr \<lparr>vc_entries = map (\<lambda>r. (vr_key_digest r, r)) ?rs, vc_leases = []\<rparr>"
    using assms b body entries load
    by (simp add: load_results_def save_results_def canonical_def doc field_or_null_def results_document_def
        bod results_body_def [of ?c] del: map_map flip: encode_append)
  then show ?thesis using rs by (simp add: comp_def)
qed

text \<open>C26: A lease protects its result: once \<open>acquire_lease\<close> succeeded, no sequence of puts, leases,
  collections and releases of other leases removes the result, whatever generations are kept and
  however small the collection's budget is.\<close>

theorem leased_result_survives:
  assumes "lease_result sha k i (validation_run sha before empty_results) = (Inr d, c)"
    and "\<forall>opn \<in> set ops. no_release sha d i opn"
  shows "map_of (vc_entries (validation_run sha ops c)) d \<noteq> None"
proof -
  have run: "results_wf c \<Longrightarrow> i \<in> set (leases_of c d) \<Longrightarrow> map_of (vc_entries c) d \<noteq> None \<Longrightarrow>
      \<forall>opn \<in> set ops. no_release sha d i opn \<Longrightarrow> map_of (vc_entries (validation_run sha ops c)) d \<noteq> None" for ops c
  proof (induction ops arbitrary: c)
    case (Cons opn ops)
    from leased_step [OF Cons.prems(1-3), of sha opn] Cons.prems(4) Cons.IH [OF validation_step_wf [OF Cons.prems(1)]]
    show ?case by simp
  qed simp
  have "results_wf (validation_run sha before empty_results)" by (intro validation_run_wf empty_results_wf)
  then have "results_wf (snd (lease_result sha k i (validation_run sha before empty_results)))"
    by (simp add: results_wf_def)
  moreover have "i \<in> set (leases_of c d)" "map_of (vc_entries c) d \<noteq> None"
    using assms(1)
    by (auto simp: lease_result_def leases_of_def dict_simps map_of_None_keys split: sum.splits if_splits)
  ultimately show ?thesis using assms run by simp
qed

definition sample_key :: validation_key where
  "sample_key = \<lparr>vk_source_merkle = ''m'', vk_lockfiles_digest = ''l'', vk_toolchain = ''t'',
     vk_command = [''make''], vk_environment = [], vk_platform = ''p'', vk_config_digest = [],
     vk_fixture_digest = [], vk_generation = ''g'', vk_producer_schema = ''s'', vk_freshness_class = ''n''\<rparr>"

definition sample_put :: "string \<Rightarrow> put_request" where
  "sample_put result = \<lparr>pr_status = ''pass'', pr_result = JStr result, pr_command = None, pr_fresh = True,
     pr_evidence = [], pr_verified = True, pr_provenance = [''ci'']\<rparr>"

lemma sample_key_digest: "\<exists>d. key_digest sha sample_key = Inr d \<and> d \<noteq> []"
  by (simp add: key_digest_def key_to_dict_def sample_key_def cache_digest_def strip_def is_space_def)

lemma sample_put_stored:
  assumes "key_digest sha sample_key = Inr d" "d \<noteq> []"
  shows "\<exists>r. put_result sha sample_key (sample_put x) empty_results = (Inr r, \<lparr>vc_entries = [(d, r)], vc_leases = []\<rparr>) \<and>
     vr_result_digest r = cache_digest sha (JStr x) \<and> vr_evidence r = []"
  using assms
  by (simp add: put_result_def entry_of_put_def entry_of_result_def make_result_def string_sequence_def
      sample_put_def empty_results_def dput_def cache_digest_def) (simp add: sample_key_def)

theorem leased_result_survives_witness:
  "\<exists>d c. lease_result id sample_key ''x'' (validation_run id [Put sample_key (sample_put ''a'')] empty_results) = (Inr d, c) \<and>
     map_of (vc_entries (validation_run id [Collect [] 1 False] c)) d \<noteq> None"
proof -
  obtain d where d: "key_digest id sample_key = Inr d" "d \<noteq> []" using sample_key_digest by blast
  from sample_put_stored [OF d, of "''a''"] d have
    "\<exists>c. lease_result id sample_key ''x'' (validation_run id [Put sample_key (sample_put ''a'')] empty_results) = (Inr d, c)"
    by (auto simp: lease_result_def)
  then obtain c where c: "lease_result id sample_key ''x''
      (validation_run id [Put sample_key (sample_put ''a'')] empty_results) = (Inr d, c)" ..
  from leased_result_survives [OF c, of "[Collect [] 1 False]"] c show ?thesis
    by (auto simp: no_release_def)
qed

theorem saved_results_load_back_witness:
  "\<exists>c'. load_results id (snd (save_results id 3 (validation_run id [Put sample_key (sample_put ''a'')] empty_results) None)) = Inr c' \<and>
     vc_leases c' = []"
  using saved_results_load_back [of 3 id "[Put sample_key (sample_put ''a'')]" None] by auto

text \<open>Disagreeing results are never reused: when a key with a stored result gets another one
  that hashes differently, the stored entry becomes a stale, unverified partial result, and a
  lookup that asks for a reusable, fresh or verified result finds nothing.\<close>

theorem conflicting_result_is_not_reused:
  assumes "put_result sha k q c = (Inr r, c1)" "put_result sha k q' c1 = (Inr r', c2)"
    and "cache_digest sha (pr_result q) \<noteq> cache_digest sha (pr_result q')"
  shows "lookup_result sha k False False False c2 = Inr (Some r') \<and> vr_status r' = ''partial'' \<and>
     vr_nondeterministic r' \<and>
     (fresh \<or> verified \<or> reusable \<longrightarrow> lookup_result sha k fresh verified reusable c2 = Inr None)"
proof -
  from assms(1) obtain d where d: "key_digest sha k = Inr d"
    and c1: "map_of (vc_entries c1) d = Some r" "vr_result_digest r = cache_digest sha (pr_result q)"
    by (cases rule: put_result_cases [of sha k q c]) (auto simp: dict_simps dest: entry_of_put_Inr(3))
  from assms(2) d obtain command evidence provenance where
    e: "entry_of_put k q' d (cache_digest sha (pr_result q')) (Some r) command evidence provenance = Inr r'"
    and c2: "map_of (vc_entries c2) d = Some r'"
    using c1(1) by (cases rule: put_result_cases [of sha k q' c1]) (auto simp: dict_simps)
  have "vr_status r' = ''partial'' \<and> vr_nondeterministic r' \<and> \<not> vr_fresh r' \<and> \<not> vr_verified r'"
    using e c1(2) assms(3) by (auto simp: entry_of_put_def dest!: make_result_same)
  with d c2 show ?thesis by (auto simp: lookup_result_def)
qed

theorem conflicting_result_is_not_reused_witness:
  "\<exists>r' c2. put_result id sample_key (sample_put ''b'')
       (snd (put_result id sample_key (sample_put ''a'') empty_results)) = (Inr r', c2) \<and>
     lookup_result id sample_key False False True c2 = Inr None"
proof -
  obtain d where d: "key_digest id sample_key = Inr d" "d \<noteq> []" using sample_key_digest by blast
  obtain r where r: "put_result id sample_key (sample_put ''a'') empty_results =
      (Inr r, \<lparr>vc_entries = [(d, r)], vc_leases = []\<rparr>)" "vr_result_digest r = cache_digest id (JStr ''a'')" "vr_evidence r = []"
    using sample_put_stored [OF d] by blast
  have ne: "cache_digest id (JStr ''a'') \<noteq> cache_digest id (JStr ''b'')"
    using hex_inj by (fastforce simp: cache_digest_def hexdigest_def canonical_def quote_def escape_char_def)
  obtain r' c2 where r': "put_result id sample_key (sample_put ''b'') \<lparr>vc_entries = [(d, r)], vc_leases = []\<rparr> = (Inr r', c2)"
    using d r(2,3) ne
    by (simp add: put_result_def entry_of_put_def make_result_def string_sequence_def sample_put_def
        cache_digest_def sample_key_def)
  from conflicting_result_is_not_reused [OF r(1) r', of False False True] ne r(1) r' show ?thesis
    by (simp add: sample_put_def)
qed

text \<open>The affected tests are exactly the tests of the changed handles: the selection lists them
  sorted and without repetition, cuts them off at the budget, and calls itself complete exactly when
  nothing was cut.\<close>

theorem affected_tests_are_those_of_changed_handles:
  assumes "affected_tests changed tests n = Inr r"
  defines "needed \<equiv> {t. \<exists>h vs. h \<in> set changed \<and> (h, vs) \<in> set tests \<and> t \<in> set vs}"
  shows "set (ar_tests r) \<subseteq> needed \<and> sorted (ar_tests r) \<and> distinct (ar_tests r) \<and>
     int (length (ar_tests r)) \<le> n \<and> (ar_complete r \<longleftrightarrow> set (ar_tests r) = needed)"
proof -
  have seq: "string_sequence vs e = Inr ws \<Longrightarrow> ws = vs" for vs ws e
    by (auto simp: string_sequence_def split: if_splits)
  let ?f = "\<lambda>(handle, vs). if handle = [] then Inl Test_mapping_invalid
      else ebind (string_sequence vs Test_values_invalid) (\<lambda>ws. Inr (handle, ws))"
  have pairs: "emap ?f ts = Inr ns \<Longrightarrow> ns = ts" for ts ns
    by (induction ts arbitrary: ns) (auto simp: ebind_Inr split: if_splits dest: seq)
  from assms(1) obtain normalized where n: "1 \<le> n" and norm: "emap ?f tests = Inr normalized"
    and r: "r = \<lparr>ar_tests = take (nat n) (sorted_set (concat (map snd (map (\<lambda>(handle, vs). (handle, sorted_set vs))
            (filter (\<lambda>(handle, _). handle \<in> set changed) normalized))))),
        ar_changed_handles = sorted_set changed,
        ar_reason_paths = sort_key fst (map (\<lambda>(handle, vs). (handle, sorted_set vs))
            (filter (\<lambda>(handle, _). handle \<in> set changed) normalized)),
        ar_complete = (int (length (sorted_set (concat (map snd (map (\<lambda>(handle, vs). (handle, sorted_set vs))
            (filter (\<lambda>(handle, _). handle \<in> set changed) normalized)))))) \<le> n)\<rparr>"
    by (auto simp: affected_tests_def ebind_Inr Let_def split: if_splits dest: seq)
  let ?S = "sorted_set (concat (map snd (map (\<lambda>(handle, vs). (handle, sorted_set vs))
            (filter (\<lambda>(handle, _). handle \<in> set changed) tests))))"
  have S: "set ?S = needed" by (auto simp: needed_def) force
  have part: "set (take (nat n) ?S) = set ?S \<longleftrightarrow> length ?S \<le> nat n"
  proof
    assume "set (take (nat n) ?S) = set ?S"
    then have "card (set (take (nat n) ?S)) = card (set ?S)" by (rule arg_cong)
    then have "length (take (nat n) ?S) = length ?S"
      by (simp only: distinct_card distinct_take distinct_sorted_set)
    then show "length ?S \<le> nat n" by simp
  qed simp
  have "sorted (take (nat n) ?S)" using sorted_sorted_set by (rule sorted_wrt_take)
  moreover have "distinct (take (nat n) ?S)" by (rule distinct_take [OF distinct_sorted_set])
  moreover have "set (take (nat n) ?S) \<subseteq> needed" using set_take_subset [of "nat n" ?S] S by simp
  moreover have "int (length ?S) \<le> n \<longleftrightarrow> set (take (nat n) ?S) = needed"
    using part S n by (simp add: le_nat_iff)
  ultimately show ?thesis using n by (simp only: r pairs [OF norm] affected_report.simps) simp
qed

theorem affected_tests_are_those_of_changed_handles_witness:
  "\<exists>r. affected_tests [''h''] [(''h'', [''t'', ''s'']), (''g'', [''u''])] 1 = Inr r \<and> int (length (ar_tests r)) \<le> 1"
proof -
  have "\<exists>r. affected_tests [''h''] [(''h'', [''t'', ''s'']), (''g'', [''u''])] 1 = Inr r"
    by (simp add: affected_tests_def string_sequence_def MAX_AFFECTED_TESTS_def Let_def)
  then show ?thesis using affected_tests_are_those_of_changed_handles by blast
qed

end
