(* ===== verification/GenerationReceipts.thy ===== *)
theory GenerationReceipts
  imports HashChain JsonFields
begin

text \<open>
  \<open>simplicio_fast/generation_receipts.py\<close>: receipts that seal what a generation was built from,
  their verification alone and as a chain, and the in-memory journal that answers a retry with the
  receipt it already has.  A receipt is a dictionary of JSON values, so verification is a function
  of any such dictionary and not only of sealed ones.
\<close>

definition GENERATION_RECEIPT_SCHEMA :: string where
  "GENERATION_RECEIPT_SCHEMA = ''simplicio.fast-generation-receipt/v1''"

definition RECEIPT_KINDS :: "string list" where
  "RECEIPT_KINDS = [''build'', ''query'', ''context'', ''refresh'', ''overlay'', ''rollout'']"

datatype receipt_error =
    Receipt_kind_invalid
  | Backend_invalid
  | Native_artifact_unbound
  | Python_artifact_invalid
  | Receipt_binding_missing
  | Receipt_schema_invalid
  | Receipt_corrupt
  | Receipt_repo_mismatch
  | Receipt_commit_stale
  | Receipt_generation_stale
  | Receipt_ancestor_mismatch
  | Receipt_source_stale
  | Idempotency_collision
  | Receipt_escape py_exc

type_synonym receipt = "(string \<times> json) list"

definition receipt_digest :: "(bytes \<Rightarrow> bytes) \<Rightarrow> json \<Rightarrow> string" where
  "receipt_digest sha v = hexdigest sha (canonical v)"

section \<open>Sealing\<close>

record seal_request =
  sq_kind :: string
  sq_repo :: string
  sq_commit :: string
  sq_snapshot_digest :: string
  sq_generation :: string
  sq_source_hashes :: "(string, string) dict"
  sq_backend :: string
  sq_backend_artifact_hash :: "string option"
  sq_fallback_reason :: "string option"
  sq_ancestor_receipt_hash :: "string option"
  sq_ancestor_context_packet_hash :: "string option"
  sq_downstream_changeset_hash :: "string option"

definition hashes_json :: "(string, string) dict \<Rightarrow> json" where
  "hashes_json d = JObj (map (\<lambda>(k, v). (k, JStr v)) (sort_key fst d))"

definition receipt_body :: "seal_request \<Rightarrow> receipt" where
  "receipt_body q =
     [(''schema'', JStr GENERATION_RECEIPT_SCHEMA),
      (''kind'', JStr (sq_kind q)),
      (''repo'', JStr (sq_repo q)),
      (''commit'', JStr (sq_commit q)),
      (''snapshot_digest'', JStr (sq_snapshot_digest q)),
      (''generation'', JStr (sq_generation q)),
      (''source_hashes'', hashes_json (sq_source_hashes q)),
      (''backend'', JStr (sq_backend q)),
      (''backend_artifact_hash'', jopt (sq_backend_artifact_hash q)),
      (''fallback_reason'', jopt (sq_fallback_reason q)),
      (''ancestor_receipt_hash'', jopt (sq_ancestor_receipt_hash q)),
      (''ancestor_context_packet_hash'', jopt (sq_ancestor_context_packet_hash q)),
      (''downstream_changeset_hash'', jopt (sq_downstream_changeset_hash q)),
      (''public_offsets'', JNull),
      (''public_offsets_null_reason'', JStr ''FAST_INTERNAL_OFFSETS_NOT_PUBLIC'')]"

definition idempotency_fields :: "seal_request \<Rightarrow> json" where
  "idempotency_fields q = JObj
     [(''kind'', JStr (sq_kind q)),
      (''repo'', JStr (sq_repo q)),
      (''commit'', JStr (sq_commit q)),
      (''snapshot_digest'', JStr (sq_snapshot_digest q)),
      (''generation'', JStr (sq_generation q)),
      (''source_hashes'', hashes_json (sq_source_hashes q)),
      (''ancestor_receipt_hash'', jopt (sq_ancestor_receipt_hash q)),
      (''ancestor_context_packet_hash'', jopt (sq_ancestor_context_packet_hash q)),
      (''downstream_changeset_hash'', jopt (sq_downstream_changeset_hash q))]"

definition check_seal_request :: "seal_request \<Rightarrow> receipt_error + unit" where
  "check_seal_request q =
     (if sq_kind q \<notin> set RECEIPT_KINDS then Inl Receipt_kind_invalid
      else if sq_backend q \<notin> {''python'', ''rust''} then Inl Backend_invalid
      else if sq_backend q = ''rust'' \<and> (sq_backend_artifact_hash q = None \<or> sq_backend_artifact_hash q = Some [])
        then Inl Native_artifact_unbound
      else if sq_backend q = ''python'' \<and> sq_backend_artifact_hash q \<noteq> None then Inl Python_artifact_invalid
      else if sq_repo q = [] \<or> sq_commit q = [] \<or> sq_snapshot_digest q = [] \<or> sq_generation q = [] \<or>
              sq_source_hashes q = []
        then Inl Receipt_binding_missing
      else Inr ())"

definition seal_generation_receipt :: "(bytes \<Rightarrow> bytes) \<Rightarrow> seal_request \<Rightarrow> receipt_error + receipt" where
  "seal_generation_receipt sha q =
     ebind (check_seal_request q) (\<lambda>_.
       let body = dput ''idempotency_key'' (JStr (receipt_digest sha (idempotency_fields q))) (receipt_body q)
       in Inr (dput ''receipt_hash'' (JStr (receipt_digest sha (JObj body))) body))"

section \<open>Verification\<close>

record expectations =
  ex_repo :: "string option"
  ex_commit :: "string option"
  ex_generation :: "string option"
  ex_source_hashes :: "(string, string) dict option"
  ex_ancestor_hash :: "string option"

definition expect_nothing :: expectations where
  "expect_nothing = \<lparr>ex_repo = None, ex_commit = None, ex_generation = None, ex_source_hashes = None,
     ex_ancestor_hash = None\<rparr>"

definition meets :: "string option \<Rightarrow> json \<Rightarrow> bool" where
  "meets expected actual \<longleftrightarrow> (case expected of None \<Rightarrow> True | Some e \<Rightarrow> json_eq actual (JStr e))"

definition verify_generation_receipt ::
  "(bytes \<Rightarrow> bytes) \<Rightarrow> expectations \<Rightarrow> receipt \<Rightarrow> receipt_error + receipt" where
  "verify_generation_receipt sha ex r =
     (let unsigned = dpop ''receipt_hash'' r;
          supplied = (case map_of r ''receipt_hash'' of None \<Rightarrow> JStr [] | Some v \<Rightarrow> v)
      in if \<not> json_eq (field_or_null r ''schema'') (JStr GENERATION_RECEIPT_SCHEMA) then Inl Receipt_schema_invalid
         else if \<not> json_eq supplied (JStr (receipt_digest sha (JObj unsigned))) then Inl Receipt_corrupt
         else if \<not> meets (ex_repo ex) (field_or_null r ''repo'') then Inl Receipt_repo_mismatch
         else if \<not> meets (ex_commit ex) (field_or_null r ''commit'') then Inl Receipt_commit_stale
         else if \<not> meets (ex_generation ex) (field_or_null r ''generation'') then Inl Receipt_generation_stale
         else if \<not> meets (ex_ancestor_hash ex) (field_or_null r ''ancestor_receipt_hash'')
           then Inl Receipt_ancestor_mismatch
         else if (case ex_source_hashes ex of None \<Rightarrow> False
                  | Some hs \<Rightarrow> \<not> json_eq (hashes_json hs) (field_or_null r ''source_hashes''))
           then Inl Receipt_source_stale
         else Inr r)"

fun verify_receipt_chain ::
  "(bytes \<Rightarrow> bytes) \<Rightarrow> string option \<Rightarrow> receipt list \<Rightarrow> receipt_error + receipt list" where
  "verify_receipt_chain sha previous [] = Inr []"
| "verify_receipt_chain sha previous (r # rs) =
     ebind (verify_generation_receipt sha (expect_nothing\<lparr>ex_ancestor_hash := previous\<rparr>) r) (\<lambda>item.
       (case map_of item ''receipt_hash'' of
          Some (JStr h) \<Rightarrow> ebind (verify_receipt_chain sha (Some h) rs) (\<lambda>items. Inr (item # items))
        | _ \<Rightarrow> Inl (Receipt_escape Key_error)))"

definition verify_chain_of :: "(bytes \<Rightarrow> bytes) \<Rightarrow> receipt list \<Rightarrow> receipt_error + receipt list" where
  "verify_chain_of sha rs = verify_receipt_chain sha None rs"

section \<open>The journal\<close>

type_synonym receipt_journal = "(json, receipt) dict"

text \<open>A dictionary key: \<open>True\<close> and \<open>1\<close> are one key, a list or a dictionary cannot be one.\<close>

definition as_key :: "json \<Rightarrow> py_exc + json" where
  "as_key v = (case v of JList _ \<Rightarrow> Inl Type_error | JObj _ \<Rightarrow> Inl Type_error | _ \<Rightarrow> Inr (py_num v))"

definition journal_receipt ::
  "(bytes \<Rightarrow> bytes) \<Rightarrow> receipt \<Rightarrow> receipt_journal \<Rightarrow> (receipt_error + receipt \<times> bool) \<times> receipt_journal" where
  "journal_receipt sha r j =
     (case ebind (verify_generation_receipt sha expect_nothing r) (\<lambda>item.
             case map_of item ''idempotency_key'' of
               None \<Rightarrow> Inl (Receipt_escape Key_error)
             | Some v \<Rightarrow> (case as_key v of Inl e \<Rightarrow> Inl (Receipt_escape e) | Inr key \<Rightarrow> Inr (item, key))) of
        Inl e \<Rightarrow> (Inl e, j)
      | Inr (item, key) \<Rightarrow>
          (case map_of j key of
             Some existing \<Rightarrow>
               (if \<not> json_eq (JObj existing) (JObj item) then (Inl Idempotency_collision, j)
                else (Inr (existing, True), j))
           | None \<Rightarrow> (Inr (item, False), dput key item j)))"

section \<open>Sealed receipts\<close>

lemma sealed_receipt_shape:
  assumes "seal_generation_receipt sha q = Inr r"
  shows "check_seal_request q = Inr ()"
    "r = receipt_body q @
       [(''idempotency_key'', JStr (receipt_digest sha (idempotency_fields q))),
        (''receipt_hash'', JStr (receipt_digest sha (JObj (receipt_body q @
            [(''idempotency_key'', JStr (receipt_digest sha (idempotency_fields q)))]))))]"
  using assms
  by (auto simp: seal_generation_receipt_def ebind_Inr Let_def dput_def receipt_body_def)

lemma json_eq_hashes:
  assumes "distinct (keys d)" "distinct (keys e)"
  shows "json_eq (hashes_json d) (hashes_json e) \<longleftrightarrow> map_of d = map_of e"
proof -
  let ?f = "\<lambda>(k, v). (k, JStr v)"
  have form: "norm_json (py_num (hashes_json c)) = JObj (map ?f (sort_key fst c))" for c :: "(string, string) dict"
  proof -
    have "norm_json (py_num (hashes_json c)) = JObj (sort_key fst (map ?f (sort_key fst c)))"
      by (simp add: hashes_json_def case_prod_unfold comp_def)
    also have "sort_key fst (map ?f (sort_key fst c)) = map ?f (sort_key (fst \<circ> ?f) (sort_key fst c))"
      by (rule sort_key_map)
    also have "fst \<circ> ?f = fst" by (rule ext) (simp add: split_beta)
    also have "sort_key fst (sort_key fst c) = sort_key fst c"
      by (rule sort_key_id_if_sorted) simp
    finally show ?thesis .
  qed
  have inj: "inj_on ?f A" for A by (auto simp: inj_on_def)
  have "map_of d = map_of e \<longleftrightarrow> sort_key fst d = sort_key fst e"
  proof
    assume "map_of d = map_of e"
    then have "set (sort_key fst d) = set (sort_key fst e)"
      using assms map_of_inject_set by auto
    moreover from this have "inj_on fst (set (sort_key fst d) \<union> set (sort_key fst e))"
      using assms(1) by (simp add: distinct_map)
    moreover have "distinct (map fst (sort_key fst d))" "distinct (map fst (sort_key fst e))"
      using assms by (simp_all only: distinct_sort_key_fst)
    ultimately show "sort_key fst d = sort_key fst e"
      by (intro map_sorted_distinct_set_unique [of fst]) (simp_all only: sorted_sort_key)
  next
    assume "sort_key fst d = sort_key fst e"
    then show "map_of d = map_of e" using assms by (metis map_of_sort_key_fst)
  qed
  then show ?thesis
    unfolding json_eq_def form using inj_map_eq_map [of ?f] inj by (simp add: inj_on_def)
qed

lemma verify_sealed:
  assumes "seal_generation_receipt sha q = Inr r"
  shows "verify_generation_receipt sha ex r = Inr r \<longleftrightarrow>
     meets (ex_repo ex) (JStr (sq_repo q)) \<and> meets (ex_commit ex) (JStr (sq_commit q)) \<and>
     meets (ex_generation ex) (JStr (sq_generation q)) \<and>
     meets (ex_ancestor_hash ex) (jopt (sq_ancestor_receipt_hash q)) \<and>
     (case ex_source_hashes ex of None \<Rightarrow> True
      | Some hs \<Rightarrow> json_eq (hashes_json hs) (hashes_json (sq_source_hashes q)))"
proof -
  let ?u = "receipt_body q @ [(''idempotency_key'', JStr (receipt_digest sha (idempotency_fields q)))]"
  have r: "r = ?u @ [(''receipt_hash'', JStr (receipt_digest sha (JObj ?u)))]"
    using sealed_receipt_shape(2) [OF assms] by simp
  have "dpop ''receipt_hash'' r = ?u" unfolding r by (simp add: receipt_body_def dpop_def)
  moreover have "map_of r ''receipt_hash'' = Some (JStr (receipt_digest sha (JObj ?u)))"
    unfolding r by (simp add: receipt_body_def)
  moreover have "field_or_null r ''schema'' = JStr GENERATION_RECEIPT_SCHEMA"
    "field_or_null r ''repo'' = JStr (sq_repo q)" "field_or_null r ''commit'' = JStr (sq_commit q)"
    "field_or_null r ''generation'' = JStr (sq_generation q)"
    "field_or_null r ''ancestor_receipt_hash'' = jopt (sq_ancestor_receipt_hash q)"
    "field_or_null r ''source_hashes'' = hashes_json (sq_source_hashes q)"
    unfolding r by (simp_all add: receipt_body_def field_or_null_def)
  ultimately show ?thesis
    by (simp add: verify_generation_receipt_def Let_def split: option.split)
qed

section \<open>Chains\<close>

definition ancestor_of :: "receipt \<Rightarrow> json" where
  "ancestor_of r = norm_json (field_or_null r ''ancestor_receipt_hash'')"

definition hash_of :: "receipt \<Rightarrow> json" where
  "hash_of r = norm_json (field_or_null r ''receipt_hash'')"

definition sealed_contents :: "receipt \<Rightarrow> json" where
  "sealed_contents r = JObj (dpop ''receipt_hash'' r)"

lemma verified_receipt:
  assumes "verify_generation_receipt sha ex r = Inr r'"
  shows "r' = r" "hash_of r = JStr (receipt_digest sha (sealed_contents r)) \<or> map_of r ''receipt_hash'' = None"
    "meets (ex_ancestor_hash ex) (ancestor_of r)"
proof -
  have norm: "meets e v \<Longrightarrow> meets e (norm_json v)" for e v
    by (auto simp: meets_def split: option.splits)
  let ?supplied = "case map_of r ''receipt_hash'' of None \<Rightarrow> JStr [] | Some v \<Rightarrow> v"
  have facts: "r' = r \<and> json_eq ?supplied (JStr (receipt_digest sha (sealed_contents r))) \<and>
      meets (ex_ancestor_hash ex) (field_or_null r ''ancestor_receipt_hash'')"
    using assms by (simp add: verify_generation_receipt_def Let_def sealed_contents_def split: if_split_asm)
  then show "r' = r" "meets (ex_ancestor_hash ex) (ancestor_of r)"
    by (simp_all add: ancestor_of_def norm)
  show "hash_of r = JStr (receipt_digest sha (sealed_contents r)) \<or> map_of r ''receipt_hash'' = None"
    using facts by (auto simp: hash_of_def field_or_null_def split: option.splits)
qed

lemma verify_chain_chained:
  "verify_receipt_chain sha previous rs = Inr rs' \<Longrightarrow>
     rs' = rs \<and>
     chained ancestor_of hash_of (\<lambda>r. JStr (receipt_digest sha (sealed_contents r)))
       (case previous of Some h \<Rightarrow> JStr h | None \<Rightarrow> (if rs = [] then JNull else ancestor_of (hd rs))) rs"
proof (induction sha previous rs arbitrary: rs' rule: verify_receipt_chain.induct)
  case (2 sha previous r rs)
  from "2.prems" obtain item where
    i: "verify_generation_receipt sha (expect_nothing\<lparr>ex_ancestor_hash := previous\<rparr>) r = Inr item"
    and rest: "(case map_of item ''receipt_hash'' of
          Some (JStr h) \<Rightarrow> ebind (verify_receipt_chain sha (Some h) rs) (\<lambda>items. Inr (item # items))
        | _ \<Rightarrow> Inl (Receipt_escape Key_error)) = Inr rs'"
    by (auto simp only: verify_receipt_chain.simps ebind_Inr)
  have item: "item = r" by (rule verified_receipt(1) [OF i])
  note v = i [unfolded item]
  from rest obtain h items where h: "map_of r ''receipt_hash'' = Some (JStr h)"
    and items: "verify_receipt_chain sha (Some h) rs = Inr items" "rs' = r # items"
    unfolding item by (auto simp: ebind_Inr split: option.splits json.splits)
  have "hash_of r = JStr h" "hash_of r = JStr (receipt_digest sha (sealed_contents r))"
    using verified_receipt(2) [OF v] h by (auto simp: hash_of_def field_or_null_def)
  moreover have "ancestor_of r = JStr p" if "previous = Some p" for p
    using verified_receipt(3) [OF v] that by (simp add: meets_def)
  ultimately show ?case
    using "2.IH" [OF h refl items(1)] items(2) by (auto split: option.split)
qed simp

section \<open>Properties\<close>

text \<open>A sealed receipt verifies exactly against what it was sealed from: verification returns it
  unchanged if every given expectation (repository, commit, generation, ancestor, source hashes) is
  the sealed value, and rejects it otherwise.\<close>

theorem sealed_receipt_verifies:
  assumes "seal_generation_receipt sha q = Inr r" "distinct (keys (sq_source_hashes q))"
    and "\<And>hs. ex_source_hashes ex = Some hs \<Longrightarrow> distinct (keys hs)"
  shows "verify_generation_receipt sha ex r = Inr r \<longleftrightarrow>
     ex_repo ex \<in> {None, Some (sq_repo q)} \<and> ex_commit ex \<in> {None, Some (sq_commit q)} \<and>
     ex_generation ex \<in> {None, Some (sq_generation q)} \<and>
     ex_ancestor_hash ex \<in> {None, sq_ancestor_receipt_hash q} \<and>
     map_of (case ex_source_hashes ex of None \<Rightarrow> sq_source_hashes q | Some hs \<Rightarrow> hs) = map_of (sq_source_hashes q)"
  unfolding verify_sealed [OF assms(1)] using assms(2,3)
  by (auto simp: meets_def json_eq_hashes jopt_def split: option.splits)

definition sample_seal :: seal_request where
  "sample_seal = \<lparr>sq_kind = ''build'', sq_repo = ''r'', sq_commit = ''c'', sq_snapshot_digest = ''s'',
     sq_generation = ''g'', sq_source_hashes = [(''a'', ''1'')], sq_backend = ''python'',
     sq_backend_artifact_hash = None, sq_fallback_reason = None, sq_ancestor_receipt_hash = None,
     sq_ancestor_context_packet_hash = None, sq_downstream_changeset_hash = None\<rparr>"

lemma sample_seal_accepted: "\<exists>r. seal_generation_receipt sha sample_seal = Inr r"
  by (simp add: seal_generation_receipt_def check_seal_request_def sample_seal_def RECEIPT_KINDS_def Let_def)

theorem sealed_receipt_verifies_witness:
  "\<exists>r. seal_generation_receipt id sample_seal = Inr r \<and>
     verify_generation_receipt id (expect_nothing\<lparr>ex_repo := Some ''r''\<rparr>) r = Inr r \<and>
     verify_generation_receipt id (expect_nothing\<lparr>ex_repo := Some ''x''\<rparr>) r \<noteq> Inr r"
proof -
  obtain r where r: "seal_generation_receipt id sample_seal = Inr r" using sample_seal_accepted by blast
  from sealed_receipt_verifies [OF r, of "expect_nothing\<lparr>ex_repo := Some ''r''\<rparr>"]
    sealed_receipt_verifies [OF r, of "expect_nothing\<lparr>ex_repo := Some ''x''\<rparr>"] r
  show ?thesis by (simp add: expect_nothing_def sample_seal_def)
qed

text \<open>The last hash of a verified chain pins the whole chain: two chains of one length that
  verify and end in the same receipt hash carry, receipt by receipt, the same contents, the first
  receipts and their ancestor included, when the digest has no collision among their receipts.\<close>

theorem receipt_chain_is_pinned:
  assumes "verify_chain_of sha rs = Inr rs'" "verify_chain_of sha ss = Inr ss'"
    and "length rs = length ss" "rs \<noteq> []" "hash_of (last rs) = hash_of (last ss)"
    and "\<forall>r \<in> set rs \<union> set ss. wf_json (sealed_contents r)"
    and "inj_on sha ((\<lambda>r. canonical (sealed_contents r)) ` (set rs \<union> set ss))"
  shows "map (norm_json \<circ> sealed_contents) rs = map (norm_json \<circ> sealed_contents) ss"
proof -
  let ?start = "\<lambda>rs. if rs = [] then JNull else ancestor_of (hd rs)"
  let ?mat = "\<lambda>r. JStr (receipt_digest sha (sealed_contents r))"
  have chains: "chained ancestor_of hash_of ?mat (?start rs) rs" "chained ancestor_of hash_of ?mat (?start ss) ss"
    using verify_chain_chained assms(1,2) unfolding verify_chain_of_def by fastforce+
  have "ss \<noteq> []" using assms(3,4) by auto
  then have heads: "chain_head hash_of (?start rs) rs = chain_head hash_of (?start ss) ss"
    using assms(4,5) by (simp add: chain_head_last)
  have same: "(norm_json \<circ> sealed_contents) a = (norm_json \<circ> sealed_contents) b \<and> ancestor_of a = ancestor_of b"
    if "a \<in> set rs" "b \<in> set ss" "?mat a = ?mat b" for a b
  proof -
    have "sha (canonical (sealed_contents a)) = sha (canonical (sealed_contents b))"
      using that(3) by (auto simp: receipt_digest_def hexdigest_def dest: hex_inj)
    then have "canonical (sealed_contents a) = canonical (sealed_contents b)"
      using assms(7) that(1,2) by (auto dest: inj_onD)
    then have eq: "norm_json (sealed_contents a) = norm_json (sealed_contents b)"
      using assms(6) that(1,2) by (intro canonical_inj) auto
    have field: "ancestor_of r =
        (case map_option norm_json (jget (sealed_contents r) ''ancestor_receipt_hash'') of None \<Rightarrow> JNull | Some v \<Rightarrow> v)" for r
      by (simp add: ancestor_of_def field_or_null_def sealed_contents_def dict_simps split: option.split)
    have "map_option norm_json (jget (sealed_contents a) k) = map_option norm_json (jget (sealed_contents b) k)" for k
      using assms(6) that(1,2) eq by (intro jget_norm_eqD) auto
    then show ?thesis using eq by (simp only: field comp_apply simp_thms)
  qed
  from chained_pinned [OF chains assms(3) heads same] show ?thesis by blast
qed

theorem receipt_chain_is_pinned_witness:
  "\<exists>r. verify_chain_of id [r] = Inr [r] \<and>
     map (norm_json \<circ> sealed_contents) [r] = map (norm_json \<circ> sealed_contents) [r]"
proof -
  obtain r where r: "seal_generation_receipt id sample_seal = Inr r" using sample_seal_accepted by blast
  have shape: "r = receipt_body sample_seal @
       [(''idempotency_key'', JStr (receipt_digest id (idempotency_fields sample_seal))),
        (''receipt_hash'', JStr (receipt_digest id (JObj (receipt_body sample_seal @
            [(''idempotency_key'', JStr (receipt_digest id (idempotency_fields sample_seal)))]))))]"
    by (rule sealed_receipt_shape(2) [OF r])
  have "verify_generation_receipt id (expect_nothing\<lparr>ex_ancestor_hash := None\<rparr>) r = Inr r"
    using verify_sealed [OF r] by (simp add: expect_nothing_def meets_def)
  then have chain: "verify_chain_of id [r] = Inr [r]"
    by (simp add: verify_chain_of_def) (simp add: shape receipt_body_def)
  have "wf_json (sealed_contents r)"
    by (simp add: shape sealed_contents_def dpop_def receipt_body_def hashes_json_def sample_seal_def)
  with receipt_chain_is_pinned [OF chain chain] chain show ?thesis by auto
qed

lemma journal_receipt_kept:
  "map_of j key = Some r \<Longrightarrow> map_of (snd (journal_receipt sha s j)) key = Some r"
  by (auto simp: journal_receipt_def dict_simps split: sum.splits prod.splits option.splits)

lemma journal_receipts_kept:
  "map_of j key = Some r \<Longrightarrow> map_of (fold (\<lambda>s. snd \<circ> journal_receipt sha s) ss j) key = Some r"
  by (induction ss arbitrary: j) (simp_all add: journal_receipt_kept)

text \<open>A retried append answers with the original: once the journal accepted a receipt, appending
  it again after any other appends returns the receipt returned first, marked as a repetition, and
  leaves the journal as it is.\<close>

theorem retried_append_returns_the_original:
  assumes "journal_receipt sha r j = (Inr (original, repeated), j1)"
    and "j2 = fold (\<lambda>s. snd \<circ> journal_receipt sha s) others j1"
  shows "journal_receipt sha r j2 = (Inr (original, True), j2)"
proof -
  from assms(1) obtain v key where v: "verify_generation_receipt sha expect_nothing r = Inr r"
    and key: "map_of r ''idempotency_key'' = Some v" "as_key v = Inr key"
    and j1: "map_of j1 key = Some original" "json_eq (JObj original) (JObj r)"
    by (auto simp: journal_receipt_def ebind_Inr dict_simps dest: verified_receipt(1)
        split: sum.splits prod.splits option.splits if_splits)
  have "map_of j2 key = Some original" unfolding assms(2) using j1(1) by (rule journal_receipts_kept)
  with v key j1(2) show ?thesis by (simp add: journal_receipt_def)
qed

theorem retried_append_returns_the_original_witness:
  "\<exists>r j. journal_receipt id r [] = (Inr (r, False), j) \<and> journal_receipt id r j = (Inr (r, True), j)"
proof -
  obtain r where r: "seal_generation_receipt id sample_seal = Inr r" using sample_seal_accepted by blast
  have "verify_generation_receipt id expect_nothing r = Inr r"
    using verify_sealed [OF r] by (simp add: expect_nothing_def meets_def)
  moreover have "\<exists>k. map_of r ''idempotency_key'' = Some (JStr k)"
    unfolding sealed_receipt_shape(2) [OF r] by (simp add: receipt_body_def)
  ultimately obtain j where "journal_receipt id r [] = (Inr (r, False), j)"
    by (auto simp: journal_receipt_def as_key_def)
  with retried_append_returns_the_original [OF this refl, of "[]"] show ?thesis by auto
qed

end
