(* ===== verification/SlotExecutor.thy ===== *)
theory SlotExecutor
  imports JsonFields
begin

text \<open>
  \<open>simplicio_fast/slot_executor.py\<close>: envelopes, context packets, content-addressed snapshots read
  by pages, and the execution of a slot whose writes go to its own overlay and whose receipt answers
  a second dispatch.  The executor's files are one map from resolved path components to bytes;
  symbolic links and directories that stand where a file should are left out.  The measurements of a
  receipt (latency, processor time, memory) are values the environment supplies.  The temporary file of
  a replaced receipt is not
  part of the state.  The ranking metrics and quantisation, which compute with floating-point
  numbers, are left out.
\<close>

section \<open>Envelopes\<close>

definition ENVELOPE_SCHEMA :: string where
  "ENVELOPE_SCHEMA = ''simplicio.fast-slot-envelope/v1''"

definition SLOT_RECEIPT_SCHEMA :: string where
  "SLOT_RECEIPT_SCHEMA = ''simplicio.fast-slot-receipt/v1''"

definition SLOT_SNAPSHOT_SCHEMA :: string where
  "SLOT_SNAPSHOT_SCHEMA = ''simplicio.fast-snapshot/v1''"

definition REQUIRED_HASHES :: "string list" where
  "REQUIRED_HASHES = [''source_hash'', ''tool_hash'', ''config_hash'', ''contract_hash'']"

datatype slot_error =
    Invalid_envelope_schema
  | Invalid_envelope
  | Invalid_budget
  | Idempotency_mismatch
  | Packet_schema_invalid
  | Packet_corrupt
  | Packet_generation_stale
  | Packet_handle_invalid
  | Packet_duplicate_content
  | Handle_missing
  | Invalid_page
  | Snapshot_binding_missing
  | Snapshot_corrupt
  | Snapshot_stale
  | Slot_receipt_corrupt
  | Budget_exhausted
  | Overlay_escape
  | File_not_found
  | Slot_escape py_exc

definition slot_digest :: "(bytes \<Rightarrow> bytes) \<Rightarrow> json \<Rightarrow> string" where
  "slot_digest sha v = hexdigest sha (canonical v)"

definition lift_exc :: "py_exc + 'a \<Rightarrow> slot_error + 'a" where
  "lift_exc m = (case m of Inl e \<Rightarrow> Inl (Slot_escape e) | Inr x \<Rightarrow> Inr x)"

type_synonym envelope = "(string \<times> json) list"

definition REQUIRED_FIELDS :: "string list" where
  "REQUIRED_FIELDS =
     [''run_id'', ''slot_id'', ''issue_id'', ''commit'', ''generation'', ''fence'', ''idempotency_key'',
      ''budget''] @ REQUIRED_HASHES"

definition KEY_FIELDS :: "string list" where
  "KEY_FIELDS = [''run_id'', ''slot_id'', ''issue_id'', ''commit'', ''generation'', ''fence''] @ REQUIRED_HASHES"

definition pick_fields :: "string list \<Rightarrow> envelope \<Rightarrow> json" where
  "pick_fields ks env = JObj (map (\<lambda>k. (k, field_or_null env k)) ks)"

definition max_operations :: "envelope \<Rightarrow> slot_error + int" where
  "max_operations env =
     (case field_or_null env ''budget'' of
        JObj budget \<Rightarrow> lift_exc (py_int (case map_of budget ''max_operations'' of None \<Rightarrow> JInt 0 | Some v \<Rightarrow> v))
      | _ \<Rightarrow> Inl (Slot_escape Attribute_error))"

definition validate_envelope :: "(bytes \<Rightarrow> bytes) \<Rightarrow> envelope \<Rightarrow> slot_error + envelope" where
  "validate_envelope sha v =
     (if \<not> json_eq (field_or_null v ''schema'') (JStr ENVELOPE_SCHEMA) then Inl Invalid_envelope_schema
      else if list_ex (\<lambda>k. field_or_null v k \<in> {JNull, JStr []}) REQUIRED_FIELDS then Inl Invalid_envelope
      else
        ebind (lift_exc (py_int (field_or_null v ''generation''))) (\<lambda>g.
          let env = dput ''generation'' (JInt g) v in
          if g < 0 then Inl Invalid_budget
          else
            ebind (max_operations env) (\<lambda>n.
              if n \<le> 0 then Inl Invalid_budget
              else if \<not> json_eq (field_or_null env ''idempotency_key'') (JStr (slot_digest sha (pick_fields KEY_FIELDS env)))
                then Inl Idempotency_mismatch
              else Inr env)))"

definition make_envelope :: "(bytes \<Rightarrow> bytes) \<Rightarrow> nat \<Rightarrow> string \<Rightarrow> int \<Rightarrow> string \<Rightarrow> envelope" where
  "make_envelope sha slot run_id generation fence =
     (let v = [(''schema'', JStr ENVELOPE_SCHEMA),
               (''run_id'', JStr run_id),
               (''slot_id'', JStr (''slot-'' @ nat_str slot)),
               (''issue_id'', JStr (''issue-'' @ nat_str slot)),
               (''commit'', JStr (replicate 40 (CHR ''a''))),
               (''generation'', JInt generation),
               (''fence'', JStr fence),
               (''budget'', JObj [(''max_operations'', JInt 100)]),
               (''source_hash'', JStr ''source''),
               (''tool_hash'', JStr ''tool''),
               (''config_hash'', JStr ''config''),
               (''contract_hash'', JStr ''contract'')]
      in dput ''idempotency_key'' (JStr (slot_digest sha (pick_fields KEY_FIELDS v))) v)"

section \<open>Context packets\<close>

fun packet_handles ::
  "string \<Rightarrow> json list \<Rightarrow> json list \<Rightarrow> string list \<Rightarrow> slot_error + string list" where
  "packet_handles prefix [] seen handles = Inr handles"
| "packet_handles prefix (item # items) seen handles =
     (case item of
        JObj kvs \<Rightarrow>
          (let content_hash = (case map_of kvs ''content_sha256'' of None \<Rightarrow> JStr [] | Some v \<Rightarrow> v) in
           case (case map_of kvs ''handle'' of None \<Rightarrow> JStr [] | Some v \<Rightarrow> v) of
             JStr handle \<Rightarrow>
               (if take (length prefix) handle \<noteq> prefix \<or> \<not> truthy content_hash then Inl Packet_handle_invalid
                else
                  (case content_hash of
                     JList _ \<Rightarrow> Inl (Slot_escape Type_error)
                   | JObj _ \<Rightarrow> Inl (Slot_escape Type_error)
                   | _ \<Rightarrow>
                       (if py_num content_hash \<in> set seen then Inl Packet_duplicate_content
                        else packet_handles prefix items (seen @ [py_num content_hash]) (handles @ [handle]))))
           | _ \<Rightarrow> Inl (Slot_escape Attribute_error))
      | _ \<Rightarrow> Inl (Slot_escape Attribute_error))"

definition consume_context_packet ::
  "(bytes \<Rightarrow> bytes) \<Rightarrow> string option \<Rightarrow> (string \<times> json) list \<Rightarrow>
     slot_error + (string \<times> json) list" where
  "consume_context_packet sha expected_generation packet =
     (if \<not> json_eq (field_or_null packet ''schema'') (JStr ''simplicio.context-packet/v1'')
      then Inl Packet_schema_invalid
      else
        (let unsigned = dpop ''packet_hash'' (dpop ''encoded_bytes'' packet);
             supplied = (case map_of packet ''packet_hash'' of None \<Rightarrow> JStr [] | Some v \<Rightarrow> v)
         in if \<not> json_eq supplied (JStr (slot_digest sha (JObj unsigned))) then Inl Packet_corrupt
            else if (case expected_generation of None \<Rightarrow> False
                     | Some g \<Rightarrow> \<not> json_eq (field_or_null packet ''generation'') (JStr g))
              then Inl Packet_generation_stale
            else
              ebind (lift_exc (iterate (case map_of packet ''items'' of None \<Rightarrow> JList [] | Some v \<Rightarrow> v))) (\<lambda>items.
                ebind (packet_handles
                    (''fast://context/'' @ py_str (field_or_null packet ''graph_digest'') @ ''/'') items [] [])
                  (\<lambda>handles. Inr
                    [(''schema'', JStr ''simplicio.fast-context-consumption/v1''),
                     (''packet_hash'', supplied),
                     (''generation'', field_or_null packet ''generation''),
                     (''handles'', JList (map JStr handles)),
                     (''coverage'', field_or_null packet ''coverage''),
                     (''truncated'', JBool (truthy (field_or_null packet ''truncated''))),
                     (''completion_authority'', JStr ''LOOP_ONLY'')]))))"

section \<open>Files\<close>

record slot_state =
  sx_files :: "string list \<Rightarrow> bytes option"
  sx_workers :: nat

definition write_file :: "string list \<Rightarrow> bytes \<Rightarrow> slot_state \<Rightarrow> slot_state" where
  "write_file p b s = s\<lparr>sx_files := (sx_files s)(p \<mapsto> b)\<rparr>"

section \<open>Snapshots\<close>

record slot_snapshot =
  sn_root :: "string list"
  sn_snapshot_id :: string
  sn_source_hash :: string
  sn_manifest :: "(string, string) dict"

definition object_path :: "slot_snapshot \<Rightarrow> string \<Rightarrow> string list" where
  "object_path sn h = sn_root sn @ [''objects'', h]"

record slot_page =
  pg_bytes :: bytes
  pg_next_offset :: int
  pg_eof :: bool

definition snapshot_page :: "slot_snapshot \<Rightarrow> string \<Rightarrow> int \<Rightarrow> int \<Rightarrow> slot_state \<Rightarrow> slot_error + slot_page" where
  "snapshot_page sn relative_path offset limit s =
     (case map_of (sn_manifest sn) relative_path of
        None \<Rightarrow> Inl Handle_missing
      | Some h \<Rightarrow>
          (if offset < 0 \<or> limit \<le> 0 \<or> limit > 65536 then Inl Invalid_page
           else
             (case sx_files s (object_path sn h) of
                None \<Rightarrow> Inl File_not_found
              | Some content \<Rightarrow>
                  (let data = slice (nat offset) (nat (offset + limit)) content;
                       next = offset + int (length data)
                   in Inr \<lparr>pg_bytes = data, pg_next_offset = next, pg_eof = (next \<ge> int (length content))\<rparr>))))"

definition snapshot_manifest :: "(bytes \<Rightarrow> bytes) \<Rightarrow> (string, bytes) dict \<Rightarrow> (string, string) dict" where
  "snapshot_manifest sha files = map (\<lambda>(name, content). (name, hexdigest sha content)) (sort_key fst files)"

definition manifest_json :: "(string, string) dict \<Rightarrow> json" where
  "manifest_json m = JObj (map (\<lambda>(name, h). (name, JStr h)) m)"

fun store_objects ::
  "(bytes \<Rightarrow> bytes) \<Rightarrow> slot_snapshot \<Rightarrow> (string, bytes) dict \<Rightarrow> slot_state \<Rightarrow>
     (slot_error + unit) \<times> slot_state" where
  "store_objects sha sn [] s = (Inr (), s)"
| "store_objects sha sn ((name, content) # files) s =
     (let object_hash = hexdigest sha content; target = object_path sn object_hash in
      case sx_files s target of
        Some stored \<Rightarrow>
          (if hexdigest sha stored \<noteq> object_hash then (Inl Snapshot_corrupt, s)
           else store_objects sha sn files s)
      | None \<Rightarrow> store_objects sha sn files (write_file target content s))"

definition snapshot_metadata :: "slot_snapshot \<Rightarrow> json" where
  "snapshot_metadata sn = JObj
     [(''schema'', JStr SLOT_SNAPSHOT_SCHEMA), (''snapshot_id'', JStr (sn_snapshot_id sn)),
      (''source_hash'', JStr (sn_source_hash sn)), (''manifest'', manifest_json (sn_manifest sn))]"

definition open_snapshot ::
  "(bytes \<Rightarrow> bytes) \<Rightarrow> string list \<Rightarrow> string \<Rightarrow> string \<Rightarrow> (string, bytes) dict \<Rightarrow> slot_state \<Rightarrow>
     (slot_error + slot_snapshot) \<times> slot_state" where
  "open_snapshot sha root run_id source_hash files s =
     (if run_id = [] \<or> source_hash = [] then (Inl Snapshot_binding_missing, s)
      else
        (let manifest = snapshot_manifest sha files;
             snapshot_id = slot_digest sha (JObj [(''run_id'', JStr run_id), (''source_hash'', JStr source_hash),
                 (''manifest'', manifest_json manifest)]);
             sn = \<lparr>sn_root = root @ [''snapshots'', snapshot_id], sn_snapshot_id = snapshot_id,
                   sn_source_hash = source_hash, sn_manifest = manifest\<rparr>;
             meta_path = sn_root sn @ [''snapshot.json'']
         in case store_objects sha sn files s of
              (Inl e, s1) \<Rightarrow> (Inl e, s1)
            | (Inr _, s1) \<Rightarrow>
                (case sx_files s1 meta_path of
                   Some raw \<Rightarrow>
                     (case loads (decode raw) of
                        None \<Rightarrow> (Inl (Slot_escape Value_error), s1)
                      | Some existing \<Rightarrow>
                          (if \<not> json_eq existing (snapshot_metadata sn) then (Inl Snapshot_stale, s1)
                           else (Inr sn, s1)))
                 | None \<Rightarrow>
                     (Inr sn, write_file meta_path (canonical (snapshot_metadata sn) @ encode [CHR 0x0A]) s1))))"

section \<open>Execution\<close>

definition receipt_path :: "string list \<Rightarrow> string \<Rightarrow> string list" where
  "receipt_path root key = root @ [''receipts'', key @ ''.json'']"

definition overlay_path :: "string list \<Rightarrow> envelope \<Rightarrow> slot_error + string list" where
  "overlay_path root env =
     (case field_or_null env ''run_id'' of
        JStr run_id \<Rightarrow>
          Inr (join_path (join_path (root @ [''overlays'']) run_id)
            (py_str (field_or_null env ''slot_id'') @ ''-g'' @ py_str (field_or_null env ''generation'') @
             ''-'' @ py_str (field_or_null env ''fence'')))
      | _ \<Rightarrow> Inl (Slot_escape Type_error))"

fun overlay_writes ::
  "string list \<Rightarrow> int \<Rightarrow> (string, bytes) dict \<Rightarrow> nat \<Rightarrow> nat \<Rightarrow> slot_state \<Rightarrow>
     (slot_error + nat \<times> nat) \<times> slot_state" where
  "overlay_writes overlay budget [] operations written s = (Inr (operations, written), s)"
| "overlay_writes overlay budget ((name, content) # writes) operations written s =
     (if int (operations + 1) > budget then (Inl Budget_exhausted, s)
      else if \<not> strictly_inside overlay (join_path overlay name) then (Inl Overlay_escape, s)
      else overlay_writes overlay budget writes (operations + 1) (written + length content)
             (write_file (join_path overlay name) content s))"

record slot_run =
  rn_writes :: "(string, bytes) dict"
  rn_runtime_available :: bool
  rn_rust_available :: bool
  rn_latency_ms :: json
  rn_cpu_ms :: json
  rn_rss_kib_delta :: json

definition slot_receipt ::
  "(bytes \<Rightarrow> bytes) \<Rightarrow> envelope \<Rightarrow> slot_snapshot \<Rightarrow> slot_run \<Rightarrow> nat \<Rightarrow> nat \<Rightarrow> (string \<times> json) list" where
  "slot_receipt sha env sn rn operations written =
     [(''schema'', JStr SLOT_RECEIPT_SCHEMA),
      (''run_id'', field_or_null env ''run_id''),
      (''slot_id'', field_or_null env ''slot_id''),
      (''issue_id'', field_or_null env ''issue_id''),
      (''commit'', field_or_null env ''commit''),
      (''generation'', field_or_null env ''generation''),
      (''fence'', field_or_null env ''fence''),
      (''idempotency_key'', field_or_null env ''idempotency_key''),
      (''snapshot_id'', JStr (sn_snapshot_id sn)),
      (''overlay_id'', JStr (slot_digest sha (pick_fields [''slot_id'', ''generation'', ''fence''] env))),
      (''cache_hit'', JBool False),
      (''duplicate_dispatch'', JBool False),
      (''operations'', JInt (int operations)),
      (''bytes_written'', JInt (int written)),
      (''latency_ms'', rn_latency_ms rn),
      (''cpu_ms'', rn_cpu_ms rn),
      (''rss_kib_delta'', rn_rss_kib_delta rn),
      (''runtime_mode'', JStr (if rn_runtime_available rn then ''runtime'' else ''python_fallback'')),
      (''runtime_null_reason'', if rn_runtime_available rn then JNull else JStr ''RUNTIME_UNAVAILABLE''),
      (''engine'', JStr (if rn_rust_available rn then ''rust'' else ''python'')),
      (''engine_null_reason'', if rn_rust_available rn then JNull else JStr ''RUST_UNAVAILABLE''),
      (''status'', JStr ''VERIFIED''),
      (''completion_authority'', JStr ''LOOP_ONLY''),
      (''tokens'', JNull),
      (''tokens_null_reason'', JStr ''NO_LLM_USED''),
      (''bindings'', pick_fields REQUIRED_HASHES env)]"

text \<open>
  A stored value that is no object goes through \<open>dict(value)\<close>: it escapes with its exception, or is a corrupt
  receipt, or, when even its digest is right, cannot take the new fields.  Of pairs with keys that are no
  strings it is corrupt.
\<close>

definition replayed_value :: "(bytes \<Rightarrow> bytes) \<Rightarrow> json \<Rightarrow> slot_error" where
  "replayed_value sha v =
     (case py_dict v of
        Inl e \<Rightarrow> Slot_escape e
      | Inr d \<Rightarrow>
          (let fields = List.map_filter (\<lambda>(k, w). case k of JStr s \<Rightarrow> Some (s, w) | _ \<Rightarrow> None) d;
               supplied = (case map_of fields ''receipt_digest'' of None \<Rightarrow> JStr [] | Some w \<Rightarrow> w)
           in if length fields = length d \<and> json_eq supplied (JStr (slot_digest sha (JObj (dpop ''receipt_digest'' fields))))
              then Slot_escape Type_error else Slot_receipt_corrupt))"

definition replayed_receipt :: "(bytes \<Rightarrow> bytes) \<Rightarrow> bytes \<Rightarrow> slot_error + (string \<times> json) list" where
  "replayed_receipt sha raw =
     (case loads (decode raw) of
        None \<Rightarrow> Inl (Slot_escape Value_error)
      | Some (JObj v) \<Rightarrow>
          (let supplied = (case map_of v ''receipt_digest'' of None \<Rightarrow> JStr [] | Some d \<Rightarrow> d) in
           if \<not> json_eq supplied (JStr (slot_digest sha (JObj (dpop ''receipt_digest'' v))))
           then Inl Slot_receipt_corrupt
           else Inr (dput ''duplicate_dispatch'' (JBool True) (dput ''cache_hit'' (JBool True) v)))
      | Some v \<Rightarrow> Inl (replayed_value sha v))"

definition execute_slot ::
  "(bytes \<Rightarrow> bytes) \<Rightarrow> string list \<Rightarrow> envelope \<Rightarrow> slot_snapshot \<Rightarrow> slot_run \<Rightarrow> slot_state \<Rightarrow>
     (slot_error + (string \<times> json) list) \<times> slot_state" where
  "execute_slot sha root envelope sn rn s =
     (case ebind (validate_envelope sha envelope) (\<lambda>env.
             if \<not> json_eq (field_or_null env ''source_hash'') (JStr (sn_source_hash sn)) then Inl Snapshot_stale
             else Inr (env, py_str (field_or_null env ''idempotency_key''))) of
        Inl e \<Rightarrow> (Inl e, s)
      | Inr (env, key) \<Rightarrow>
          (case sx_files s (receipt_path root key) of
             Some raw \<Rightarrow> (replayed_receipt sha raw, s)
           | None \<Rightarrow>
               (let s1 = s\<lparr>sx_workers := sx_workers s + 1\<rparr> in
                case ebind (overlay_path root env) (\<lambda>overlay.
                       ebind (max_operations env) (\<lambda>budget. Inr (overlay, budget))) of
                  Inl e \<Rightarrow> (Inl e, s1)
                | Inr (overlay, budget) \<Rightarrow>
                    (case overlay_writes overlay budget (sort_key fst (rn_writes rn)) 0 0 s1 of
                       (Inl e, s2) \<Rightarrow> (Inl e, s2)
                     | (Inr (operations, written), s2) \<Rightarrow>
                         (let receipt = slot_receipt sha env sn rn operations written;
                              sealed = dput ''receipt_digest'' (JStr (slot_digest sha (JObj receipt))) receipt
                          in (Inr sealed,
                              write_file (receipt_path root key) (canonical (JObj sealed) @ encode [CHR 0x0A]) s2))))))"

definition verify_slot_receipt ::
  "(bytes \<Rightarrow> bytes) \<Rightarrow> (string \<times> json) list \<Rightarrow> envelope \<Rightarrow> slot_error + bool \<times> string" where
  "verify_slot_receipt sha receipt envelope =
     (case validate_envelope sha envelope of
        Inl (Slot_escape Attribute_error) \<Rightarrow> Inl (Slot_escape Attribute_error)
      | Inl _ \<Rightarrow> Inr (False, ''malformed_receipt'')
      | Inr env \<Rightarrow>
          (case map_of receipt ''receipt_digest'' of
             None \<Rightarrow> Inr (False, ''malformed_receipt'')
           | Some supplied \<Rightarrow>
               (if \<not> json_eq supplied (JStr (slot_digest sha (JObj (dpop ''receipt_digest'' receipt))))
                then Inr (False, ''receipt_digest_mismatch'')
                else
                  (case filter (\<lambda>k. \<not> json_eq (field_or_null receipt k) (field_or_null env k))
                          [''run_id'', ''slot_id'', ''issue_id'', ''commit'', ''generation'', ''fence'',
                           ''idempotency_key''] of
                     k # _ \<Rightarrow> Inr (False, k @ ''_mismatch'')
                   | [] \<Rightarrow>
                       (if \<not> json_eq (field_or_null receipt ''status'') (JStr ''VERIFIED'') \<or>
                           \<not> json_eq (field_or_null receipt ''completion_authority'') (JStr ''LOOP_ONLY'')
                        then Inr (False, ''authority_or_status_invalid'') else Inr (True, ''ok''))))))"

section \<open>Parity\<close>

definition parity_receipt :: "(bytes \<Rightarrow> bytes) \<Rightarrow> json \<Rightarrow> string option \<Rightarrow> (string \<times> json) list" where
  "parity_receipt sha payload rust_digest =
     (let python_digest = slot_digest sha payload in
      [(''python_digest'', JStr python_digest), (''rust_digest'', jopt rust_digest),
       (''parity'', case rust_digest of None \<Rightarrow> JNull | Some d \<Rightarrow> JBool (d = python_digest)),
       (''parity_null_reason'', case rust_digest of None \<Rightarrow> JStr ''RUST_UNAVAILABLE'' | Some _ \<Rightarrow> JNull)])"

section \<open>Receipts and replays\<close>

lemma validated_generation:
  "validate_envelope sha e = Inr env \<Longrightarrow> \<exists>g. env = dput ''generation'' (JInt g) e"
  by (auto simp: validate_envelope_def ebind_Inr Let_def split: if_splits)

lemma wf_pick_fields: "wf_json (JObj env) \<Longrightarrow> distinct ks \<Longrightarrow> wf_json (pick_fields ks env)"
  by (auto simp: pick_fields_def comp_def intro: wf_field_or_null)

definition sealed_receipt ::
  "(bytes \<Rightarrow> bytes) \<Rightarrow> envelope \<Rightarrow> slot_snapshot \<Rightarrow> slot_run \<Rightarrow> nat \<Rightarrow> nat \<Rightarrow> (string \<times> json) list" where
  "sealed_receipt sha env sn rn n w =
     dput ''receipt_digest'' (JStr (slot_digest sha (JObj (slot_receipt sha env sn rn n w)))) (slot_receipt sha env sn rn n w)"

lemma receipt_keys: "distinct (keys (slot_receipt sha env sn rn n w))"
    "''receipt_digest'' \<notin> set (keys (slot_receipt sha env sn rn n w))"
  by (simp_all add: slot_receipt_def)

lemma sealed_receipt_append:
  "sealed_receipt sha env sn rn n w = slot_receipt sha env sn rn n w @
     [(''receipt_digest'', JStr (slot_digest sha (JObj (slot_receipt sha env sn rn n w))))]"
  unfolding sealed_receipt_def by (rule dput_new [OF receipt_keys(2)])

lemma dpop_sealed: "dpop ''receipt_digest'' (sealed_receipt sha env sn rn n w) = slot_receipt sha env sn rn n w"
proof -
  have "dpop ''receipt_digest'' (slot_receipt sha env sn rn n w) = slot_receipt sha env sn rn n w"
    by (rule dpop_absent [OF receipt_keys(2)])
  then show ?thesis by (simp add: sealed_receipt_append dpop_def)
qed

lemma sealed_receipt_verifies_slot:
  assumes "validate_envelope sha e = Inr env"
  shows "verify_slot_receipt sha (sealed_receipt sha env sn rn n w) e = Inr (True, ''ok'')"
proof -
  have digest: "map_of (sealed_receipt sha env sn rn n w) ''receipt_digest'' =
      Some (JStr (slot_digest sha (JObj (slot_receipt sha env sn rn n w))))"
    by (simp add: sealed_receipt_def dict_simps)
  have fields: "field_or_null (sealed_receipt sha env sn rn n w) k = field_or_null (slot_receipt sha env sn rn n w) k"
    if "k \<noteq> ''receipt_digest''" for k
    using that by (simp add: sealed_receipt_def dict_simps)
  show ?thesis
    unfolding verify_slot_receipt_def assms digest sum.case option.case dpop_sealed
    by (simp add: fields) (simp add: slot_receipt_def field_or_null_def)
qed

lemma wf_slot_receipt:
  assumes "wf_json (JObj env)" "wf_json (rn_latency_ms rn)" "wf_json (rn_cpu_ms rn)" "wf_json (rn_rss_kib_delta rn)"
  shows "wf_json (JObj (sealed_receipt sha env sn rn n w))"
  using assms wf_pick_fields [OF assms(1), of REQUIRED_HASHES] wf_field_or_null [OF assms(1)]
  unfolding sealed_receipt_append by (simp add: slot_receipt_def REQUIRED_HASHES_def)

lemma replayed_sealed:
  assumes "wf_json (JObj (sealed_receipt sha env sn rn n w))"
  shows "replayed_receipt sha (canonical (JObj (sealed_receipt sha env sn rn n w)) @ encode [CHR 0x0A]) =
    Inr (dput ''duplicate_dispatch'' (JBool True) (dput ''cache_hit'' (JBool True)
      (norm_members (sealed_receipt sha env sn rn n w))))"
proof -
  let ?r = "sealed_receipt sha env sn rn n w"
  have keys: "distinct (keys ?r)" using assms by simp
  have "map_of (norm_members ?r) ''receipt_digest'' = Some (JStr (slot_digest sha (JObj (slot_receipt sha env sn rn n w))))"
    by (simp only: map_of_norm_members [OF keys]) (simp add: sealed_receipt_def dict_simps)
  moreover have "slot_digest sha (JObj (dpop ''receipt_digest'' (norm_members ?r))) =
      slot_digest sha (JObj (slot_receipt sha env sn rn n w))"
    by (simp only: slot_digest_def canonical_norm_members dpop_sealed flip: norm_members_dpop)
  moreover have "loads (decode (canonical (JObj ?r) @ encode [CHR 0x0A])) = Some (JObj (norm_members ?r))"
    using loads_object_line [OF assms] by (simp only: canonical_def decode_encode flip: encode_append)
  ultimately show ?thesis
    by (simp only: replayed_receipt_def option.case json.case Let_def json_eq_refl if_False not_True_eq_False)
qed

lemma overlay_writes_receipts:
  "\<not> strictly_inside overlay p \<Longrightarrow> sx_files (snd (overlay_writes overlay budget ws n w s)) p = sx_files s p"
  by (induction overlay budget ws n w s rule: overlay_writes.induct) (auto simp: write_file_def)

lemma execute_slot_cases:
  assumes "execute_slot sha root e sn rn s = (Inr r, s')" "sx_files s (receipt_path root (py_str (field_or_null e ''idempotency_key''))) = None"
  obtains env n w s2 where "validate_envelope sha e = Inr env" "r = sealed_receipt sha env sn rn n w"
    "json_eq (field_or_null env ''source_hash'') (JStr (sn_source_hash sn))"
    "py_str (field_or_null env ''idempotency_key'') = py_str (field_or_null e ''idempotency_key'')"
    "s' = write_file (receipt_path root (py_str (field_or_null e ''idempotency_key'')))
       (canonical (JObj r) @ encode [CHR 0x0A]) s2"
proof -
  from assms(1) obtain env key where v: "validate_envelope sha e = Inr env"
    and src: "json_eq (field_or_null env ''source_hash'') (JStr (sn_source_hash sn))"
    and key: "key = py_str (field_or_null env ''idempotency_key'')"
    by (auto simp: execute_slot_def ebind_def split: sum.splits if_splits)
  have same: "key = py_str (field_or_null e ''idempotency_key'')"
    using validated_generation [OF v] key by (auto simp: dict_simps)
  from assms v src key same obtain n w s2 where "r = sealed_receipt sha env sn rn n w"
    "s' = write_file (receipt_path root (py_str (field_or_null e ''idempotency_key'')))
       (canonical (JObj r) @ encode [CHR 0x0A]) s2"
    by (auto simp: execute_slot_def Let_def sealed_receipt_def split: sum.splits prod.splits option.splits)
  with that v src key same show thesis by blast
qed

section \<open>Properties\<close>

text \<open>C28: A dispatched slot is verified and never run twice: the receipt of a first execution
  verifies against its envelope, and executing the same envelope again, whatever it asks to write,
  changes neither files nor the worker count and answers with the stored receipt, field by field,
  marked as a cache hit and a duplicate.\<close>

theorem slot_runs_once:
  assumes "execute_slot sha root e sn rn s = (Inr r, s')"
    and "sx_files s (receipt_path root (py_str (field_or_null e ''idempotency_key''))) = None"
    and "wf_json (JObj e)" "wf_json (rn_latency_ms rn)" "wf_json (rn_cpu_ms rn)" "wf_json (rn_rss_kib_delta rn)"
    and "sn_source_hash sn' = sn_source_hash sn"
  shows "verify_slot_receipt sha r e = Inr (True, ''ok'') \<and>
     (\<exists>r'. execute_slot sha root e sn' rn' s' = (Inr r', s') \<and>
        field_or_null r' ''cache_hit'' = JBool True \<and> field_or_null r' ''duplicate_dispatch'' = JBool True \<and>
        (\<forall>k. k \<notin> {''cache_hit'', ''duplicate_dispatch''} \<longrightarrow> field_or_null r' k = norm_json (field_or_null r k)))"
proof -
  from execute_slot_cases [OF assms(1,2)] obtain env n w s2 where v: "validate_envelope sha e = Inr env"
    and r: "r = sealed_receipt sha env sn rn n w"
    and src: "json_eq (field_or_null env ''source_hash'') (JStr (sn_source_hash sn))"
    and key: "py_str (field_or_null env ''idempotency_key'') = py_str (field_or_null e ''idempotency_key'')"
    and s': "s' = write_file (receipt_path root (py_str (field_or_null e ''idempotency_key'')))
       (canonical (JObj r) @ encode [CHR 0x0A]) s2" by blast
  obtain g where g: "env = dput ''generation'' (JInt g) e" using validated_generation [OF v] ..
  have "\<forall>(k, v) \<in> set (dput ''generation'' (JInt g) e). wf_json v"
    by (rule values_dput) (use assms(3) in auto)
  then have "wf_json (JObj env)" using assms(3) g by (simp add: distinct_dput)
  then have wf: "wf_json (JObj r)" unfolding r using assms(4-6) by (rule wf_slot_receipt)
  then have keys: "distinct (keys r)" by simp
  let ?r = "dput ''duplicate_dispatch'' (JBool True) (dput ''cache_hit'' (JBool True) (norm_members r))"
  have "replayed_receipt sha (canonical (JObj r) @ encode [CHR 0x0A]) = Inr ?r"
    using replayed_sealed wf unfolding r .
  then have "execute_slot sha root e sn' rn' s' = (Inr ?r, s')"
    using v src key s' assms(7) by (simp add: execute_slot_def write_file_def)
  moreover have "verify_slot_receipt sha r e = Inr (True, ''ok'')"
    unfolding r using v by (rule sealed_receipt_verifies_slot)
  ultimately show ?thesis by (auto simp: dict_simps field_or_null_norm [OF keys])
qed

definition idle_run :: slot_run where
  "idle_run = \<lparr>rn_writes = [(''a.txt'', [1])], rn_runtime_available = True, rn_rust_available = False,
     rn_latency_ms = JInt 1, rn_cpu_ms = JInt 1, rn_rss_kib_delta = JInt 0\<rparr>"

definition no_files :: slot_state where
  "no_files = \<lparr>sx_files = Map.empty, sx_workers = 0\<rparr>"

definition source_snapshot :: slot_snapshot where
  "source_snapshot = \<lparr>sn_root = [''root''], sn_snapshot_id = ''s'', sn_source_hash = ''source'', sn_manifest = []\<rparr>"

lemma slot_digest_nonempty: "(\<And>b. sha b \<noteq> []) \<Longrightarrow> slot_digest sha v \<noteq> []"
  unfolding slot_digest_def hexdigest_def by (metis length_0_conv length_hex mult_is_0 zero_neq_numeral)

lemma sample_envelope_valid:
  "(\<And>b. sha b \<noteq> []) \<Longrightarrow>
     validate_envelope sha (make_envelope sha 1 ''run'' 1 ''f1'') = Inr (make_envelope sha 1 ''run'' 1 ''f1'')"
  using slot_digest_nonempty [of sha]
  by (simp add: validate_envelope_def make_envelope_def Let_def field_or_null_def REQUIRED_FIELDS_def
      REQUIRED_HASHES_def KEY_FIELDS_def pick_fields_def max_operations_def lift_exc_def dput_def)

lemma join_path_simple: "path_parts t = [t] \<Longrightarrow> t \<noteq> ''..'' \<Longrightarrow> \<not> is_absolute t \<Longrightarrow> join_path base t = base @ [t]"
  by (simp add: join_path_def)

lemma sample_slot_runs:
  "\<exists>r s'. execute_slot (\<lambda>_. [0]) [''root''] (make_envelope (\<lambda>_. [0]) 1 ''run'' 1 ''f1'') source_snapshot idle_run no_files =
     (Inr r, s')"
proof -
  let ?e = "make_envelope (\<lambda>_. [0]) 1 ''run'' 1 ''f1''"
  have fields: "field_or_null ?e ''run_id'' = JStr ''run''" "field_or_null ?e ''budget'' = JObj [(''max_operations'', JInt 100)]"
    "field_or_null ?e ''source_hash'' = JStr ''source''"
    by (simp_all add: make_envelope_def Let_def field_or_null_def dput_def)
  have name: "join_path o1 ''a.txt'' = o1 @ [''a.txt'']" for o1
    by (intro join_path_simple) (simp_all add: path_parts_def is_absolute_def)
  show ?thesis
    using sample_envelope_valid [of "\<lambda>_. [0]"] fields name
    by (simp add: execute_slot_def source_snapshot_def no_files_def overlay_path_def max_operations_def lift_exc_def
        idle_run_def strictly_inside_def Let_def)
qed

theorem slot_runs_once_witness:
  "\<exists>r s' r'. execute_slot (\<lambda>_. [0]) [''root''] (make_envelope (\<lambda>_. [0]) 1 ''run'' 1 ''f1'') source_snapshot idle_run no_files =
       (Inr r, s') \<and>
     execute_slot (\<lambda>_. [0]) [''root''] (make_envelope (\<lambda>_. [0]) 1 ''run'' 1 ''f1'') source_snapshot idle_run s' = (Inr r', s')"
proof -
  obtain r s' where run: "execute_slot (\<lambda>_. [0]) [''root''] (make_envelope (\<lambda>_. [0]) 1 ''run'' 1 ''f1'')
      source_snapshot idle_run no_files = (Inr r, s')"
    using sample_slot_runs by blast
  have "wf_json (JObj (make_envelope (\<lambda>_. [0]) 1 ''run'' 1 ''f1''))"
    by (simp add: make_envelope_def Let_def dput_def)
  from slot_runs_once [OF run _ this, of source_snapshot idle_run] run show ?thesis
    by (auto simp: no_files_def idle_run_def)
qed

text \<open>C30: A slot writes into its own overlay: whether the execution succeeds or fails, the only file
  outside the slot's overlay directory that can change is the receipt of its idempotency key, which
  is written once, by a successful execution.\<close>

theorem slot_writes_stay_in_the_overlay:
  assumes "validate_envelope sha e = Inr env" "overlay_path root env = Inr overlay"
    and "execute_slot sha root e sn rn s = (outcome, s')" "\<not> strictly_inside overlay p"
  shows "sx_files s' p = sx_files s p \<or>
    (p = receipt_path root (py_str (field_or_null env ''idempotency_key'')) \<and> sx_files s p = None \<and>
     (\<exists>r. outcome = Inr r \<and> sx_files s' p = Some (canonical (JObj r) @ encode [CHR 0x0A])))"
proof (cases "json_eq (field_or_null env ''source_hash'') (JStr (sn_source_hash sn)) \<and>
    sx_files s (receipt_path root (py_str (field_or_null env ''idempotency_key''))) = None")
  case True
  let ?s1 = "s\<lparr>sx_workers := sx_workers s + 1\<rparr>"
  have same: "sx_files (snd (overlay_writes overlay b ws n w ?s1)) p = sx_files s p" for b ws n w
    using overlay_writes_receipts [OF assms(4)] by simp
  show ?thesis
  proof (cases "max_operations env")
    case (Inr b)
    obtain res s2 where w: "overlay_writes overlay b (sort_key fst (rn_writes rn)) 0 0 ?s1 = (res, s2)"
      by (cases "overlay_writes overlay b (sort_key fst (rn_writes rn)) 0 0 ?s1")
    then have s2: "sx_files s2 p = sx_files s p" using same [of b "sort_key fst (rn_writes rn)" 0 0] by simp
    show ?thesis
    proof (cases res)
      case (Inl err)
      then show ?thesis using assms True w Inr s2 by (simp add: execute_slot_def Let_def)
    next
      case R: (Inr nw)
      obtain n k where "nw = (n, k)" by (cases nw)
      then show ?thesis using assms True w Inr R s2
        by (auto simp: execute_slot_def Let_def write_file_def split: if_splits)
    qed
  qed (use assms True in \<open>auto simp: execute_slot_def Let_def\<close>)
next
  case False
  with assms(1,3) have "s' = s"
    by (cases "json_eq (field_or_null env ''source_hash'') (JStr (sn_source_hash sn))")
      (auto simp: execute_slot_def simp del: json_eq_JStr)
  then show ?thesis by simp
qed

theorem slot_writes_stay_in_the_overlay_witness:
  "sx_files (snd (execute_slot (\<lambda>_. [0]) [''root''] (make_envelope (\<lambda>_. [0]) 1 ''run'' 1 ''f1'')
     source_snapshot idle_run no_files)) [''root'', ''other''] = None"
proof -
  let ?e = "make_envelope (\<lambda>_. [0]) 1 ''run'' 1 ''f1''"
  have one: "nat_str (Suc 0) = ''1''" "int_str 1 = ''1''"
    by code_simp+
  have fields: "field_or_null ?e ''run_id'' = JStr ''run''" "field_or_null ?e ''slot_id'' = JStr ''slot-1''"
    "field_or_null ?e ''generation'' = JInt 1" "field_or_null ?e ''fence'' = JStr ''f1''"
    by (simp_all add: make_envelope_def Let_def field_or_null_def dput_def one)
  have "overlay_path [''root''] ?e = Inr [''root'', ''overlays'', ''run'', ''slot-1-g1-f1'']"
    unfolding overlay_path_def fields by (simp add: py_str_def one join_path_def path_parts_def is_absolute_def)
  from slot_writes_stay_in_the_overlay [OF sample_envelope_valid this surjective_pairing, of "[''root'', ''other'']" source_snapshot idle_run no_files]
  show ?thesis by (auto simp: strictly_inside_def receipt_path_def no_files_def)
qed

section \<open>Paging\<close>

text \<open>A client that reads a file page by page; \<open>None\<close> when it gives up after \<open>fuel\<close> pages.\<close>

primrec read_pages ::
  "nat \<Rightarrow> slot_snapshot \<Rightarrow> string \<Rightarrow> int \<Rightarrow> int \<Rightarrow> slot_state \<Rightarrow> slot_error + bytes option" where
  "read_pages 0 sn name limit offset s = Inr None"
| "read_pages (Suc fuel) sn name limit offset s =
     ebind (snapshot_page sn name offset limit s) (\<lambda>page.
       if pg_eof page then Inr (Some (pg_bytes page))
       else ebind (read_pages fuel sn name limit (pg_next_offset page) s) (\<lambda>rest.
              Inr (map_option (\<lambda>bs. pg_bytes page @ bs) rest)))"

lemma read_pages_drop:
  assumes "map_of (sn_manifest sn) name = Some h" "sx_files s (object_path sn h) = Some content"
    and "0 < limit" "limit \<le> 65536"
  shows "n \<le> length content \<Longrightarrow> length content - n < fuel \<Longrightarrow>
    read_pages fuel sn name limit (int n) s = Inr (Some (drop n content))"
proof (induction fuel arbitrary: n)
  case (Suc fuel)
  let ?m = "n + length (slice n (nat (int n + limit)) content)"
  obtain l where l: "limit = int l" "0 < l" using assms(3) by (metis zero_less_imp_eq_int)
  have nl: "nat (int n + limit) = n + l" using l by (simp add: nat_int_add)
  with Suc.prems(1) have m: "?m = min (n + l) (length content)" by simp
  have page: "snapshot_page sn name (int n) limit s =
      Inr \<lparr>pg_bytes = slice n (n + l) content, pg_next_offset = int ?m, pg_eof = (?m \<ge> length content)\<rparr>"
    using assms l by (simp add: snapshot_page_def Let_def flip: of_nat_add)
  show ?case
  proof (cases "length content \<le> n + l")
    case True
    with page m show ?thesis by (simp add: slice_def)
  next
    case False
    then have "read_pages fuel sn name limit (int (n + l)) s = Inr (Some (drop (n + l) content))"
      using Suc.prems l by (intro Suc.IH) auto
    moreover have "slice n (n + l) content @ drop (n + l) content = drop n content"
    proof -
      have "take l (drop n content) @ drop l (drop n content) = drop n content" by (rule append_take_drop_id)
      then show ?thesis by (simp add: slice_def drop_take add.commute)
    qed
    moreover have "n + length (slice n (n + l) content) = n + l" using m nl False by simp
    ultimately show ?thesis using page False nl by simp
  qed
qed simp

lemma store_objects_kept:
  "store_objects sha sn files s = (Inr (), s') \<Longrightarrow> sx_files s p = Some b \<Longrightarrow> sx_files s' p = Some b"
proof (induction files arbitrary: s)
  case (Cons f files)
  obtain name content where f: "f = (name, content)" by (cases f)
  show ?case
  proof (cases "sx_files s (object_path sn (hexdigest sha content))")
    case None
    with Cons.prems(2) have "p \<noteq> object_path sn (hexdigest sha content)" by auto
    with Cons f None show ?thesis by (simp add: write_file_def)
  next
    case (Some stored)
    with Cons f show ?thesis by (simp split: if_splits)
  qed
qed simp

lemma store_objects_stores:
  assumes "inj_on sha C" "\<And>p b. sx_files s p = Some b \<Longrightarrow> b \<in> C" "snd ` set files \<subseteq> C"
    and "store_objects sha sn files s = (Inr (), s')" "(name, content) \<in> set files"
  shows "sx_files s' (object_path sn (hexdigest sha content)) = Some content"
  using assms(2-)
proof (induction files arbitrary: s)
  case (Cons f files)
  obtain m c where f: "f = (m, c)" by (cases f)
  let ?p = "object_path sn (hexdigest sha c)"
  have inj: "b = c" if "b \<in> C" "hexdigest sha b = hexdigest sha c" for b
    using that assms(1) Cons.prems(2) f by (auto simp: hexdigest_def dest!: hex_inj dest: inj_onD)
  obtain t where t: "store_objects sha sn files t = (Inr (), s')" "sx_files t ?p = Some c"
    "\<And>p b. sx_files t p = Some b \<Longrightarrow> b \<in> C"
  proof (cases "sx_files s ?p")
    case None
    then show thesis using Cons.prems f
      by (intro that [of "write_file ?p c s"]) (auto simp: write_file_def split: if_splits)
  next
    case (Some stored)
    then have "hexdigest sha stored = hexdigest sha c" "stored \<in> C"
      using Cons.prems f by (auto split: if_splits)
    then have "stored = c" by (intro inj)
    then show thesis using Cons.prems f Some by (intro that [of s]) auto
  qed
  show ?case
  proof (cases "(name, content) = f")
    case True
    with f t(1,2) show ?thesis by (auto dest: store_objects_kept)
  next
    case False
    with Cons.prems t show ?thesis by (intro Cons.IH [OF t(3)]) auto
  qed
qed simp

text \<open>C31: Paging through a snapshot ends and gives the file: after a snapshot was opened, reading any
  of its files page by page, with any allowed page size, stops after at most one page per byte and
  one more and returns exactly the content the snapshot was opened with, when the digest has no
  collision among the stored contents.\<close>

theorem paged_snapshot_reads_the_files:
  assumes "open_snapshot sha root run_id source_hash files s = (Inr sn, s')"
    and "distinct (keys files)" "(name, content) \<in> set files"
    and "inj_on sha (snd ` set files \<union> ran (sx_files s))"
    and "0 < limit" "limit \<le> 65536" "length content < fuel"
  shows "read_pages fuel sn name limit 0 s' = Inr (Some content)"
proof -
  let ?id = "slot_digest sha (JObj [(''run_id'', JStr run_id), (''source_hash'', JStr source_hash),
      (''manifest'', manifest_json (snapshot_manifest sha files))])"
  let ?sn = "\<lparr>sn_root = root @ [''snapshots'', ?id], sn_snapshot_id = ?id,
      sn_source_hash = source_hash, sn_manifest = snapshot_manifest sha files\<rparr>"
  obtain res s1 where st0: "store_objects sha ?sn files s = (res, s1)" by fastforce
  from assms(1) st0 have sn: "sn = ?sn" "res = Inr ()"
    and s': "s' = s1 \<or> s' = write_file (sn_root ?sn @ [''snapshot.json'']) (canonical (snapshot_metadata ?sn) @ encode [CHR 0x0A]) s1"
    by (auto simp: open_snapshot_def Let_def split: if_splits sum.splits option.splits)
  have st: "store_objects sha sn files s = (Inr (), s1)" using st0 sn by simp
  have man: "sn_manifest sn = snapshot_manifest sha files" using sn by simp
  have "sx_files s1 (object_path sn (hexdigest sha content)) = Some content"
    by (rule store_objects_stores [OF assms(4) _ _ st assms(3)]) (auto simp: ran_def)
  then have obj: "sx_files s' (object_path sn (hexdigest sha content)) = Some content"
    using s' sn(1) by (auto simp: write_file_def object_path_def)
  have "map_of (sort_key fst files) name = Some content"
    using assms(2,3) by (simp add: map_of_sort_key_fst)
  then have "map_of (sn_manifest sn) name = Some (hexdigest sha content)"
    unfolding man snapshot_manifest_def by (simp add: map_of_map)
  from read_pages_drop [OF this obj assms(5,6), of 0 fuel] assms(7) show ?thesis by simp
qed

theorem paged_snapshot_reads_the_files_witness:
  "\<exists>sn s'. open_snapshot id [''root''] ''run'' ''source'' [(''a'', [1, 2, 3])] no_files = (Inr sn, s') \<and>
     read_pages 4 sn ''a'' 2 0 s' = Inr (Some [1, 2, 3])"
proof -
  have "\<exists>sn s'. open_snapshot id [''root''] ''run'' ''source'' [(''a'', [1, 2, 3])] no_files = (Inr sn, s')"
    by (simp add: open_snapshot_def no_files_def Let_def write_file_def object_path_def)
  then obtain sn s' where o1: "open_snapshot id [''root''] ''run'' ''source'' [(''a'', [1, 2, 3])] no_files = (Inr sn, s')"
    by blast
  from paged_snapshot_reads_the_files [OF o1, of "''a''" "[1, 2, 3]" 2 4] o1 show ?thesis by auto
qed

end
