(* ===== verification/PageSource.thy ===== *)
theory PageSource
  imports Pager
begin

text \<open>
  What a client of the page cache relies on.  The pages it asks for have a source: at most one content
  for every key, none longer than a limit.  The locale \<open>page_source\<close> states that contract; its
  facts say that a pager which holds only unleased pages of the source answers every request with
  the source's content, evicting as it must, as long as one page fits its budgets.
\<close>

section \<open>Pagers without leases\<close>

definition unleased :: "pager \<Rightarrow> bool" where
  "unleased P \<longleftrightarrow> pager_inv P \<and> sp_bytes P = int (dtotal page_size (sp_pages P)) \<and>
     (\<forall>(k, p) \<in> set (sp_pages P). pg_leases p = 0 \<and> \<not> pg_invalidated p)"

text \<open>What an operation of the pager leaves as it is.\<close>

definition same_limits :: "pager \<Rightarrow> pager \<Rightarrow> bool" where
  "same_limits P Q \<longleftrightarrow> sp_repository Q = sp_repository P \<and> sp_generation Q = sp_generation P \<and>
     sp_max_bytes Q = sp_max_bytes P \<and> sp_max_pages Q = sp_max_pages P"

lemma unleased_flights [simp]: "unleased (P\<lparr>sp_flights := fs\<rparr>) = unleased P"
  by (simp add: unleased_def pager_inv_def)

lemma same_limits_refl [simp]: "same_limits P P"
  by (simp add: same_limits_def)

lemma same_limits_trans [trans]: "same_limits P Q \<Longrightarrow> same_limits Q R \<Longrightarrow> same_limits P R"
  by (simp add: same_limits_def)

lemma unleased_drop:
  assumes "unleased P" "map_of (sp_pages P) k = Some p"
  shows "unleased (drop_page k p P)"
proof -
  have d: "distinct (keys (sp_pages P))" using assms(1) by (simp add: unleased_def pager_inv_def)
  have "pager_inv (drop_page k p P)"
    using assms by (intro pager_inv_drop) (simp_all add: unleased_def)
  moreover have "set (dpop k (sp_pages P)) \<subseteq> set (sp_pages P)" by (auto simp: dpop_def)
  ultimately show ?thesis
    using assms dtotal_dpop [OF d assms(2), of page_size] by (auto simp: unleased_def drop_page_def)
qed

lemma unleased_metrics [simp]: "unleased (P\<lparr>sp_metrics := m\<rparr>) = unleased P"
  by (simp add: unleased_def pager_inv_more)

lemma unleased_victim:
  "unleased P \<Longrightarrow> eviction_victim P = None \<longleftrightarrow> sp_pages P = []"
proof -
  assume "unleased P"
  then have "filter (\<lambda>(_, p). pg_leases p = 0) (sp_pages P) = sp_pages P"
    by (auto simp: unleased_def intro: filter_True)
  then show ?thesis by (simp add: eviction_victim_def split: list.split)
qed

lemma evict_unleased:
  "unleased P \<Longrightarrow> required \<le> sp_max_bytes P \<Longrightarrow> 1 \<le> sp_max_pages P \<Longrightarrow>
     \<exists>Q. evict required True P = (None, Q) \<and> unleased Q \<and> set (sp_pages Q) \<subseteq> set (sp_pages P) \<and>
       same_limits P Q \<and> sp_flights Q = sp_flights P"
proof (induction required True P rule: evict.induct)
  case (1 required P)
  let ?full = "sp_bytes P + int required > int (sp_max_bytes P) \<or> length (sp_pages P) \<ge> sp_max_pages P"
  show ?case
  proof (cases ?full)
    case False
    then have "evict required True P = (None, P)" by (subst evict.simps) simp
    with "1.prems"(1) show ?thesis by simp
  next
    case True
    then have "sp_pages P \<noteq> []" using "1.prems" by (auto simp: unleased_def)
    then obtain k p where v: "eviction_victim P = Some (k, p)"
      using unleased_victim [OF "1.prems"(1)] by (cases "eviction_victim P") auto
    let ?Q = "(drop_page k p P)\<lparr>sp_metrics := (sp_metrics P)\<lparr>pm_evictions := Suc (pm_evictions (sp_metrics P))\<rparr>\<rparr>"
    have "map_of (sp_pages P) k = Some p"
      using eviction_victim_mem [OF v] "1.prems"(1) by (simp add: unleased_def pager_inv_def)
    then have Q: "unleased ?Q" using unleased_drop [OF "1.prems"(1)] by simp
    have lim: "same_limits P ?Q" "set (sp_pages ?Q) \<subseteq> set (sp_pages P)" "sp_flights ?Q = sp_flights P"
      by (auto simp: same_limits_def drop_page_def dpop_def)
    have "evict required True P = evict required True ?Q"
      using True v by (subst evict.simps) simp
    moreover obtain R where R: "evict required True ?Q = (None, R)" "unleased R" "set (sp_pages R) \<subseteq> set (sp_pages ?Q)"
        "same_limits ?Q R" "sp_flights R = sp_flights ?Q"
      using "1.hyps" [OF True _ v refl Q] "1.prems" lim(1) by (auto simp: same_limits_def)
    moreover from R lim have "set (sp_pages R) \<subseteq> set (sp_pages P)" "same_limits P R" "sp_flights R = sp_flights P"
      by (auto intro: same_limits_trans)
    ultimately show ?thesis by auto
  qed
qed

section \<open>The contract\<close>

locale page_source =
  fixes source :: "page_key \<Rightarrow> bytes \<Rightarrow> bool" and limit :: nat
  assumes source_unique: "source k b \<Longrightarrow> source k c \<Longrightarrow> b = c"
    and source_small: "source k b \<Longrightarrow> length b \<le> limit"
begin

definition serves :: "pager \<Rightarrow> bool" where
  "serves P \<longleftrightarrow> unleased P \<and> limit \<le> sp_max_bytes P \<and> 1 \<le> sp_max_pages P \<and>
     (\<forall>(k, p) \<in> set (sp_pages P). source k (pg_data p))"

lemma serves_resident:
  assumes "serves P" "map_of (sp_pages P) k = Some p" "pg_data q = pg_data p" "pg_leases q = 0" "\<not> pg_invalidated q"
    and "sp_pages Q = dput k q (sp_pages P)" "sp_bytes Q = sp_bytes P" "same_limits P Q"
  shows "serves Q"
proof -
  have P: "pager_inv P" using assms(1) by (simp add: serves_def unleased_def)
  have inv: "pager_inv Q"
    by (rule pager_inv_replace [OF P assms(2) _ assms(6,7)]) (use assms(3,8) in \<open>simp_all add: same_limits_def\<close>)
  have d: "distinct (keys (sp_pages P))" using P by (simp add: pager_inv_def)
  have "dtotal page_size (sp_pages Q) = dtotal page_size (sp_pages P)"
    using dtotal_dput_same [OF d assms(2), of page_size q] assms(3,6) by simp
  moreover have "source k (pg_data q)" using assms(1-3) by (auto simp: serves_def dest!: map_of_SomeD)
  ultimately show ?thesis
    using assms inv set_dput [of k q "sp_pages P"] by (auto simp: serves_def unleased_def same_limits_def)
qed

lemma serves_touch: "serves P \<Longrightarrow> map_of (sp_pages P) k = Some p \<Longrightarrow> serves (touch_page k p (count f P))"
  by (rule serves_resident [of P k p "p\<lparr>pg_last_touch := Suc (sp_clock P)\<rparr>"])
    (auto simp: touch_page_def same_limits_def serves_def unleased_def dest!: map_of_SomeD)

lemma serves_load:
  assumes "serves P" "source k b" "map_of (sp_pages P) k = None"
  shows "\<exists>Q. get_load sha k b None True P = (Inr b, Q) \<and> serves Q \<and> same_limits P Q \<and> sp_flights Q = sp_flights P"
proof -
  obtain R where ev: "evict (length b) True P = (None, R)" and R: "unleased R"
    "set (sp_pages R) \<subseteq> set (sp_pages P)" "same_limits P R" "sp_flights R = sp_flights P"
    using evict_unleased [of P "length b"] assms(1) source_small [OF assms(2)] by (auto simp: serves_def)
  have new: "k \<notin> set (keys (sp_pages R))"
    using R(2) assms(3) by (auto simp: map_of_eq_None_iff)
  let ?p = "\<lparr>pg_data = b, pg_digest = hexdigest sha b, pg_last_touch = Suc (sp_clock R), pg_leases = 0, pg_invalidated = False\<rparr>"
  have pages: "dput k ?p (sp_pages R) = sp_pages R @ [(k, ?p)]" using new by (rule dput_new)
  have room: "sp_bytes R + int (length b) \<le> int (sp_max_bytes R)" "length (sp_pages R) < sp_max_pages R"
    using evict_inv [of P "length b" True] ev R assms(1)
    by (auto simp: evict_post_def serves_def unleased_def same_limits_def)
  have "serves (snd (get_load sha k b None True P))"
    using R assms(1,2) new room
    by (auto simp: get_load_def ev pages serves_def unleased_def pager_inv_def same_limits_def)
  moreover have "same_limits P (snd (get_load sha k b None True P)) \<and> sp_flights (snd (get_load sha k b None True P)) = sp_flights P"
    using R by (simp add: get_load_def ev same_limits_def)
  moreover have "fst (get_load sha k b None True P) = Inr b"
    by (simp add: get_load_def ev)
  ultimately show ?thesis by (metis prod.collapse)
qed

lemma serves_flights [simp]: "serves (P\<lparr>sp_flights := fs\<rparr>) = serves P"
  by (simp add: serves_def)

lemma serves_count [simp]: "serves (count f P) = serves P"
  by (simp add: serves_def unleased_def count_def pager_inv_def)

lemma get_page_serves:
  assumes "serves P" "sp_flights P = []" "check_page_key k P = None" "\<And>b. loader k = Some b \<longleftrightarrow> source k b"
  shows "\<exists>Q. get_page sha k (Some loader) None True P =
      ((case loader k of None \<Rightarrow> Inl Loader_failed | Some b \<Rightarrow> Inr b), Q) \<and>
      serves Q \<and> sp_flights Q = [] \<and> same_limits P Q"
proof (cases "map_of (sp_pages P) k")
  case (Some p)
  then have p: "source k (pg_data p)" "\<not> pg_invalidated p"
    using assms(1) by (auto simp: serves_def unleased_def dest!: map_of_SomeD)
  then have l: "loader k = Some (pg_data p)" using assms(4) by simp
  let ?Q = "touch_page k p (count (\<lambda>m. m\<lparr>pm_hits := Suc (pm_hits m)\<rparr>) P)"
  have "get_page sha k (Some loader) None True P = (case loader k of None \<Rightarrow> Inl Loader_failed | Some b \<Rightarrow> Inr b, ?Q)"
    using Some p(2) assms(3) l by (simp add: get_page_def get_admit_def Let_def)
  moreover have "same_limits P ?Q" "sp_flights ?Q = []"
    using assms(2) by (simp_all add: touch_page_def same_limits_def)
  ultimately show ?thesis using serves_touch [OF assms(1) Some] by blast
next
  case None
  let ?P = "count (\<lambda>m. m\<lparr>pm_misses := Suc (pm_misses m)\<rparr>) (P\<lparr>sp_flights := [k]\<rparr>)"
  have P: "serves ?P" "map_of (sp_pages ?P) k = None" "sp_flights ?P = [k]" "same_limits P ?P"
    using assms(1) None by (simp_all add: same_limits_def)
  have owner: "get_admit k True None P = (Owner, ?P)"
    using None assms(2,3) by (simp add: get_admit_def Let_def)
  have ended: "serves (end_flight k Q)" "sp_flights (end_flight k Q) = []" "same_limits P (end_flight k Q)"
    if "serves Q" "sp_flights Q = [k]" "same_limits P Q" for Q
    using that by (simp_all add: end_flight_def same_limits_def)
  show ?thesis
  proof (cases "loader k")
    case n: None
    with owner ended [OF P(1,3,4)] show ?thesis by (simp add: get_page_def)
  next
    case (Some b)
    then have src: "source k b" using assms(4) by simp
    obtain Q where Q: "get_load sha k b None True ?P = (Inr b, Q)" "serves Q" "same_limits ?P Q" "sp_flights Q = [k]"
      using serves_load [OF P(1) src P(2), of sha] unfolding P(3) by blast
    from ended [OF Q(2,4) same_limits_trans [OF P(4) Q(3)]] owner Some Q(1) show ?thesis
      by (simp add: get_page_def)
  qed
qed

end

end
