(* ===== verification/Segments.thy ===== *)
theory Segments
  imports PageSource JsonFields
begin

text \<open>
  \<open>simplicio_fast/segments.py\<close>: the sections of a validated snapshot stored as content-addressed
  segment files under one manifest, and the reader that serves byte windows of them through the
  page cache of \<open>pager.py\<close>.  A snapshot (\<open>snapshot.py\<close>) is its generation, its digest and its
  sections.  A manifest file is the value it parses to, so its indentation is left out, and it may
  be missing or unreadable; staging files, which only the publication itself reads, are not part of
  the state.
\<close>

section \<open>The directory\<close>

definition SEGMENTS_SCHEMA :: string where
  "SEGMENTS_SCHEMA = ''simplicio.fast.segments/v1''"

datatype segment_error =
    Manifest_unreadable
  | Manifest_schema_mismatch
  | Manifest_metadata_invalid
  | Manifest_segments_invalid
  | Segment_not_found
  | Segment_range_invalid
  | Segment_range_out_of_bounds
  | Segment_entry_invalid
  | Segment_path_invalid
  | Segment_missing
  | Segment_checksum_mismatch
  | Segment_existing_checksum_mismatch

datatype manifest_file = Absent | Unreadable | Holds json

record segment_dir =
  sd_segments :: "string \<Rightarrow> bytes option"
  sd_manifest :: manifest_file
  sd_previous :: manifest_file

record section_snapshot =
  ss_generation :: string
  ss_sha256 :: string
  ss_sections :: "(string, bytes) dict"

section \<open>Reading the manifest\<close>

definition is_digest_text :: "string \<Rightarrow> bool" where
  "is_digest_text s \<longleftrightarrow> length s = 64 \<and> list_all is_hex_char (lower s)"

definition entry_name :: "json \<Rightarrow> string option" where
  "entry_name item = (case jget item ''name'' of Some (JStr s) \<Rightarrow> if s = [] then None else Some s | _ \<Rightarrow> None)"

definition read_manifest_file :: "manifest_file \<Rightarrow> segment_error + (string \<times> json) list" where
  "read_manifest_file file =
     (case file of
        Holds (JObj payload) \<Rightarrow>
          (case (field_or_null payload ''schema'' = JStr SEGMENTS_SCHEMA, map_of payload ''segments'') of
             (True, Some (JList segments)) \<Rightarrow>
               (case (map_of payload ''generation'', map_of payload ''source_snapshot_sha256'') of
                  (Some (JStr generation), Some (JStr source_digest)) \<Rightarrow>
                    (if generation = [] \<or> \<not> is_digest_text source_digest then Inl Manifest_metadata_invalid
                     else if segments = [] then Inl Manifest_segments_invalid
                     else if None \<in> set (map entry_name segments) \<or> \<not> distinct (map entry_name segments)
                       then Inl Manifest_segments_invalid
                     else Inr payload)
                | _ \<Rightarrow> Inl Manifest_metadata_invalid)
           | _ \<Rightarrow> Inl Manifest_schema_mismatch)
      | Holds _ \<Rightarrow> Inl Manifest_schema_mismatch
      | _ \<Rightarrow> Inl Manifest_unreadable)"

definition manifest_segments :: "(string \<times> json) list \<Rightarrow> json list" where
  "manifest_segments payload = (case map_of payload ''segments'' of Some (JList vs) \<Rightarrow> vs | _ \<Rightarrow> [])"

definition validate_entry ::
  "(bytes \<Rightarrow> bytes) \<Rightarrow> segment_dir \<Rightarrow> json \<Rightarrow> segment_error + string \<times> nat" where
  "validate_entry sha D item =
     (case item of
        JObj kvs \<Rightarrow>
          (case (map_of kvs ''name'', map_of kvs ''file'', map_of kvs ''bytes'', map_of kvs ''sha256'') of
             (Some _, Some file_value, Some bytes_value, Some sha_value) \<Rightarrow>
               (case (bytes_value, sha_value) of
                  (JInt n, JStr digest) \<Rightarrow>
                    (if n < 0 \<or> \<not> is_digest_text digest then Inl Segment_entry_invalid
                     else
                       (case file_value of
                          JStr file_name \<Rightarrow>
                            (if path_name file_name \<noteq> file_name then Inl Segment_path_invalid
                             else
                               (case sd_segments D file_name of
                                  None \<Rightarrow> Inl Segment_missing
                                | Some content \<Rightarrow>
                                    (if int (length content) \<noteq> n \<or> hexdigest sha content \<noteq> digest
                                     then Inl Segment_checksum_mismatch
                                     else Inr (file_name, nat n))))
                        | _ \<Rightarrow> Inl Segment_path_invalid))
                | _ \<Rightarrow> Inl Segment_entry_invalid)
           | _ \<Rightarrow> Inl Segment_entry_invalid)
      | _ \<Rightarrow> Inl Segment_entry_invalid)"

definition find_entry :: "string \<Rightarrow> json list \<Rightarrow> json option" where
  "find_entry name items = List.find (\<lambda>item. jget item ''name'' = Some (JStr name)) items"

definition map_segment :: "(bytes \<Rightarrow> bytes) \<Rightarrow> string \<Rightarrow> segment_dir \<Rightarrow> segment_error + bytes" where
  "map_segment sha name D =
     ebind (read_manifest_file (sd_manifest D)) (\<lambda>payload.
       (case find_entry name (manifest_segments payload) of
          None \<Rightarrow> Inl Segment_not_found
        | Some item \<Rightarrow>
            ebind (validate_entry sha D item) (\<lambda>(file_name, n).
              if n = 0 then Inr []
              else (case sd_segments D file_name of None \<Rightarrow> Inl Segment_missing | Some b \<Rightarrow> Inr b))))"

definition read_segment_range ::
  "(bytes \<Rightarrow> bytes) \<Rightarrow> string \<Rightarrow> int \<Rightarrow> int \<Rightarrow> segment_dir \<Rightarrow> segment_error + bytes" where
  "read_segment_range sha name offset amount D =
     (if offset < 0 \<or> amount < 1 then Inl Segment_range_invalid
      else
        ebind (map_segment sha name D) (\<lambda>mapped.
          if offset + amount > int (length mapped) then Inl Segment_range_out_of_bounds
          else Inr (slice (nat offset) (nat (offset + amount)) mapped)))"

definition validate_store :: "(bytes \<Rightarrow> bytes) \<Rightarrow> segment_dir \<Rightarrow> segment_error + nat \<times> json" where
  "validate_store sha D =
     ebind (read_manifest_file (sd_manifest D)) (\<lambda>payload.
       ebind (emap (validate_entry sha D) (manifest_segments payload)) (\<lambda>checked.
         Inr (length checked, field_or_null payload ''generation'')))"

definition recover_previous ::
  "(bytes \<Rightarrow> bytes) \<Rightarrow> segment_dir \<Rightarrow> (segment_error + (string \<times> json) list) \<times> segment_dir" where
  "recover_previous sha D =
     (case ebind (read_manifest_file (sd_previous D)) (\<lambda>payload.
             ebind (emap (validate_entry sha D) (manifest_segments payload)) (\<lambda>_. Inr payload)) of
        Inl e \<Rightarrow> (Inl e, D)
      | Inr payload \<Rightarrow> (Inr payload, D\<lparr>sd_manifest := Holds (norm_json (JObj payload))\<rparr>))"

section \<open>Publishing\<close>

record segment =
  sg_name :: string
  sg_file :: string
  sg_bytes :: nat
  sg_sha256 :: string

definition segment_json :: "segment \<Rightarrow> json" where
  "segment_json g = JObj
     [(''name'', JStr (sg_name g)), (''file'', JStr (sg_file g)), (''bytes'', JInt (int (sg_bytes g))),
      (''sha256'', JStr (sg_sha256 g))]"

definition segment_of :: "(bytes \<Rightarrow> bytes) \<Rightarrow> string \<Rightarrow> bytes \<Rightarrow> segment" where
  "segment_of sha name content =
     \<lparr>sg_name = name, sg_file = name @ ''-'' @ hexdigest sha content @ ''.seg'', sg_bytes = length content,
      sg_sha256 = hexdigest sha content\<rparr>"

fun write_segments ::
  "(bytes \<Rightarrow> bytes) \<Rightarrow> (string, bytes) dict \<Rightarrow> segment list \<times> nat \<times> nat \<Rightarrow> segment_dir \<Rightarrow>
     (segment_error + segment list \<times> nat \<times> nat) \<times> segment_dir" where
  "write_segments sha [] done D = (Inr done, D)"
| "write_segments sha ((name, content) # sections) (segments, written, reused) D =
     (let g = segment_of sha name content in
      case sd_segments D (sg_file g) of
        Some existing \<Rightarrow>
          (if length existing \<noteq> length content \<or> hexdigest sha existing \<noteq> sg_sha256 g
           then (Inl Segment_existing_checksum_mismatch, D)
           else write_segments sha sections (segments @ [g], written, reused + 1) D)
      | None \<Rightarrow>
          write_segments sha sections (segments @ [g], written + 1, reused)
            (D\<lparr>sd_segments := (sd_segments D)(sg_file g \<mapsto> content)\<rparr>))"

definition manifest_payload :: "section_snapshot \<Rightarrow> segment list \<times> nat \<times> nat \<Rightarrow> (string \<times> json) list" where
  "manifest_payload S r =
     (case r of (segments, written, reused) \<Rightarrow>
        [(''schema'', JStr SEGMENTS_SCHEMA), (''generation'', JStr (ss_generation S)),
         (''source_snapshot_sha256'', JStr (ss_sha256 S)), (''segments'', JList (map segment_json segments)),
         (''segments_written'', JInt (int written)), (''segments_reused'', JInt (int reused))])"

definition publish_segments ::
  "(bytes \<Rightarrow> bytes) \<Rightarrow> section_snapshot \<Rightarrow> segment_dir \<Rightarrow>
     (segment_error + (string \<times> json) list) \<times> segment_dir" where
  "publish_segments sha S D =
     (case write_segments sha (sort_key fst (ss_sections S)) ([], 0, 0) D of
        (Inl e, D1) \<Rightarrow> (Inl e, D1)
      | (Inr r, D1) \<Rightarrow>
          (let payload = manifest_payload S r;
               D2 = (if sd_manifest D1 \<noteq> Absent then D1\<lparr>sd_previous := sd_manifest D1\<rparr> else D1)
           in (Inr payload, D2\<lparr>sd_manifest := Holds (norm_json (JObj payload))\<rparr>)))"

section \<open>Reading through the page cache\<close>

datatype window_error =
    Window_range_invalid
  | Window_stale_generation
  | Window_not_found
  | Window_out_of_bounds
  | Window_store segment_error
  | Window_pager pager_error
  | Window_escape py_exc

record segment_pager =
  wp_repository :: string
  wp_generation :: string
  wp_overlay :: "string option"
  wp_page_bytes :: nat
  wp_pager :: pager
  wp_segment_reads :: nat

definition new_segment_pager ::
  "string \<Rightarrow> string \<Rightarrow> string option \<Rightarrow> nat \<Rightarrow> nat \<Rightarrow> nat \<Rightarrow> segment_pager option" where
  "new_segment_pager repository generation overlay page_bytes max_bytes max_pages =
     (if repository = [] \<or> generation = [] \<or> page_bytes < 1 then None
      else
        (case new_pager repository generation max_bytes max_pages of
           Inl _ \<Rightarrow> None
         | Inr P \<Rightarrow> Some \<lparr>wp_repository = repository, wp_generation = generation, wp_overlay = overlay,
                          wp_page_bytes = page_bytes, wp_pager = P, wp_segment_reads = 0\<rparr>))"

definition window_key :: "segment_pager \<Rightarrow> string \<Rightarrow> nat \<Rightarrow> nat \<Rightarrow> page_key" where
  "window_key W name page_start page_len =
     \<lparr>pk_repository = wp_repository W, pk_generation = wp_generation W, pk_overlay = wp_overlay W,
      pk_segment = name, pk_logical_range = int_str (int page_start) @ '':'' @ int_str (int page_len),
      pk_schema = PAGER_SCHEMA\<rparr>"

text \<open>\<open>range(first, final + 1, step)\<close>.\<close>

definition page_starts :: "nat \<Rightarrow> nat \<Rightarrow> nat \<Rightarrow> nat list" where
  "page_starts first final step = map (\<lambda>i. first + i * step) [0..<(final + step - first) div step]"

fun read_pages_of ::
  "(bytes \<Rightarrow> bytes) \<Rightarrow> segment_dir \<Rightarrow> segment_pager \<Rightarrow> string \<Rightarrow> nat \<Rightarrow> nat \<Rightarrow> nat \<Rightarrow> nat list \<Rightarrow> pager \<Rightarrow>
     (window_error + bytes) \<times> pager" where
  "read_pages_of sha D W name segment_bytes offset amount [] P = (Inr [], P)"
| "read_pages_of sha D W name segment_bytes offset amount (page_start # starts) P =
     (let page_len = min (wp_page_bytes W) (segment_bytes - page_start);
          loaded = read_segment_range sha name (int page_start) (int page_len) D;
          loader = (\<lambda>_. case loaded of Inl _ \<Rightarrow> None | Inr b \<Rightarrow> Some b)
      in case get_page sha (window_key W name page_start page_len) (Some loader) None True P of
           (Inl e, Q) \<Rightarrow>
             (Inl (case (e, loaded) of (Loader_failed, Inl err) \<Rightarrow> Window_store err | _ \<Rightarrow> Window_pager e), Q)
         | (Inr page, Q) \<Rightarrow>
             (let chunk = slice (offset - page_start) (min (offset + amount - page_start) page_len) page
              in case read_pages_of sha D W name segment_bytes offset amount starts Q of
                   (Inl e, R) \<Rightarrow> (Inl e, R)
                 | (Inr rest, R) \<Rightarrow> (Inr (chunk @ rest), R)))"

text \<open>The checks of \<open>read\<close>, which give the size of the section.\<close>

definition check_window :: "segment_dir \<Rightarrow> string \<Rightarrow> int \<Rightarrow> int \<Rightarrow> segment_pager \<Rightarrow> window_error + nat" where
  "check_window D name offset amount W =
     (if offset < 0 \<or> amount < 1 then Inl Window_range_invalid
      else
        (case read_manifest_file (sd_manifest D) of
           Inl e \<Rightarrow> Inl (Window_store e)
         | Inr manifest \<Rightarrow>
             (if field_or_null manifest ''generation'' \<noteq> JStr (wp_generation W) then Inl Window_stale_generation
              else
                (case find_entry name (manifest_segments manifest) of
                   None \<Rightarrow> Inl Window_not_found
                 | Some entry \<Rightarrow>
                     (case map_option py_num (jget entry ''bytes'') of
                        None \<Rightarrow> Inl (Window_escape Key_error)
                      | Some (JInt segment_bytes) \<Rightarrow>
                          (if offset + amount > segment_bytes then Inl Window_out_of_bounds else Inr (nat segment_bytes))
                      | Some _ \<Rightarrow> Inl (Window_escape Type_error))))))"

definition window_starts :: "segment_pager \<Rightarrow> nat \<Rightarrow> nat \<Rightarrow> nat list" where
  "window_starts W offset amount =
     (let step = wp_page_bytes W; first = (offset div step) * step; final = ((offset + amount - 1) div step) * step
      in page_starts first final step)"

definition read_window ::
  "(bytes \<Rightarrow> bytes) \<Rightarrow> segment_dir \<Rightarrow> string \<Rightarrow> int \<Rightarrow> int \<Rightarrow> segment_pager \<Rightarrow>
     (window_error + bytes) \<times> segment_pager" where
  "read_window sha D name offset amount W =
     (case check_window D name offset amount W of
        Inl e \<Rightarrow> (Inl e, W)
      | Inr segment_bytes \<Rightarrow>
          (case read_pages_of sha D W name segment_bytes (nat offset) (nat amount)
                  (window_starts W (nat offset) (nat amount)) (wp_pager W) of
             (Inl e, P) \<Rightarrow> (Inl e, W\<lparr>wp_pager := P\<rparr>)
           | (Inr chunks, P) \<Rightarrow> (Inr chunks, W\<lparr>wp_pager := P, wp_segment_reads := wp_segment_reads W + 1\<rparr>)))"

section \<open>Windows of a stored section\<close>

text \<open>The store has the section \<open>name\<close> with the content \<open>data\<close>.\<close>

definition has_section :: "(bytes \<Rightarrow> bytes) \<Rightarrow> segment_dir \<Rightarrow> string \<Rightarrow> bytes \<Rightarrow> bool" where
  "has_section sha D name data \<longleftrightarrow>
     (\<exists>payload item file_name. read_manifest_file (sd_manifest D) = Inr payload \<and>
        find_entry name (manifest_segments payload) = Some item \<and>
        jget item ''bytes'' = Some (JInt (int (length data))) \<and>
        validate_entry sha D item = Inr (file_name, length data) \<and> sd_segments D file_name = Some data)"

lemma map_has_section: "has_section sha D name data \<Longrightarrow> map_segment sha name D = Inr data"
  by (auto simp: has_section_def map_segment_def)

lemma read_range_section:
  "has_section sha D name data \<Longrightarrow> s + l \<le> length data \<Longrightarrow> 1 \<le> l \<Longrightarrow>
     read_segment_range sha name (int s) (int l) D = Inr (slice s (s + l) data)"
  by (simp add: read_segment_range_def map_has_section nat_int_add)

lemma read_range_length:
  assumes "read_segment_range sha name (int s) (int l) D = Inr b"
  shows "length b = l"
  using assms
  by (auto simp: read_segment_range_def ebind_Inr nat_int_add split: if_splits)

text \<open>Keys name their page.\<close>

lemma int_str_no_colon: "CHR '':'' \<notin> set (int_str (int n))"
proof -
  have digits: "set (nat_str m) \<subseteq> digit_char ` {..<10}" for m
  proof (induction m rule: nat_str.induct)
    case (1 m)
    then show ?case by (subst nat_str.simps) auto
  qed
  have "CHR '':'' \<noteq> digit_char d" if "d < 10" for d
  proof
    assume "CHR '':'' = digit_char d"
    then have "of_char (CHR '':'') = (of_char (digit_char d) :: nat)" by simp
    with that show False by (simp add: digit_char_def)
  qed
  with digits [of n] show ?thesis by (auto simp: int_str_def)
qed

lemma int_str_inject: "int_str i = int_str j \<longleftrightarrow> i = j"
proof
  assume same: "int_str i = int_str j"
  have "ends []" by (simp add: ends_def)
  from parse_num_int_str [OF this, of i] parse_num_int_str [OF this, of j] same
  have "Some (JInt i, []) = Some (JInt j, [] :: string)" by argo
  then show "i = j" by simp
qed simp

lemma split_once: "c \<notin> set a \<Longrightarrow> c \<notin> set a' \<Longrightarrow> a @ c # b = a' @ c # b' \<longleftrightarrow> a = a' \<and> b = b'"
proof (induction a arbitrary: a')
  case (Cons x a)
  then show ?case by (cases a') auto
next
  case Nil
  then show ?case by (cases a') auto
qed

lemma window_key_inject:
  "window_key W n s l = window_key W n' s' l' \<longleftrightarrow> n = n' \<and> s = s' \<and> l = l'"
  using split_once [of "CHR '':''" "int_str (int s)" "int_str (int s')" "int_str (int l)" "int_str (int l')"]
  by (auto simp: window_key_def int_str_no_colon int_str_inject)

definition window_source :: "(bytes \<Rightarrow> bytes) \<Rightarrow> segment_dir \<Rightarrow> segment_pager \<Rightarrow> page_key \<Rightarrow> bytes \<Rightarrow> bool" where
  "window_source sha D W k b \<longleftrightarrow>
     (\<exists>name s l. k = window_key W name s l \<and> l \<le> wp_page_bytes W \<and>
        read_segment_range sha name (int s) (int l) D = Inr b)"

interpretation windows: page_source "window_source sha D W" "wp_page_bytes W" for sha D W
proof
  fix k b c
  assume "window_source sha D W k b" "window_source sha D W k c"
  then show "b = c" by (auto simp: window_source_def window_key_inject)
next
  fix k b
  assume "window_source sha D W k b"
  then show "length b \<le> wp_page_bytes W" by (auto simp: window_source_def dest: read_range_length)
qed

definition window_ready :: "(bytes \<Rightarrow> bytes) \<Rightarrow> segment_dir \<Rightarrow> segment_pager \<Rightarrow> pager \<Rightarrow> bool" where
  "window_ready sha D W P \<longleftrightarrow>
     windows.serves sha D W P \<and> sp_flights P = [] \<and> sp_repository P = wp_repository W \<and> sp_generation P = wp_generation W"

lemma window_page:
  fixes name :: string and s l :: nat
  assumes "window_ready sha D W P" "l \<le> wp_page_bytes W"
  defines "loaded \<equiv> read_segment_range sha name (int s) (int l) D"
  shows "\<exists>Q. get_page sha (window_key W name s l) (Some (\<lambda>_. case loaded of Inl _ \<Rightarrow> None | Inr b \<Rightarrow> Some b)) None True P =
      ((case loaded of Inl _ \<Rightarrow> Inl Loader_failed | Inr b \<Rightarrow> Inr b), Q) \<and> window_ready sha D W Q"
proof -
  have "check_page_key (window_key W name s l) P = None"
    using assms(1) by (simp add: check_page_key_def window_key_def window_ready_def)
  moreover have "(case loaded of Inl _ \<Rightarrow> None | Inr b \<Rightarrow> Some b) = Some b \<longleftrightarrow> window_source sha D W (window_key W name s l) b" for b
    using assms(2) by (auto simp: window_source_def window_key_inject loaded_def split: sum.splits)
  ultimately obtain Q where "get_page sha (window_key W name s l) (Some (\<lambda>_. case loaded of Inl _ \<Rightarrow> None | Inr b \<Rightarrow> Some b)) None True P =
      ((case (case loaded of Inl _ \<Rightarrow> None | Inr b \<Rightarrow> Some b) of None \<Rightarrow> Inl Loader_failed | Some b \<Rightarrow> Inr b), Q)"
      "windows.serves sha D W Q" "sp_flights Q = []" "same_limits P Q"
    using windows.get_page_serves [of sha D W P "window_key W name s l" "\<lambda>_. case loaded of Inl _ \<Rightarrow> None | Inr b \<Rightarrow> Some b"]
      assms(1) by (auto simp: window_ready_def)
  then show ?thesis using assms(1) by (auto simp: window_ready_def same_limits_def split: sum.splits)
qed

lemma read_pages_ready:
  "window_ready sha D W P \<Longrightarrow> window_ready sha D W (snd (read_pages_of sha D W name n offset amount starts P))"
proof (induction starts arbitrary: P)
  case (Cons s starts)
  obtain r Q where Q: "get_page sha (window_key W name s (min (wp_page_bytes W) (n - s)))
      (Some (\<lambda>_. case read_segment_range sha name (int s) (int (min (wp_page_bytes W) (n - s))) D of
          Inl _ \<Rightarrow> None | Inr b \<Rightarrow> Some b)) None True P = (r, Q)" "window_ready sha D W Q"
    using window_page [OF Cons.prems, of "min (wp_page_bytes W) (n - s)" name s] by auto
  from Cons.IH [OF Q(2)] Q show ?case
    by (auto simp: Let_def split: sum.split prod.split)
qed simp

lemma window_source_pager [simp]:
  "window_source sha D (W\<lparr>wp_pager := P\<rparr>) = window_source sha D W"
  "window_source sha D (W\<lparr>wp_segment_reads := r\<rparr>) = window_source sha D W"
  by (simp_all add: window_source_def window_key_def fun_eq_iff)

lemma window_ready_pager [simp]:
  "window_ready sha D (W\<lparr>wp_pager := P\<rparr>) = window_ready sha D W"
  "window_ready sha D (W\<lparr>wp_segment_reads := r\<rparr>) = window_ready sha D W"
  by (simp_all add: window_ready_def fun_eq_iff)

lemma read_window_ready:
  assumes "window_ready sha D W (wp_pager W)"
  shows "\<exists>P r. snd (read_window sha D name offset amount W) = W\<lparr>wp_pager := P, wp_segment_reads := r\<rparr> \<and>
     window_ready sha D W P"
proof (cases "check_window D name offset amount W")
  case (Inl e)
  then have "snd (read_window sha D name offset amount W) =
      W\<lparr>wp_pager := wp_pager W, wp_segment_reads := wp_segment_reads W\<rparr>"
    by (simp add: read_window_def)
  with assms show ?thesis by blast
next
  case (Inr n)
  obtain r P where P: "read_pages_of sha D W name n (nat offset) (nat amount)
      (window_starts W (nat offset) (nat amount)) (wp_pager W) = (r, P)" "window_ready sha D W P"
    using read_pages_ready [OF assms] by (metis prod.collapse)
  then have "snd (read_window sha D name offset amount W) =
      W\<lparr>wp_pager := P, wp_segment_reads := (case r of Inl e \<Rightarrow> wp_segment_reads W | Inr b \<Rightarrow> wp_segment_reads W + 1)\<rparr>"
    using Inr by (simp add: read_window_def split: sum.split)
  with P(2) show ?thesis by blast
qed

fun read_windows ::
  "(bytes \<Rightarrow> bytes) \<Rightarrow> segment_dir \<Rightarrow> (string \<times> int \<times> int) list \<Rightarrow> segment_pager \<Rightarrow> segment_pager" where
  "read_windows sha D [] W = W"
| "read_windows sha D ((name, offset, amount) # requests) W =
     read_windows sha D requests (snd (read_window sha D name offset amount W))"

lemma read_windows_ready:
  "window_ready sha D W (wp_pager W) \<Longrightarrow>
     \<exists>P r. read_windows sha D requests W = W\<lparr>wp_pager := P, wp_segment_reads := r\<rparr> \<and> window_ready sha D W P"
proof (induction requests arbitrary: W)
  case Nil
  have "read_windows sha D [] W = W\<lparr>wp_pager := wp_pager W, wp_segment_reads := wp_segment_reads W\<rparr>" by simp
  with Nil show ?case by blast
next
  case (Cons q requests)
  obtain name offset amount where q: "q = (name, offset, amount)" by (cases q)
  obtain P r where P: "snd (read_window sha D name offset amount W) = W\<lparr>wp_pager := P, wp_segment_reads := r\<rparr>"
      "window_ready sha D W P"
    using read_window_ready [OF Cons.prems] by blast
  from Cons.IH [of "W\<lparr>wp_pager := P, wp_segment_reads := r\<rparr>"] P q show ?case by simp
qed

lemma page_starts_eq:
  assumes "0 < p" "lo \<le> hi"
  shows "page_starts (lo * p) (hi * p) p = map (\<lambda>i. i * p) [lo..<Suc hi]"
proof -
  have "(hi * p + p - lo * p) div p = Suc hi - lo"
    using assms by (metis diff_mult_distrib mult_Suc add.commute nonzero_mult_div_cancel_right less_numeral_extra(3))
  then have "page_starts (lo * p) (hi * p) p = map (\<lambda>i. i * p) (map (\<lambda>i. i + lo) [0..<Suc hi - lo])"
    by (simp add: page_starts_def add_mult_distrib add.commute comp_def)
  moreover have "map (\<lambda>i. i + lo) [0..<Suc hi - lo] = [lo..<Suc hi]"
    using assms(2) by (subst map_add_upt) simp
  ultimately show ?thesis by simp
qed

lemma read_pages_slice:
  assumes "has_section sha D name data" "0 < wp_page_bytes W" "o' + a \<le> length data"
  shows "window_ready sha D W P \<Longrightarrow> o' < Suc lo * wp_page_bytes W \<Longrightarrow> lo \<le> hi \<Longrightarrow>
     (lo < hi \<longrightarrow> (hi - 1) * wp_page_bytes W < o' + a) \<Longrightarrow>
     fst (read_pages_of sha D W name (length data) o' a (map (\<lambda>i. i * wp_page_bytes W) [lo..<hi]) P) =
       Inr (slice (max o' (lo * wp_page_bytes W)) (min (o' + a) (hi * wp_page_bytes W)) data)"
proof (induction "hi - lo" arbitrary: lo P)
  case 0
  then show ?case by (simp add: slice_def)
next
  case (Suc d)
  let ?p = "wp_page_bytes W"
  let ?l = "min ?p (length data - lo * ?p)"
  have lt: "lo < hi" using Suc.hyps(2) by simp
  then have "lo * ?p \<le> (hi - 1) * ?p" by (intro mult_le_mono1) simp
  also have "\<dots> < o' + a" using Suc.prems(4) lt by blast
  finally have s: "lo * ?p < o' + a" .
  have range: "read_segment_range sha name (int (lo * ?p)) (int ?l) D = Inr (slice (lo * ?p) (lo * ?p + ?l) data)"
    using s assms by (intro read_range_section) auto
  obtain Q where Q: "get_page sha (window_key W name (lo * ?p) ?l)
      (Some (\<lambda>_. case read_segment_range sha name (int (lo * ?p)) (int ?l) D of Inl _ \<Rightarrow> None | Inr b \<Rightarrow> Some b)) None True P =
      (Inr (slice (lo * ?p) (lo * ?p + ?l) data), Q)" "window_ready sha D W Q"
    using window_page [OF Suc.prems(1), of ?l name "lo * ?p"] range by auto
  have rest: "fst (read_pages_of sha D W name (length data) o' a (map (\<lambda>i. i * ?p) [Suc lo..<hi]) Q) =
      Inr (slice (max o' (Suc lo * ?p)) (min (o' + a) (hi * ?p)) data)"
    using Suc.hyps(2) Suc.prems(2-4) Q(2) lt by (intro Suc.hyps(1)) auto
  have chunk: "slice (o' - lo * ?p) (min (o' + a - lo * ?p) ?l) (slice (lo * ?p) (lo * ?p + ?l) data) =
      slice (max o' (lo * ?p)) (min (o' + a) (Suc lo * ?p)) data"
    using s assms(3) by (subst slice_slice) (auto intro: arg_cong2 [of _ _ _ _ "\<lambda>i j. slice i j data"])
  have join: "slice (max o' (lo * ?p)) (min (o' + a) (Suc lo * ?p)) data @
      slice (max o' (Suc lo * ?p)) (min (o' + a) (hi * ?p)) data =
      slice (max o' (lo * ?p)) (min (o' + a) (hi * ?p)) data"
  proof (cases "Suc lo = hi")
    case True
    then show ?thesis by (simp add: slice_def)
  next
    case False
    with lt have "Suc lo * ?p \<le> (hi - 1) * ?p" by (intro mult_le_mono1) simp
    also have "\<dots> < o' + a" using Suc.prems(4) lt by blast
    finally have m: "Suc lo * ?p < o' + a" .
    moreover have "Suc lo * ?p \<le> hi * ?p" using lt by (intro mult_le_mono1) simp
    moreover have "max o' (Suc lo * ?p) = Suc lo * ?p" "min (o' + a) (Suc lo * ?p) = Suc lo * ?p"
      using m Suc.prems(2) by simp_all
    moreover have "max (max o' (lo * ?p)) (Suc lo * ?p) = Suc lo * ?p" using Suc.prems(2) by simp
    ultimately show ?thesis
      using slice_join [of "Suc lo * ?p" "min (o' + a) (hi * ?p)" "max o' (lo * ?p)" data] by simp
  qed
  have "[lo..<hi] = lo # [Suc lo..<hi]" using lt by (rule upt_conv_Cons)
  then show ?case
    using Q rest chunk join by (auto simp: Let_def split: sum.split prod.split)
qed

lemma window_slice:
  assumes "has_section sha D name data" "0 < wp_page_bytes W" "1 \<le> a" "o' + a \<le> length data"
    and "window_ready sha D W P"
  shows "fst (read_pages_of sha D W name (length data) o' a (window_starts W o' a) P) = Inr (slice o' (o' + a) data)"
proof -
  let ?p = "wp_page_bytes W"
  let ?lo = "o' div ?p" and ?hi = "(o' + a - 1) div ?p"
  have le: "?lo \<le> ?hi" using assms(3) by (intro div_le_mono) simp
  then have starts: "window_starts W o' a = map (\<lambda>i. i * ?p) [?lo..<Suc ?hi]"
    unfolding window_starts_def Let_def using assms(2) by (rule page_starts_eq [rotated])
  have lo: "?lo * ?p \<le> o'" "o' < Suc ?lo * ?p"
    using assms(2) by (simp_all add: div_times_less_eq_dividend dividend_less_div_times)
  have hi: "?hi * ?p \<le> o' + a - 1" "o' + a - 1 < Suc ?hi * ?p"
    using assms(2) by (simp_all add: div_times_less_eq_dividend dividend_less_div_times)
  have before: "?hi * ?p < o' + a" using hi(1) assms(3) by linarith
  have "fst (read_pages_of sha D W name (length data) o' a (map (\<lambda>i. i * ?p) [?lo..<Suc ?hi]) P) =
      Inr (slice (max o' (?lo * ?p)) (min (o' + a) (Suc ?hi * ?p)) data)"
    by (rule read_pages_slice [OF assms(1,2,4,5) lo(2)]) (use le before in simp_all)
  moreover have "max o' (?lo * ?p) = o'" "min (o' + a) (Suc ?hi * ?p) = o' + a"
    using lo(1) hi(2) by linarith+
  ultimately show ?thesis using starts by simp
qed

lemma map_segment_section:
  assumes "map_segment sha name D = Inr data" "data \<noteq> []"
  shows "has_section sha D name data"
proof -
  obtain payload where p: "read_manifest_file (sd_manifest D) = Inr payload"
    using assms(1) by (cases "read_manifest_file (sd_manifest D)") (auto simp: map_segment_def)
  obtain item where i: "find_entry name (manifest_segments payload) = Some item"
    using assms(1) p by (cases "find_entry name (manifest_segments payload)") (auto simp: map_segment_def)
  obtain f n where v: "validate_entry sha D item = Inr (f, n)"
    using assms(1) p i by (cases "validate_entry sha D item") (auto simp: map_segment_def)
  have "sd_segments D f = Some data \<and> n = length data \<and> jget item ''bytes'' = Some (JInt (int n))"
    using v assms p i
    by (auto simp: map_segment_def validate_entry_def
        split: json.splits option.splits if_splits)
  with p i v show ?thesis by (auto simp: has_section_def)
qed

text \<open>C29: However the windows of one generation are asked for before, through however small a page
  cache as long as one page fits into it, an in-range \<open>read\<close> of the segment pager returns exactly the
  requested bytes of the section that \<open>SegmentStore.map\<close> serves: splitting into pages, eviction and
  rejoining are invisible.\<close>

theorem window_reads_slice:
  assumes "new_segment_pager repository generation overlay page_bytes max_bytes max_pages = Some W"
    and "page_bytes \<le> max_bytes"
    and "read_manifest_file (sd_manifest D) = Inr payload"
    and "field_or_null payload ''generation'' = JStr generation"
    and "map_segment sha name D = Inr data"
    and "1 \<le> a" "offset + a \<le> length data"
  shows "fst (read_window sha D name (int offset) (int a) (read_windows sha D requests W)) =
     Inr (slice offset (offset + a) data)"
proof -
  have ne: "data \<noteq> []" using assms(6,7) by auto
  have sec: "has_section sha D name data" using map_segment_section [OF assms(5) ne] .
  have W: "wp_page_bytes W = page_bytes" "0 < page_bytes" "wp_generation W = generation" "window_ready sha D W (wp_pager W)"
    using assms(1,2)
    by (auto simp: new_segment_pager_def new_pager_def window_ready_def windows.serves_def unleased_def pager_inv_def
        split: if_splits)
  from read_windows_ready [OF W(4)] obtain P r where
    P: "read_windows sha D requests W = W\<lparr>wp_pager := P, wp_segment_reads := r\<rparr>" "window_ready sha D W P"
    by blast
  let ?W = "W\<lparr>wp_pager := P, wp_segment_reads := r\<rparr>"
  have check: "check_window D name (int offset) (int a) ?W = Inr (length data)"
    using sec assms(3,4,6,7) W(3) by (auto simp: check_window_def has_section_def)
  have "fst (read_pages_of sha D ?W name (length data) offset a (window_starts ?W offset a) P) = Inr (slice offset (offset + a) data)"
    using P(2) W(1,2) assms(6,7) sec by (intro window_slice) simp_all
  then show ?thesis using check P(1) by (auto simp: read_window_def split: sum.split prod.split)
qed

section \<open>What a publication serves\<close>

lemma write_segments_ok:
  assumes "write_segments sha secs (segs, w, u) D = (Inr (segs', w', u'), D')"
  shows "segs' = segs @ map (\<lambda>(name, content). segment_of sha name content) secs \<and> w' + u' = w + u + length secs \<and>
     (\<forall>p b. sd_segments D p = Some b \<longrightarrow> sd_segments D' p = Some b) \<and>
     ran (sd_segments D') \<subseteq> ran (sd_segments D) \<union> snd ` set secs \<and>
     (\<forall>(name, content) \<in> set secs. \<exists>c. sd_segments D' (sg_file (segment_of sha name content)) = Some c \<and>
        length c = length content \<and> hexdigest sha c = hexdigest sha content)"
  using assms
proof (induction secs arbitrary: segs w u D)
  case (Cons x secs)
  obtain name content where x: "x = (name, content)" by (cases x)
  let ?g = "segment_of sha name content"
  let ?D = "D\<lparr>sd_segments := (sd_segments D)(sg_file ?g \<mapsto> content)\<rparr>"
  show ?case
  proof (cases "sd_segments D (sg_file ?g)")
    case None
    then have "write_segments sha secs (segs @ [?g], w + 1, u) ?D = (Inr (segs', w', u'), D')"
      using Cons.prems x by (simp add: Let_def)
    from Cons.IH [OF this] have ih: "segs' = (segs @ [?g]) @ map (\<lambda>(name, content). segment_of sha name content) secs"
        "w' + u' = w + 1 + u + length secs" "\<And>p b. sd_segments ?D p = Some b \<Longrightarrow> sd_segments D' p = Some b"
        "ran (sd_segments D') \<subseteq> ran (sd_segments ?D) \<union> snd ` set secs"
        "\<forall>(name, content) \<in> set secs. \<exists>c. sd_segments D' (sg_file (segment_of sha name content)) = Some c \<and>
          length c = length content \<and> hexdigest sha c = hexdigest sha content"
      by blast+
    have "ran (sd_segments ?D) = insert content (ran (sd_segments D))" using None by simp
    moreover have "sd_segments D p = Some b \<Longrightarrow> sd_segments D' p = Some b" for p b
      using ih(3) [of p b] None by (cases "p = sg_file ?g") auto
    ultimately show ?thesis using ih(1,2,4,5) ih(3) [of "sg_file ?g" content] x by auto
  next
    case (Some existing)
    then have same: "length existing = length content" "hexdigest sha existing = hexdigest sha content"
      and run: "write_segments sha secs (segs @ [?g], w, u + 1) D = (Inr (segs', w', u'), D')"
      using Cons.prems x by (auto simp: Let_def segment_of_def split: if_splits)
    from Cons.IH [OF run] show ?thesis using x same Some by auto
  qed
qed simp

lemma write_segments_kept:
  "snd (write_segments sha secs r D) = D' \<Longrightarrow> sd_manifest D' = sd_manifest D \<and> sd_previous D' = sd_previous D"
  by (induction sha secs r D rule: write_segments.induct) (auto simp: Let_def split: option.splits if_splits)

lemma lower_digest: "list_all is_hex_char s \<Longrightarrow> lower s = s"
proof -
  have "\<forall>c \<in> set ''0123456789abcdef''. lower [c] = [c]" by code_simp
  then have "is_hex_char c \<Longrightarrow> lower [c] = [c]" for c by (simp only: is_hex_char_def)
  then show "list_all is_hex_char s \<Longrightarrow> lower s = s"
    by (induction s) (auto simp: lower_def)
qed

lemma digest_text: "length (sha b) = 32 \<Longrightarrow> is_digest_text (hexdigest sha b)"
  using is_digest_hexdigest [of sha b] lower_digest [of "hexdigest sha b"] by (simp add: is_digest_def is_digest_text_def)

lemma segment_file_name:
  assumes "CHR ''/'' \<notin> set name" "length (sha b) = 32"
  shows "path_name (sg_file (segment_of sha name b)) = sg_file (segment_of sha name b)"
proof -
  have "CHR ''/'' \<notin> set (hexdigest sha b)"
    using is_digest_hexdigest [of sha b] assms(2) by (auto simp: is_digest_def list_all_iff is_hex_char_def)
  with assms(1) have "CHR ''/'' \<notin> set (sg_file (segment_of sha name b))" by (simp add: segment_of_def)
  then have "split_on (CHR ''/'') (sg_file (segment_of sha name b)) = [sg_file (segment_of sha name b)]"
    by (rule split_on_absent)
  moreover have "sg_file (segment_of sha name b) \<noteq> ''.''" "sg_file (segment_of sha name b) \<noteq> []"
    by (auto simp: segment_of_def append_eq_Cons_conv)
  ultimately show ?thesis by (simp add: path_name_def path_parts_def)
qed

lemma validate_segment:
  assumes "sd_segments D (sg_file (segment_of sha name content)) = Some c" "length c = length content"
    and "hexdigest sha c = hexdigest sha content" "CHR ''/'' \<notin> set name" "length (sha content) = 32"
  shows "validate_entry sha D (norm_json (segment_json (segment_of sha name content))) =
     Inr (sg_file (segment_of sha name content), length content)"
proof -
  let ?g = "segment_of sha name content"
  let ?kvs = "[(''name'', JStr (sg_name ?g)), (''file'', JStr (sg_file ?g)), (''bytes'', JInt (int (sg_bytes ?g))),
      (''sha256'', JStr (sg_sha256 ?g))]"
  have item: "norm_json (segment_json ?g) = JObj (norm_members ?kvs)"
    unfolding segment_json_def by (rule norm_JObj)
  have "map_of (norm_members ?kvs) k = map_option norm_json (map_of ?kvs k)" for k
    by (rule map_of_norm_members) simp
  moreover have "sg_name ?g = name" "sg_bytes ?g = length content" "sg_sha256 ?g = hexdigest sha content"
    by (simp_all add: segment_of_def)
  ultimately show ?thesis
    using assms segment_file_name [of name sha content] digest_text [of sha content]
    by (simp add: validate_entry_def item)
qed

lemma name_of_segment: "jget (norm_json (segment_json (segment_of sha name b))) ''name'' = Some (JStr name)"
  by (subst jget_norm) (simp_all add: segment_json_def segment_of_def)

lemma entry_name_segment: "name \<noteq> [] \<Longrightarrow> entry_name (norm_json (segment_json (segment_of sha name b))) = Some name"
  by (simp add: entry_name_def name_of_segment)

definition stored_segment :: "(bytes \<Rightarrow> bytes) \<Rightarrow> string \<times> bytes \<Rightarrow> json" where
  "stored_segment sha x = norm_json (segment_json (segment_of sha (fst x) (snd x)))"

lemma find_entry_segment:
  "distinct (keys secs) \<Longrightarrow> (name, b) \<in> set secs \<Longrightarrow>
     find_entry name (map (stored_segment sha) secs) = Some (stored_segment sha (name, b))"
  by (induction secs) (auto simp: find_entry_def stored_segment_def name_of_segment rev_image_eqI)

definition good_snapshot :: "section_snapshot \<Rightarrow> bool" where
  "good_snapshot S \<longleftrightarrow> ss_generation S \<noteq> [] \<and> is_digest_text (ss_sha256 S) \<and> ss_sections S \<noteq> [] \<and>
     distinct (keys (ss_sections S)) \<and> (\<forall>name \<in> set (keys (ss_sections S)). name \<noteq> [] \<and> CHR ''/'' \<notin> set name)"

lemma published_manifest:
  assumes "publish_segments sha S D = (Inr payload, D')" "good_snapshot S"
  defines "secs \<equiv> sort_key fst (ss_sections S)"
  shows "\<exists>stored. read_manifest_file (sd_manifest D') = Inr stored \<and>
     manifest_segments stored = map (stored_segment sha) secs \<and>
     field_or_null stored ''generation'' = JStr (ss_generation S)"
proof -
  obtain segs w u D1 where run: "write_segments sha secs ([], 0, 0) D = (Inr (segs, w, u), D1)"
    and D': "sd_manifest D' = Holds (norm_json (JObj (manifest_payload S (segs, w, u))))"
    using assms(1) unfolding secs_def publish_segments_def
    by (auto simp: Let_def simp del: norm_json.simps split: prod.splits sum.splits)
  have segs: "segs = map (\<lambda>(name, content). segment_of sha name content) secs"
    using write_segments_ok [OF run] by simp
  let ?kvs = "manifest_payload S (segs, w, u)"
  have m: "map_of (norm_members ?kvs) k = map_option norm_json (map_of ?kvs k)" for k
    by (rule map_of_norm_members) (simp add: manifest_payload_def)
  have list: "map_of (norm_members ?kvs) ''segments'' = Some (JList (map (stored_segment sha) secs))"
    unfolding m by (simp add: manifest_payload_def segs stored_segment_def case_prod_unfold del: norm_json.simps(2))
  have names: "map entry_name (map (stored_segment sha) secs) = map (Some \<circ> fst) secs"
    using assms(2) by (auto simp: stored_segment_def entry_name_segment good_snapshot_def secs_def)
  have "distinct (map fst secs)" using assms(2) by (simp add: good_snapshot_def secs_def distinct_sort_key_fst)
  then have d: "distinct (map (Some \<circ> fst) secs)" by (simp add: distinct_map inj_on_def)
  have ne: "secs \<noteq> []" using assms(2) unfolding good_snapshot_def secs_def by (metis set_empty set_sort)
  have rest: "map_of (norm_members ?kvs) ''schema'' = Some (JStr SEGMENTS_SCHEMA)"
    "map_of (norm_members ?kvs) ''generation'' = Some (JStr (ss_generation S))"
    "map_of (norm_members ?kvs) ''source_snapshot_sha256'' = Some (JStr (ss_sha256 S))"
    unfolding m by (simp_all add: manifest_payload_def)
  have "None \<notin> set (map entry_name (map (stored_segment sha) secs))" unfolding names by auto
  then have "read_manifest_file (Holds (JObj (norm_members ?kvs))) = Inr (norm_members ?kvs)"
    using assms(2) ne d unfolding names [symmetric] read_manifest_file_def
    by (simp add: list rest field_or_null_def good_snapshot_def)
  then show ?thesis using list rest D' by (auto simp: norm_JObj manifest_segments_def field_or_null_def simp del: norm_json.simps)
qed

text \<open>C27: Publishing a snapshot and reading it back.  When \<open>publish\<close> succeeds on a well-formed snapshot,
  whatever segment files were there before, every section of the snapshot maps back to its exact bytes,
  and \<open>validate\<close> accepts the store and counts its sections.\<close>

theorem published_segments_read_back:
  assumes "publish_segments sha S D = (Inr payload, D')" "good_snapshot S"
    and "\<And>b. length (sha b) = 32" "inj_on sha (ran (sd_segments D) \<union> snd ` set (ss_sections S))"
  shows "(\<forall>(name, content) \<in> set (ss_sections S). map_segment sha name D' = Inr content) \<and>
     validate_store sha D' = Inr (length (ss_sections S), JStr (ss_generation S))"
proof -
  let ?secs = "sort_key fst (ss_sections S)"
  have "\<exists>segs w u D1. write_segments sha ?secs ([], 0, 0) D = (Inr (segs, w, u), D1) \<and> sd_segments D' = sd_segments D1"
    using assms(1) by (auto simp: publish_segments_def Let_def split: prod.splits sum.splits if_splits)
  then obtain segs w u D1 where run: "write_segments sha ?secs ([], 0, 0) D = (Inr (segs, w, u), D1)"
    and D1: "sd_segments D' = sd_segments D1" by blast
  obtain stored where m: "read_manifest_file (sd_manifest D') = Inr stored"
    "manifest_segments stored = map (stored_segment sha) ?secs"
    "field_or_null stored ''generation'' = JStr (ss_generation S)"
    using published_manifest [OF assms(1,2)] by auto
  have kept: "sd_segments D' (sg_file (segment_of sha name b)) = Some b" if "(name, b) \<in> set (ss_sections S)" for name b
  proof -
    have ok: "ran (sd_segments D1) \<subseteq> ran (sd_segments D) \<union> snd ` set ?secs"
      "\<forall>(name, content) \<in> set ?secs. \<exists>c. sd_segments D1 (sg_file (segment_of sha name content)) = Some c \<and>
         length c = length content \<and> hexdigest sha c = hexdigest sha content"
      using write_segments_ok [OF run] by simp_all
    from ok(2) that obtain c where c: "sd_segments D1 (sg_file (segment_of sha name b)) = Some c" "hexdigest sha c = hexdigest sha b"
      by auto
    then have "c \<in> ran (sd_segments D) \<union> snd ` set (ss_sections S)" "sha c = sha b"
      using ok(1) by (auto simp: hexdigest_def dest: hex_inj ranI)
    with assms(4) that have "c = b" by (auto dest!: inj_onD [where x = c and y = b] intro: rev_image_eqI)
    with c D1 show ?thesis by simp
  qed
  have valid: "validate_entry sha D' (stored_segment sha (name, b)) = Inr (sg_file (segment_of sha name b), length b)"
    if "(name, b) \<in> set (ss_sections S)" for name b
    unfolding stored_segment_def fst_conv snd_conv
    using kept [OF that] that assms(2,3) by (intro validate_segment) (auto simp: good_snapshot_def)
  have "map_segment sha name D' = Inr b" if "(name, b) \<in> set (ss_sections S)" for name b
  proof -
    have "find_entry name (map (stored_segment sha) ?secs) = Some (stored_segment sha (name, b))"
      using that assms(2) by (intro find_entry_segment) (simp_all add: good_snapshot_def distinct_sort_key_fst)
    then show ?thesis
      using m valid [OF that] kept [OF that] by (simp add: map_segment_def)
  qed
  moreover have "emap (validate_entry sha D') (map (stored_segment sha) ?secs) =
      Inr (map (\<lambda>item. case validate_entry sha D' item of Inr r \<Rightarrow> r) (map (stored_segment sha) ?secs))"
    by (rule emap_all) (use valid in auto)
  ultimately show ?thesis using m by (auto simp: validate_store_def)
qed

section \<open>Witnesses\<close>

definition demo_sha :: "bytes \<Rightarrow> bytes" where
  "demo_sha b = replicate 32 (if b = [7] then 1 else 0)"

definition demo_dir :: segment_dir where
  "demo_dir = \<lparr>sd_segments = (\<lambda>p. if p = ''s.seg'' then Some [1, 2, 3, 4, 5] else None),
     sd_manifest = Holds (JObj
       [(''schema'', JStr SEGMENTS_SCHEMA), (''generation'', JStr ''g''),
        (''source_snapshot_sha256'', JStr (replicate 64 (CHR ''0''))),
        (''segments'', JList [JObj [(''name'', JStr ''s''), (''file'', JStr ''s.seg''), (''bytes'', JInt 5),
          (''sha256'', JStr (replicate 64 (CHR ''0'')))]])]),
     sd_previous = Absent\<rparr>"

lemma demo_manifest: "\<exists>payload. read_manifest_file (sd_manifest demo_dir) = Inr payload \<and>
    field_or_null payload ''generation'' = JStr ''g''"
proof -
  have "case read_manifest_file (sd_manifest demo_dir) of Inr payload \<Rightarrow> field_or_null payload ''generation'' = JStr ''g'' | _ \<Rightarrow> False"
    by code_simp
  then show ?thesis by (auto split: sum.splits)
qed

theorem window_reads_slice_witness:
  "fst (read_window demo_sha demo_dir ''s'' 1 3
      (read_windows demo_sha demo_dir [(''s'', 0, 5)] (the (new_segment_pager ''r'' ''g'' None 2 2 1)))) = Inr [2, 3, 4]"
proof -
  obtain payload where p: "read_manifest_file (sd_manifest demo_dir) = Inr payload"
    "field_or_null payload ''generation'' = JStr ''g''" using demo_manifest by blast
  have m: "map_segment demo_sha ''s'' demo_dir = Inr [1, 2, 3, 4, 5]" by code_simp
  obtain W where W: "new_segment_pager ''r'' ''g'' None 2 2 1 = Some W"
    by (auto simp: new_segment_pager_def new_pager_def)
  show ?thesis
    unfolding W using window_reads_slice [OF W _ p m, of 3 1 "[(''s'', 0, 5)]"] by (simp add: slice_def)
qed

theorem published_segments_read_back_witness:
  "\<exists>payload D'.
     publish_segments demo_sha \<lparr>ss_generation = ''g'', ss_sha256 = replicate 64 (CHR ''0''), ss_sections = [(''s'', [7])]\<rparr>
       \<lparr>sd_segments = Map.empty, sd_manifest = Absent, sd_previous = Absent\<rparr> = (Inr payload, D') \<and>
     map_segment demo_sha ''s'' D' = Inr [7]"
proof -
  let ?S = "\<lparr>ss_generation = ''g'', ss_sha256 = replicate 64 (CHR ''0''), ss_sections = [(''s'', [7])]\<rparr> :: section_snapshot"
  let ?D = "\<lparr>sd_segments = Map.empty, sd_manifest = Absent, sd_previous = Absent\<rparr> :: segment_dir"
  obtain payload D' where run: "publish_segments demo_sha ?S ?D = (Inr payload, D')"
    by (simp add: publish_segments_def Let_def del: norm_json.simps)
  have "is_digest_text (replicate 64 (CHR ''0''))" by code_simp
  then have "good_snapshot ?S" by (simp add: good_snapshot_def)
  with published_segments_read_back [OF run] run show ?thesis by (auto simp: demo_sha_def)
qed

end
