(* ===== verification/WorkspaceData.thy ===== *)
theory WorkspaceData
  imports JsonFields
begin

text \<open>
  The records of \<open>simplicio_fast/workspace.py\<close> and \<open>simplicio_fast/delta.py\<close>: manifests of base
  generations, overlays, deltas and leases, with the JSON they are stored as and how they are read
  back.  Leases carry times, which are whole numbers here.  The fields of a symbol have their annotated
  types; where a stored symbol has another, reading it fails.
\<close>

section \<open>Errors and schemas\<close>

datatype workspace_error =
    Generation_id_invalid
  | Worktree_id_invalid
  | Manifest_schema_unsupported
  | Manifest_generation_mismatch
  | Overlay_manifest_invalid
  | Overlay_base_mismatch
  | Canonical_base_dirty
  | Base_artifact_missing
  | Base_artifact_invalid
  | Delta_field_invalid
  | Delta_shape_invalid
  | Delta_generation_invalid
  | Delta_schema_mismatch
  | Delta_digest_invalid
  | Delta_field_missing string
  | Delta_record_invalid
  | Delta_path_invalid
  | Delta_path_derived
  | Delta_path_missing string
  | Delta_missing
  | Delta_identity_mismatch
  | Delta_digest_mismatch
  | Delta_source_unlisted string
  | Delta_source_stale string
  | Base_schema_mismatch
  | Base_root_mismatch
  | Base_digest_missing
  | Base_source_tree_mismatch
  | Base_snapshot_path_invalid
  | Base_digest_mismatch
  | Base_generation_mismatch
  | Base_commit_mismatch
  | Config_fingerprint_mismatch
  | Path_not_found
  | Source_unparsable
  | Workspace_escape py_exc

definition MANIFEST_SCHEMA :: string where
  "MANIFEST_SCHEMA = ''simplicio.fast.manifest/v1''"

definition OVERLAY_SCHEMA :: string where
  "OVERLAY_SCHEMA = ''simplicio.fast.overlay/v1''"

definition LEASE_SCHEMA :: string where
  "LEASE_SCHEMA = ''simplicio.fast.lease/v1''"

definition DELTA_SCHEMA :: string where
  "DELTA_SCHEMA = ''simplicio.fast.delta/v1''"

text \<open>An uncaught exception, and the check of \<open>GenerationId\<close>.\<close>

fun ws_escape :: "py_exc + 'a \<Rightarrow> workspace_error + 'a" where
  "ws_escape (Inl e) = Inl (Workspace_escape e)"
| "ws_escape (Inr x) = Inr x"

definition generation_id :: "string \<Rightarrow> workspace_error + string" where
  "generation_id g = (if is_digest g then Inr g else Inl Generation_id_invalid)"

definition json_digest :: "(bytes \<Rightarrow> bytes) \<Rightarrow> json \<Rightarrow> string" where
  "json_digest sha v = hexdigest sha (canonical v)"

definition hashes_object :: "(string, string) dict \<Rightarrow> json" where
  "hashes_object d = JObj (map (\<lambda>(k, v). (k, JStr v)) d)"

section \<open>Manifests\<close>

record manifest =
  mf_schema :: string
  mf_generation_id :: string
  mf_kind :: string
  mf_commit :: string
  mf_root :: string
  mf_config_fingerprint :: string
  mf_parser_versions :: "(string, string) dict"
  mf_source_hashes :: "(string, string) dict"
  mf_snapshot :: string
  mf_created_at :: string
  mf_snapshot_sha256 :: string
  mf_source_tree_sha256 :: string

definition manifest_fields :: "manifest \<Rightarrow> (string \<times> json) list" where
  "manifest_fields m =
     [(''schema'', JStr (mf_schema m)), (''generation_id'', JStr (mf_generation_id m)),
      (''kind'', JStr (mf_kind m)), (''commit'', JStr (mf_commit m)), (''root'', JStr (mf_root m)),
      (''config_fingerprint'', JStr (mf_config_fingerprint m)),
      (''parser_versions'', hashes_object (mf_parser_versions m)),
      (''source_hashes'', hashes_object (mf_source_hashes m)),
      (''snapshot'', JStr (mf_snapshot m)), (''created_at'', JStr (mf_created_at m)),
      (''snapshot_sha256'', JStr (mf_snapshot_sha256 m)),
      (''source_tree_sha256'', JStr (mf_source_tree_sha256 m))]"

definition manifest_json :: "manifest \<Rightarrow> json" where
  "manifest_json m = JObj (manifest_fields m)"

text \<open>\<open>{str(k): str(v) for k, v in dict(value).items()}\<close>.\<close>

definition string_dict :: "json \<Rightarrow> py_exc + (string, string) dict" where
  "string_dict v =
     ebind (py_dict v) (\<lambda>ps. Inr (fold (\<lambda>(k, w) d. dput (py_str k) (py_str w) d) ps []))"

definition str_field :: "json \<Rightarrow> string \<Rightarrow> py_exc + string" where
  "str_field v k = ebind (py_getitem v k) (\<lambda>w. Inr (py_str w))"

definition str_field_or_empty :: "(string \<times> json) list \<Rightarrow> string \<Rightarrow> string" where
  "str_field_or_empty kvs k = (case map_of kvs k of None \<Rightarrow> [] | Some w \<Rightarrow> py_str w)"

definition manifest_of :: "json \<Rightarrow> workspace_error + manifest" where
  "manifest_of v =
     (case v of
        JObj kvs \<Rightarrow>
          (if \<not> json_eq (field_or_null kvs ''schema'') (JStr MANIFEST_SCHEMA) then Inl Manifest_schema_unsupported
           else
             ebind (ws_escape (str_field v ''schema'')) (\<lambda>schema.
             ebind (ws_escape (str_field v ''generation_id'')) (\<lambda>g.
             ebind (ws_escape (str_field v ''kind'')) (\<lambda>kind.
             ebind (ws_escape (str_field v ''commit'')) (\<lambda>commit.
             ebind (ws_escape (str_field v ''root'')) (\<lambda>root.
             ebind (ws_escape (str_field v ''config_fingerprint'')) (\<lambda>fingerprint.
             ebind (ws_escape (ebind (py_getitem v ''parser_versions'') string_dict)) (\<lambda>versions.
             ebind (ws_escape (ebind (py_getitem v ''source_hashes'') string_dict)) (\<lambda>hashes.
             ebind (ws_escape (str_field v ''snapshot'')) (\<lambda>snapshot.
             ebind (ws_escape (str_field v ''created_at'')) (\<lambda>created_at.
             ebind (generation_id g) (\<lambda>_. Inr
               \<lparr>mf_schema = schema, mf_generation_id = g, mf_kind = kind, mf_commit = commit, mf_root = root,
                mf_config_fingerprint = fingerprint, mf_parser_versions = versions, mf_source_hashes = hashes,
                mf_snapshot = snapshot, mf_created_at = created_at,
                mf_snapshot_sha256 = str_field_or_empty kvs ''snapshot_sha256'',
                mf_source_tree_sha256 = str_field_or_empty kvs ''source_tree_sha256''\<rparr>))))))))))))
      | _ \<Rightarrow> Inl (Workspace_escape Attribute_error))"

section \<open>Changed files\<close>

text \<open>
  What an overlay or a delta records of a changed file: its new digest and symbols, or that it is gone.
  In memory a record is the dictionary it was built as or read as.
\<close>

type_synonym changes = "(string, (string \<times> json) list) dict"

definition changed_record :: "string \<Rightarrow> json list \<Rightarrow> (string \<times> json) list" where
  "changed_record digest symbols =
     [(''sha256'', JStr digest), (''tombstone'', JBool False), (''symbols'', JList symbols)]"

definition tombstone_record :: "(string \<times> json) list" where
  "tombstone_record = [(''sha256'', JNull), (''tombstone'', JBool True), (''symbols'', JList [])]"

definition changes_json :: "changes \<Rightarrow> json" where
  "changes_json c = JObj (map (\<lambda>(p, r). (p, JObj r)) c)"

section \<open>Overlays\<close>

record overlay =
  ov_schema :: string
  ov_generation :: string
  ov_base_generation :: string
  ov_worktree_id :: string
  ov_changed :: "(string \<times> json) list"
  ov_created_at :: string

definition overlay_json :: "overlay \<Rightarrow> json" where
  "overlay_json ov = JObj
     [(''schema'', JStr (ov_schema ov)), (''overlay_generation'', JStr (ov_generation ov)),
      (''base_generation'', JStr (ov_base_generation ov)), (''worktree_id'', JStr (ov_worktree_id ov)),
      (''changed'', JObj (ov_changed ov)), (''created_at'', JStr (ov_created_at ov))]"

text \<open>
  \<open>WorkspaceStore.overlay\<close> on the parsed file: a \<open>changed\<close> that \<open>dict\<close> accepts with other keys than
  text is taken with their text.
\<close>

definition overlay_of :: "string \<Rightarrow> json \<Rightarrow> workspace_error + overlay" where
  "overlay_of g v =
     (case v of
        JObj kvs \<Rightarrow>
          (if \<not> json_eq (field_or_null kvs ''schema'') (JStr OVERLAY_SCHEMA) \<or>
              \<not> json_eq (field_or_null kvs ''overlay_generation'') (JStr g) then Inl Overlay_manifest_invalid
           else
             ebind (ws_escape (str_field v ''schema'')) (\<lambda>schema.
             ebind (ws_escape (str_field v ''base_generation'')) (\<lambda>base.
             ebind (ws_escape (str_field v ''worktree_id'')) (\<lambda>worktree.
             ebind (ws_escape (ebind (py_getitem v ''changed'') py_dict)) (\<lambda>changed.
             ebind (ws_escape (str_field v ''created_at'')) (\<lambda>created_at.
             ebind (generation_id g) (\<lambda>_.
             ebind (generation_id base) (\<lambda>_. Inr
               \<lparr>ov_schema = schema, ov_generation = g, ov_base_generation = base, ov_worktree_id = worktree,
                ov_changed = map (\<lambda>(k, w). (py_str k, w)) changed, ov_created_at = created_at\<rparr>))))))))
      | _ \<Rightarrow> Inl (Workspace_escape Attribute_error))"

section \<open>Deltas\<close>

record delta =
  dl_schema :: string
  dl_generation :: string
  dl_base_generation :: string
  dl_base_commit :: string
  dl_base_config_fingerprint :: string
  dl_base_schema :: string
  dl_base_snapshot_sha256 :: string
  dl_worktree_id :: string
  dl_changed :: changes
  dl_created_at :: string
  dl_sha256 :: string

definition validate_record :: "(string \<times> json) list \<Rightarrow> bool" where
  "validate_record r =
     (case (map_of r ''sha256'', map_of r ''tombstone'', map_of r ''symbols'') of
        (Some digest, Some (JBool tombstone), Some (JList symbols)) \<Rightarrow>
          list_all (\<lambda>s. case s of JObj _ \<Rightarrow> True | _ \<Rightarrow> False) symbols \<and>
          (if tombstone then digest = JNull \<and> symbols = []
           else (case digest of JStr d \<Rightarrow> is_digest d | _ \<Rightarrow> False))
      | _ \<Rightarrow> False)"

text \<open>\<open>__post_init__\<close>: the checks of a new delta.\<close>

definition check_delta :: "delta \<Rightarrow> workspace_error + delta" where
  "check_delta d =
     (if list_ex (\<lambda>s. strip s = [])
           [dl_schema d, dl_generation d, dl_base_generation d, dl_base_commit d, dl_base_config_fingerprint d,
            dl_base_schema d, dl_base_snapshot_sha256 d, dl_worktree_id d, dl_created_at d, dl_sha256 d]
      then Inl Delta_field_invalid
      else if \<not> is_digest (dl_generation d) \<or> \<not> is_digest (dl_base_generation d) then Inl Delta_generation_invalid
      else if dl_schema d \<noteq> DELTA_SCHEMA then Inl Delta_schema_mismatch
      else if dl_base_schema d \<noteq> MANIFEST_SCHEMA then Inl Base_schema_mismatch
      else if \<not> is_digest (dl_base_snapshot_sha256 d) \<or> \<not> is_digest (dl_sha256 d) then Inl Delta_digest_invalid
      else if \<not> list_all (\<lambda>(p, r). validate_record r) (dl_changed d) then Inl Delta_record_invalid
      else Inr d)"

definition delta_json :: "delta \<Rightarrow> json" where
  "delta_json d = JObj
     [(''schema'', JStr (dl_schema d)), (''delta_generation'', JStr (dl_generation d)),
      (''base_generation'', JStr (dl_base_generation d)), (''base_commit'', JStr (dl_base_commit d)),
      (''base_config_fingerprint'', JStr (dl_base_config_fingerprint d)),
      (''base_schema'', JStr (dl_base_schema d)),
      (''base_snapshot_sha256'', JStr (dl_base_snapshot_sha256 d)),
      (''worktree_id'', JStr (dl_worktree_id d)), (''changed'', changes_json (dl_changed d)),
      (''created_at'', JStr (dl_created_at d)), (''delta_sha256'', JStr (dl_sha256 d))]"

definition delta_identity :: "delta \<Rightarrow> json" where
  "delta_identity d = JObj
     [(''schema'', JStr DELTA_SCHEMA), (''base_generation'', JStr (dl_base_generation d)),
      (''base_commit'', JStr (dl_base_commit d)),
      (''base_config_fingerprint'', JStr (dl_base_config_fingerprint d)),
      (''base_schema'', JStr (dl_base_schema d)),
      (''base_snapshot_sha256'', JStr (dl_base_snapshot_sha256 d)),
      (''worktree_id'', JStr (dl_worktree_id d)), (''changed'', changes_json (dl_changed d))]"

definition verify_delta :: "(bytes \<Rightarrow> bytes) \<Rightarrow> delta \<Rightarrow> workspace_error + unit" where
  "verify_delta sha d =
     check (json_digest sha (delta_identity d) = dl_generation d \<and> json_digest sha (delta_identity d) = dl_sha256 d)
       Delta_digest_mismatch"

section \<open>Changed paths\<close>

definition slashes :: "string \<Rightarrow> string" where
  "slashes s = map (\<lambda>c. if c = CHR 0x5C then CHR ''/'' else c) s"

definition strip_slashes :: "string \<Rightarrow> string" where
  "strip_slashes s = rev (dropWhile (\<lambda>c. c = CHR ''/'') (rev (dropWhile (\<lambda>c. c = CHR ''/'') s)))"

definition normal_path :: "string \<Rightarrow> workspace_error + string" where
  "normal_path value =
     (let candidate = slashes value in
      if take 1 candidate = ''/'' \<or> (length candidate > 1 \<and> candidate ! 1 = CHR '':'') then Inl Delta_path_invalid
      else
        (let candidate = strip_slashes candidate in
         if candidate \<in> {[], ''.'', ''..''} \<or> take 3 candidate = ''../'' \<or> has_sub ''/../'' candidate
         then Inl Delta_path_invalid
         else if take 11 candidate = ''.simplicio/'' \<or> candidate = ''.simplicio'' then Inl Delta_path_derived
         else Inr candidate))"

definition text_field :: "(string \<times> json) list \<Rightarrow> string \<Rightarrow> string" where
  "text_field kvs k = (case map_of kvs k of Some (JStr s) \<Rightarrow> s | _ \<Rightarrow> [])"

definition REQUIRED_DELTA_FIELDS :: "string list" where
  "REQUIRED_DELTA_FIELDS =
     [''delta_generation'', ''base_generation'', ''base_commit'', ''base_config_fingerprint'', ''base_schema'',
      ''base_snapshot_sha256'', ''worktree_id'', ''created_at'', ''delta_sha256'']"

definition read_change :: "string \<times> json \<Rightarrow> workspace_error + string \<times> (string \<times> json) list" where
  "read_change pr =
     (case pr of (path, record_value) \<Rightarrow>
       (case record_value of
          JObj r \<Rightarrow>
            ebind (normal_path path) (\<lambda>normalized.
              if normalized \<noteq> path \<or> \<not> validate_record r then Inl Delta_record_invalid else Inr (path, r))
        | _ \<Rightarrow> Inl Delta_record_invalid))"

definition delta_of :: "json \<Rightarrow> workspace_error + delta" where
  "delta_of v =
     (case v of
        JObj kvs \<Rightarrow>
          (if \<not> json_eq (field_or_null kvs ''schema'') (JStr DELTA_SCHEMA) then Inl Delta_schema_mismatch
           else
             (case filter (\<lambda>k. map_of kvs k = None) REQUIRED_DELTA_FIELDS of
                k # _ \<Rightarrow> Inl (Delta_field_missing k)
              | [] \<Rightarrow>
                  (if list_ex (\<lambda>k. case map_of kvs k of Some (JStr _) \<Rightarrow> False | _ \<Rightarrow> True) REQUIRED_DELTA_FIELDS
                   then Inl Delta_field_invalid
                   else
                     (case map_of kvs ''changed'' of
                        Some (JObj changed) \<Rightarrow>
                          ebind (emap read_change changed) (\<lambda>changed1.
                          check_delta
                            \<lparr>dl_schema = text_field kvs ''schema'',
                             dl_generation = text_field kvs ''delta_generation'',
                             dl_base_generation = text_field kvs ''base_generation'',
                             dl_base_commit = text_field kvs ''base_commit'',
                             dl_base_config_fingerprint = text_field kvs ''base_config_fingerprint'',
                             dl_base_schema = text_field kvs ''base_schema'',
                             dl_base_snapshot_sha256 = text_field kvs ''base_snapshot_sha256'',
                             dl_worktree_id = text_field kvs ''worktree_id'',
                             dl_changed = changed1,
                             dl_created_at = text_field kvs ''created_at'',
                             dl_sha256 = text_field kvs ''delta_sha256''\<rparr>)
                      | _ \<Rightarrow> Inl Delta_shape_invalid))))
      | _ \<Rightarrow> Inl Delta_shape_invalid)"

definition delta_of_bytes :: "(bytes \<Rightarrow> bytes) \<Rightarrow> string \<Rightarrow> string \<Rightarrow> bytes \<Rightarrow> workspace_error + delta" where
  "delta_of_bytes sha worktree_id g b =
     (case loads (decode b) of
        None \<Rightarrow> Inl Delta_missing
      | Some v \<Rightarrow>
          ebind (delta_of v) (\<lambda>d.
            if dl_generation d \<noteq> g \<or> dl_worktree_id d \<noteq> worktree_id then Inl Delta_identity_mismatch
            else ebind (verify_delta sha d) (\<lambda>_. Inr d)))"

end
