(* ===== verification/Workspace.thy ===== *)
theory Workspace
  imports WorkspaceData
begin

text \<open>
  \<open>WorkspaceStore\<close> of \<open>simplicio_fast/workspace.py\<close>: base generations, overlays, leases and their
  collection over one map of files, with the caches that are keyed by what \<open>stat\<close> tells of a file.
  All of \<open>stat\<close>'s identity (size, times, inode) is one stamp, and every write gives a file a stamp that
  no file had before.  Links and directories without files are left out, but for the directory of the
  base generations, whose absence \<open>gc\<close> notices; the element a full set of validated snapshots drops is
  its oldest.  Git, the parsers, the snapshot container and the clock are the environment; receipts are
  a log of what they say.  A refused rename is not modelled here but with \<open>streaming.py\<close>.
\<close>

section \<open>The environment and the store\<close>

type_synonym path = "string list"

record file_data =
  fd_bytes :: bytes
  fd_stamp :: nat

record symbol =
  sm_name :: string
  sm_qualified_name :: string
  sm_kind :: string
  sm_file :: string
  sm_line :: int
  sm_end_line :: int
  sm_symbol_id :: string
  sm_signature :: string
  sm_base_generation :: "string option"
  sm_overlay_generation :: "string option"

record workspace_env =
  we_commit :: string
  we_status :: "string option"
  we_parser_versions :: "(string, string) dict"
  we_now :: string
  we_parse :: "string \<Rightarrow> bytes \<Rightarrow> json list option"
  we_build :: "(string, bytes) dict \<Rightarrow> bytes option"
  we_opens :: "bytes \<Rightarrow> bool"
  we_symbols :: "bytes \<Rightarrow> symbol list"
  we_files :: "bytes \<Rightarrow> (string, string) dict"

record workspace =
  wk_root :: path
  wk_storage :: path
  wk_files :: "(path, file_data) dict"
  wk_clock :: nat
  wk_base_exists :: bool
  wk_source_cache :: "(path \<times> nat, string) dict"
  wk_manifest_cache :: "(string \<times> nat, manifest) dict"
  wk_base_cache :: "(string \<times> path \<times> nat, manifest \<times> string) dict"
  wk_snapshot_cache :: "(path \<times> string \<times> nat) list"
  wk_delta_cache :: "(string \<times> string \<times> nat, delta) dict"
  wk_receipts :: "(string \<times> (string \<times> json) list) list"

definition file_at :: "workspace \<Rightarrow> path \<Rightarrow> file_data option" where
  "file_at w p = map_of (wk_files w) p"

definition put_file :: "path \<Rightarrow> bytes \<Rightarrow> workspace \<Rightarrow> workspace" where
  "put_file p b w = w\<lparr>wk_files := dput p \<lparr>fd_bytes = b, fd_stamp = wk_clock w\<rparr> (wk_files w),
     wk_clock := Suc (wk_clock w)\<rparr>"

definition remove_file :: "path \<Rightarrow> workspace \<Rightarrow> workspace" where
  "remove_file p w = w\<lparr>wk_files := dpop p (wk_files w)\<rparr>"

definition write_json :: "path \<Rightarrow> json \<Rightarrow> workspace \<Rightarrow> workspace" where
  "write_json p v w = put_file p (canonical v) w"

definition load_json :: "path \<Rightarrow> workspace \<Rightarrow> workspace_error + json" where
  "load_json p w =
     (case file_at w p of
        None \<Rightarrow> Inl Path_not_found
      | Some f \<Rightarrow> (case loads (decode (fd_bytes f)) of None \<Rightarrow> Inl (Workspace_escape Value_error) | Some v \<Rightarrow> Inr v))"

definition write_receipt :: "string \<Rightarrow> (string \<times> json) list \<Rightarrow> workspace \<Rightarrow> workspace" where
  "write_receipt action detail w = w\<lparr>wk_receipts := wk_receipts w @ [(action, detail)]\<rparr>"

text \<open>An operation that goes on in a state unless a check fails.\<close>

definition ebind_state :: "'e + 'a \<Rightarrow> 's \<Rightarrow> ('a \<Rightarrow> ('e + 'b) \<times> 's) \<Rightarrow> ('e + 'b) \<times> 's" where
  "ebind_state r s f = (case r of Inl e \<Rightarrow> (Inl e, s) | Inr x \<Rightarrow> f x)"

text \<open>A dictionary bounded by dropping its oldest entries.\<close>

definition fifo :: "nat \<Rightarrow> 'a list \<Rightarrow> 'a list" where
  "fifo limit xs = drop (length xs - limit) xs"

definition base_dir :: "workspace \<Rightarrow> path" where
  "base_dir w = wk_storage w @ [''base'']"

definition lease_dir :: "workspace \<Rightarrow> path" where
  "lease_dir w = wk_storage w @ [''leases'']"

definition overlay_path :: "workspace \<Rightarrow> string \<Rightarrow> string \<Rightarrow> path" where
  "overlay_path w worktree_id g = wk_storage w @ [''overlays'', worktree_id, g @ ''.json'']"

definition delta_path :: "workspace \<Rightarrow> string \<Rightarrow> string \<Rightarrow> path" where
  "delta_path w worktree_id g = wk_storage w @ [''deltas'', worktree_id, g @ ''.json'']"

definition manifest_path :: "workspace \<Rightarrow> string \<Rightarrow> path" where
  "manifest_path w g = base_dir w @ [g, ''manifest.json'']"

definition check_worktree_id :: "string \<Rightarrow> workspace_error + string" where
  "check_worktree_id v =
     (if v = [] \<or> path_name v \<noteq> v \<or> v = ''.'' \<or> v = ''..'' then Inl Worktree_id_invalid else Inr v)"

section \<open>Source files\<close>

definition SOURCE_SUFFIXES :: "string list" where
  "SOURCE_SUFFIXES = [''.py'', ''.pyi'', ''.ts'', ''.tsx'', ''.js'', ''.jsx'', ''.rs'', ''.cs'']"

definition IGNORED_DIRECTORIES :: "string list" where
  "IGNORED_DIRECTORIES = [''.git'', ''.venv'', ''__pycache__'', ''.simplicio-fast'', ''.simplicio'', ''node_modules'']"

text \<open>\<open>Path(name).suffix\<close>: from the last dot, unless the name starts or ends with it.\<close>

definition suffix_of :: "string \<Rightarrow> string" where
  "suffix_of name =
     (let stem = rev (dropWhile (\<lambda>c. c \<noteq> CHR ''.'') (rev name)) in
      if length stem \<le> 1 \<or> stem = name then [] else drop (length stem - 1) name)"

definition has_source_suffix :: "path \<Rightarrow> bool" where
  "has_source_suffix p \<longleftrightarrow> p \<noteq> [] \<and> lower (suffix_of (last p)) \<in> set SOURCE_SUFFIXES"

definition is_source :: "path \<Rightarrow> bool" where
  "is_source rel \<longleftrightarrow> has_source_suffix rel \<and> list_all (\<lambda>d. d \<notin> set IGNORED_DIRECTORIES) (butlast rel)"

definition relative_to :: "path \<Rightarrow> path \<Rightarrow> path option" where
  "relative_to root p = (if take (length root) p = root then Some (drop (length root) p) else None)"

fun as_posix :: "path \<Rightarrow> string" where
  "as_posix [] = []"
| "as_posix [d] = d"
| "as_posix (d # e # ds) = d @ ''/'' @ as_posix (e # ds)"

definition source_files :: "workspace \<Rightarrow> path list" where
  "source_files w = sort (filter is_source (List.map_filter (relative_to (wk_root w)) (keys (wk_files w))))"

definition source_hash ::
  "(bytes \<Rightarrow> bytes) \<Rightarrow> path \<Rightarrow> workspace \<Rightarrow> (workspace_error + string) \<times> workspace" where
  "source_hash sha p w =
     (case file_at w p of
        None \<Rightarrow> (Inl Path_not_found, w)
      | Some f \<Rightarrow>
          (case map_of (wk_source_cache w) (p, fd_stamp f) of
             Some cached \<Rightarrow> (Inr cached, w)
           | None \<Rightarrow>
               (let digest = hexdigest sha (fd_bytes f)
                in (Inr digest, w\<lparr>wk_source_cache := fifo 512 (dput (p, fd_stamp f) digest (wk_source_cache w))\<rparr>))))"

fun hash_paths ::
  "(bytes \<Rightarrow> bytes) \<Rightarrow> path list \<Rightarrow> workspace \<Rightarrow> (workspace_error + (string, string) dict) \<times> workspace" where
  "hash_paths sha [] w = (Inr [], w)"
| "hash_paths sha (rel # rels) w =
     (case source_hash sha (wk_root w @ rel) w of
        (Inl e, w1) \<Rightarrow> (Inl e, w1)
      | (Inr digest, w1) \<Rightarrow>
          (case hash_paths sha rels w1 of
             (Inl e, w2) \<Rightarrow> (Inl e, w2)
           | (Inr hashes, w2) \<Rightarrow> (Inr ((as_posix rel, digest) # hashes), w2)))"

definition current_hashes ::
  "(bytes \<Rightarrow> bytes) \<Rightarrow> workspace \<Rightarrow> (workspace_error + (string, string) dict) \<times> workspace" where
  "current_hashes sha w = hash_paths sha (source_files w) w"

section \<open>Base generations\<close>

definition manifest_of_bytes :: "string \<Rightarrow> bytes \<Rightarrow> workspace_error + manifest" where
  "manifest_of_bytes g b =
     (case loads (decode b) of
        None \<Rightarrow> Inl (Workspace_escape Value_error)
      | Some v \<Rightarrow> ebind (manifest_of v) (\<lambda>m. if mf_generation_id m \<noteq> g then Inl Manifest_generation_mismatch else Inr m))"

definition read_manifest :: "string \<Rightarrow> workspace \<Rightarrow> (workspace_error + manifest) \<times> workspace" where
  "read_manifest g w =
     (case generation_id g of
        Inl e \<Rightarrow> (Inl e, w)
      | Inr _ \<Rightarrow>
          (case file_at w (manifest_path w g) of
             None \<Rightarrow> (Inl Path_not_found, w)
           | Some f \<Rightarrow>
               (case map_of (wk_manifest_cache w) (g, fd_stamp f) of
                  Some cached \<Rightarrow> (Inr cached, w)
                | None \<Rightarrow>
                    (case manifest_of_bytes g (fd_bytes f) of
                       Inl e \<Rightarrow> (Inl e, w)
                     | Inr m \<Rightarrow>
                         (Inr m, w\<lparr>wk_manifest_cache := fifo 8 (dput (g, fd_stamp f) m
                            (filter (\<lambda>((h, stamp), _). h \<noteq> g \<or> stamp = fd_stamp f) (wk_manifest_cache w)))\<rparr>)))))"

definition validate_snapshot ::
  "workspace_env \<Rightarrow> path \<Rightarrow> string \<Rightarrow> workspace \<Rightarrow> (workspace_error + unit) \<times> workspace" where
  "validate_snapshot env p expected w =
     (case file_at w p of
        None \<Rightarrow> (Inl Base_artifact_missing, w)
      | Some f \<Rightarrow>
          (let key = (p, expected, fd_stamp f) in
           if key \<in> set (wk_snapshot_cache w) then (Inr (), w)
           else if \<not> we_opens env (fd_bytes f) then (Inl Base_artifact_invalid, w)
           else (Inr (), w\<lparr>wk_snapshot_cache := fifo 8 (wk_snapshot_cache w @ [key])\<rparr>)))"

definition source_contents :: "workspace \<Rightarrow> (string, bytes) dict" where
  "source_contents w = List.map_filter (\<lambda>rel. map_option (\<lambda>f. (as_posix rel, fd_bytes f)) (file_at w (wk_root w @ rel)))
     (source_files w)"

definition base_identity ::
  "(bytes \<Rightarrow> bytes) \<Rightarrow> workspace_env \<Rightarrow> string \<Rightarrow> (string, string) dict \<Rightarrow> json" where
  "base_identity sha env fingerprint hashes = JObj
     [(''kind'', JStr ''base''), (''commit'', JStr (we_commit env)), (''config_fingerprint'', JStr fingerprint),
      (''parser_versions'', hashes_object (we_parser_versions env)), (''source_hashes'', hashes_object hashes),
      (''source_tree_sha256'', JStr (json_digest sha (hashes_object hashes)))]"

definition new_manifest ::
  "(bytes \<Rightarrow> bytes) \<Rightarrow> workspace_env \<Rightarrow> string \<Rightarrow> path \<Rightarrow> string \<Rightarrow> (string, string) dict \<Rightarrow> bytes \<Rightarrow> manifest" where
  "new_manifest sha env g root fingerprint hashes snapshot =
     \<lparr>mf_schema = MANIFEST_SCHEMA, mf_generation_id = g, mf_kind = ''base'', mf_commit = we_commit env,
      mf_root = ''/'' @ as_posix root, mf_config_fingerprint = fingerprint,
      mf_parser_versions = we_parser_versions env, mf_source_hashes = hashes, mf_snapshot = ''project.sfast'',
      mf_created_at = we_now env, mf_snapshot_sha256 = hexdigest sha snapshot,
      mf_source_tree_sha256 = json_digest sha (hashes_object hashes)\<rparr>"

definition build_base ::
  "(bytes \<Rightarrow> bytes) \<Rightarrow> workspace_env \<Rightarrow> json \<Rightarrow> workspace \<Rightarrow> (workspace_error + manifest) \<times> workspace" where
  "build_base sha env config w =
     (if we_commit env \<noteq> ''unknown'' \<and> (case we_status env of None \<Rightarrow> False | Some s \<Rightarrow> s \<noteq> [])
      then (Inl Canonical_base_dirty, w)
      else
        (case current_hashes sha w of
           (Inl e, w1) \<Rightarrow> (Inl e, w1)
         | (Inr hashes, w1) \<Rightarrow>
             (let fingerprint = json_digest sha config;
                  g = json_digest sha (base_identity sha env fingerprint hashes);
                  snapshot_path = base_dir w @ [g, ''project.sfast''];
                  current_path = wk_storage w @ [''current.json''];
                  w2 = w1\<lparr>wk_base_exists := True\<rparr>
              in if file_at w2 snapshot_path \<noteq> None \<and> file_at w2 (manifest_path w2 g) \<noteq> None then
                   (case read_manifest g w2 of
                      (Inl e, w3) \<Rightarrow> (Inl e, w3)
                    | (Inr existing, w3) \<Rightarrow>
                        (case validate_snapshot env snapshot_path (mf_snapshot_sha256 existing) w3 of
                           (Inl e, w4) \<Rightarrow> (Inl e, w4)
                         | (Inr _, w4) \<Rightarrow> (Inr existing, write_json current_path (manifest_json existing) w4)))
                 else
                   (case we_build env (source_contents w2) of
                      None \<Rightarrow> (Inl Source_unparsable, w2)
                    | Some snapshot \<Rightarrow>
                        (let m = new_manifest sha env g (wk_root w) fingerprint hashes snapshot;
                             w3 = write_json current_path (manifest_json m)
                                    (write_json (manifest_path w2 g) (manifest_json m) (put_file snapshot_path snapshot w2))
                         in case validate_snapshot env snapshot_path (mf_snapshot_sha256 m) w3 of
                              (Inl e, w4) \<Rightarrow> (Inl e, w4)
                            | (Inr _, w4) \<Rightarrow>
                                (Inr m, write_receipt ''base'' [(''generation_id'', JStr g),
                                   (''source_count'', JInt (int (length (source_files w))))] w4))))))"

section \<open>Overlays\<close>

text \<open>The files that differ from the base, with their symbols.\<close>

fun overlay_changes ::
  "(bytes \<Rightarrow> bytes) \<Rightarrow> workspace_env \<Rightarrow> (string, string) dict \<Rightarrow> path list \<Rightarrow> workspace \<Rightarrow>
     (workspace_error + changes) \<times> workspace" where
  "overlay_changes sha env base [] w = (Inr [], w)"
| "overlay_changes sha env base (rel # rels) w =
     (case source_hash sha (wk_root w @ rel) w of
        (Inl e, w1) \<Rightarrow> (Inl e, w1)
      | (Inr digest, w1) \<Rightarrow>
          (if map_of base (as_posix rel) = Some digest then overlay_changes sha env base rels w1
           else
             (case Option.bind (file_at w1 (wk_root w @ rel)) (\<lambda>f. we_parse env (as_posix rel) (fd_bytes f)) of
                None \<Rightarrow> (Inl Source_unparsable, w1)
              | Some symbols \<Rightarrow>
                  (case overlay_changes sha env base rels w1 of
                     (Inl e, w2) \<Rightarrow> (Inl e, w2)
                   | (Inr changed, w2) \<Rightarrow> (Inr ((as_posix rel, changed_record digest symbols) # changed), w2)))))"

definition gone_records :: "string list \<Rightarrow> string list \<Rightarrow> changes" where
  "gone_records old present = map (\<lambda>p. (p, tombstone_record)) (sorted_set (filter (\<lambda>p. p \<notin> set present) old))"

definition overlay_identity :: "string \<Rightarrow> string \<Rightarrow> changes \<Rightarrow> json" where
  "overlay_identity base_generation worktree_id changed = JObj
     [(''base_generation'', JStr base_generation), (''worktree_id'', JStr worktree_id),
      (''changed'', changes_json changed)]"

definition changed_files :: "changes \<Rightarrow> json" where
  "changed_files c = JList (map JStr (sort (keys c)))"

definition create_overlay ::
  "(bytes \<Rightarrow> bytes) \<Rightarrow> workspace_env \<Rightarrow> string \<Rightarrow> string \<Rightarrow> workspace \<Rightarrow>
     (workspace_error + overlay) \<times> workspace" where
  "create_overlay sha env worktree_id base_generation w =
     (case check_worktree_id worktree_id of
        Inl e \<Rightarrow> (Inl e, w)
      | Inr _ \<Rightarrow>
          (case read_manifest base_generation w of
             (Inl e, w1) \<Rightarrow> (Inl e, w1)
           | (Inr m, w1) \<Rightarrow>
               (case overlay_changes sha env (mf_source_hashes m) (source_files w1) w1 of
                  (Inl e, w2) \<Rightarrow> (Inl e, w2)
                | (Inr present, w2) \<Rightarrow>
                    (let changed = present @ gone_records (keys (mf_source_hashes m)) (map as_posix (source_files w1));
                         g = json_digest sha (overlay_identity base_generation worktree_id changed);
                         ov = \<lparr>ov_schema = OVERLAY_SCHEMA, ov_generation = g, ov_base_generation = base_generation,
                               ov_worktree_id = worktree_id, ov_changed = map (\<lambda>(p, r). (p, JObj r)) changed,
                               ov_created_at = we_now env\<rparr>
                     in ebind_state (generation_id g) w2 (\<lambda>_.
                          (Inr ov, write_receipt ''overlay''
                             [(''base_generation'', JStr base_generation), (''overlay_generation'', JStr g),
                              (''worktree_id'', JStr worktree_id), (''changed_files'', changed_files changed)]
                             (write_json (overlay_path w2 worktree_id g) (overlay_json ov) w2)))))))"

definition load_overlay :: "string \<Rightarrow> string \<Rightarrow> workspace \<Rightarrow> workspace_error + overlay" where
  "load_overlay worktree_id g w =
     ebind (check_worktree_id worktree_id) (\<lambda>_.
     ebind (generation_id g) (\<lambda>_.
     ebind (load_json (overlay_path w worktree_id g) w) (overlay_of g)))"

definition refresh ::
  "(bytes \<Rightarrow> bytes) \<Rightarrow> workspace_env \<Rightarrow> string \<Rightarrow> string \<Rightarrow> string option \<Rightarrow> workspace \<Rightarrow>
     (workspace_error + overlay) \<times> workspace" where
  "refresh sha env worktree_id base_generation overlay_generation w =
     (case (case overlay_generation of
              None \<Rightarrow> Inr None
            | Some g \<Rightarrow> ebind (load_overlay worktree_id g w) (\<lambda>ov.
                if ov_base_generation ov \<noteq> base_generation then Inl Overlay_base_mismatch else Inr (Some ov))) of
        Inl e \<Rightarrow> (Inl e, w)
      | Inr previous \<Rightarrow>
          (case create_overlay sha env worktree_id base_generation w of
             (Inl e, w1) \<Rightarrow> (Inl e, w1)
           | (Inr ov, w1) \<Rightarrow>
               (Inr ov, write_receipt ''refresh''
                  [(''base_generation'', JStr base_generation), (''overlay_generation'', JStr (ov_generation ov)),
                   (''previous_overlay_generation'', jopt (map_option ov_generation previous)),
                   (''worktree_id'', JStr worktree_id),
                   (''changed_files'', JList (map JStr (sort (keys (ov_changed ov)))))] w1)))"

definition same_dict :: "('a, 'b) dict \<Rightarrow> ('a, 'b) dict \<Rightarrow> bool" where
  "same_dict d e \<longleftrightarrow> length d = length e \<and> list_all (\<lambda>(k, v). map_of e k = Some v) d"

definition watch_once ::
  "(bytes \<Rightarrow> bytes) \<Rightarrow> workspace_env \<Rightarrow> string \<Rightarrow> string \<Rightarrow> (string, string) dict option \<Rightarrow> workspace \<Rightarrow>
     (workspace_error + overlay option \<times> (string, string) dict) \<times> workspace" where
  "watch_once sha env worktree_id base_generation previous w =
     (case current_hashes sha w of
        (Inl e, w1) \<Rightarrow> (Inl e, w1)
      | (Inr hashes, w1) \<Rightarrow>
          (if (case previous of None \<Rightarrow> False | Some d \<Rightarrow> same_dict d hashes) then (Inr (None, hashes), w1)
           else
             (case create_overlay sha env worktree_id base_generation w1 of
                (Inl e, w2) \<Rightarrow> (Inl e, w2)
              | (Inr ov, w2) \<Rightarrow> (Inr (Some ov, hashes), w2))))"

section \<open>Leases and collection\<close>

record lease =
  ls_id :: string
  ls_generation_id :: string
  ls_owner :: string
  ls_expires_at :: int
  ls_created_at :: int

definition lease_json :: "lease \<Rightarrow> json" where
  "lease_json l = JObj
     [(''schema'', JStr LEASE_SCHEMA), (''lease_id'', JStr (ls_id l)), (''generation_id'', JStr (ls_generation_id l)),
      (''owner'', JStr (ls_owner l)), (''expires_at'', JInt (ls_expires_at l)), (''created_at'', JInt (ls_created_at l))]"

definition lease_path :: "workspace \<Rightarrow> string \<Rightarrow> path" where
  "lease_path w lease_id = join_path (lease_dir w) (lease_id @ ''.json'')"

definition acquire_lease ::
  "string \<Rightarrow> string \<Rightarrow> int \<Rightarrow> string \<Rightarrow> int \<Rightarrow> workspace \<Rightarrow> (workspace_error + lease) \<times> workspace" where
  "acquire_lease g owner ttl lease_id now w =
     (case read_manifest g w of
        (Inl e, w1) \<Rightarrow> (Inl e, w1)
      | (Inr _, w1) \<Rightarrow>
          (let l = \<lparr>ls_id = lease_id, ls_generation_id = g, ls_owner = owner, ls_expires_at = now + ttl,
                    ls_created_at = now\<rparr>
           in (Inr l, write_json (lease_path w1 lease_id) (lease_json l) w1)))"

definition release_lease :: "string \<Rightarrow> workspace \<Rightarrow> workspace" where
  "release_lease lease_id w = remove_file (lease_path w lease_id) w"

text \<open>
  What \<open>gc\<close> reads in a lease file: the generation it protects, that it has expired, or that it is broken;
  a value that is no dictionary raises an exception the loop does not catch.
\<close>

datatype lease_state = Protects string | Expired | Broken

definition lease_state :: "int \<Rightarrow> json option \<Rightarrow> py_exc + lease_state" where
  "lease_state now v =
     (case v of
        None \<Rightarrow> Inr Broken
      | Some (JObj kvs) \<Rightarrow>
          (case py_int (case map_of kvs ''expires_at'' of None \<Rightarrow> JInt 0 | Some t \<Rightarrow> t) of
             Inl _ \<Rightarrow> Inr Broken
           | Inr expires_at \<Rightarrow>
               (if expires_at > now
                then (case map_of kvs ''generation_id'' of None \<Rightarrow> Inr Broken | Some g \<Rightarrow> Inr (Protects (py_str g)))
                else Inr Expired))
      | Some _ \<Rightarrow> Inl Attribute_error)"

definition lease_files :: "workspace \<Rightarrow> path list" where
  "lease_files w = filter (\<lambda>p. butlast p = lease_dir w \<and> p \<noteq> [] \<and> length (last p) \<ge> 5 \<and>
     drop (length (last p) - 5) (last p) = ''.json'') (keys (wk_files w))"

fun scan_leases :: "int \<Rightarrow> bool \<Rightarrow> path list \<Rightarrow> workspace \<Rightarrow> (workspace_error + string list) \<times> workspace" where
  "scan_leases now apply [] w = (Inr [], w)"
| "scan_leases now apply (p # ps) w =
     (case lease_state now (Option.bind (file_at w p) (\<lambda>f. loads (decode (fd_bytes f)))) of
        Inl e \<Rightarrow> (Inl (Workspace_escape e), w)
      | Inr (Protects g) \<Rightarrow>
          (case scan_leases now apply ps w of
             (Inl e, w1) \<Rightarrow> (Inl e, w1)
           | (Inr protected, w1) \<Rightarrow> (Inr (g # protected), w1))
      | Inr _ \<Rightarrow> scan_leases now apply ps (if apply then remove_file p w else w))"

definition base_generations :: "workspace \<Rightarrow> string list" where
  "base_generations w = remdups (List.map_filter (\<lambda>p. case relative_to (base_dir w) p of
       Some (g # _ # _) \<Rightarrow> Some g | _ \<Rightarrow> None) (keys (wk_files w)))"

definition remove_generation :: "string \<Rightarrow> workspace \<Rightarrow> workspace" where
  "remove_generation g w =
     w\<lparr>wk_files := filter (\<lambda>(p, _). \<not> strictly_inside (base_dir w @ [g]) p) (wk_files w)\<rparr>"

record collection =
  gc_protected :: "string list"
  gc_candidates :: "string list"
  gc_removed :: "string list"

definition collect_base :: "int \<Rightarrow> bool \<Rightarrow> workspace \<Rightarrow> (workspace_error + collection) \<times> workspace" where
  "collect_base now apply w =
     (case scan_leases now apply (lease_files w) w of
        (Inl e, w1) \<Rightarrow> (Inl e, w1)
      | (Inr protected, w1) \<Rightarrow>
          (if \<not> wk_base_exists w1 then (Inl Path_not_found, w1)
           else
             (let candidates = filter (\<lambda>g. g \<notin> set protected) (base_generations w1);
                  removed = (if apply then candidates else []);
                  report = \<lparr>gc_protected = sorted_set protected, gc_candidates = candidates, gc_removed = removed\<rparr>
              in (Inr report, write_receipt ''gc''
                    [(''protected'', JList (map JStr (gc_protected report))),
                     (''candidates'', JList (map JStr candidates)), (''removed'', JList (map JStr removed)),
                     (''applied'', JBool apply)]
                    (fold remove_generation removed w1)))))"

text \<open>\<open>now or time.time()\<close>: the present time also stands for a time of zero.\<close>

definition gc_time :: "int option \<Rightarrow> int \<Rightarrow> int" where
  "gc_time now clock = (case now of None \<Rightarrow> clock | Some t \<Rightarrow> if t = 0 then clock else t)"

definition gc :: "int option \<Rightarrow> int \<Rightarrow> bool \<Rightarrow> workspace \<Rightarrow> (workspace_error + collection) \<times> workspace" where
  "gc now clock apply w = collect_base (gc_time now clock) apply w"

section \<open>Effective snapshots\<close>

record effective_snapshot =
  es_root :: path
  es_manifest :: manifest
  es_overlay :: "overlay option"
  es_base_symbols :: "symbol list"

definition open_snapshot_file ::
  "workspace_env \<Rightarrow> workspace \<Rightarrow> path \<Rightarrow> manifest \<Rightarrow> overlay option \<Rightarrow> workspace_error + effective_snapshot" where
  "open_snapshot_file env w p m ov =
     (case file_at w p of
        None \<Rightarrow> Inl Path_not_found
      | Some f \<Rightarrow>
          (if \<not> we_opens env (fd_bytes f) then Inl Base_artifact_invalid
           else Inr \<lparr>es_root = wk_root w, es_manifest = m, es_overlay = ov, es_base_symbols = we_symbols env (fd_bytes f)\<rparr>))"

definition open_workspace ::
  "workspace_env \<Rightarrow> string \<Rightarrow> string option \<Rightarrow> string option \<Rightarrow> workspace \<Rightarrow>
     (workspace_error + effective_snapshot) \<times> workspace" where
  "open_workspace env base_generation worktree_id overlay_generation w =
     (case read_manifest base_generation w of
        (Inl e, w1) \<Rightarrow> (Inl e, w1)
      | (Inr m, w1) \<Rightarrow>
          (ebind (case (worktree_id, overlay_generation) of
                    (Some (c # wt), Some (d # g)) \<Rightarrow>
                      ebind (load_overlay (c # wt) (d # g) w1) (\<lambda>ov.
                        if ov_base_generation ov \<noteq> base_generation then Inl Overlay_base_mismatch else Inr (Some ov))
                  | _ \<Rightarrow> Inr None)
             (open_snapshot_file env w1 (join_path (base_dir w1 @ [base_generation]) (mf_snapshot m)) m), w1))"

text \<open>\<open>Symbol(**item)\<close>.\<close>

definition SYMBOL_FIELDS :: "string list" where
  "SYMBOL_FIELDS = [''name'', ''qualified_name'', ''kind'', ''file'', ''line'', ''end_line'', ''symbol_id'',
     ''signature'', ''base_generation'', ''overlay_generation'']"

definition opt_text :: "json option \<Rightarrow> string option option" where
  "opt_text v = (case v of None \<Rightarrow> Some None | Some JNull \<Rightarrow> Some None | Some (JStr s) \<Rightarrow> Some (Some s) | _ \<Rightarrow> None)"

definition text_or_empty :: "json option \<Rightarrow> string option" where
  "text_or_empty v = (case v of None \<Rightarrow> Some [] | Some (JStr s) \<Rightarrow> Some s | _ \<Rightarrow> None)"

definition symbol_of :: "json \<Rightarrow> py_exc + symbol" where
  "symbol_of v =
     (case v of
        JObj kvs \<Rightarrow>
          (if \<not> list_all (\<lambda>(k, _). k \<in> set SYMBOL_FIELDS) kvs then Inl Type_error
           else
             (case (map_of kvs ''name'', map_of kvs ''qualified_name'', map_of kvs ''kind'', map_of kvs ''file'',
                    map_of kvs ''line'', map_of kvs ''end_line'') of
                (Some (JStr name), Some (JStr qualified_name), Some (JStr kind), Some (JStr fil),
                 Some (JInt line), Some (JInt end_line)) \<Rightarrow>
                  (case (text_or_empty (map_of kvs ''symbol_id''), text_or_empty (map_of kvs ''signature''),
                         opt_text (map_of kvs ''base_generation''), opt_text (map_of kvs ''overlay_generation'')) of
                     (Some symbol_id, Some signature, Some base, Some ov) \<Rightarrow>
                       Inr \<lparr>sm_name = name, sm_qualified_name = qualified_name, sm_kind = kind, sm_file = fil,
                            sm_line = line, sm_end_line = end_line, sm_symbol_id = symbol_id,
                            sm_signature = signature, sm_base_generation = base, sm_overlay_generation = ov\<rparr>
                   | _ \<Rightarrow> Inl Type_error)
              | _ \<Rightarrow> Inl Type_error))
      | _ \<Rightarrow> Inl Type_error)"

definition overlay_symbols :: "effective_snapshot \<Rightarrow> py_exc + symbol list" where
  "overlay_symbols S =
     (case es_overlay S of
        None \<Rightarrow> Inr []
      | Some ov \<Rightarrow>
          ebind (emap (\<lambda>(p, r). ebind (ebind (py_getitem r ''symbols'') iterate) (emap symbol_of)) (ov_changed ov))
            (\<lambda>lists. Inr (concat lists)))"

definition rebind :: "effective_snapshot \<Rightarrow> symbol \<Rightarrow> symbol" where
  "rebind S s = s\<lparr>sm_base_generation := Some (mf_generation_id (es_manifest S)),
     sm_overlay_generation := map_option ov_generation (es_overlay S)\<rparr>"

text \<open>The sort by (name, qualified name, file, line) is stable, so it is a sort by each, the last first.\<close>

definition sort_symbols :: "symbol list \<Rightarrow> symbol list" where
  "sort_symbols xs = sort_key sm_name (sort_key sm_qualified_name (sort_key sm_file (sort_key sm_line xs)))"

definition replaced_files :: "effective_snapshot \<Rightarrow> string list" where
  "replaced_files S = (case es_overlay S of None \<Rightarrow> [] | Some ov \<Rightarrow> keys (ov_changed ov))"

definition effective_symbols :: "effective_snapshot \<Rightarrow> py_exc + symbol list" where
  "effective_symbols S =
     ebind (overlay_symbols S) (\<lambda>own. Inr (sort_symbols
       (map (rebind S) (filter (\<lambda>s. sm_file s \<notin> set (replaced_files S)) (es_base_symbols S)) @ map (rebind S) own)))"

text \<open>\<open>casefold\<close> of names and queries is \<open>lower\<close>, for ASCII letters only.\<close>

definition find_symbols :: "string \<Rightarrow> effective_snapshot \<Rightarrow> py_exc + symbol list" where
  "find_symbols query S =
     ebind (effective_symbols S) (\<lambda>symbols. Inr (filter (\<lambda>s. has_sub (lower query) (lower (sm_name s)) \<or>
       has_sub (lower query) (lower (sm_qualified_name s))) symbols))"

section \<open>Files\<close>

lemma file_at_put [simp]:
  "file_at (put_file p b w) q = (if q = p then Some \<lparr>fd_bytes = b, fd_stamp = wk_clock w\<rparr> else file_at w q)"
  by (simp add: file_at_def put_file_def dict_simps)

lemma file_at_remove [simp]: "file_at (remove_file p w) q = (if q = p then None else file_at w q)"
  by (simp add: file_at_def remove_file_def dict_simps)

lemma put_workspace_file [simp]:
  "wk_clock (put_file p b w) = Suc (wk_clock w)" "wk_root (put_file p b w) = wk_root w"
  "wk_storage (put_file p b w) = wk_storage w" "wk_source_cache (put_file p b w) = wk_source_cache w"
  "wk_manifest_cache (put_file p b w) = wk_manifest_cache w" "wk_base_cache (put_file p b w) = wk_base_cache w"
  "wk_snapshot_cache (put_file p b w) = wk_snapshot_cache w" "wk_delta_cache (put_file p b w) = wk_delta_cache w"
  by (simp_all add: put_file_def)

section \<open>Caches\<close>

text \<open>
  The contract of a cache keyed by the stamp of a file: an entry \<open>holds\<close> of the bytes that have its
  stamp, and what is held answers a lookup in one way only.  Then a lookup answers as if the file had been
  read again, whatever was written in between.
\<close>

locale stat_cache =
  fixes path_of :: "'k \<Rightarrow> path" and stamp_of :: "'k \<Rightarrow> nat" and holds :: "'k \<Rightarrow> bytes \<Rightarrow> 'v \<Rightarrow> bool"
    and answer :: "'v \<Rightarrow> 'r"
  assumes holds_unique: "holds k b v \<Longrightarrow> holds k b v' \<Longrightarrow> answer v = answer v'"
begin

definition current_entry :: "workspace \<Rightarrow> 'k \<Rightarrow> 'v \<Rightarrow> bool" where
  "current_entry w k v \<longleftrightarrow> stamp_of k < wk_clock w \<and>
     (\<forall>f. file_at w (path_of k) = Some f \<longrightarrow> fd_stamp f = stamp_of k \<longrightarrow> holds k (fd_bytes f) v)"

definition coherent :: "workspace \<Rightarrow> ('k \<times> 'v) list \<Rightarrow> bool" where
  "coherent w c \<longleftrightarrow> (\<forall>(k, v) \<in> set c. current_entry w k v)"

lemma coherent_empty [simp]: "coherent w []"
  by (simp add: coherent_def)

lemma coherent_caches [simp]:
  "coherent (w\<lparr>wk_source_cache := c1\<rparr>) c = coherent w c"
  "coherent (w\<lparr>wk_manifest_cache := c2\<rparr>) c = coherent w c"
  "coherent (w\<lparr>wk_base_cache := c3\<rparr>) c = coherent w c"
  "coherent (w\<lparr>wk_snapshot_cache := c4\<rparr>) c = coherent w c"
  "coherent (w\<lparr>wk_delta_cache := c5\<rparr>) c = coherent w c"
  "coherent (w\<lparr>wk_receipts := r\<rparr>) c = coherent w c"
  "coherent (w\<lparr>wk_base_exists := e\<rparr>) c = coherent w c"
  by (simp_all add: coherent_def current_entry_def file_at_def)

lemma coherent_subset: "coherent w c \<Longrightarrow> set d \<subseteq> set c \<Longrightarrow> coherent w d"
  by (auto simp: coherent_def)

lemma coherent_put: "coherent w c \<Longrightarrow> coherent (put_file p b w) c"
proof -
  have "current_entry w k v \<Longrightarrow> current_entry (put_file p b w) k v" for k v
    by (auto simp: current_entry_def)
  then show "coherent w c \<Longrightarrow> coherent (put_file p b w) c" by (auto simp: coherent_def)
qed

lemma coherent_fewer:
  "coherent w c \<Longrightarrow> wk_clock w' = wk_clock w \<Longrightarrow> (\<And>p f. file_at w' p = Some f \<Longrightarrow> file_at w p = Some f) \<Longrightarrow>
     coherent w' c"
  by (auto simp: coherent_def current_entry_def)

lemma coherent_add:
  assumes "coherent w c" "stamp_of k < wk_clock w"
    and "\<And>f. file_at w (path_of k) = Some f \<Longrightarrow> fd_stamp f = stamp_of k \<Longrightarrow> holds k (fd_bytes f) v"
  shows "coherent w (fifo n (dput k v c))"
proof -
  have "set (fifo n (dput k v c)) \<subseteq> insert (k, v) (set c)"
    using set_dput [of k v c] by (auto simp: fifo_def dest: in_set_dropD)
  moreover have "current_entry w k v" using assms(2,3) by (simp add: current_entry_def)
  ultimately show ?thesis using assms(1) by (auto simp: coherent_def)
qed

lemma coherent_holds:
  assumes "coherent w c" "map_of c k = Some v" "file_at w (path_of k) = Some f" "fd_stamp f = stamp_of k"
  shows "holds k (fd_bytes f) v"
  using assms by (auto simp: coherent_def current_entry_def dest!: map_of_SomeD)

lemma coherent_lookup:
  assumes "coherent w c" "map_of c k = Some v" "file_at w (path_of k) = Some f" "fd_stamp f = stamp_of k"
    and "holds k (fd_bytes f) v'"
  shows "answer v = answer v'"
  using holds_unique [OF coherent_holds [OF assms(1-4)] assms(5)] .

end

interpretation source_cache: stat_cache fst snd "\<lambda>(_, _) b v. v = hexdigest sha b" "\<lambda>v. v" for sha
  by unfold_locales auto

interpretation manifest_cache: stat_cache "\<lambda>(g, _). storage @ [''base'', g, ''manifest.json'']" snd
    "\<lambda>(g, _) b m. manifest_of_bytes g b = Inr m" "\<lambda>m. m" for storage :: path
  by unfold_locales auto

interpretation base_cache: stat_cache "\<lambda>(_, p, _). p" "\<lambda>(_, _, stamp). stamp"
    "\<lambda>_ b (_, d). d = hexdigest sha b" snd for sha
  by unfold_locales auto

interpretation delta_cache: stat_cache "\<lambda>(worktree_id, g, _). storage @ [''deltas'', worktree_id, g @ ''.json'']"
    "\<lambda>(_, _, stamp). stamp" "\<lambda>(worktree_id, g, _) b d. delta_of_bytes sha worktree_id g b = Inr d" "\<lambda>d. d"
  for storage :: path and sha :: "bytes \<Rightarrow> bytes"
  by unfold_locales auto

lemma length_fifo [simp]: "length (fifo n xs) \<le> n"
  by (simp add: fifo_def)

definition workspace_ok :: "(bytes \<Rightarrow> bytes) \<Rightarrow> workspace \<Rightarrow> bool" where
  "workspace_ok sha w \<longleftrightarrow>
     distinct (keys (wk_files w)) \<and> (\<forall>(p, f) \<in> set (wk_files w). fd_stamp f < wk_clock w) \<and>
     source_cache.coherent sha w (wk_source_cache w) \<and>
     manifest_cache.coherent (wk_storage w) w (wk_manifest_cache w) \<and>
     base_cache.coherent sha w (wk_base_cache w) \<and>
     delta_cache.coherent (wk_storage w) sha w (wk_delta_cache w) \<and>
     length (wk_source_cache w) \<le> 512 \<and> length (wk_manifest_cache w) \<le> 8 \<and> length (wk_base_cache w) \<le> 8 \<and>
     length (wk_snapshot_cache w) \<le> 8 \<and> length (wk_delta_cache w) \<le> 16"

text \<open>What a read leaves as it is: all but the caches.\<close>

definition quiet :: "workspace \<Rightarrow> workspace \<Rightarrow> bool" where
  "quiet w w' \<longleftrightarrow> wk_root w' = wk_root w \<and> wk_storage w' = wk_storage w \<and> wk_files w' = wk_files w \<and>
     wk_clock w' = wk_clock w \<and> wk_base_exists w' = wk_base_exists w \<and> wk_receipts w' = wk_receipts w"

text \<open>What every operation leaves as it is.\<close>

definition same_place :: "workspace \<Rightarrow> workspace \<Rightarrow> bool" where
  "same_place w w' \<longleftrightarrow> wk_root w' = wk_root w \<and> wk_storage w' = wk_storage w"

lemma quiet_refl [simp]: "quiet w w"
  by (simp add: quiet_def)

lemma quiet_trans [trans]: "quiet w1 w2 \<Longrightarrow> quiet w2 w3 \<Longrightarrow> quiet w1 w3"
  by (simp add: quiet_def)

lemma quiet_file_at: "quiet w w' \<Longrightarrow> file_at w' p = file_at w p"
  by (simp add: quiet_def file_at_def)

lemma quiet_source_files: "quiet w w' \<Longrightarrow> source_files w' = source_files w"
  by (simp add: quiet_def source_files_def)

lemma quiet_paths:
  "quiet w w' \<Longrightarrow> wk_root w' = wk_root w" "quiet w w' \<Longrightarrow> wk_storage w' = wk_storage w"
  "quiet w w' \<Longrightarrow> base_dir w' = base_dir w" "quiet w w' \<Longrightarrow> manifest_path w' g = manifest_path w g"
  "quiet w w' \<Longrightarrow> delta_path w' t g = delta_path w t g" "quiet w w' \<Longrightarrow> overlay_path w' t g = overlay_path w t g"
  by (simp_all add: quiet_def base_dir_def manifest_path_def delta_path_def overlay_path_def)

lemmas quiet_simps = quiet_file_at quiet_source_files quiet_paths

lemma same_place_quiet: "quiet w w' \<Longrightarrow> same_place w w'"
  by (simp add: quiet_def same_place_def)

lemma same_place_refl [simp]: "same_place w w"
  by (simp add: same_place_def)

lemma same_place_trans [trans]: "same_place w1 w2 \<Longrightarrow> same_place w2 w3 \<Longrightarrow> same_place w1 w3"
  by (simp add: same_place_def)

lemma fresh_stamp: "workspace_ok sha w \<Longrightarrow> file_at w p = Some f \<Longrightarrow> fd_stamp f < wk_clock w"
  by (auto simp: workspace_ok_def file_at_def dest!: map_of_SomeD)

lemma workspace_ok_put [simp]: "workspace_ok sha w \<Longrightarrow> workspace_ok sha (put_file p b w)"
proof -
  assume ok: "workspace_ok sha w"
  have "\<forall>(q, f) \<in> set (dput p \<lparr>fd_bytes = b, fd_stamp = wk_clock w\<rparr> (wk_files w)). fd_stamp f < Suc (wk_clock w)"
    using ok by (intro values_dput) (auto simp: workspace_ok_def less_SucI)
  moreover have "wk_files (put_file p b w) = dput p \<lparr>fd_bytes = b, fd_stamp = wk_clock w\<rparr> (wk_files w)"
    by (simp add: put_file_def)
  ultimately show ?thesis
    using ok by (simp add: workspace_ok_def source_cache.coherent_put manifest_cache.coherent_put
        base_cache.coherent_put delta_cache.coherent_put distinct_dput)
qed

lemma workspace_ok_fewer:
  assumes "workspace_ok sha w" "wk_files w' = filter P (wk_files w)" "wk_clock w' = wk_clock w"
    and "wk_storage w' = wk_storage w" "wk_source_cache w' = wk_source_cache w"
    and "wk_manifest_cache w' = wk_manifest_cache w" "wk_base_cache w' = wk_base_cache w"
    and "wk_snapshot_cache w' = wk_snapshot_cache w" "wk_delta_cache w' = wk_delta_cache w"
  shows "workspace_ok sha w'"
proof -
  have d: "distinct (keys (wk_files w))" using assms(1) by (simp add: workspace_ok_def)
  then have d': "distinct (keys (wk_files w'))" using assms(2) by (simp add: distinct_map_filter)
  have fewer: "file_at w' p = Some f \<Longrightarrow> file_at w p = Some f" for p f
    using d d' assms(2) by (auto simp: file_at_def)
  show ?thesis
    using assms d' fewer unfolding workspace_ok_def
    by (auto intro: source_cache.coherent_fewer manifest_cache.coherent_fewer base_cache.coherent_fewer
        delta_cache.coherent_fewer)
qed

lemma workspace_ok_remove [simp]: "workspace_ok sha w \<Longrightarrow> workspace_ok sha (remove_file p w)"
  by (erule workspace_ok_fewer) (simp_all add: remove_file_def dpop_def)

lemma workspace_ok_removed [simp]: "workspace_ok sha w \<Longrightarrow> workspace_ok sha (remove_generation g w)"
  by (erule workspace_ok_fewer) (simp_all add: remove_generation_def)

lemma workspace_ok_simps [simp]:
  "workspace_ok sha (w\<lparr>wk_receipts := r\<rparr>) = workspace_ok sha w"
  "workspace_ok sha (w\<lparr>wk_base_exists := e\<rparr>) = workspace_ok sha w"
  by (simp_all add: workspace_ok_def)

lemma workspace_ok_json [simp]: "workspace_ok sha w \<Longrightarrow> workspace_ok sha (write_json p v w)"
  by (simp add: write_json_def workspace_ok_put)

lemma workspace_ok_receipt [simp]: "workspace_ok sha (write_receipt a d w) = workspace_ok sha w"
  by (simp add: write_receipt_def)

section \<open>Reads answer what the files say\<close>

definition true_hash :: "(bytes \<Rightarrow> bytes) \<Rightarrow> workspace \<Rightarrow> path \<Rightarrow> workspace_error + string" where
  "true_hash sha w p =
     (case file_at w p of None \<Rightarrow> Inl Path_not_found | Some f \<Rightarrow> Inr (hexdigest sha (fd_bytes f)))"

lemma source_hash_true:
  assumes ok: "workspace_ok sha w"
  shows "\<exists>w'. source_hash sha p w = (true_hash sha w p, w') \<and> workspace_ok sha w' \<and> quiet w w'"
proof (cases "file_at w p")
  case (Some f)
  show ?thesis
  proof (cases "map_of (wk_source_cache w) (p, fd_stamp f)")
    case None
    let ?c = "fifo 512 (dput (p, fd_stamp f) (hexdigest sha (fd_bytes f)) (wk_source_cache w))"
    have "source_cache.coherent sha w ?c"
      using ok Some fresh_stamp [OF ok Some] by (intro source_cache.coherent_add) (auto simp: workspace_ok_def)
    with ok have "workspace_ok sha (w\<lparr>wk_source_cache := ?c\<rparr>)" by (simp add: workspace_ok_def)
    moreover have "source_hash sha p w = (true_hash sha w p, w\<lparr>wk_source_cache := ?c\<rparr>)"
      using Some None by (simp add: source_hash_def true_hash_def Let_def)
    ultimately show ?thesis by (auto simp: quiet_def)
  next
    case cached: (Some d)
    have "d = hexdigest sha (fd_bytes f)"
      using source_cache.coherent_holds [of sha w "wk_source_cache w" "(p, fd_stamp f)" d f] ok Some cached
      by (simp add: workspace_ok_def)
    with ok Some cached show ?thesis by (simp add: source_hash_def true_hash_def)
  qed
qed (use ok in \<open>simp add: source_hash_def true_hash_def\<close>)

definition true_manifest :: "workspace \<Rightarrow> string \<Rightarrow> workspace_error + manifest" where
  "true_manifest w g =
     ebind (generation_id g) (\<lambda>_.
       (case file_at w (manifest_path w g) of
          None \<Rightarrow> Inl Path_not_found
        | Some f \<Rightarrow> manifest_of_bytes g (fd_bytes f)))"

lemma read_manifest_true:
  assumes ok: "workspace_ok sha w"
  shows "\<exists>w'. read_manifest g w = (true_manifest w g, w') \<and> workspace_ok sha w' \<and> quiet w w'"
proof (cases "generation_id g = Inr g \<and> file_at w (manifest_path w g) \<noteq> None")
  case True
  then obtain f where g: "generation_id g = Inr g" and f: "file_at w (manifest_path w g) = Some f" by auto
  have path: "file_at w (case (g, fd_stamp f) of (g, _) \<Rightarrow> wk_storage w @ [''base'', g, ''manifest.json'']) = Some f"
    using f by (simp add: manifest_path_def base_dir_def)
  show ?thesis
  proof (cases "map_of (wk_manifest_cache w) (g, fd_stamp f)")
    case None
    show ?thesis
    proof (cases "manifest_of_bytes g (fd_bytes f)")
      case (Inl e)
      with ok g f None show ?thesis by (auto simp: read_manifest_def true_manifest_def)
    next
      case (Inr m)
      let ?kept = "filter (\<lambda>((h, stamp), _). h \<noteq> g \<or> stamp = fd_stamp f) (wk_manifest_cache w)"
      let ?c = "fifo 8 (dput (g, fd_stamp f) m ?kept)"
      have "manifest_cache.coherent (wk_storage w) w ?kept"
        by (rule manifest_cache.coherent_subset [OF _ filter_is_subset]) (use ok in \<open>simp add: workspace_ok_def\<close>)
      then have "manifest_cache.coherent (wk_storage w) w ?c"
        using path fresh_stamp [OF ok f] Inr by (intro manifest_cache.coherent_add) auto
      with ok have "workspace_ok sha (w\<lparr>wk_manifest_cache := ?c\<rparr>)" by (simp add: workspace_ok_def)
      moreover have "read_manifest g w = (true_manifest w g, w\<lparr>wk_manifest_cache := ?c\<rparr>)"
        using g f None Inr by (simp add: read_manifest_def true_manifest_def)
      ultimately show ?thesis by (auto simp: quiet_def)
    qed
  next
    case (Some m)
    have "manifest_of_bytes g (fd_bytes f) = Inr m"
      using manifest_cache.coherent_holds [of "wk_storage w" w "wk_manifest_cache w" "(g, fd_stamp f)" m f] ok path Some
      by (simp add: workspace_ok_def)
    with ok g f Some show ?thesis by (simp add: read_manifest_def true_manifest_def)
  qed
next
  case False
  with ok show ?thesis
    by (auto simp: read_manifest_def true_manifest_def generation_id_def split: if_splits)
qed

lemma hash_paths_true:
  "workspace_ok sha w \<Longrightarrow> wk_root w = root \<Longrightarrow>
     \<exists>w'. hash_paths sha rels w =
       (emap (\<lambda>rel. ebind (true_hash sha w (root @ rel)) (\<lambda>d. Inr (as_posix rel, d))) rels, w') \<and>
       workspace_ok sha w' \<and> quiet w w'"
proof (induction rels arbitrary: w)
  case (Cons rel rels)
  obtain w1 where w1: "source_hash sha (wk_root w @ rel) w = (true_hash sha w (wk_root w @ rel), w1)"
    "workspace_ok sha w1" "quiet w w1" using source_hash_true [OF Cons.prems(1)] by blast
  have same: "true_hash sha w1 q = true_hash sha w q" for q using w1(3) by (simp add: true_hash_def quiet_simps)
  have "wk_root w1 = root" using w1(3) Cons.prems(2) by (simp add: quiet_simps)
  from Cons.IH [OF w1(2) this] obtain w2 where w2: "hash_paths sha rels w1 =
      (emap (\<lambda>rel. ebind (true_hash sha w (root @ rel)) (\<lambda>d. Inr (as_posix rel, d))) rels, w2)"
    "workspace_ok sha w2" "quiet w1 w2" unfolding same by blast
  show ?case
  proof (cases "true_hash sha w (root @ rel)")
    case (Inl e)
    with w1 Cons.prems(2) show ?thesis by simp
  next
    case (Inr d)
    with w1(1) w2(1) Cons.prems(2) have "hash_paths sha (rel # rels) w =
        (emap (\<lambda>rel. ebind (true_hash sha w (root @ rel)) (\<lambda>d. Inr (as_posix rel, d))) (rel # rels), w2)"
      by (simp add: ebind_def split: sum.split)
    with w2(2) quiet_trans [OF w1(3) w2(3)] show ?thesis by blast
  qed
qed simp

text \<open>A result whose state is well-formed again, at the same place.\<close>

definition keeps :: "(bytes \<Rightarrow> bytes) \<Rightarrow> workspace \<Rightarrow> 'a \<times> workspace \<Rightarrow> bool" where
  "keeps sha w r \<longleftrightarrow> workspace_ok sha (snd r) \<and> same_place w (snd r)"

lemma keepsI: "workspace_ok sha w' \<Longrightarrow> same_place w w' \<Longrightarrow> keeps sha w (x, w')"
  by (simp add: keeps_def)

lemma keeps_from: "same_place w w1 \<Longrightarrow> keeps sha w1 r \<Longrightarrow> keeps sha w r"
  by (auto simp: keeps_def intro: same_place_trans)

lemma keeps_case:
  assumes "keeps sha w r"
    and "\<And>e w1. workspace_ok sha w1 \<Longrightarrow> same_place w w1 \<Longrightarrow> keeps sha w (h e w1)"
    and "\<And>x w1. r = (Inr x, w1) \<Longrightarrow> workspace_ok sha w1 \<Longrightarrow> same_place w w1 \<Longrightarrow> keeps sha w (k x w1)"
  shows "keeps sha w (case r of (Inl e, w1) \<Rightarrow> h e w1 | (Inr x, w1) \<Rightarrow> k x w1)"
  using assms by (cases r) (auto simp: keeps_def split: sum.split)

lemma keeps_ebind:
  assumes "workspace_ok sha w1" "same_place w w1" "\<And>x. r = Inr x \<Longrightarrow> keeps sha w (f x)"
  shows "keeps sha w (ebind_state r w1 f)"
  using assms by (cases r) (auto simp: ebind_state_def intro: keepsI)

lemma same_place_simps [simp]:
  "same_place w (put_file p b w1) = same_place w w1" "same_place w (write_json p v w1) = same_place w w1"
  "same_place w (write_receipt a d w1) = same_place w w1" "same_place w (remove_file p w1) = same_place w w1"
  "same_place w (remove_generation g w1) = same_place w w1" "same_place w (w1\<lparr>wk_base_exists := e\<rparr>) = same_place w w1"
  by (simp_all add: same_place_def write_json_def write_receipt_def remove_file_def remove_generation_def)

lemma keeps_true:
  "\<exists>w'. r = (x, w') \<and> workspace_ok sha w' \<and> quiet w w' \<Longrightarrow> keeps sha w r"
  by (auto simp: keeps_def same_place_quiet)

lemma source_hash_keeps: "workspace_ok sha w \<Longrightarrow> keeps sha w (source_hash sha p w)"
  by (rule keeps_true [OF source_hash_true])

lemma read_manifest_keeps: "workspace_ok sha w \<Longrightarrow> keeps sha w (read_manifest g w)"
  by (rule keeps_true [OF read_manifest_true])

lemma current_hashes_keeps: "workspace_ok sha w \<Longrightarrow> keeps sha w (current_hashes sha w)"
  unfolding current_hashes_def by (rule keeps_true [OF hash_paths_true [OF _ refl]])

lemma validate_snapshot_keeps: "workspace_ok sha w \<Longrightarrow> keeps sha w (validate_snapshot env p expected w)"
  by (auto simp: validate_snapshot_def keeps_def Let_def workspace_ok_def same_place_def split: option.split)

lemma build_base_keeps: "workspace_ok sha w \<Longrightarrow> keeps sha w (build_base sha env config w)"
  unfolding build_base_def Let_def
  by (auto intro!: keeps_case keeps_from [OF _ read_manifest_keeps] keeps_from [OF _ validate_snapshot_keeps]
      current_hashes_keeps keepsI split: option.split)

lemma overlay_changes_quiet:
  "workspace_ok sha w \<Longrightarrow> workspace_ok sha (snd (overlay_changes sha env base rels w)) \<and>
     quiet w (snd (overlay_changes sha env base rels w))"
proof (induction rels arbitrary: w)
  case (Cons rel rels)
  obtain w1 where w1: "source_hash sha (wk_root w @ rel) w = (true_hash sha w (wk_root w @ rel), w1)"
    "workspace_ok sha w1" "quiet w w1" using source_hash_true [OF Cons.prems] by blast
  from Cons.IH [OF w1(2)] w1 show ?case
    by (auto split: sum.split option.split prod.split intro: quiet_trans)
qed simp

lemma overlay_changes_keeps: "workspace_ok sha w \<Longrightarrow> keeps sha w (overlay_changes sha env base rels w)"
  using overlay_changes_quiet by (auto simp: keeps_def same_place_quiet)

lemma create_overlay_keeps: "workspace_ok sha w \<Longrightarrow> keeps sha w (create_overlay sha env t g w)"
  unfolding create_overlay_def Let_def
  by (auto intro!: keeps_case keeps_ebind read_manifest_keeps keeps_from [OF _ overlay_changes_keeps] keepsI
      split: sum.split)

lemma refresh_keeps: "workspace_ok sha w \<Longrightarrow> keeps sha w (refresh sha env t g og w)"
  unfolding refresh_def by (auto intro!: keeps_case create_overlay_keeps keepsI split: sum.split)

lemma watch_once_keeps: "workspace_ok sha w \<Longrightarrow> keeps sha w (watch_once sha env t g previous w)"
  unfolding watch_once_def
  by (auto intro!: keeps_case current_hashes_keeps keeps_from [OF _ create_overlay_keeps] keepsI)

lemma acquire_lease_keeps: "workspace_ok sha w \<Longrightarrow> keeps sha w (acquire_lease g owner ttl i now w)"
  unfolding acquire_lease_def Let_def by (auto intro!: keeps_case read_manifest_keeps keepsI)

lemma scan_leases_keeps: "workspace_ok sha w \<Longrightarrow> keeps sha w (scan_leases now apply ps w)"
proof (induction ps arbitrary: w)
  case (Cons p ps)
  have "keeps sha w (scan_leases now apply ps (if apply then remove_file p w else w))"
    by (rule keeps_from [OF _ Cons.IH]) (use Cons.prems in auto)
  with Cons.prems Cons.IH show ?case
    by (auto intro!: keeps_case keepsI split: sum.split lease_state.split)
qed (auto intro: keepsI)

lemma collect_base_keeps: "workspace_ok sha w \<Longrightarrow> keeps sha w (collect_base now apply w)"
proof -
  assume ok: "workspace_ok sha w"
  have "workspace_ok sha w1 \<Longrightarrow> same_place w w1 \<Longrightarrow>
      workspace_ok sha (fold remove_generation gs w1) \<and> same_place w (fold remove_generation gs w1)"
    for gs w1 by (induction gs arbitrary: w1) auto
  with ok show ?thesis
    unfolding collect_base_def Let_def
    by (auto intro!: keeps_case scan_leases_keeps keepsI)
qed

end
