(* ===== verification/Delta.thy ===== *)
theory Delta
  imports Workspace
begin

text \<open>
  \<open>simplicio_fast/delta.py\<close>: deltas of changed paths bound to a base generation.  The first part finds the
  commit of a worktree in its \<open>.git\<close> files (whose lines end with a line feed) and checks a base
  against its artifacts; then deltas are created, loaded, verified against the worktree, composed and
  handed off.  The timings, the size and the digest of a parity snapshot that \<open>handoff\<close> only reports are
  left out.
\<close>

section \<open>Git\<close>

definition is_dir :: "workspace \<Rightarrow> path \<Rightarrow> bool" where
  "is_dir w p \<longleftrightarrow> list_ex (strictly_inside p) (keys (wk_files w))"

definition read_text :: "workspace \<Rightarrow> path \<Rightarrow> string option" where
  "read_text w p = map_option (\<lambda>f. decode (fd_bytes f)) (file_at w p)"

definition git_dir :: "workspace \<Rightarrow> path \<Rightarrow> path option" where
  "git_dir w root =
     (let marker = root @ [''.git''] in
      if is_dir w marker then Some marker
      else
        (case read_text w marker of
           None \<Rightarrow> None
         | Some text \<Rightarrow>
             (let content = strip text in
              if take 7 (lower content) \<noteq> ''gitdir:'' then None
              else Some (join_path root (strip (drop 7 content))))))"

definition git_common_dir :: "workspace \<Rightarrow> path \<Rightarrow> path option" where
  "git_common_dir w root =
     (case git_dir w root of
        None \<Rightarrow> None
      | Some d \<Rightarrow>
          (let d1 = (case read_text w (d @ [''commondir'']) of None \<Rightarrow> d | Some text \<Rightarrow> join_path d (strip text))
           in if is_dir w d1 then Some d1 else None))"

text \<open>\<open>line.partition('' '')\<close> without the separator.\<close>

definition partition_space :: "string \<Rightarrow> string \<times> string" where
  "partition_space s = (takeWhile (\<lambda>c. c \<noteq> CHR '' '') s, drop 1 (dropWhile (\<lambda>c. c \<noteq> CHR '' '') s))"

definition packed_commit :: "string \<Rightarrow> string \<Rightarrow> string option" where
  "packed_commit reference text =
     map_option (\<lambda>l. fst (partition_space l))
       (List.find (\<lambda>l. snd (partition_space l) = reference) (split_on (CHR 0x0A) text))"

definition git_commit :: "workspace \<Rightarrow> path \<Rightarrow> string" where
  "git_commit w root =
     (case (git_dir w root, git_common_dir w root) of
        (Some d, Some common) \<Rightarrow>
          (case map_option strip (read_text w (d @ [''HEAD''])) of
             None \<Rightarrow> ''unknown''
           | Some head \<Rightarrow>
               (let resolved =
                  (if take 5 head = ''ref: '' then
                     (let reference = drop 5 head in
                      case read_text w (join_path common reference) of
                        Some text \<Rightarrow> Some (strip text)
                      | None \<Rightarrow>
                          (case read_text w (common @ [''packed-refs'']) of
                             None \<Rightarrow> None
                           | Some text \<Rightarrow> Some (case packed_commit reference text of None \<Rightarrow> head | Some c \<Rightarrow> c)))
                   else Some head)
                in case resolved of
                     None \<Rightarrow> ''unknown''
                   | Some h \<Rightarrow> if length h = 40 \<and> list_all is_hex_char h then h else ''unknown''))
      | _ \<Rightarrow> ''unknown'')"

section \<open>The base of a delta\<close>

definition same_base_repository :: "workspace \<Rightarrow> manifest \<Rightarrow> bool" where
  "same_base_repository w base =
     (let base_root = (if mf_root base = [] then None else Some (join_path [] (mf_root base)))
      in if base_root = Some (wk_root w) then True
         else
           (let base_common = Option.bind base_root (git_common_dir w);
                canonical = (case base_root of None \<Rightarrow> ''unknown'' | Some r \<Rightarrow> git_commit w r);
                expected = (if mf_commit base \<noteq> ''unknown'' then mf_commit base else canonical)
            in expected \<noteq> ''unknown'' \<and> canonical = expected \<and> git_commit w (wk_root w) = expected \<and>
               base_common \<noteq> None \<and> base_common = git_common_dir w (wk_root w)))"

definition check_base :: "(bytes \<Rightarrow> bytes) \<Rightarrow> string \<Rightarrow> manifest \<Rightarrow> workspace \<Rightarrow> workspace_error + path" where
  "check_base sha g base w =
     (if mf_schema base \<noteq> MANIFEST_SCHEMA then Inl Base_schema_mismatch
      else if \<not> same_base_repository w base then Inl Base_root_mismatch
      else if \<not> is_digest (mf_snapshot_sha256 base) \<or> \<not> is_digest (mf_source_tree_sha256 base)
        then Inl Base_digest_missing
      else if json_digest sha (hashes_object (mf_source_hashes base)) \<noteq> mf_source_tree_sha256 base
        then Inl Base_source_tree_mismatch
      else
        (let directory = base_dir w @ [g]; snapshot_path = join_path directory (mf_snapshot base) in
         if is_absolute (mf_snapshot base) \<or> ''..'' \<in> set (path_parts (mf_snapshot base)) then Inl Base_snapshot_path_invalid
         else if relative_to directory snapshot_path = None then Inl Base_snapshot_path_invalid
         else if file_at w snapshot_path = None then Inl Base_artifact_missing
         else Inr snapshot_path))"

definition base_digest ::
  "(bytes \<Rightarrow> bytes) \<Rightarrow> string \<Rightarrow> manifest \<Rightarrow> path \<Rightarrow> file_data \<Rightarrow> workspace \<Rightarrow> string \<times> workspace" where
  "base_digest sha g base p f w =
     (case map_of (wk_base_cache w) (g, p, fd_stamp f) of
        Some (cached_base, cached) \<Rightarrow>
          (if cached_base = base then (cached, w)
           else (let d = hexdigest sha (fd_bytes f)
                 in (d, w\<lparr>wk_base_cache := fifo 8 (dput (g, p, fd_stamp f) (base, d) (wk_base_cache w))\<rparr>)))
      | None \<Rightarrow>
          (let d = hexdigest sha (fd_bytes f)
           in (d, w\<lparr>wk_base_cache := fifo 8 (dput (g, p, fd_stamp f) (base, d) (wk_base_cache w))\<rparr>)))"

type_synonym validated_base = "manifest \<times> path \<times> string"

definition base_snapshot ::
  "(bytes \<Rightarrow> bytes) \<Rightarrow> string \<Rightarrow> workspace \<Rightarrow> (workspace_error + validated_base) \<times> workspace" where
  "base_snapshot sha g w =
     (case read_manifest g w of
        (Inl e, w1) \<Rightarrow> (Inl e, w1)
      | (Inr base, w1) \<Rightarrow>
          (case check_base sha g base w1 of
             Inl e \<Rightarrow> (Inl e, w1)
           | Inr p \<Rightarrow>
               (case file_at w1 p of
                  None \<Rightarrow> (Inl Base_artifact_missing, w1)
                | Some f \<Rightarrow>
                    (case base_digest sha g base p f w1 of
                       (actual, w2) \<Rightarrow>
                         (if actual \<noteq> mf_snapshot_sha256 base then (Inl Base_digest_mismatch, w2)
                          else (Inr (base, p, actual), w2))))))"

definition validate_delta_base ::
  "string \<Rightarrow> delta \<Rightarrow> manifest \<Rightarrow> string \<Rightarrow> string option \<Rightarrow> workspace_error + unit" where
  "validate_delta_base g d base snapshot_sha256 config_fingerprint =
     (if dl_base_generation d \<noteq> g then Inl Base_generation_mismatch
      else if dl_base_commit d \<noteq> mf_commit base then Inl Base_commit_mismatch
      else if dl_base_config_fingerprint d \<noteq> mf_config_fingerprint base then Inl Config_fingerprint_mismatch
      else if config_fingerprint \<noteq> None \<and> config_fingerprint \<noteq> Some (mf_config_fingerprint base)
        then Inl Config_fingerprint_mismatch
      else if dl_base_schema d \<noteq> mf_schema base \<or> dl_base_snapshot_sha256 d \<noteq> snapshot_sha256
        then Inl Base_digest_mismatch
      else Inr ())"

section \<open>Loading\<close>

definition load_delta ::
  "(bytes \<Rightarrow> bytes) \<Rightarrow> string \<Rightarrow> string \<Rightarrow> workspace \<Rightarrow> (workspace_error + delta) \<times> workspace" where
  "load_delta sha worktree_id g w =
     (case ebind (check_worktree_id worktree_id) (\<lambda>_. generation_id g) of
        Inl e \<Rightarrow> (Inl e, w)
      | Inr _ \<Rightarrow>
          (case file_at w (delta_path w worktree_id g) of
             None \<Rightarrow> (Inl Delta_missing, w)
           | Some f \<Rightarrow>
               (case map_of (wk_delta_cache w) (worktree_id, g, fd_stamp f) of
                  Some cached \<Rightarrow> (Inr cached, w)
                | None \<Rightarrow>
                    (case delta_of_bytes sha worktree_id g (fd_bytes f) of
                       Inl e \<Rightarrow> (Inl e, w)
                     | Inr d \<Rightarrow>
                         (Inr d, w\<lparr>wk_delta_cache := fifo 16 (dput (worktree_id, g, fd_stamp f) d (wk_delta_cache w))\<rparr>)))))"

section \<open>Creating\<close>

definition normal_paths :: "string list option \<Rightarrow> workspace_error + string list option" where
  "normal_paths changed_paths =
     (case changed_paths of
        None \<Rightarrow> Inr None
      | Some ps \<Rightarrow> ebind (emap normal_path ps) (\<lambda>ns. Inr (Some (sorted_set ns))))"

fun requested_paths :: "workspace \<Rightarrow> string list \<Rightarrow> workspace_error + (string, path) dict" where
  "requested_paths w [] = Inr []"
| "requested_paths w (relative # rs) =
     (let p = join_path (wk_root w) relative in
      if relative_to (wk_root w) p = None then Inl Delta_path_invalid
      else ebind (requested_paths w rs) (\<lambda>found.
             Inr (if file_at w p \<noteq> None \<and> has_source_suffix p then (relative, p) # found else found)))"

definition current_paths :: "workspace \<Rightarrow> string list option \<Rightarrow> workspace_error + (string, path) dict" where
  "current_paths w requested =
     (case requested of
        None \<Rightarrow> Inr (map (\<lambda>rel. (as_posix rel, wk_root w @ rel)) (source_files w))
      | Some rs \<Rightarrow> requested_paths w rs)"

fun delta_changes ::
  "(bytes \<Rightarrow> bytes) \<Rightarrow> workspace_env \<Rightarrow> (string, string) dict \<Rightarrow> (string, path) dict \<Rightarrow> string list \<Rightarrow> workspace \<Rightarrow>
     (workspace_error + changes) \<times> workspace" where
  "delta_changes sha env base current [] w = (Inr [], w)"
| "delta_changes sha env base current (relative # rs) w =
     (case map_of current relative of
        None \<Rightarrow>
          (case delta_changes sha env base current rs w of
             (Inl e, w1) \<Rightarrow> (Inl e, w1)
           | (Inr changed, w1) \<Rightarrow>
               (Inr (if map_of base relative \<noteq> None then (relative, tombstone_record) # changed else changed), w1))
      | Some p \<Rightarrow>
          (case source_hash sha p w of
             (Inl e, w1) \<Rightarrow> (Inl e, w1)
           | (Inr digest, w1) \<Rightarrow>
               (if map_of base relative = Some digest then delta_changes sha env base current rs w1
                else
                  (case Option.bind (file_at w1 p) (\<lambda>f. we_parse env relative (fd_bytes f)) of
                     None \<Rightarrow> (Inl Source_unparsable, w1)
                   | Some symbols \<Rightarrow>
                       (case delta_changes sha env base current rs w1 of
                          (Inl e, w2) \<Rightarrow> (Inl e, w2)
                        | (Inr changed, w2) \<Rightarrow> (Inr ((relative, changed_record digest symbols) # changed), w2))))))"

definition new_delta ::
  "(bytes \<Rightarrow> bytes) \<Rightarrow> workspace_env \<Rightarrow> string \<Rightarrow> manifest \<Rightarrow> string \<Rightarrow> string \<Rightarrow> changes \<Rightarrow> delta" where
  "new_delta sha env g base snapshot_sha256 worktree_id changed =
     (let d = \<lparr>dl_schema = DELTA_SCHEMA, dl_generation = [], dl_base_generation = g, dl_base_commit = mf_commit base,
               dl_base_config_fingerprint = mf_config_fingerprint base, dl_base_schema = mf_schema base,
               dl_base_snapshot_sha256 = snapshot_sha256, dl_worktree_id = worktree_id, dl_changed = changed,
               dl_created_at = we_now env, dl_sha256 = []\<rparr>;
          generation = json_digest sha (delta_identity d)
      in d\<lparr>dl_generation := generation, dl_sha256 := generation\<rparr>)"

definition store_delta ::
  "(bytes \<Rightarrow> bytes) \<Rightarrow> string \<Rightarrow> string \<Rightarrow> delta \<Rightarrow> workspace \<Rightarrow> (workspace_error + delta) \<times> workspace" where
  "store_delta sha g worktree_id d w =
     (let p = delta_path w worktree_id (dl_generation d);
          write = (\<lambda>w1. (Inr d, write_receipt ''delta''
             [(''base_generation'', JStr g), (''delta_generation'', JStr (dl_generation d)),
              (''worktree_id'', JStr worktree_id), (''changed_files'', changed_files (dl_changed d))]
             (write_json p (delta_json d) w1)))
      in if file_at w p \<noteq> None then
           (case load_delta sha worktree_id (dl_generation d) w of
              (Inr stored, w1) \<Rightarrow> (Inr stored, w1)
            | (Inl _, w1) \<Rightarrow> write w1)
         else write w)"

definition create_delta_on ::
  "(bytes \<Rightarrow> bytes) \<Rightarrow> workspace_env \<Rightarrow> string \<Rightarrow> string \<Rightarrow> string list option \<Rightarrow> string option \<Rightarrow> validated_base \<Rightarrow>
     workspace \<Rightarrow> (workspace_error + delta) \<times> workspace" where
  "create_delta_on sha env g worktree_id changed_paths config_fingerprint validated w =
     (case validated of (base, _, snapshot_sha256) \<Rightarrow>
        if config_fingerprint \<noteq> None \<and> config_fingerprint \<noteq> Some (mf_config_fingerprint base)
        then (Inl Config_fingerprint_mismatch, w)
        else
          (case ebind (normal_paths changed_paths) (\<lambda>requested.
                ebind (current_paths w requested) (\<lambda>current.
                (case filter (\<lambda>p. map_of current p = None \<and> map_of (mf_source_hashes base) p = None)
                        (case requested of None \<Rightarrow> [] | Some rs \<Rightarrow> rs) of
                   missing # _ \<Rightarrow> Inl (Delta_path_missing missing)
                 | [] \<Rightarrow> Inr (requested, current)))) of
             Inl e \<Rightarrow> (Inl e, w)
           | Inr (requested, current) \<Rightarrow>
               (let candidates = (case requested of None \<Rightarrow> sorted_set (keys current @ keys (mf_source_hashes base))
                                  | Some rs \<Rightarrow> rs)
                in case delta_changes sha env (mf_source_hashes base) current candidates w of
                     (Inl e, w1) \<Rightarrow> (Inl e, w1)
                   | (Inr changed, w1) \<Rightarrow>
                       (case check_delta (new_delta sha env g base snapshot_sha256 worktree_id changed) of
                          Inl e \<Rightarrow> (Inl e, w1)
                        | Inr d \<Rightarrow> store_delta sha g worktree_id d w1))))"

definition create_delta ::
  "(bytes \<Rightarrow> bytes) \<Rightarrow> workspace_env \<Rightarrow> string \<Rightarrow> string \<Rightarrow> string list option \<Rightarrow> string option \<Rightarrow> workspace \<Rightarrow>
     (workspace_error + delta) \<times> workspace" where
  "create_delta sha env g worktree_id changed_paths config_fingerprint w =
     (case check_worktree_id worktree_id of
        Inl e \<Rightarrow> (Inl e, w)
      | Inr _ \<Rightarrow>
          (case base_snapshot sha g w of
             (Inl e, w1) \<Rightarrow> (Inl e, w1)
           | (Inr validated, w1) \<Rightarrow> create_delta_on sha env g worktree_id changed_paths config_fingerprint validated w1))"

section \<open>Composing\<close>

definition composed_hashes :: "(string, string) dict \<Rightarrow> changes \<Rightarrow> (string, string) dict" where
  "composed_hashes base changed =
     fold (\<lambda>(p, r) hashes.
       if truthy (field_or_null r ''tombstone'') then dpop p hashes
       else dput p (py_str (field_or_null r ''sha256'')) hashes) changed base"

text \<open>The hashes of the files in scope; a path in scope that is no source file has none.\<close>

fun scoped_hashes ::
  "(bytes \<Rightarrow> bytes) \<Rightarrow> string list \<Rightarrow> workspace \<Rightarrow> (workspace_error + (string, string) dict) \<times> workspace" where
  "scoped_hashes sha [] w = (Inr [], w)"
| "scoped_hashes sha (relative # rs) w =
     (let p = join_path (wk_root w) relative in
      if file_at w p \<noteq> None \<and> has_source_suffix p then
        (case source_hash sha p w of
           (Inl e, w1) \<Rightarrow> (Inl e, w1)
         | (Inr digest, w1) \<Rightarrow>
             (case scoped_hashes sha rs w1 of
                (Inl e, w2) \<Rightarrow> (Inl e, w2)
              | (Inr hashes, w2) \<Rightarrow> (Inr ((relative, digest) # hashes), w2)))
      else scoped_hashes sha rs w)"

definition worktree_hashes ::
  "(bytes \<Rightarrow> bytes) \<Rightarrow> string list option \<Rightarrow> workspace \<Rightarrow> (workspace_error + (string, string) dict) \<times> workspace" where
  "worktree_hashes sha scope w =
     (case scope of None \<Rightarrow> current_hashes sha w | Some rs \<Rightarrow> scoped_hashes sha rs w)"

definition source_mismatch ::
  "string list option \<Rightarrow> delta \<Rightarrow> (string, string) dict \<Rightarrow> (string, string) dict \<Rightarrow> workspace_error option" where
  "source_mismatch scope d current expected =
     (case filter (\<lambda>p. map_of current p \<noteq> map_of expected p)
             (case scope of None \<Rightarrow> sorted_set (keys current @ keys expected) | Some rs \<Rightarrow> rs) of
        [] \<Rightarrow> None
      | p # _ \<Rightarrow> Some (if map_of (dl_changed d) p = None then Delta_source_unlisted p else Delta_source_stale p))"

definition validate_composed ::
  "(bytes \<Rightarrow> bytes) \<Rightarrow> manifest \<Rightarrow> delta \<Rightarrow> string list option \<Rightarrow> workspace \<Rightarrow>
     (workspace_error + (string, string) dict) \<times> workspace" where
  "validate_composed sha base d scope w =
     (case worktree_hashes sha scope w of
        (Inl e, w1) \<Rightarrow> (Inl e, w1)
      | (Inr current, w1) \<Rightarrow>
          (case source_mismatch scope d current (composed_hashes (mf_source_hashes base) (dl_changed d)) of
             Some e \<Rightarrow> (Inl e, w1)
           | None \<Rightarrow> (Inr current, w1)))"

definition delta_overlay :: "string \<Rightarrow> string \<Rightarrow> delta \<Rightarrow> overlay" where
  "delta_overlay g worktree_id d =
     \<lparr>ov_schema = OVERLAY_SCHEMA, ov_generation = dl_generation d, ov_base_generation = g,
      ov_worktree_id = worktree_id, ov_changed = map (\<lambda>(p, r). (p, JObj r)) (dl_changed d),
      ov_created_at = dl_created_at d\<rparr>"

definition compose_delta_on ::
  "(bytes \<Rightarrow> bytes) \<Rightarrow> workspace_env \<Rightarrow> string \<Rightarrow> string \<Rightarrow> string \<Rightarrow> string option \<Rightarrow> string list option \<Rightarrow>
     validated_base \<Rightarrow> workspace \<Rightarrow> (workspace_error + effective_snapshot) \<times> workspace" where
  "compose_delta_on sha env g worktree_id delta_generation config_fingerprint changed_paths validated w =
     (case validated of (base, snapshot_path, snapshot_sha256) \<Rightarrow>
       (case load_delta sha worktree_id delta_generation w of
          (Inl e, w1) \<Rightarrow> (Inl e, w1)
        | (Inr d, w1) \<Rightarrow>
            ebind_state (ebind (validate_delta_base g d base snapshot_sha256 config_fingerprint) (\<lambda>_. normal_paths changed_paths))
              w1 (\<lambda>scope.
                (case validate_composed sha base d scope w1 of
                   (Inl e, w2) \<Rightarrow> (Inl e, w2)
                 | (Inr _, w2) \<Rightarrow> (open_snapshot_file env w2 snapshot_path base (Some (delta_overlay g worktree_id d)), w2)))))"

definition compose_delta ::
  "(bytes \<Rightarrow> bytes) \<Rightarrow> workspace_env \<Rightarrow> string \<Rightarrow> string \<Rightarrow> string \<Rightarrow> string option \<Rightarrow> string list option \<Rightarrow>
     workspace \<Rightarrow> (workspace_error + effective_snapshot) \<times> workspace" where
  "compose_delta sha env g worktree_id delta_generation config_fingerprint changed_paths w =
     (case base_snapshot sha g w of
        (Inl e, w1) \<Rightarrow> (Inl e, w1)
      | (Inr validated, w1) \<Rightarrow>
          compose_delta_on sha env g worktree_id delta_generation config_fingerprint changed_paths validated w1)"

section \<open>Handoff\<close>

record handoff_report =
  ho_parity :: bool
  ho_full_scope :: bool
  ho_delta_generation :: string
  ho_source_tree_sha256 :: string
  ho_target_tree_sha256 :: string
  ho_file_count :: nat
  ho_symbol_count :: "nat option"
  ho_changed_paths :: "string list"
  ho_files_parsed :: nat
  ho_cache_reuse :: nat

definition handoff_delta ::
  "(bytes \<Rightarrow> bytes) \<Rightarrow> workspace_env \<Rightarrow> string \<Rightarrow> string \<Rightarrow> string list option \<Rightarrow> string option \<Rightarrow> string option \<Rightarrow>
     validated_base \<Rightarrow> workspace \<Rightarrow> (workspace_error + delta) \<times> workspace" where
  "handoff_delta sha env g worktree_id scope delta_generation config_fingerprint validated w =
     (case delta_generation of
        Some (c # dg) \<Rightarrow> load_delta sha worktree_id (c # dg) w
      | _ \<Rightarrow>
          ebind_state (check_worktree_id worktree_id) w (\<lambda>_.
            create_delta_on sha env g worktree_id scope config_fingerprint validated w))"

text \<open>A scoped handoff checks the snapshot, the base of the delta and, unless nothing changed, the sources.\<close>

definition handoff_checks ::
  "(bytes \<Rightarrow> bytes) \<Rightarrow> workspace_env \<Rightarrow> string \<Rightarrow> string list option \<Rightarrow> string option \<Rightarrow> validated_base \<Rightarrow> delta \<Rightarrow>
     workspace \<Rightarrow> (workspace_error + (string, string) dict option) \<times> workspace" where
  "handoff_checks sha env g scope config_fingerprint validated d w =
     (case (validated, scope) of
        (_, None) \<Rightarrow> (Inr None, w)
      | ((base, p, snapshot_sha256), Some rs) \<Rightarrow>
          (case validate_snapshot env p snapshot_sha256 w of
             (Inl e, w1) \<Rightarrow> (Inl e, w1)
           | (Inr _, w1) \<Rightarrow>
               ebind_state (validate_delta_base g d base snapshot_sha256 config_fingerprint) w1 (\<lambda>_.
                 if dl_changed d = [] then (Inr None, w1)
                 else
                   (case validate_composed sha base d scope w1 of
                      (Inl e, w2) \<Rightarrow> (Inl e, w2)
                    | (Inr current, w2) \<Rightarrow> (Inr (Some current), w2)))))"

definition handoff_symbols ::
  "(bytes \<Rightarrow> bytes) \<Rightarrow> workspace_env \<Rightarrow> string \<Rightarrow> string \<Rightarrow> string list option \<Rightarrow> string option \<Rightarrow> validated_base \<Rightarrow>
     delta \<Rightarrow> workspace \<Rightarrow> (workspace_error + nat option) \<times> workspace" where
  "handoff_symbols sha env g worktree_id scope config_fingerprint validated d w =
     (case scope of
        Some _ \<Rightarrow> (Inr None, w)
      | None \<Rightarrow>
          (case compose_delta_on sha env g worktree_id (dl_generation d) config_fingerprint scope validated w of
             (Inl e, w1) \<Rightarrow> (Inl e, w1)
           | (Inr composed, w1) \<Rightarrow>
               (ebind (ws_escape (effective_symbols composed)) (\<lambda>symbols. Inr (Some (length symbols))), w1)))"

definition handoff_report_of ::
  "(bytes \<Rightarrow> bytes) \<Rightarrow> workspace_env \<Rightarrow> manifest \<Rightarrow> string list option \<Rightarrow> delta \<Rightarrow> nat \<Rightarrow> nat option \<Rightarrow>
     (string, string) dict \<Rightarrow> (string, string) dict \<Rightarrow> handoff_report" where
  "handoff_report_of sha env base scope d count symbols current target =
     (let unchanged = (scope \<noteq> None \<and> dl_changed d = []);
          hashes = mf_source_hashes base;
          merged = (if unchanged then hashes else composed_hashes hashes (dl_changed d))
      in \<lparr>ho_parity = (case scope of None \<Rightarrow> same_dict merged target
             | Some rs \<Rightarrow> list_all (\<lambda>p. map_of current p = map_of merged p) rs),
          ho_full_scope = (scope = None), ho_delta_generation = dl_generation d,
          ho_source_tree_sha256 = (if unchanged then mf_source_tree_sha256 base else json_digest sha (hashes_object merged)),
          ho_target_tree_sha256 = json_digest sha (hashes_object target), ho_file_count = count,
          ho_symbol_count = symbols, ho_changed_paths = sort (keys (dl_changed d)),
          ho_files_parsed = length (filter (\<lambda>(_, r). \<not> truthy (field_or_null r ''tombstone'')) (dl_changed d)),
          ho_cache_reuse = (if unchanged then length hashes
             else length (filter (\<lambda>p. p \<notin> set (keys (dl_changed d))) (keys hashes)))\<rparr>)"

definition parity_target ::
  "workspace_env \<Rightarrow> string list option \<Rightarrow> path option \<Rightarrow> (string, string) dict \<Rightarrow> workspace \<Rightarrow>
     workspace_error + (string, string) dict" where
  "parity_target env scope parity_snapshot current w =
     (case parity_snapshot of
        None \<Rightarrow> Inr current
      | Some p \<Rightarrow>
          (case file_at w p of
             None \<Rightarrow> Inl Path_not_found
           | Some f \<Rightarrow>
               (if \<not> we_opens env (fd_bytes f) then Inl Base_artifact_invalid
                else Inr (filter (\<lambda>(q, _). case scope of None \<Rightarrow> True | Some rs \<Rightarrow> q \<in> set rs)
                            (we_files env (fd_bytes f))))))"

definition handoff ::
  "(bytes \<Rightarrow> bytes) \<Rightarrow> workspace_env \<Rightarrow> string \<Rightarrow> string \<Rightarrow> string list option \<Rightarrow> string option \<Rightarrow> string option \<Rightarrow>
     path option \<Rightarrow> workspace \<Rightarrow> (workspace_error + handoff_report) \<times> workspace" where
  "handoff sha env g worktree_id changed_paths delta_generation config_fingerprint parity_snapshot w =
     ebind_state (normal_paths changed_paths) w (\<lambda>scope.
       (case base_snapshot sha g w of
          (Inl e, w1) \<Rightarrow> (Inl e, w1)
        | (Inr (base, p, snapshot_sha256), w1) \<Rightarrow>
            ebind_state
              (case scope of
                 Some _ \<Rightarrow> Inr (length (mf_source_hashes base))
               | None \<Rightarrow> ebind (open_snapshot_file env w1 p base None) (\<lambda>_.
                   Inr (case file_at w1 p of None \<Rightarrow> 0 | Some f \<Rightarrow> length (we_files env (fd_bytes f)))))
              w1 (\<lambda>count.
              (case handoff_delta sha env g worktree_id scope delta_generation config_fingerprint
                      (base, p, snapshot_sha256) w1 of
                 (Inl e, w2) \<Rightarrow> (Inl e, w2)
               | (Inr d, w2) \<Rightarrow>
                   (case handoff_checks sha env g scope config_fingerprint (base, p, snapshot_sha256) d w2 of
                      (Inl e, w3) \<Rightarrow> (Inl e, w3)
                    | (Inr validated_current, w3) \<Rightarrow>
                        (case handoff_symbols sha env g worktree_id scope config_fingerprint
                                (base, p, snapshot_sha256) d w3 of
                           (Inl e, w4) \<Rightarrow> (Inl e, w4)
                         | (Inr symbols, w4) \<Rightarrow>
                             (case (case validated_current of Some c \<Rightarrow> (Inr c, w4)
                                    | None \<Rightarrow> worktree_hashes sha scope w4) of
                                (Inl e, w5) \<Rightarrow> (Inl e, w5)
                              | (Inr current, w5) \<Rightarrow>
                                  ebind_state (parity_target env scope parity_snapshot current w5) w5 (\<lambda>target.
                                    (Inr (handoff_report_of sha env base scope d count symbols current target), w5)))))))))"

end
