(* ===== verification/WorkspaceOps.thy ===== *)
theory WorkspaceOps
  imports Delta
begin

text \<open>
  The operations of \<open>workspace.py\<close> and \<open>delta.py\<close> in any order.  Each leaves a workspace whose caches tell
  what the files say, so that every read answers as if there were no cache.
\<close>

section \<open>Reads answer what the files say\<close>

lemma quiet_git:
  assumes "quiet w w'"
  shows "is_dir w' p = is_dir w p" "read_text w' p = read_text w p" "git_dir w' p = git_dir w p"
    "git_common_dir w' p = git_common_dir w p" "git_commit w' p = git_commit w p"
proof -
  show d: "is_dir w' p = is_dir w p" for p using assms by (simp add: is_dir_def quiet_def)
  show t: "read_text w' p = read_text w p" for p using assms by (simp add: read_text_def quiet_simps)
  show g: "git_dir w' p = git_dir w p" for p unfolding git_dir_def d t ..
  show c: "git_common_dir w' p = git_common_dir w p" for p unfolding git_common_dir_def d t g ..
  show "git_commit w' p = git_commit w p" unfolding git_commit_def t g c ..
qed

lemma quiet_check_base: "quiet w w' \<Longrightarrow> check_base sha g base w' = check_base sha g base w"
proof -
  assume q: "quiet w w'"
  then have git: "git_common_dir w' = git_common_dir w" "git_commit w' = git_commit w"
    and rest: "wk_root w' = wk_root w" "base_dir w' = base_dir w" "file_at w' = file_at w"
    by (auto simp: quiet_git quiet_simps)
  show "check_base sha g base w' = check_base sha g base w"
    unfolding check_base_def same_base_repository_def git rest ..
qed

lemma base_digest_true:
  assumes ok: "workspace_ok sha w" and f: "file_at w p = Some f"
  shows "\<exists>w'. base_digest sha g base p f w = (hexdigest sha (fd_bytes f), w') \<and> workspace_ok sha w' \<and> quiet w w'"
proof -
  let ?c = "fifo 8 (dput (g, p, fd_stamp f) (base, hexdigest sha (fd_bytes f)) (wk_base_cache w))"
  have "base_cache.coherent sha w ?c"
    using ok f fresh_stamp [OF ok f] by (intro base_cache.coherent_add) (auto simp: workspace_ok_def)
  with ok have add: "workspace_ok sha (w\<lparr>wk_base_cache := ?c\<rparr>)" "quiet w (w\<lparr>wk_base_cache := ?c\<rparr>)"
    by (simp_all add: workspace_ok_def quiet_def)
  show ?thesis
  proof (cases "map_of (wk_base_cache w) (g, p, fd_stamp f)")
    case None
    with add show ?thesis by (auto simp: base_digest_def Let_def)
  next
    case (Some cached)
    obtain m d where c: "cached = (m, d)" by (cases cached)
    have "d = hexdigest sha (fd_bytes f)"
      using base_cache.coherent_holds [of sha w "wk_base_cache w" "(g, p, fd_stamp f)" cached f] ok f Some c
      by (simp add: workspace_ok_def)
    with Some c add ok show ?thesis by (auto simp: base_digest_def Let_def)
  qed
qed

definition true_base :: "(bytes \<Rightarrow> bytes) \<Rightarrow> workspace \<Rightarrow> string \<Rightarrow> workspace_error + validated_base" where
  "true_base sha w g =
     ebind (true_manifest w g) (\<lambda>base.
     ebind (check_base sha g base w) (\<lambda>p.
       (case file_at w p of
          None \<Rightarrow> Inl Base_artifact_missing
        | Some f \<Rightarrow>
            (if hexdigest sha (fd_bytes f) \<noteq> mf_snapshot_sha256 base then Inl Base_digest_mismatch
             else Inr (base, p, hexdigest sha (fd_bytes f))))))"

lemma base_snapshot_true:
  assumes ok: "workspace_ok sha w"
  shows "\<exists>w'. base_snapshot sha g w = (true_base sha w g, w') \<and> workspace_ok sha w' \<and> quiet w w'"
proof -
  obtain w1 where w1: "read_manifest g w = (true_manifest w g, w1)" "workspace_ok sha w1" "quiet w w1"
    using read_manifest_true [OF ok] by blast
  note same = quiet_check_base [OF w1(3)] quiet_file_at [OF w1(3)]
  show ?thesis
  proof (cases "\<exists>base p f. true_manifest w g = Inr base \<and> check_base sha g base w = Inr p \<and> file_at w p = Some f")
    case True
    then obtain base p f where
      b: "true_manifest w g = Inr base" "check_base sha g base w = Inr p" "file_at w p = Some f" by blast
    obtain w2 where "base_digest sha g base p f w1 = (hexdigest sha (fd_bytes f), w2)" "workspace_ok sha w2" "quiet w1 w2"
      using base_digest_true [OF w1(2), of p f g base] b(3) same by auto
    moreover from this w1 have "quiet w w2" by (blast intro: quiet_trans)
    ultimately show ?thesis using b w1 same by (simp add: base_snapshot_def true_base_def)
  next
    case False
    with w1 same show ?thesis
      by (auto simp: base_snapshot_def true_base_def split: sum.split option.split)
  qed
qed

definition true_delta :: "(bytes \<Rightarrow> bytes) \<Rightarrow> workspace \<Rightarrow> string \<Rightarrow> string \<Rightarrow> workspace_error + delta" where
  "true_delta sha w worktree_id g =
     ebind (check_worktree_id worktree_id) (\<lambda>_.
     ebind (generation_id g) (\<lambda>_.
       (case file_at w (delta_path w worktree_id g) of
          None \<Rightarrow> Inl Delta_missing
        | Some f \<Rightarrow> delta_of_bytes sha worktree_id g (fd_bytes f))))"

lemma load_delta_true:
  assumes ok: "workspace_ok sha w"
  shows "\<exists>w'. load_delta sha t g w = (true_delta sha w t g, w') \<and> workspace_ok sha w' \<and> quiet w w'"
proof (cases "check_worktree_id t = Inr t \<and> generation_id g = Inr g \<and> file_at w (delta_path w t g) \<noteq> None")
  case True
  then obtain f where g: "check_worktree_id t = Inr t" "generation_id g = Inr g"
    and f: "file_at w (delta_path w t g) = Some f" by auto
  let ?k = "(t, g, fd_stamp f)"
  have path: "file_at w (wk_storage w @ [''deltas'', t, g @ ''.json'']) = Some f" using f by (simp add: delta_path_def)
  show ?thesis
  proof (cases "map_of (wk_delta_cache w) ?k")
    case None
    show ?thesis
    proof (cases "delta_of_bytes sha t g (fd_bytes f)")
      case (Inl e)
      with ok g f None show ?thesis by (simp add: load_delta_def true_delta_def)
    next
      case (Inr d)
      let ?c = "fifo 16 (dput ?k d (wk_delta_cache w))"
      have "delta_cache.coherent (wk_storage w) sha w ?c"
        using ok path fresh_stamp [OF ok f] Inr by (intro delta_cache.coherent_add) (auto simp: workspace_ok_def)
      with ok have "workspace_ok sha (w\<lparr>wk_delta_cache := ?c\<rparr>)" by (simp add: workspace_ok_def)
      moreover have "load_delta sha t g w = (true_delta sha w t g, w\<lparr>wk_delta_cache := ?c\<rparr>)"
        using g f None Inr by (simp add: load_delta_def true_delta_def)
      ultimately show ?thesis by (auto simp: quiet_def)
    qed
  next
    case (Some d)
    have "delta_of_bytes sha t g (fd_bytes f) = Inr d"
      using delta_cache.coherent_holds [of "wk_storage w" sha w "wk_delta_cache w" ?k d f] ok path Some
      by (simp add: workspace_ok_def)
    with ok g f Some show ?thesis by (simp add: load_delta_def true_delta_def)
  qed
next
  case False
  with ok show ?thesis
    by (auto simp: load_delta_def true_delta_def generation_id_def check_worktree_id_def)
qed

text \<open>What creation records of one path.\<close>

definition delta_entry ::
  "(bytes \<Rightarrow> bytes) \<Rightarrow> workspace_env \<Rightarrow> workspace \<Rightarrow> (string, string) dict \<Rightarrow> (string, path) dict \<Rightarrow> string \<Rightarrow>
     workspace_error + changes" where
  "delta_entry sha env w base current relative =
     (case map_of current relative of
        None \<Rightarrow> Inr (if map_of base relative \<noteq> None then [(relative, tombstone_record)] else [])
      | Some p \<Rightarrow>
          ebind (true_hash sha w p) (\<lambda>digest.
            if map_of base relative = Some digest then Inr []
            else (case Option.bind (file_at w p) (\<lambda>f. we_parse env relative (fd_bytes f)) of
                    None \<Rightarrow> Inl Source_unparsable
                  | Some symbols \<Rightarrow> Inr [(relative, changed_record digest symbols)])))"

lemma quiet_delta_entry: "quiet w w' \<Longrightarrow> delta_entry sha env w' = delta_entry sha env w"
proof -
  assume "quiet w w'"
  then have same: "file_at w' = file_at w" by (auto simp: quiet_file_at)
  show "delta_entry sha env w' = delta_entry sha env w" unfolding delta_entry_def true_hash_def same ..
qed

lemma delta_changes_true:
  "workspace_ok sha w \<Longrightarrow>
     \<exists>w'. delta_changes sha env base current rs w =
       (ebind (emap (delta_entry sha env w base current) rs) (\<lambda>cs. Inr (concat cs)), w') \<and>
       workspace_ok sha w' \<and> quiet w w'"
proof (induction rs arbitrary: w)
  case (Cons r rs)
  have rest: "\<exists>w'. delta_changes sha env base current rs w1 =
      (ebind (emap (delta_entry sha env w base current) rs) (\<lambda>cs. Inr (concat cs)), w') \<and> workspace_ok sha w' \<and> quiet w w'"
    if "workspace_ok sha w1" "quiet w w1" for w1
    using Cons.IH [OF that(1)] quiet_delta_entry [OF that(2)] quiet_trans [OF that(2)] by metis
  show ?case
  proof (cases "map_of current r")
    case None
    then have e: "delta_entry sha env w base current r =
        Inr (if map_of base r \<noteq> None then [(r, tombstone_record)] else [])"
      by (simp add: delta_entry_def)
    obtain w2 where "delta_changes sha env base current rs w =
        (ebind (emap (delta_entry sha env w base current) rs) (\<lambda>cs. Inr (concat cs)), w2)" "workspace_ok sha w2" "quiet w w2"
      using rest [OF Cons.prems quiet_refl] by blast
    then show ?thesis
      using None e by (cases "emap (delta_entry sha env w base current) rs") auto
  next
    case (Some p)
    obtain w1 where w1: "source_hash sha p w = (true_hash sha w p, w1)" "workspace_ok sha w1" "quiet w w1"
      using source_hash_true [OF Cons.prems] by blast
    obtain w2 where w2: "delta_changes sha env base current rs w1 =
        (ebind (emap (delta_entry sha env w base current) rs) (\<lambda>cs. Inr (concat cs)), w2)" "workspace_ok sha w2" "quiet w w2"
      using rest [OF w1(2,3)] by blast
    show ?thesis
    proof (cases "true_hash sha w p")
      case (Inl e)
      with Some w1 show ?thesis by (simp add: delta_entry_def)
    next
      case (Inr digest)
      show ?thesis
      proof (cases "map_of base r = Some digest")
        case True
        have "delta_changes sha env base current (r # rs) w = delta_changes sha env base current rs w1"
          using Some w1 Inr True by simp
        moreover have "ebind (emap (delta_entry sha env w base current) (r # rs)) (\<lambda>cs. Inr (concat cs)) =
            ebind (emap (delta_entry sha env w base current) rs) (\<lambda>cs. Inr (concat cs))"
          using Some Inr True by (simp add: delta_entry_def ebind_def split: sum.split)
        ultimately show ?thesis using w2 by simp
      next
        case False
        show ?thesis
        proof (cases "Option.bind (file_at w p) (\<lambda>f. we_parse env r (fd_bytes f))")
          case None
          with Some w1 Inr False show ?thesis by (simp add: delta_entry_def quiet_file_at)
        next
          case (Some symbols)
          then have "delta_changes sha env base current (r # rs) w =
              (ebind (emap (delta_entry sha env w base current) (r # rs)) (\<lambda>cs. Inr (concat cs)), w2)"
            using \<open>map_of current r = Some p\<close> w1 w2 Inr False
            by (simp add: delta_entry_def quiet_file_at ebind_def split: sum.split)
          with w2 show ?thesis by blast
        qed
      qed
    qed
  qed
qed simp

lemma scoped_hashes_quiet:
  "workspace_ok sha w \<Longrightarrow> workspace_ok sha (snd (scoped_hashes sha rs w)) \<and> quiet w (snd (scoped_hashes sha rs w))"
proof (induction rs arbitrary: w)
  case (Cons r rs)
  let ?p = "join_path (wk_root w) r"
  obtain w1 where w1: "source_hash sha ?p w = (true_hash sha w ?p, w1)" "workspace_ok sha w1" "quiet w w1"
    using source_hash_true [OF Cons.prems] by blast
  from Cons.IH [OF w1(2)] Cons.IH [OF Cons.prems] w1 show ?case
    by (auto simp: Let_def split: sum.split prod.split intro: quiet_trans)
qed simp

lemma load_delta_keeps: "workspace_ok sha w \<Longrightarrow> keeps sha w (load_delta sha t g w)"
  by (rule keeps_true [OF load_delta_true])

lemma base_snapshot_keeps: "workspace_ok sha w \<Longrightarrow> keeps sha w (base_snapshot sha g w)"
  by (rule keeps_true [OF base_snapshot_true])

lemma delta_changes_keeps: "workspace_ok sha w \<Longrightarrow> keeps sha w (delta_changes sha env base current rs w)"
  by (rule keeps_true [OF delta_changes_true])

lemma worktree_hashes_keeps: "workspace_ok sha w \<Longrightarrow> keeps sha w (worktree_hashes sha scope w)"
  using scoped_hashes_quiet
  by (auto simp: worktree_hashes_def current_hashes_keeps keeps_def same_place_quiet split: option.split
      dest: current_hashes_keeps)

lemma store_delta_keeps: "workspace_ok sha w \<Longrightarrow> keeps sha w (store_delta sha g t d w)"
  unfolding store_delta_def Let_def by (auto intro!: keeps_case load_delta_keeps keepsI)

lemma keeps_scope:
  fixes r :: "string list option \<times> (string, path) dict"
  shows "(\<And>x y. keeps sha w (f x y)) \<Longrightarrow> keeps sha w (case r of (x, y) \<Rightarrow> f x y)"
  by (cases r) simp

lemma create_delta_on_keeps: "workspace_ok sha w \<Longrightarrow> keeps sha w (create_delta_on sha env g t ps fp v w)"
  unfolding create_delta_on_def Let_def
  by (cases v) (auto intro!: keeps_scope keeps_case delta_changes_keeps keeps_from [OF _ store_delta_keeps] keepsI
      split: sum.split)

lemma create_delta_keeps: "workspace_ok sha w \<Longrightarrow> keeps sha w (create_delta sha env g t ps fp w)"
  unfolding create_delta_def
  by (auto intro!: keeps_case base_snapshot_keeps keeps_from [OF _ create_delta_on_keeps] keepsI split: sum.split)

lemma validate_composed_keeps: "workspace_ok sha w \<Longrightarrow> keeps sha w (validate_composed sha base d scope w)"
  unfolding validate_composed_def by (auto intro!: keeps_case worktree_hashes_keeps keepsI split: option.split)

lemma compose_delta_on_keeps: "workspace_ok sha w \<Longrightarrow> keeps sha w (compose_delta_on sha env g t dg fp ps v w)"
  unfolding compose_delta_on_def
  by (cases v) (auto intro!: keeps_case keeps_ebind load_delta_keeps keeps_from [OF _ validate_composed_keeps] keepsI)

lemma compose_delta_keeps: "workspace_ok sha w \<Longrightarrow> keeps sha w (compose_delta sha env g t dg fp ps w)"
  unfolding compose_delta_def
  by (auto intro!: keeps_case base_snapshot_keeps keeps_from [OF _ compose_delta_on_keeps] keepsI)

lemma handoff_delta_keeps: "workspace_ok sha w \<Longrightarrow> keeps sha w (handoff_delta sha env g t scope dg fp v w)"
  unfolding handoff_delta_def
  by (auto intro!: load_delta_keeps keeps_ebind create_delta_on_keeps split: option.split list.split)

lemma handoff_checks_keeps: "workspace_ok sha w \<Longrightarrow> keeps sha w (handoff_checks sha env g scope fp v d w)"
  unfolding handoff_checks_def
  by (cases v) (auto intro!: keeps_case keeps_ebind validate_snapshot_keeps keeps_from [OF _ validate_composed_keeps]
      keepsI split: option.split)

lemma handoff_symbols_keeps: "workspace_ok sha w \<Longrightarrow> keeps sha w (handoff_symbols sha env g t scope fp v d w)"
  unfolding handoff_symbols_def by (auto intro!: keeps_case compose_delta_on_keeps keepsI split: option.split)

lemma handoff_keeps:
  assumes ok: "workspace_ok sha w"
  shows "keeps sha w (handoff sha env g t ps dg fp parity w)"
proof -
  have "keeps sha w (case validated_current of Some c \<Rightarrow> (Inr c, w4) | None \<Rightarrow> worktree_hashes sha scope w4)"
    if "workspace_ok sha w4" "same_place w w4" for validated_current scope w4
    using that by (auto intro!: keepsI keeps_from [OF _ worktree_hashes_keeps] split: option.split)
  with ok show ?thesis
    unfolding handoff_def
    by (auto intro!: keeps_case keeps_ebind base_snapshot_keeps keeps_from [OF _ handoff_delta_keeps]
        keeps_from [OF _ handoff_checks_keeps] keeps_from [OF _ handoff_symbols_keeps] keepsI split: prod.split)
qed

section \<open>Operations in any order\<close>

datatype workspace_op =
    Write_file path bytes
  | Delete_file path
  | Hash_source path
  | Build_base json
  | Create_overlay string string
  | Refresh string string "string option"
  | Watch string string "(string, string) dict option"
  | Acquire_lease string string int string int
  | Release_lease string
  | Collect int bool
  | Create_delta string string "string list option" "string option"
  | Compose_delta string string string "string option" "string list option"
  | Handoff string string "string list option" "string option" "string option" "path option"

fun workspace_step :: "(bytes \<Rightarrow> bytes) \<Rightarrow> workspace_env \<times> workspace_op \<Rightarrow> workspace \<Rightarrow> workspace" where
  "workspace_step sha (env, Write_file p b) w = put_file p b w"
| "workspace_step sha (env, Delete_file p) w = remove_file p w"
| "workspace_step sha (env, Hash_source p) w = snd (source_hash sha p w)"
| "workspace_step sha (env, Build_base config) w = snd (build_base sha env config w)"
| "workspace_step sha (env, Create_overlay t g) w = snd (create_overlay sha env t g w)"
| "workspace_step sha (env, Refresh t g og) w = snd (refresh sha env t g og w)"
| "workspace_step sha (env, Watch t g previous) w = snd (watch_once sha env t g previous w)"
| "workspace_step sha (env, Acquire_lease g owner ttl i now) w = snd (acquire_lease g owner ttl i now w)"
| "workspace_step sha (env, Release_lease i) w = release_lease i w"
| "workspace_step sha (env, Collect now apply) w = snd (collect_base now apply w)"
| "workspace_step sha (env, Create_delta g t ps fp) w = snd (create_delta sha env g t ps fp w)"
| "workspace_step sha (env, Compose_delta g t dg fp ps) w = snd (compose_delta sha env g t dg fp ps w)"
| "workspace_step sha (env, Handoff g t ps dg fp parity) w = snd (handoff sha env g t ps dg fp parity w)"

definition new_workspace :: "path \<Rightarrow> path \<Rightarrow> workspace" where
  "new_workspace root storage =
     \<lparr>wk_root = root, wk_storage = storage, wk_files = [], wk_clock = 0, wk_base_exists = False, wk_source_cache = [],
      wk_manifest_cache = [], wk_base_cache = [], wk_snapshot_cache = [], wk_delta_cache = [], wk_receipts = []\<rparr>"

definition workspace_run :: "(bytes \<Rightarrow> bytes) \<Rightarrow> (workspace_env \<times> workspace_op) list \<Rightarrow> workspace \<Rightarrow> workspace" where
  "workspace_run sha ops w = fold (workspace_step sha) ops w"

lemma workspace_step_ok: "workspace_ok sha w \<Longrightarrow> workspace_ok sha (workspace_step sha eo w)"
proof -
  assume ok: "workspace_ok sha w"
  obtain env opn where eo: "eo = (env, opn)" by (cases eo)
  note all = source_hash_keeps build_base_keeps create_overlay_keeps refresh_keeps watch_once_keeps
    acquire_lease_keeps collect_base_keeps create_delta_keeps compose_delta_keeps handoff_keeps
  show ?thesis
    unfolding eo using all [OF ok] ok by (cases opn) (simp_all add: keeps_def release_lease_def)
qed

lemma workspace_run_ok: "workspace_ok sha w \<Longrightarrow> workspace_ok sha (workspace_run sha ops w)"
  unfolding workspace_run_def by (induction ops arbitrary: w) (auto simp: workspace_step_ok)

lemma new_workspace_ok [simp]: "workspace_ok sha (new_workspace root storage)"
  by (simp add: workspace_ok_def new_workspace_def)

text \<open>C3: The caches of a workspace are invisible.  After any sequence of builds, overlays, deltas, handoffs,
  leases, collections and writes or deletions of files by others, a source hash, a manifest, a validated
  base and a delta are what reading the files afresh gives, and no cache outgrows its bound.\<close>

theorem workspace_caches_are_invisible:
  "let w = workspace_run sha ops (new_workspace root storage) in
     fst (source_hash sha p w) = true_hash sha w p \<and> fst (read_manifest g w) = true_manifest w g \<and>
     fst (base_snapshot sha g w) = true_base sha w g \<and> fst (load_delta sha t dg w) = true_delta sha w t dg \<and>
     length (wk_source_cache w) \<le> 512 \<and> length (wk_manifest_cache w) \<le> 8 \<and> length (wk_base_cache w) \<le> 8 \<and>
     length (wk_snapshot_cache w) \<le> 8 \<and> length (wk_delta_cache w) \<le> 16"
proof -
  let ?w = "workspace_run sha ops (new_workspace root storage)"
  have ok: "workspace_ok sha ?w" by (rule workspace_run_ok [OF new_workspace_ok])
  then show ?thesis
    using source_hash_true [OF ok, of p] read_manifest_true [OF ok, of g] base_snapshot_true [OF ok, of g]
      load_delta_true [OF ok, of t dg] unfolding Let_def workspace_ok_def by fastforce
qed

end
