(* ===== verification/DeltaCompose.thy ===== *)
theory DeltaCompose
  imports WorkspaceOps
begin

text \<open>
  What a delta promises: created from a whole worktree it is the difference to its base; stored and read
  back it is the same delta; and it composes exactly with the worktree it describes.
\<close>

section \<open>A delta is the difference to the worktree\<close>

text \<open>The digest of every source file of the worktree.\<close>

definition worktree :: "(bytes \<Rightarrow> bytes) \<Rightarrow> workspace \<Rightarrow> (string, string) dict" where
  "worktree sha w =
     map (\<lambda>rel. (as_posix rel, case true_hash sha w (wk_root w @ rel) of Inr d \<Rightarrow> d | Inl _ \<Rightarrow> [])) (source_files w)"

lemma source_file_exists:
  assumes "rel \<in> set (source_files w)"
  shows "\<exists>f. file_at w (wk_root w @ rel) = Some f" "is_source rel"
proof -
  obtain p where p: "p \<in> set (keys (wk_files w))" "relative_to (wk_root w) p = Some rel" "is_source rel"
    using assms by (auto simp: source_files_def map_filter_def image_iff Bex_def) (metis fst_conv option.sel)+
  then have "p = wk_root w @ rel"
    by (auto simp: relative_to_def split: if_splits) (metis append_take_drop_id)
  with p(1) show "\<exists>f. file_at w (wk_root w @ rel) = Some f"
    by (auto simp: file_at_def dest: weak_map_of_SomeI)
  show "is_source rel" by fact
qed

lemma true_hash_source:
  "rel \<in> set (source_files w) \<Longrightarrow> \<exists>d. true_hash sha w (wk_root w @ rel) = Inr d"
  using source_file_exists by (fastforce simp: true_hash_def)

lemma current_hashes_worktree:
  assumes "workspace_ok sha w"
  shows "\<exists>w'. current_hashes sha w = (Inr (worktree sha w), w') \<and> workspace_ok sha w' \<and> quiet w w'"
proof -
  have "emap (\<lambda>rel. ebind (true_hash sha w (wk_root w @ rel)) (\<lambda>d. Inr (as_posix rel, d))) (source_files w) =
      Inr (worktree sha w)"
    unfolding worktree_def by (rule emap_all) (use true_hash_source [of _ w sha] in force)
  with hash_paths_true [OF assms refl, of "source_files w"] show ?thesis by (simp add: current_hashes_def)
qed

lemma map_of_map_find: "map_of (map (\<lambda>x. (f x, g x)) xs) k = map_option g (List.find (\<lambda>x. f x = k) xs)"
  by (induction xs) auto

lemma composed_lookup:
  "distinct (keys changed) \<Longrightarrow> map_of (composed_hashes base changed) p =
     (case map_of changed p of
        None \<Rightarrow> map_of base p
      | Some r \<Rightarrow> if truthy (field_or_null r ''tombstone'') then None else Some (py_str (field_or_null r ''sha256'')))"
proof (induction changed arbitrary: base)
  case (Cons x changed)
  obtain q r where x: "x = (q, r)" by (cases x)
  let ?base = "if truthy (field_or_null r ''tombstone'') then dpop q base else dput q (py_str (field_or_null r ''sha256'')) base"
  have "composed_hashes base (x # changed) = composed_hashes ?base changed"
    by (simp add: composed_hashes_def x)
  moreover have "q \<notin> set (keys changed)" using Cons.prems x by simp
  then have "map_of changed q = None" by (simp add: map_of_eq_None_iff)
  ultimately show ?case
    using Cons.IH [of ?base] Cons.prems x by (auto simp: dict_simps split: option.split)
qed (simp add: composed_hashes_def)

lemma concat_entries:
  assumes "emap E rs = Inr cs" "distinct rs" "\<And>r l. r \<in> set rs \<Longrightarrow> E r = Inr l \<Longrightarrow> l = [] \<or> (\<exists>x. l = [(r, x)])"
  shows "keys (concat cs) = filter (\<lambda>r. E r \<noteq> Inr []) rs \<and>
     (\<forall>r \<in> set rs. E r = Inr (case map_of (concat cs) r of None \<Rightarrow> [] | Some x \<Rightarrow> [(r, x)]))"
  using assms
proof (induction rs arbitrary: cs)
  case (Cons r rs)
  obtain l ls where l: "E r = Inr l" "emap E rs = Inr ls" "cs = l # ls"
    using Cons.prems(1) by (auto simp: ebind_Inr)
  have ih: "keys (concat ls) = filter (\<lambda>r. E r \<noteq> Inr []) rs"
    "\<forall>r \<in> set rs. E r = Inr (case map_of (concat ls) r of None \<Rightarrow> [] | Some x \<Rightarrow> [(r, x)])"
    using Cons.IH [OF l(2)] Cons.prems(2,3) by auto
  have "r \<notin> set (keys (concat ls))" unfolding ih(1) using Cons.prems(2) by simp
  then have none: "map_of (concat ls) r = None" by (simp add: map_of_eq_None_iff)
  consider "l = []" | x where "l = [(r, x)]" using Cons.prems(3) [of r l] l(1) by auto
  then show ?case
  proof cases
    case 1
    with l ih none show ?thesis by auto
  next
    case 2
    with l ih none Cons.prems(2) show ?thesis by auto
  qed
qed simp

lemma delta_entry_shape:
  "delta_entry sha env w base current r = Inr l \<Longrightarrow> l = [] \<or> (\<exists>x. l = [(r, x)])"
  by (auto simp: delta_entry_def ebind_Inr split: option.splits if_splits)

lemma created_changes:
  fixes sha env w base
  defines "current \<equiv> map (\<lambda>rel. (as_posix rel, wk_root w @ rel)) (source_files w)"
  defines "candidates \<equiv> sorted_set (keys current @ keys base)"
  assumes "emap (delta_entry sha env w base current) candidates = Inr cs"
  shows "distinct (keys (concat cs)) \<and> sorted (keys (concat cs)) \<and> set (keys (concat cs)) \<subseteq> set candidates \<and>
     (\<forall>q. map_of (composed_hashes base (concat cs)) q = map_of (worktree sha w) q) \<and>
     set (keys (concat cs)) = {q. map_of base q \<noteq> map_of (worktree sha w) q}"
proof -
  let ?E = "delta_entry sha env w base current"
  have c: "keys (concat cs) = filter (\<lambda>r. ?E r \<noteq> Inr []) candidates"
    "\<forall>r \<in> set candidates. ?E r = Inr (case map_of (concat cs) r of None \<Rightarrow> [] | Some x \<Rightarrow> [(r, x)])"
    using concat_entries [OF assms(3)] delta_entry_shape by (auto simp: candidates_def)
  have d: "distinct (keys (concat cs))" "sorted (keys (concat cs))" unfolding c(1) by (simp_all add: candidates_def sorted_wrt_filter)
  have q: "(map_of (concat cs) q = None \<longleftrightarrow> map_of base q = map_of (worktree sha w) q) \<and>
      map_of (composed_hashes base (concat cs)) q = map_of (worktree sha w) q" for q
  proof (cases "q \<in> set candidates")
    case False
    then have "q \<notin> set (keys (concat cs))" unfolding c(1) by simp
    then have "map_of (concat cs) q = None" by (simp add: map_of_eq_None_iff)
    moreover have "map_of base q = None" "q \<notin> set (keys current)"
      using False by (auto simp: candidates_def map_of_eq_None_iff)
    moreover have "map_of (worktree sha w) q = None"
      using \<open>q \<notin> set (keys current)\<close> by (force simp: current_def worktree_def map_of_eq_None_iff)
    ultimately show ?thesis using composed_lookup [OF d(1), of base q] by simp
  next
    case True
    then have e: "?E q = Inr (case map_of (concat cs) q of None \<Rightarrow> [] | Some x \<Rightarrow> [(q, x)])" using c(2) by blast
    show ?thesis
    proof (cases "List.find (\<lambda>rel. as_posix rel = q) (source_files w)")
      case None
      then have "map_of current q = None" "map_of (worktree sha w) q = None"
        by (simp_all add: current_def worktree_def map_of_map_find)
      with e composed_lookup [OF d(1), of base q] show ?thesis
        by (auto simp: delta_entry_def tombstone_record_def field_or_null_def split: if_splits option.splits)
    next
      case (Some rel)
      then obtain digest where h: "true_hash sha w (wk_root w @ rel) = Inr digest"
        using true_hash_source [of rel w sha] by (auto simp: find_Some_iff)
      with Some have m: "map_of current q = Some (wk_root w @ rel)" "map_of (worktree sha w) q = Some digest"
        by (simp_all add: current_def worktree_def map_of_map_find)
      with e h composed_lookup [OF d(1), of base q] show ?thesis
        by (auto simp: delta_entry_def changed_record_def field_or_null_def split: if_splits option.splits)
    qed
  qed
  have "set (keys (concat cs)) = {q. map_of (concat cs) q \<noteq> None}" by (force simp: map_of_eq_None_iff)
  moreover have "set (keys (concat cs)) \<subseteq> set candidates" unfolding c(1) by auto
  ultimately show ?thesis using d q by auto
qed

lemma check_worktree_Inr: "check_worktree_id t = Inr u \<Longrightarrow> u = t"
  by (simp add: check_worktree_id_def split: if_splits)

lemma delta_of_bytes_Inr:
  assumes "delta_of_bytes sha t g b = Inr d"
  shows "dl_generation d = g" "dl_worktree_id d = t" "json_digest sha (delta_identity d) = g" "dl_sha256 d = g"
  using assms by (auto simp: delta_of_bytes_def ebind_Inr verify_delta_def split: option.splits if_splits)

lemma create_delta_all:
  fixes sha env w base
  defines "current \<equiv> map (\<lambda>rel. (as_posix rel, wk_root w @ rel)) (source_files w)"
  assumes ok: "workspace_ok sha w" and b: "true_base sha w g = Inr (base, p, digest)"
    and t: "check_worktree_id t = Inr t" and fp: "fp = None \<or> fp = Some (mf_config_fingerprint base)"
  shows "\<exists>w1. workspace_ok sha w1 \<and> quiet w w1 \<and> create_delta sha env g t None fp w =
     (case emap (delta_entry sha env w (mf_source_hashes base) current) (sorted_set (keys current @ keys (mf_source_hashes base))) of
        Inl e \<Rightarrow> (Inl e, w1)
      | Inr cs \<Rightarrow>
          (case check_delta (new_delta sha env g base digest t (concat cs)) of
             Inl e \<Rightarrow> (Inl e, w1)
           | Inr d \<Rightarrow> store_delta sha g t d w1))"
proof -
  obtain w1 where w1: "base_snapshot sha g w = (true_base sha w g, w1)" "workspace_ok sha w1" "quiet w w1"
    using base_snapshot_true [OF ok] by blast
  let ?rs = "sorted_set (keys current @ keys (mf_source_hashes base))"
  obtain w2 where w2: "delta_changes sha env (mf_source_hashes base) current ?rs w1 =
      (ebind (emap (delta_entry sha env w (mf_source_hashes base) current) ?rs) (\<lambda>cs. Inr (concat cs)), w2)"
    "workspace_ok sha w2" "quiet w1 w2"
    using delta_changes_true [OF w1(2), of env "mf_source_hashes base" current ?rs]
    unfolding quiet_delta_entry [OF w1(3)] by blast
  have "create_delta sha env g t None fp w = create_delta_on sha env g t None fp (base, p, digest) w1"
    using t w1 b by (simp add: create_delta_def)
  also have "\<dots> =
      (case delta_changes sha env (mf_source_hashes base) current ?rs w1 of
         (Inl e, w2) \<Rightarrow> (Inl e, w2)
       | (Inr changed, w2) \<Rightarrow>
           (case check_delta (new_delta sha env g base digest t changed) of
              Inl e \<Rightarrow> (Inl e, w2)
            | Inr d \<Rightarrow> store_delta sha g t d w2))"
    using fp w1(3)
    by (auto simp: create_delta_on_def normal_paths_def current_paths_def quiet_simps comp_def current_def)
  finally show ?thesis
    using w2 quiet_trans [OF w1(3) w2(3)]
    by (cases "emap (delta_entry sha env w (mf_source_hashes base) current) ?rs") auto
qed

lemma create_delta_new:
  assumes ok: "workspace_ok sha w" and run: "create_delta sha env g t None fp w = (Inr d, w')"
    and new: "file_at w (delta_path w t (dl_generation d)) = None"
  obtains base p digest cs w1 where "true_base sha w g = Inr (base, p, digest)"
    and "emap (delta_entry sha env w (mf_source_hashes base)
           (map (\<lambda>rel. (as_posix rel, wk_root w @ rel)) (source_files w)))
         (sorted_set (keys (map (\<lambda>rel. (as_posix rel, wk_root w @ rel)) (source_files w)) @ keys (mf_source_hashes base))) = Inr cs"
    and "d = new_delta sha env g base digest t (concat cs)" "check_delta d = Inr d"
    and "check_worktree_id t = Inr t" "fp = None \<or> fp = Some (mf_config_fingerprint base)"
    and "workspace_ok sha w1" "quiet w w1"
    and "w' = write_receipt ''delta'' [(''base_generation'', JStr g), (''delta_generation'', JStr (dl_generation d)),
      (''worktree_id'', JStr t), (''changed_files'', changed_files (dl_changed d))]
      (write_json (delta_path w t (dl_generation d)) (delta_json d) w1)"
proof -
  have t: "check_worktree_id t = Inr t"
    using run by (cases "check_worktree_id t") (auto simp: create_delta_def dest: check_worktree_Inr)
  obtain w1 where w1: "base_snapshot sha g w = (true_base sha w g, w1)" "workspace_ok sha w1" "quiet w w1"
    using base_snapshot_true [OF ok] by blast
  obtain base p digest where b: "true_base sha w g = Inr (base, p, digest)"
    using run t w1 by (cases "true_base sha w g") (auto simp: create_delta_def)
  let ?current = "map (\<lambda>rel. (as_posix rel, wk_root w @ rel)) (source_files w)"
  let ?rs = "sorted_set (keys ?current @ keys (mf_source_hashes base))"
  have fp: "fp = None \<or> fp = Some (mf_config_fingerprint base)"
    using run t w1 b by (auto simp: create_delta_def create_delta_on_def split: if_splits)
  obtain w2 where w2: "workspace_ok sha w2" "quiet w w2"
    and all: "create_delta sha env g t None fp w =
      (case emap (delta_entry sha env w (mf_source_hashes base) ?current) ?rs of
         Inl e \<Rightarrow> (Inl e, w2)
       | Inr cs \<Rightarrow>
           (case check_delta (new_delta sha env g base digest t (concat cs)) of
              Inl e \<Rightarrow> (Inl e, w2)
            | Inr d \<Rightarrow> store_delta sha g t d w2))"
    using create_delta_all [OF ok b t fp, of env] by blast
  obtain cs where cs: "emap (delta_entry sha env w (mf_source_hashes base) ?current) ?rs = Inr cs"
    using run unfolding all by (cases "emap (delta_entry sha env w (mf_source_hashes base) ?current) ?rs") auto
  let ?d = "new_delta sha env g base digest t (concat cs)"
  have checked: "check_delta ?d = Inr ?d"
    using run unfolding all cs by (auto simp: check_delta_def split: if_splits)
  then have stored: "store_delta sha g t ?d w2 = (Inr d, w')"
    using run unfolding all cs by simp
  obtain w3 where w3: "load_delta sha t (dl_generation ?d) w2 = (true_delta sha w2 t (dl_generation ?d), w3)"
    using load_delta_true [OF w2(1)] by blast
  have absent: "file_at w2 (delta_path w2 t (dl_generation ?d)) = None"
  proof (rule ccontr)
    assume there: "file_at w2 (delta_path w2 t (dl_generation ?d)) \<noteq> None"
    have "dl_generation d = dl_generation ?d"
    proof (cases "true_delta sha w2 t (dl_generation ?d)")
      case (Inl e)
      with stored there w3 show ?thesis by (simp add: store_delta_def Let_def)
    next
      case (Inr d')
      then have "d = d'" using stored there w3 by (simp add: store_delta_def Let_def)
      with Inr show ?thesis
        by (auto simp: true_delta_def ebind_Inr dest: delta_of_bytes_Inr(1) split: option.splits)
    qed
    with new there w2(2) show False by (simp add: quiet_simps)
  qed
  with stored w2(2) have "d = ?d \<and> w' = write_receipt ''delta'' [(''base_generation'', JStr g),
      (''delta_generation'', JStr (dl_generation d)), (''worktree_id'', JStr t), (''changed_files'', changed_files (dl_changed d))]
      (write_json (delta_path w t (dl_generation d)) (delta_json d) w2)"
    by (auto simp: store_delta_def Let_def quiet_simps)
  with that [OF b cs _ _ t fp w2] checked show ?thesis by blast
qed

text \<open>C4: A delta of the whole worktree is exactly its difference to the base: composed with the base's
  hashes it gives the digest of every source file as it stands, and it names a path exactly when the base
  and the worktree disagree about it.\<close>

theorem created_delta_is_the_difference:
  assumes "w = workspace_run sha ops (new_workspace root storage)"
    and "create_delta sha env g t None fp w = (Inr d, w')"
    and "file_at w (delta_path w t (dl_generation d)) = None"
  shows "\<exists>base. true_manifest w g = Inr base \<and>
     (\<forall>q. map_of (composed_hashes (mf_source_hashes base) (dl_changed d)) q = map_of (worktree sha w) q) \<and>
     set (keys (dl_changed d)) = {q. map_of (mf_source_hashes base) q \<noteq> map_of (worktree sha w) q}"
proof -
  have ok: "workspace_ok sha w" unfolding assms(1) by (rule workspace_run_ok [OF new_workspace_ok])
  obtain base p digest cs where b: "true_base sha w g = Inr (base, p, digest)"
    and cs: "emap (delta_entry sha env w (mf_source_hashes base)
           (map (\<lambda>rel. (as_posix rel, wk_root w @ rel)) (source_files w)))
         (sorted_set (keys (map (\<lambda>rel. (as_posix rel, wk_root w @ rel)) (source_files w)) @ keys (mf_source_hashes base))) = Inr cs"
    and d: "d = new_delta sha env g base digest t (concat cs)"
    by (rule create_delta_new [OF ok assms(2,3)]) blast
  have "true_manifest w g = Inr base" using b by (auto simp: true_base_def ebind_Inr split: option.splits if_splits)
  moreover have "dl_changed d = concat cs" by (simp add: d new_delta_def Let_def)
  ultimately show ?thesis using created_changes [OF cs] by auto
qed

text \<open>C6: A composition of the whole worktree succeeds only when the worktree is what the base and the delta say:
  the snapshot is of the asked base, and every source file has the digest the composition gives it, none
  missing and none added.\<close>

theorem composed_delta_matches_worktree:
  assumes "w = workspace_run sha ops (new_workspace root storage)"
    and "fst (compose_delta sha env g t dg fp None w) = Inr S"
  shows "true_manifest w g = Inr (es_manifest S) \<and>
     (\<exists>d. true_delta sha w t dg = Inr d \<and> es_overlay S = Some (delta_overlay g t d) \<and>
        (\<forall>q. map_of (composed_hashes (mf_source_hashes (es_manifest S)) (dl_changed d)) q = map_of (worktree sha w) q))"
proof -
  have ok: "workspace_ok sha w" unfolding assms(1) by (rule workspace_run_ok [OF new_workspace_ok])
  obtain w1 where w1: "base_snapshot sha g w = (true_base sha w g, w1)" "workspace_ok sha w1" "quiet w w1"
    using base_snapshot_true [OF ok] by blast
  obtain base p digest where b: "true_base sha w g = Inr (base, p, digest)"
    using assms(2) w1 by (cases "true_base sha w g") (auto simp: compose_delta_def)
  obtain w2 where w2: "load_delta sha t dg w1 = (true_delta sha w1 t dg, w2)" "workspace_ok sha w2" "quiet w1 w2"
    using load_delta_true [OF w1(2)] by blast
  have same: "true_delta sha w1 t dg = true_delta sha w t dg"
    using w1(3) by (simp add: true_delta_def quiet_simps)
  obtain d where d: "true_delta sha w t dg = Inr d"
    using assms(2) w1 w2 b same by (cases "true_delta sha w t dg") (auto simp: compose_delta_def compose_delta_on_def)
  obtain w3 where w3: "current_hashes sha w2 = (Inr (worktree sha w2), w3)" "quiet w2 w3"
    using current_hashes_worktree [OF w2(2)] by blast
  have q: "quiet w w2" using quiet_trans [OF w1(3) w2(3)] .
  have tree: "worktree sha w2 = worktree sha w"
    using q by (simp add: worktree_def true_hash_def quiet_simps)
  let ?expected = "composed_hashes (mf_source_hashes base) (dl_changed d)"
  obtain u where "validate_delta_base g d base digest fp = Inr u"
    using assms(2) w1 w2 b d same
    by (cases "validate_delta_base g d base digest fp")
      (auto simp: compose_delta_def compose_delta_on_def ebind_state_def)
  then have mismatch: "source_mismatch None d (worktree sha w) ?expected = None"
    and S: "open_snapshot_file env w3 p base (Some (delta_overlay g t d)) = Inr S"
    using assms(2) w1 w2 w3 b d same tree
    by (auto simp: compose_delta_def compose_delta_on_def normal_paths_def validate_composed_def worktree_hashes_def
        ebind_state_def split: sum.splits option.splits)
  have "map_of ?expected q = map_of (worktree sha w) q" for q
  proof (cases "q \<in> set (keys (worktree sha w) @ keys ?expected)")
    case True
    then show ?thesis
      using mismatch by (auto simp: source_mismatch_def filter_empty_conv split: list.splits)
  next
    case False
    then have "map_of ?expected q = None" "map_of (worktree sha w) q = None" by (auto simp: map_of_eq_None_iff)
    then show ?thesis by simp
  qed
  moreover have "true_manifest w g = Inr base"
    using b by (auto simp: true_base_def ebind_Inr split: option.splits if_splits)
  moreover have "es_manifest S = base \<and> es_overlay S = Some (delta_overlay g t d)"
    using S by (auto simp: open_snapshot_file_def split: option.splits if_splits)
  ultimately show ?thesis using d by auto
qed

section \<open>A stored delta is read back\<close>

definition norm_delta :: "delta \<Rightarrow> delta" where
  "norm_delta d = d\<lparr>dl_changed := map (\<lambda>(p, r). (p, norm_members r)) (dl_changed d)\<rparr>"

lemma validate_record_fields:
  assumes "validate_record r"
  obtains digest tombstone symbols where "map_of r ''sha256'' = Some digest"
    and "map_of r ''tombstone'' = Some (JBool tombstone)" "map_of r ''symbols'' = Some (JList symbols)"
    and "list_all (\<lambda>s. case s of JObj _ \<Rightarrow> True | _ \<Rightarrow> False) symbols"
    and "if tombstone then digest = JNull \<and> symbols = [] else (case digest of JStr d \<Rightarrow> is_digest d | _ \<Rightarrow> False)"
proof -
  obtain digest where digest: "map_of r ''sha256'' = Some digest"
    using assms by (cases "map_of r ''sha256''") (simp_all add: validate_record_def)
  obtain tv where tv: "map_of r ''tombstone'' = Some tv"
    using assms digest by (cases "map_of r ''tombstone''") (simp_all add: validate_record_def)
  obtain tombstone where tombstone: "tv = JBool tombstone"
    using assms digest tv by (cases tv) (simp_all add: validate_record_def)
  obtain sv where sv: "map_of r ''symbols'' = Some sv"
    using assms digest tv tombstone by (cases "map_of r ''symbols''") (simp_all add: validate_record_def)
  obtain symbols where symbols: "sv = JList symbols"
    using assms digest tv tombstone sv by (cases sv) (simp_all add: validate_record_def)
  note r = digest tv [unfolded tombstone] sv [unfolded symbols]
  have ok: "list_all (\<lambda>s. case s of JObj _ \<Rightarrow> True | _ \<Rightarrow> False) symbols"
      "if tombstone then digest = JNull \<and> symbols = [] else (case digest of JStr d \<Rightarrow> is_digest d | _ \<Rightarrow> False)"
    using assms r by (simp_all add: validate_record_def)
  show ?thesis using that [OF r ok] .
qed

lemma validate_norm_record:
  assumes "validate_record r" "distinct (keys r)"
  shows "validate_record (norm_members r)"
proof -
  obtain digest tombstone symbols where r: "map_of r ''sha256'' = Some digest"
      "map_of r ''tombstone'' = Some (JBool tombstone)" "map_of r ''symbols'' = Some (JList symbols)"
    and ok: "list_all (\<lambda>s. case s of JObj _ \<Rightarrow> True | _ \<Rightarrow> False) symbols"
      "if tombstone then digest = JNull \<and> symbols = [] else (case digest of JStr d \<Rightarrow> is_digest d | _ \<Rightarrow> False)"
    using validate_record_fields [OF assms(1)] by blast
  have "list_all (\<lambda>s. case s of JObj _ \<Rightarrow> True | _ \<Rightarrow> False) (map norm_json symbols)"
  proof -
    have "(case norm_json v of JObj _ \<Rightarrow> True | _ \<Rightarrow> False) = (case v of JObj _ \<Rightarrow> True | _ \<Rightarrow> False)" for v
      by (cases v) auto
    with ok(1) show ?thesis by (simp add: list_all_iff)
  qed
  moreover have "if tombstone then norm_json digest = JNull \<and> symbols = []
      else (case norm_json digest of JStr d \<Rightarrow> is_digest d | _ \<Rightarrow> False)"
    using ok(2) by (auto split: json.splits if_splits)
  ultimately show ?thesis
    by (simp add: validate_record_def map_of_norm_members [OF assms(2)] r)
qed

definition tidy_changes :: "changes \<Rightarrow> bool" where
  "tidy_changes c \<longleftrightarrow> distinct (keys c) \<and> sorted (keys c) \<and>
     (\<forall>(p, r) \<in> set c. wf_json (JObj r) \<and> normal_path p = Inr p)"

lemma norm_changes:
  assumes "tidy_changes c"
  shows "norm_json (changes_json c) = JObj (map (\<lambda>(p, r). (p, JObj (norm_members r))) c)"
proof -
  let ?m = "map (\<lambda>(p, r). (p, JObj (norm_members r))) c"
  have "map (\<lambda>(k, v). (k, norm_json v)) (map (\<lambda>(p, r). (p, JObj r)) c) = ?m"
    by (auto simp: norm_JObj simp del: norm_json.simps)
  moreover have "sort_key fst ?m = ?m"
    using assms by (intro sort_key_id_if_sorted) (simp add: tidy_changes_def comp_def case_prod_unfold)
  ultimately show ?thesis unfolding changes_json_def norm_json.simps by (simp only:)
qed

lemma dumps_norm_changes: "dumps (changes_json (map (\<lambda>(p, r). (p, norm_members r)) c)) = dumps (changes_json c)"
proof -
  have "dumps (JObj (norm_members r)) = dumps (JObj r)" for r
    using dumps_norm [of "JObj r"] by (simp only: norm_JObj)
  then have "map (\<lambda>(k, v). (k, dumps v)) (map (\<lambda>(p, r). (p, JObj r)) (map (\<lambda>(p, r). (p, norm_members r)) c)) =
      map (\<lambda>(k, v). (k, dumps v)) (map (\<lambda>(p, r). (p, JObj r)) c)"
    by (auto simp del: dumps.simps)
  then show ?thesis unfolding changes_json_def dumps.simps by (simp only:)
qed

lemma identity_norm_delta: "canonical (delta_identity (norm_delta d)) = canonical (delta_identity d)"
  unfolding canonical_def delta_identity_def norm_delta_def by (simp add: dumps_norm_changes)

lemma delta_fields_stored:
  assumes "tidy_changes (dl_changed d)" "check_delta d = Inr d"
  shows "delta_of (norm_json (delta_json d)) = Inr (norm_delta d)"
proof -
  define kvs where "kvs = [(''schema'', JStr (dl_schema d)), (''delta_generation'', JStr (dl_generation d)),
      (''base_generation'', JStr (dl_base_generation d)), (''base_commit'', JStr (dl_base_commit d)),
      (''base_config_fingerprint'', JStr (dl_base_config_fingerprint d)),
      (''base_schema'', JStr (dl_base_schema d)),
      (''base_snapshot_sha256'', JStr (dl_base_snapshot_sha256 d)),
      (''worktree_id'', JStr (dl_worktree_id d)), (''changed'', changes_json (dl_changed d)),
      (''created_at'', JStr (dl_created_at d)), (''delta_sha256'', JStr (dl_sha256 d))]"
  let ?c = "map (\<lambda>(p, r). (p, norm_members r)) (dl_changed d)"
  have obj: "norm_json (delta_json d) = JObj (norm_members kvs)"
    unfolding delta_json_def kvs_def by (rule norm_JObj)
  have m: "map_of (norm_members kvs) k = map_option norm_json (map_of kvs k)" for k
    by (rule map_of_norm_members) (simp add: kvs_def)
  have fs: "map_of (norm_members kvs) ''schema'' = Some (JStr (dl_schema d))"
    "map_of (norm_members kvs) ''delta_generation'' = Some (JStr (dl_generation d))"
    "map_of (norm_members kvs) ''base_generation'' = Some (JStr (dl_base_generation d))"
    "map_of (norm_members kvs) ''base_commit'' = Some (JStr (dl_base_commit d))"
    "map_of (norm_members kvs) ''base_config_fingerprint'' = Some (JStr (dl_base_config_fingerprint d))"
    "map_of (norm_members kvs) ''base_schema'' = Some (JStr (dl_base_schema d))"
    "map_of (norm_members kvs) ''base_snapshot_sha256'' = Some (JStr (dl_base_snapshot_sha256 d))"
    "map_of (norm_members kvs) ''worktree_id'' = Some (JStr (dl_worktree_id d))"
    "map_of (norm_members kvs) ''created_at'' = Some (JStr (dl_created_at d))"
    "map_of (norm_members kvs) ''delta_sha256'' = Some (JStr (dl_sha256 d))"
    unfolding m by (simp_all add: kvs_def)
  have fc: "map_of (norm_members kvs) ''changed'' = Some (JObj (map (\<lambda>(p, r). (p, JObj (norm_members r))) (dl_changed d)))"
    unfolding m using norm_changes [OF assms(1)] by (simp add: kvs_def del: norm_json.simps)
  have records: "list_all (\<lambda>(p, r). validate_record r) (dl_changed d)" and schema: "dl_schema d = DELTA_SCHEMA"
    using assms(2) by (auto simp: check_delta_def split: if_splits)
  have r: "validate_record (norm_members r)" "normal_path p = Inr p" if "(p, r) \<in> set (dl_changed d)" for p r
    using that assms(1) records validate_norm_record [of r] by (auto simp: tidy_changes_def list_all_iff)
  have read: "emap read_change (map (\<lambda>(p, r). (p, JObj (norm_members r))) (dl_changed d)) = Inr ?c"
    by (rule trans [OF emap_all [where g = "\<lambda>(p, v). (p, case v of JObj r \<Rightarrow> r)"]])
      (auto simp: read_change_def r)
  have post: "check_delta (norm_delta d) = Inr (norm_delta d)"
    using assms(2) r(1) unfolding check_delta_def norm_delta_def by (auto simp: list_all_iff split: if_splits)
  have fields: "norm_delta d = \<lparr>dl_schema = dl_schema d, dl_generation = dl_generation d,
      dl_base_generation = dl_base_generation d, dl_base_commit = dl_base_commit d,
      dl_base_config_fingerprint = dl_base_config_fingerprint d, dl_base_schema = dl_base_schema d,
      dl_base_snapshot_sha256 = dl_base_snapshot_sha256 d, dl_worktree_id = dl_worktree_id d,
      dl_changed = ?c, dl_created_at = dl_created_at d, dl_sha256 = dl_sha256 d\<rparr>"
    by (simp add: norm_delta_def)
  show ?thesis
    unfolding obj delta_of_def
    using schema read post
    by (simp add: REQUIRED_DELTA_FIELDS_def text_field_def field_or_null_def fs fc fields [unfolded schema, symmetric])
qed

lemma stored_delta:
  assumes "tidy_changes (dl_changed d)" "check_delta d = Inr d"
    and "json_digest sha (delta_identity d) = dl_generation d" "dl_sha256 d = dl_generation d"
  shows "delta_of_bytes sha (dl_worktree_id d) (dl_generation d) (canonical (delta_json d)) = Inr (norm_delta d)"
proof -
  have "wf_json (changes_json (dl_changed d))"
    using assms(1) by (auto simp: changes_json_def tidy_changes_def comp_def case_prod_unfold)
  then have "wf_json (delta_json d)" by (simp add: delta_json_def)
  then have "loads (decode (canonical (delta_json d))) = Some (norm_json (delta_json d))"
    by (simp add: canonical_def loads_dumps)
  moreover have "json_digest sha (delta_identity (norm_delta d)) = dl_generation d"
    using assms(3) by (simp only: json_digest_def hexdigest_def identity_norm_delta)
  moreover have "dl_generation (norm_delta d) = dl_generation d" "dl_worktree_id (norm_delta d) = dl_worktree_id d"
      "dl_sha256 (norm_delta d) = dl_generation d"
    using assms(4) by (simp_all add: norm_delta_def)
  ultimately show ?thesis
    using delta_fields_stored [OF assms(1,2)] by (simp add: delta_of_bytes_def verify_delta_def check_def)
qed

section \<open>A created delta composes\<close>

lemma suffix_of_json: "g \<noteq> [] \<Longrightarrow> suffix_of (g @ ''.json'') = ''.json''"
  by (simp add: suffix_of_def)

lemma delta_path_no_source:
  assumes "relative_to root (delta_path w t g) = Some rel" "g \<noteq> []"
  shows "\<not> is_source rel"
proof (cases "rel = []")
  case False
  then have "last rel = last (delta_path w t g)"
    using assms(1) by (auto simp: relative_to_def last_drop split: if_splits)
  then have "last rel = g @ ''.json''" by (simp add: delta_path_def)
  moreover have "lower ''.json'' \<notin> set SOURCE_SUFFIXES" by code_simp
  ultimately show ?thesis using suffix_of_json [OF assms(2)] by (simp add: is_source_def has_source_suffix_def)
qed (simp add: is_source_def has_source_suffix_def)

text \<open>Writing a delta changes nothing that composing it reads.\<close>

lemma delta_written:
  fixes b :: bytes
  assumes ok: "workspace_ok sha w" and q: "quiet w w1" and absent: "file_at w (delta_path w t g) = None"
    and g: "is_digest g"
  defines "w' \<equiv> put_file (delta_path w t g) b w1"
  shows "worktree sha w' = worktree sha w" "wk_root w' = wk_root w" "wk_storage w' = wk_storage w"
    "\<And>p. p \<noteq> delta_path w t g \<Longrightarrow> file_at w' p = file_at w p"
    "true_delta sha w' t g = ebind (check_worktree_id t) (\<lambda>_. delta_of_bytes sha t g b)"
proof -
  let ?dp = "delta_path w t g"
  have ne: "g \<noteq> []" using g by (auto simp: is_digest_def)
  show place: "wk_root w' = wk_root w" "wk_storage w' = wk_storage w" using q by (simp_all add: w'_def quiet_simps)
  show other: "\<And>p. p \<noteq> ?dp \<Longrightarrow> file_at w' p = file_at w p" using q by (simp add: w'_def quiet_simps)
  have "?dp \<notin> set (keys (wk_files w))" using absent by (auto simp: file_at_def map_of_eq_None_iff)
  then have "wk_files w' = wk_files w @ [(?dp, \<lparr>fd_bytes = b, fd_stamp = wk_clock w1\<rparr>)]"
    using q by (simp add: w'_def put_file_def quiet_def dput_new)
  moreover have "filter is_source (List.map_filter (relative_to (wk_root w)) [?dp]) = []"
    using delta_path_no_source [OF _ ne, of "wk_root w" w t]
    by (cases "relative_to (wk_root w) ?dp") (simp_all add: map_filter_def)
  moreover have "List.map_filter f (xs @ ys) = List.map_filter f xs @ List.map_filter f ys" for f :: "path \<Rightarrow> path option" and xs ys
    by (simp add: map_filter_def)
  ultimately have files: "source_files w' = source_files w" using place(1) by (simp add: source_files_def)
  have "true_hash sha w' (wk_root w @ rel) = true_hash sha w (wk_root w @ rel)" if "rel \<in> set (source_files w)" for rel
  proof -
    have "is_source rel" using source_file_exists(2) [OF that] .
    then have "wk_root w @ rel \<noteq> ?dp"
      using delta_path_no_source [OF _ ne, of "wk_root w" w t rel] by (metis append_eq_conv_conj relative_to_def)
    then show ?thesis using other by (simp add: true_hash_def)
  qed
  then show "worktree sha w' = worktree sha w" by (simp add: worktree_def files place)
  have "file_at w' (delta_path w' t g) = Some \<lparr>fd_bytes = b, fd_stamp = wk_clock w1\<rparr>"
    using q by (simp add: w'_def delta_path_def quiet_simps)
  then show "true_delta sha w' t g = ebind (check_worktree_id t) (\<lambda>_. delta_of_bytes sha t g b)"
    using g by (simp add: true_delta_def generation_id_def)
qed

lemma base_path_no_delta:
  assumes "relative_to (base_dir w @ [g]) p = Some rel"
  shows "p \<noteq> delta_path w t dg"
proof
  assume "p = delta_path w t dg"
  with assms have "take (length (wk_storage w) + 2) (delta_path w t dg) = wk_storage w @ [''base'', g]"
    by (auto simp: relative_to_def base_dir_def split: if_splits)
  then show False by (simp add: delta_path_def take_Cons')
qed

lemma true_base_kept:
  assumes "true_base sha w g = Inr (base, p, digest)" "mf_root base \<noteq> []" "join_path [] (mf_root base) = wk_root w"
    and "wk_root w' = wk_root w" "wk_storage w' = wk_storage w"
    and "\<And>q. q \<noteq> delta_path w t dg \<Longrightarrow> file_at w' q = file_at w q"
  shows "true_base sha w' g = Inr (base, p, digest)" "file_at w' p = file_at w p" "file_at w p \<noteq> None"
    "p = join_path (base_dir w @ [g]) (mf_snapshot base)"
proof -
  obtain f where m: "true_manifest w g = Inr base" and c: "check_base sha g base w = Inr p" and f: "file_at w p = Some f"
    using assms(1) by (auto simp: true_base_def ebind_Inr split: option.splits if_splits)
  have "manifest_path w g \<noteq> delta_path w t dg" by (simp add: manifest_path_def base_dir_def delta_path_def)
  with m assms(4-6) have m': "true_manifest w' g = Inr base"
    by (simp add: true_manifest_def manifest_path_def base_dir_def)
  have rel: "relative_to (base_dir w @ [g]) p \<noteq> None" and p: "p = join_path (base_dir w @ [g]) (mf_snapshot base)"
    using c by (auto simp: check_base_def Let_def split: if_splits)
  from rel base_path_no_delta have "p \<noteq> delta_path w t dg" by blast
  then show same: "file_at w' p = file_at w p" using assms(6) by blast
  have "same_base_repository w' base" using assms(2-4) by (simp add: same_base_repository_def)
  with c f rel p same assms(5) have "check_base sha g base w' = Inr p"
    by (auto simp: check_base_def Let_def base_dir_def split: if_splits)
  with m' same assms(1) m c show "true_base sha w' g = Inr (base, p, digest)"
    by (simp add: true_base_def)
  show "file_at w p \<noteq> None" using f by simp
  show "p = join_path (base_dir w @ [g]) (mf_snapshot base)" by (rule p)
qed

lemma composed_norm:
  assumes "distinct (keys changed)" "\<forall>(p, r) \<in> set changed. distinct (keys r) \<and> validate_record r"
  shows "map_of (composed_hashes base (map (\<lambda>(p, r). (p, norm_members r)) changed)) q = map_of (composed_hashes base changed) q"
proof -
  have keys: "keys (map (\<lambda>(p, r). (p, norm_members r)) changed) = keys changed" by (simp add: comp_def case_prod_unfold)
  have same: "truthy (field_or_null (norm_members r) ''tombstone'') = truthy (field_or_null r ''tombstone'') \<and>
      py_str (field_or_null (norm_members r) ''sha256'') = py_str (field_or_null r ''sha256'')"
    if r: "map_of changed q = Some r" for r
  proof -
    have v: "distinct (keys r)" "validate_record r" using assms(2) r by (auto dest!: map_of_SomeD)
    obtain digest tombstone symbols where "map_of r ''sha256'' = Some digest"
        "map_of r ''tombstone'' = Some (JBool tombstone)"
        "if tombstone then digest = JNull \<and> symbols = [] else (case digest of JStr d \<Rightarrow> is_digest d | _ \<Rightarrow> False)"
      using validate_record_fields [OF v(2)] by metis
    then have "field_or_null r ''tombstone'' = JBool tombstone" "field_or_null r ''sha256'' = digest"
      "norm_json digest = digest"
      by (cases digest; simp add: field_or_null_def split: if_splits)+
    then show ?thesis using field_or_null_norm [OF v(1)] by auto
  qed
  have "map_of (map (\<lambda>(p, r). (p, norm_members r)) changed) q = map_option norm_members (map_of changed q)"
    by (simp add: map_of_map)
  moreover have "distinct (keys (map (\<lambda>(p, r). (p, norm_members r)) changed))" by (simp only: keys assms(1))
  ultimately show ?thesis
    using composed_lookup [OF assms(1), of base q]
      composed_lookup [of "map (\<lambda>(p, r). (p, norm_members r)) changed" base q] same
    by (cases "map_of changed q") simp_all
qed

lemma entry_tidy:
  assumes "delta_entry sha env w base current r = Inr l" "(q, x) \<in> set l"
    and "\<And>path b symbols s. we_parse env path b = Some symbols \<Longrightarrow> s \<in> set symbols \<Longrightarrow> wf_json s"
  shows "q = r \<and> wf_json (JObj x)"
proof -
  consider "l = []" | "l = [(r, tombstone_record)]"
    | p digest symbols f where "l = [(r, changed_record digest symbols)]" "file_at w p = Some f"
        "we_parse env r (fd_bytes f) = Some symbols"
    using assms(1) by (auto simp: delta_entry_def ebind_Inr bind_eq_Some_conv split: option.splits if_splits)
  then show ?thesis
    using assms(2,3) by cases (auto simp: tombstone_record_def changed_record_def)
qed

lemma created_tidy:
  assumes "emap (delta_entry sha env w base current) rs = Inr cs" "distinct (keys (concat cs))" "sorted (keys (concat cs))"
    and "\<And>path b symbols s. we_parse env path b = Some symbols \<Longrightarrow> s \<in> set symbols \<Longrightarrow> wf_json s"
    and "\<And>q. q \<in> set rs \<Longrightarrow> normal_path q = Inr q"
  shows "tidy_changes (concat cs)"
proof -
  have "wf_json (JObj x) \<and> normal_path q = Inr q" if qx: "(q, x) \<in> set (concat cs)" for q x
  proof -
    obtain l where "l \<in> set cs" "(q, x) \<in> set l" using qx by auto
    then obtain i where i: "i < length cs" "(q, x) \<in> set (cs ! i)" by (metis in_set_conv_nth)
    then have "delta_entry sha env w base current (rs ! i) = Inr (cs ! i)" "i < length rs"
      using assms(1) by (auto simp: emap_Inr)
    with entry_tidy [OF this(1) i(2) assms(4)] assms(5) show ?thesis by auto
  qed
  then have "\<forall>(q, x) \<in> set (concat cs). wf_json (JObj x) \<and> normal_path q = Inr q" by blast
  with assms(2,3) show ?thesis unfolding tidy_changes_def by blast
qed

lemma create_then_compose:
  assumes ok: "workspace_ok sha w"
    and "create_delta sha env g t None fp w = (Inr d, w')"
    and "file_at w (delta_path w t (dl_generation d)) = None"
    and "true_manifest w g = Inr base" "mf_root base \<noteq> []" "join_path [] (mf_root base) = wk_root w"
    and "\<And>path b symbols s. we_parse env path b = Some symbols \<Longrightarrow> s \<in> set symbols \<Longrightarrow> wf_json s"
    and "\<And>q. q \<in> set (keys (worktree sha w) @ keys (mf_source_hashes base)) \<Longrightarrow> normal_path q = Inr q"
    and "\<And>f. file_at w (join_path (base_dir w @ [g]) (mf_snapshot base)) = Some f \<Longrightarrow> we_opens env' (fd_bytes f)"
  shows "\<exists>S. fst (compose_delta sha env' g t (dl_generation d) fp None w') = Inr S \<and> es_manifest S = base \<and>
     es_overlay S = Some (delta_overlay g t (norm_delta d))"
proof -
  let ?current = "\<lambda>base. map (\<lambda>rel. (as_posix rel, wk_root w @ rel)) (source_files w)"
  obtain base' p digest cs w1 where b': "true_base sha w g = Inr (base', p, digest)"
    and cs: "emap (delta_entry sha env w (mf_source_hashes base') (?current base'))
         (sorted_set (keys (?current base') @ keys (mf_source_hashes base'))) = Inr cs"
    and d: "d = new_delta sha env g base' digest t (concat cs)" "check_delta d = Inr d"
    and t: "check_worktree_id t = Inr t" and fp: "fp = None \<or> fp = Some (mf_config_fingerprint base')"
    and w1: "workspace_ok sha w1" "quiet w w1"
    and w': "w' = write_receipt ''delta'' [(''base_generation'', JStr g), (''delta_generation'', JStr (dl_generation d)),
      (''worktree_id'', JStr t), (''changed_files'', changed_files (dl_changed d))]
      (write_json (delta_path w t (dl_generation d)) (delta_json d) w1)"
    by (rule create_delta_new [OF ok assms(2,3)]) blast
  have "base' = base"
    using b' assms(4) by (auto simp: true_base_def ebind_Inr split: option.splits if_splits)
  note b = b' [unfolded this] and cs = cs [unfolded this] and d = d [unfolded this] and fp = fp [unfolded this]
  note c = created_changes [OF cs]
  have changed: "dl_changed d = concat cs" and fields: "dl_worktree_id d = t" "dl_base_generation d = g"
      "dl_base_commit d = mf_commit base" "dl_base_config_fingerprint d = mf_config_fingerprint base"
      "dl_base_schema d = mf_schema base" "dl_base_snapshot_sha256 d = digest" "dl_sha256 d = dl_generation d"
    and id: "json_digest sha (delta_identity d) = dl_generation d"
    by (simp_all add: d(1) new_delta_def Let_def delta_identity_def)
  have gen: "is_digest (dl_generation d)" using d(2) by (auto simp: check_delta_def split: if_splits)
  have "keys (?current base) = keys (worktree sha w)" by (simp add: worktree_def)
  then have tidy: "tidy_changes (dl_changed d)"
    unfolding changed using c assms(8) by (intro created_tidy [OF cs _ _ assms(7)]) auto
  define v where "v = put_file (delta_path w t (dl_generation d)) (canonical (delta_json d)) w1"
  have fx: "file_at w' = file_at v" "wk_root w' = wk_root v" "wk_storage w' = wk_storage v" "worktree sha w' = worktree sha v"
    by (auto simp: w' v_def write_receipt_def write_json_def file_at_def worktree_def true_hash_def source_files_def)
  note written = delta_written [OF ok w1(2) assms(3) gen, where b = "canonical (delta_json d)", folded v_def]
  have okv: "workspace_ok sha w'" using create_delta_keeps [OF ok, of env g t None fp] assms(2) by (simp add: keeps_def)
  have base_kept: "true_base sha w' g = Inr (base, p, digest)" "file_at w' p = file_at w p" "file_at w p \<noteq> None"
      "p = join_path (base_dir w @ [g]) (mf_snapshot base)"
    using true_base_kept [OF b assms(5,6), of w' t "dl_generation d"] written(2-4) fx by auto
  have "true_delta sha w' t (dl_generation d) = true_delta sha v t (dl_generation d)"
    by (simp add: true_delta_def fx delta_path_def)
  then have loaded: "true_delta sha w' t (dl_generation d) = Inr (norm_delta d)"
    using written(5) t stored_delta [OF tidy d(2) id fields(7)] fields(1) by simp
  obtain w2 where w2: "base_snapshot sha g w' = (Inr (base, p, digest), w2)" "workspace_ok sha w2" "quiet w' w2"
    using base_snapshot_true [OF okv, of g] base_kept(1) by auto
  obtain w3 where w3: "load_delta sha t (dl_generation d) w2 = (Inr (norm_delta d), w3)" "workspace_ok sha w3" "quiet w2 w3"
    using load_delta_true [OF w2(2), of t "dl_generation d"] loaded w2(3) by (auto simp: true_delta_def quiet_simps)
  obtain w4 where w4: "current_hashes sha w3 = (Inr (worktree sha w3), w4)" "quiet w3 w4"
    using current_hashes_worktree [OF w3(2)] by blast
  have q: "quiet w' w3" "quiet w' w4" using quiet_trans [OF w2(3) w3(3)] w4(2) by (auto intro: quiet_trans)
  have tree: "worktree sha w3 = worktree sha w"
    using q(1) fx(4) written(1) by (simp add: worktree_def true_hash_def quiet_simps)
  have recs: "\<forall>(p, r) \<in> set (dl_changed d). distinct (keys r) \<and> validate_record r"
    using tidy d(2) by (auto simp: tidy_changes_def check_delta_def list_all_iff split: if_splits)
  have expected: "map_of (composed_hashes (mf_source_hashes base) (dl_changed (norm_delta d))) q = map_of (worktree sha w) q" for q
    using composed_norm [OF _ recs] tidy c changed by (simp add: norm_delta_def tidy_changes_def)
  then have "source_mismatch None (norm_delta d) (worktree sha w)
      (composed_hashes (mf_source_hashes base) (dl_changed (norm_delta d))) = None"
    by (simp add: source_mismatch_def)
  moreover have "validate_delta_base g (norm_delta d) base digest fp = Inr ()"
    using fields fp by (auto simp: validate_delta_base_def norm_delta_def)
  moreover have "dl_generation (norm_delta d) = dl_generation d" by (simp add: norm_delta_def)
  ultimately have composed: "compose_delta sha env' g t (dl_generation d) fp None w' =
      (open_snapshot_file env' w4 p base (Some (delta_overlay g t (norm_delta d))), w4)"
    using w2(1) w3(1) w4(1) tree
    by (simp add: compose_delta_def compose_delta_on_def ebind_state_def normal_paths_def validate_composed_def
        worktree_hashes_def)
  obtain f where f: "file_at w p = Some f" "file_at w4 p = Some f" using base_kept(2,3) q(2) by (auto simp: quiet_simps)
  have "we_opens env' (fd_bytes f)" using assms(9) f(1) unfolding base_kept(4) .
  then show ?thesis using f(2) composed by (simp add: open_snapshot_file_def)
qed

text \<open>C5: What is created can be composed.  A delta of a whole worktree, stored under a new name, is read back
  from its file and composes with its base: the validation against the worktree passes and the overlay is
  the delta's changes.  The worktree is the one the base was built from, the paths of its files and of the
  base are normal, parsed symbols are well-formed JSON, and the snapshot file of this base is one the
  snapshot reader opens.\<close>

theorem created_delta_composes:
  assumes "w = workspace_run sha ops (new_workspace root storage)"
    and "create_delta sha env g t None fp w = (Inr d, w')"
    and "file_at w (delta_path w t (dl_generation d)) = None"
    and "true_manifest w g = Inr base" "mf_root base \<noteq> []" "join_path [] (mf_root base) = wk_root w"
    and "\<And>path b symbols s. we_parse env path b = Some symbols \<Longrightarrow> s \<in> set symbols \<Longrightarrow> wf_json s"
    and "\<And>q. q \<in> set (keys (worktree sha w) @ keys (mf_source_hashes base)) \<Longrightarrow> normal_path q = Inr q"
    and "\<And>f. file_at w (join_path (base_dir w @ [g]) (mf_snapshot base)) = Some f \<Longrightarrow> we_opens env' (fd_bytes f)"
  shows "\<exists>S. fst (compose_delta sha env' g t (dl_generation d) fp None w') = Inr S \<and> es_manifest S = base \<and>
     es_overlay S = Some (delta_overlay g t (norm_delta d))"
proof -
  have "workspace_ok sha w" unfolding assms(1) by (rule workspace_run_ok [OF new_workspace_ok])
  then show ?thesis by (rule create_then_compose) (use assms(2-) in blast)+
qed

end
