(* ===== verification/DeltaExamples.thy ===== *)
theory DeltaExamples
  imports DeltaCompose
begin

text \<open>
  A workspace whose source file is changed after its base is built: its delta is created, stored, read back
  and composed, under a digest that tells the two contents of the file apart.
\<close>

section \<open>A stored manifest is read back\<close>

definition sorted_dict :: "(string, string) dict \<Rightarrow> (string, string) dict" where
  "sorted_dict d = sort_key fst d"

definition norm_manifest :: "manifest \<Rightarrow> manifest" where
  "norm_manifest m = m\<lparr>mf_parser_versions := sorted_dict (mf_parser_versions m),
     mf_source_hashes := sorted_dict (mf_source_hashes m)\<rparr>"

lemma norm_hashes_object: "norm_json (hashes_object d) = hashes_object (sorted_dict d)"
proof -
  let ?f = "\<lambda>(k, v). (k, JStr v)"
  have "map (\<lambda>(k, v). (k, norm_json v)) (map ?f d) = map ?f d" by auto
  moreover have "sort_key fst (map ?f d) = map ?f (sort_key (fst \<circ> ?f) d)" by (simp add: sort_key_map)
  moreover have "fst \<circ> ?f = (fst :: string \<times> string \<Rightarrow> string)" by auto
  ultimately show ?thesis unfolding hashes_object_def sorted_dict_def norm_json.simps by (simp only:)
qed

lemma string_dict_hashes: "distinct (keys d) \<Longrightarrow> string_dict (hashes_object d) = Inr d"
proof -
  assume d: "distinct (keys d)"
  have "distinct (keys (acc @ xs)) \<Longrightarrow> fold (\<lambda>(k, v). dput k v) xs acc = acc @ xs" for acc xs :: "(string, string) dict"
  proof (induction xs arbitrary: acc)
    case (Cons x xs)
    obtain k v where x: "x = (k, v)" by (cases x)
    have "dput k v acc = acc @ [(k, v)]" using Cons.prems x by (intro dput_new) auto
    with Cons.IH [of "acc @ [(k, v)]"] Cons.prems x show ?case by simp
  qed simp
  from this [of "[]" d] d show ?thesis
    by (simp add: string_dict_def hashes_object_def comp_def fold_map case_prod_unfold)
qed

lemma stored_manifest:
  assumes "mf_schema m = MANIFEST_SCHEMA" "is_digest (mf_generation_id m)"
    and "distinct (keys (mf_parser_versions m))" "distinct (keys (mf_source_hashes m))"
  shows "manifest_of_bytes (mf_generation_id m) (canonical (manifest_json m)) = Inr (norm_manifest m)"
proof -
  define kvs where "kvs = manifest_fields m"
  have d: "distinct (keys kvs)" by (simp add: kvs_def manifest_fields_def)
  have "wf_json (hashes_object d)" if "distinct (keys d)" for d
    using that by (auto simp: hashes_object_def comp_def case_prod_unfold)
  then have "wf_json (manifest_json m)" using assms(3,4) d by (simp add: manifest_json_def manifest_fields_def)
  then have parsed: "loads (decode (canonical (manifest_json m))) = Some (JObj (norm_members kvs))"
    unfolding canonical_def decode_encode kvs_def manifest_json_def by (simp only: loads_dumps norm_JObj)
  have m: "map_of (norm_members kvs) k = map_option norm_json (map_of kvs k)" for k
    using d by (rule map_of_norm_members)
  have sd: "distinct (keys (sorted_dict d))" if "distinct (keys d)" for d
    using that by (simp add: sorted_dict_def distinct_sort_key_fst)
  have fs: "map_of (norm_members kvs) ''schema'' = Some (JStr (mf_schema m))"
    "map_of (norm_members kvs) ''generation_id'' = Some (JStr (mf_generation_id m))"
    "map_of (norm_members kvs) ''kind'' = Some (JStr (mf_kind m))"
    "map_of (norm_members kvs) ''commit'' = Some (JStr (mf_commit m))"
    "map_of (norm_members kvs) ''root'' = Some (JStr (mf_root m))"
    "map_of (norm_members kvs) ''config_fingerprint'' = Some (JStr (mf_config_fingerprint m))"
    "map_of (norm_members kvs) ''snapshot'' = Some (JStr (mf_snapshot m))"
    "map_of (norm_members kvs) ''created_at'' = Some (JStr (mf_created_at m))"
    "map_of (norm_members kvs) ''snapshot_sha256'' = Some (JStr (mf_snapshot_sha256 m))"
    "map_of (norm_members kvs) ''source_tree_sha256'' = Some (JStr (mf_source_tree_sha256 m))"
    "map_of (norm_members kvs) ''parser_versions'' = Some (hashes_object (sorted_dict (mf_parser_versions m)))"
    "map_of (norm_members kvs) ''source_hashes'' = Some (hashes_object (sorted_dict (mf_source_hashes m)))"
    unfolding m by (simp_all add: kvs_def manifest_fields_def norm_hashes_object)
  have fields: "norm_manifest m = \<lparr>mf_schema = mf_schema m, mf_generation_id = mf_generation_id m, mf_kind = mf_kind m,
      mf_commit = mf_commit m, mf_root = mf_root m, mf_config_fingerprint = mf_config_fingerprint m,
      mf_parser_versions = sorted_dict (mf_parser_versions m), mf_source_hashes = sorted_dict (mf_source_hashes m),
      mf_snapshot = mf_snapshot m, mf_created_at = mf_created_at m, mf_snapshot_sha256 = mf_snapshot_sha256 m,
      mf_source_tree_sha256 = mf_source_tree_sha256 m\<rparr>"
    by (simp add: norm_manifest_def)
  have "manifest_of (JObj (norm_members kvs)) = Inr (norm_manifest m)"
    using assms(1,2) fs string_dict_hashes [OF sd [OF assms(3)]] string_dict_hashes [OF sd [OF assms(4)]]
    by (simp add: manifest_of_def field_or_null_def str_field_def str_field_or_empty_def generation_id_def
        fields [unfolded assms(1)])
  then show ?thesis unfolding manifest_of_bytes_def parsed by (simp add: norm_manifest_def)
qed

section \<open>Witnesses\<close>

definition demo_hash :: "bytes \<Rightarrow> bytes" where
  "demo_hash b = replicate 32 (if b = [1] then 1 else 0)"

definition zeros :: string where
  "zeros = replicate 64 (CHR ''0'')"

definition ones :: string where
  "ones = hex (replicate 32 1)"

definition demo_env :: workspace_env where
  "demo_env = \<lparr>we_commit = ''unknown'', we_status = None, we_parser_versions = [], we_now = ''now'',
     we_parse = (\<lambda>_ _. Some []), we_build = (\<lambda>_. Some [9]), we_opens = (\<lambda>b. b = [9]), we_symbols = (\<lambda>_. []),
     we_files = (\<lambda>_. [])\<rparr>"

definition demo_ops :: "(workspace_env \<times> workspace_op) list" where
  "demo_ops = [(demo_env, Write_file [''r'', ''a.py''] [2]), (demo_env, Build_base (JObj [])),
     (demo_env, Write_file [''r'', ''a.py''] [1])]"

definition demo_manifest :: manifest where
  "demo_manifest = \<lparr>mf_schema = MANIFEST_SCHEMA, mf_generation_id = zeros, mf_kind = ''base'', mf_commit = ''unknown'',
     mf_root = ''/r'', mf_config_fingerprint = zeros, mf_parser_versions = [], mf_source_hashes = [(''a.py'', zeros)],
     mf_snapshot = ''project.sfast'', mf_created_at = ''now'', mf_snapshot_sha256 = zeros, mf_source_tree_sha256 = zeros\<rparr>"

lemma demo_hash_bytes: "hexdigest demo_hash [1] = ones" "hexdigest demo_hash [2] = zeros" "hexdigest demo_hash [9] = zeros"
proof -
  have "hex (replicate 32 0) = zeros" by code_simp
  then show "hexdigest demo_hash [2] = zeros" "hexdigest demo_hash [9] = zeros" by (simp_all add: hexdigest_def demo_hash_def)
  show "hexdigest demo_hash [1] = ones" by (simp add: hexdigest_def demo_hash_def ones_def)
qed

lemma demo_json_digest: "json_digest demo_hash v = zeros"
proof -
  have "canonical v \<noteq> [1]"
  proof
    assume "canonical v = [1]"
    then have "dumps v = decode [1]" by (metis canonical_def decode_encode)
    then have "\<not> printable (dumps v)" by (simp add: printable_def decode_def)
    then show False using printable_dumps by blast
  qed
  moreover have "hex (replicate 32 0) = zeros" by code_simp
  ultimately show ?thesis by (simp add: json_digest_def hexdigest_def demo_hash_def)
qed

lemma zeros_digest: "is_digest zeros" "is_digest ones" by code_simp+

definition demo_bytes :: bytes where "demo_bytes = canonical (manifest_json demo_manifest)"

lemma demo_read: "manifest_of_bytes zeros demo_bytes = Inr demo_manifest"
proof -
  have "norm_manifest demo_manifest = demo_manifest" by (simp add: norm_manifest_def demo_manifest_def sorted_dict_def)
  then show ?thesis
    using stored_manifest [of demo_manifest] zeros_digest by (simp add: demo_bytes_def demo_manifest_def)
qed

lemma demo_sources: "is_source [''a.py'']" by code_simp

definition demo_built :: workspace where
  "demo_built = \<lparr>wk_root = [''r''], wk_storage = [''s''],
     wk_files = [([''r'', ''a.py''], \<lparr>fd_bytes = [1], fd_stamp = 4\<rparr>),
       ([''s'', ''base'', zeros, ''project.sfast''], \<lparr>fd_bytes = [9], fd_stamp = 1\<rparr>),
       ([''s'', ''base'', zeros, ''manifest.json''], \<lparr>fd_bytes = demo_bytes, fd_stamp = 2\<rparr>),
       ([''s'', ''current.json''], \<lparr>fd_bytes = demo_bytes, fd_stamp = 3\<rparr>)],
     wk_clock = 5, wk_base_exists = True, wk_source_cache = [(([''r'', ''a.py''], 0), zeros)],
     wk_manifest_cache = [], wk_base_cache = [], wk_snapshot_cache = [([''s'', ''base'', zeros, ''project.sfast''], zeros, 1)],
     wk_delta_cache = [],
     wk_receipts = [(''base'', [(''generation_id'', JStr zeros), (''source_count'', JInt 1)])]\<rparr>"

definition demo_start :: workspace where
  "demo_start = \<lparr>wk_root = [''r''], wk_storage = [''s''],
     wk_files = [([''r'', ''a.py''], \<lparr>fd_bytes = [2], fd_stamp = 0\<rparr>)], wk_clock = 1, wk_base_exists = False,
     wk_source_cache = [], wk_manifest_cache = [], wk_base_cache = [], wk_snapshot_cache = [], wk_delta_cache = [],
     wk_receipts = []\<rparr>"

lemma demo_source_files:
  assumes "wk_root w = [''r'']" "keys (wk_files w) = [''r'', ''a.py''] # ps" "\<forall>p \<in> set ps. take 1 p = [''s'']"
  shows "source_files w = [[''a.py'']]"
proof -
  have "List.map_filter (relative_to [''r'']) ps = []"
    using assms(3) by (induction ps) (auto simp: map_filter_simps relative_to_def split: list.splits option.splits)
  then show ?thesis using assms(1,2) demo_sources
    by (simp add: source_files_def map_filter_simps relative_to_def)
qed

lemma demo_run: "workspace_run demo_hash demo_ops (new_workspace [''r''] [''s'']) = demo_built"
proof -
  have start: "put_file [''r'', ''a.py''] [2] (new_workspace [''r''] [''s'']) = demo_start"
    by (simp add: demo_start_def put_file_def new_workspace_def dput_def)
  have src: "source_files demo_start = [[''a.py'']]" by (rule demo_source_files [where ps = "[]"]) (simp_all add: demo_start_def)
  have hashes: "current_hashes demo_hash demo_start =
      (Inr [(''a.py'', zeros)], demo_start\<lparr>wk_source_cache := [(([''r'', ''a.py''], 0), zeros)]\<rparr>)"
    unfolding current_hashes_def src
    by (simp add: source_hash_def demo_start_def dput_def file_at_def fifo_def demo_hash_bytes Let_def)
  have m: "new_manifest demo_hash demo_env zeros [''r''] zeros [(''a.py'', zeros)] [9] = demo_manifest"
    by (simp add: new_manifest_def demo_manifest_def demo_env_def demo_hash_bytes demo_json_digest)
  have env: "we_commit demo_env = ''unknown''" "we_build demo_env x = Some [9]" "we_opens demo_env b \<longleftrightarrow> b = [9]" for x b
    by (simp_all add: demo_env_def)
  have src': "source_files \<lparr>wk_root = [''r''], wk_storage = [''s''],
     wk_files = [([''r'', ''a.py''], \<lparr>fd_bytes = [2], fd_stamp = 0\<rparr>)], wk_clock = Suc 0, wk_base_exists = False,
     wk_source_cache = [], wk_manifest_cache = [], wk_base_cache = [], wk_snapshot_cache = [], wk_delta_cache = [],
     wk_receipts = []\<rparr> = [[''a.py'']]"
    using src by (simp add: demo_start_def)
  have built: "snd (build_base demo_hash demo_env (JObj []) demo_start) = demo_built
      \<lparr>wk_files := dput [''r'', ''a.py''] \<lparr>fd_bytes = [2], fd_stamp = 0\<rparr> (wk_files demo_built), wk_clock := 4\<rparr>"
    unfolding build_base_def hashes demo_json_digest
    using m by (simp add: env src' Let_def demo_start_def put_file_def file_at_def base_dir_def manifest_path_def
        write_json_def demo_bytes_def dput_def validate_snapshot_def write_receipt_def fifo_def demo_built_def
        demo_hash_bytes demo_manifest_def)
  show ?thesis
    by (simp add: workspace_run_def demo_ops_def start built) (simp add: demo_built_def put_file_def dput_def)
qed

definition demo_delta :: delta where
  "demo_delta = \<lparr>dl_schema = DELTA_SCHEMA, dl_generation = zeros, dl_base_generation = zeros, dl_base_commit = ''unknown'',
     dl_base_config_fingerprint = zeros, dl_base_schema = MANIFEST_SCHEMA, dl_base_snapshot_sha256 = zeros,
     dl_worktree_id = ''t'', dl_changed = [(''a.py'', changed_record ones [])], dl_created_at = ''now'', dl_sha256 = zeros\<rparr>"

lemma demo_base: "true_base demo_hash demo_built zeros = Inr (demo_manifest, [''s'', ''base'', zeros, ''project.sfast''], zeros)"
proof -
  have p: "path_parts ''project.sfast'' = [''project.sfast'']" "path_parts ''/r'' = [''r'']"
    "is_absolute ''project.sfast'' = False" "is_absolute ''/r''" by code_simp+
  have "file_at demo_built (manifest_path demo_built zeros) = Some \<lparr>fd_bytes = demo_bytes, fd_stamp = 2\<rparr>"
    by (simp add: demo_built_def file_at_def manifest_path_def base_dir_def)
  then have m: "true_manifest demo_built zeros = Inr demo_manifest"
    by (simp add: true_manifest_def generation_id_def zeros_digest demo_read)
  have "same_base_repository demo_built demo_manifest"
    by (simp add: same_base_repository_def demo_manifest_def join_path_def p demo_built_def)
  then have "check_base demo_hash zeros demo_manifest demo_built = Inr [''s'', ''base'', zeros, ''project.sfast'']"
    using zeros_digest
    by (simp add: check_base_def demo_json_digest demo_manifest_def p join_path_def base_dir_def demo_built_def
        relative_to_def file_at_def Let_def)
  with m show ?thesis by (simp add: true_base_def demo_hash_bytes file_at_def demo_built_def demo_manifest_def)
qed

lemma demo_entries:
  "emap (delta_entry demo_hash demo_env demo_built [(''a.py'', zeros)] [(''a.py'', [''r'', ''a.py''])]) [''a.py''] =
     Inr [[(''a.py'', changed_record ones [])]]"
proof -
  have "zeros \<noteq> ones" by code_simp
  then show ?thesis
    by (simp add: delta_entry_def true_hash_def file_at_def demo_built_def demo_env_def demo_hash_bytes)
qed

lemma demo_new_delta:
  "new_delta demo_hash demo_env zeros demo_manifest zeros ''t'' [(''a.py'', changed_record ones [])] = demo_delta"
  by (simp add: new_delta_def demo_delta_def demo_json_digest demo_manifest_def demo_env_def)

lemma demo_check: "check_delta demo_delta = Inr demo_delta"
proof -
  have "validate_record (changed_record ones [])" by code_simp
  moreover have "strip zeros \<noteq> []" "strip ''unknown'' \<noteq> []" "strip MANIFEST_SCHEMA \<noteq> []" "strip ''t'' \<noteq> []"
    "strip ''now'' \<noteq> []" "strip DELTA_SCHEMA \<noteq> []" by code_simp+
  moreover have "normal_path ''a.py'' = Inr ''a.py''" by code_simp
  ultimately show ?thesis using zeros_digest by (simp add: check_delta_def demo_delta_def)
qed

lemma demo_create: "\<exists>w'. create_delta demo_hash demo_env zeros ''t'' None None demo_built = (Inr demo_delta, w')"
proof -
  let ?w = demo_built
  have ok: "workspace_ok demo_hash ?w"
    unfolding demo_run [symmetric] by (rule workspace_run_ok [OF new_workspace_ok])
  have t: "check_worktree_id ''t'' = Inr ''t''" by code_simp
  have src: "source_files ?w = [[''a.py'']]"
    by (rule demo_source_files [where ps = "keys (tl (wk_files demo_built))"]) (simp_all add: demo_built_def)
  have h: "mf_source_hashes demo_manifest = [(''a.py'', zeros)]" "wk_root ?w = [''r'']"
    by (simp_all add: demo_manifest_def demo_built_def)
  have c: "sorted_set [''a.py'', ''a.py''] = [''a.py'']" by (simp add: sorted_set_def)
  obtain w1 where q: "quiet ?w w1" and "create_delta demo_hash demo_env zeros ''t'' None None ?w =
      store_delta demo_hash zeros ''t'' demo_delta w1"
    using create_delta_all [OF ok demo_base t, of None demo_env]
    by (auto simp: src h c demo_entries demo_new_delta demo_check simp del: emap.simps)
  moreover have "file_at w1 (delta_path w1 ''t'' (dl_generation demo_delta)) = None"
    using q by (simp add: quiet_simps) (simp add: delta_path_def demo_built_def file_at_def)
  ultimately show ?thesis by (simp add: store_delta_def Let_def)
qed

lemma demo_absent: "file_at demo_built (delta_path demo_built ''t'' (dl_generation demo_delta)) = None"
  by (simp add: delta_path_def demo_built_def file_at_def)

theorem created_delta_is_the_difference_witness:
  "\<exists>base. true_manifest demo_built zeros = Inr base \<and>
     (\<forall>q. map_of (composed_hashes (mf_source_hashes base) (dl_changed demo_delta)) q =
        map_of (worktree demo_hash demo_built) q) \<and>
     set (keys (dl_changed demo_delta)) =
       {q. map_of (mf_source_hashes base) q \<noteq> map_of (worktree demo_hash demo_built) q}"
proof -
  obtain w' where "create_delta demo_hash demo_env zeros ''t'' None None demo_built = (Inr demo_delta, w')"
    using demo_create by blast
  from created_delta_is_the_difference [OF demo_run [symmetric] this demo_absent] show ?thesis .
qed

lemma demo_conditions:
  "true_manifest demo_built zeros = Inr demo_manifest" "mf_root demo_manifest \<noteq> []"
  "join_path [] (mf_root demo_manifest) = wk_root demo_built"
  "we_parse demo_env path b = Some symbols \<Longrightarrow> s \<in> set symbols \<Longrightarrow> wf_json s"
  "q \<in> set (keys (worktree demo_hash demo_built) @ keys (mf_source_hashes demo_manifest)) \<Longrightarrow> normal_path q = Inr q"
  "file_at demo_built (join_path (base_dir demo_built @ [zeros]) (mf_snapshot demo_manifest)) = Some f \<Longrightarrow>
     we_opens demo_env (fd_bytes f)"
proof -
  show "true_manifest demo_built zeros = Inr demo_manifest"
    using demo_base by (auto simp: true_base_def ebind_Inr split: option.splits if_splits)
  have "join_path [] ''/r'' = [''r'']" by code_simp
  then show "join_path [] (mf_root demo_manifest) = wk_root demo_built" by (simp add: demo_manifest_def demo_built_def)
  have src: "source_files demo_built = [[''a.py'']]"
    by (rule demo_source_files [where ps = "keys (tl (wk_files demo_built))"]) (simp_all add: demo_built_def)
  have "normal_path ''a.py'' = Inr ''a.py''" by code_simp
  then show "q \<in> set (keys (worktree demo_hash demo_built) @ keys (mf_source_hashes demo_manifest)) \<Longrightarrow> normal_path q = Inr q"
    by (auto simp: worktree_def src demo_manifest_def)
  have "join_path d ''project.sfast'' = d @ [''project.sfast'']" for d
  proof -
    have "path_parts ''project.sfast'' = [''project.sfast'']" "\<not> is_absolute ''project.sfast''" by code_simp+
    then show ?thesis by (simp add: join_path_def)
  qed
  then show "file_at demo_built (join_path (base_dir demo_built @ [zeros]) (mf_snapshot demo_manifest)) = Some f \<Longrightarrow>
     we_opens demo_env (fd_bytes f)"
    by (auto simp: file_at_def demo_built_def base_dir_def demo_manifest_def demo_env_def)
qed (auto simp: demo_manifest_def demo_env_def)

theorem created_delta_composes_witness:
  "\<exists>w' S. create_delta demo_hash demo_env zeros ''t'' None None demo_built = (Inr demo_delta, w') \<and>
     fst (compose_delta demo_hash demo_env zeros ''t'' zeros None None w') = Inr S \<and> es_manifest S = demo_manifest \<and>
     es_overlay S = Some (delta_overlay zeros ''t'' (norm_delta demo_delta))"
proof -
  obtain w' where "create_delta demo_hash demo_env zeros ''t'' None None demo_built = (Inr demo_delta, w')"
    using demo_create by blast
  moreover have "\<exists>S. fst (compose_delta demo_hash demo_env zeros ''t'' zeros None None w') = Inr S \<and> es_manifest S = demo_manifest \<and>
     es_overlay S = Some (delta_overlay zeros ''t'' (norm_delta demo_delta))"
    if "create_delta demo_hash demo_env zeros ''t'' None None demo_built = (Inr demo_delta, w')" for w'
  proof -
    have "\<exists>S. fst (compose_delta demo_hash demo_env zeros ''t'' (dl_generation demo_delta) None None w') = Inr S \<and>
        es_manifest S = demo_manifest \<and> es_overlay S = Some (delta_overlay zeros ''t'' (norm_delta demo_delta))"
      by (rule created_delta_composes [OF demo_run [symmetric] that demo_absent demo_conditions(1-3)])
        (use demo_conditions(4-6) in blast)+
    moreover have "dl_generation demo_delta = zeros" by (simp add: demo_delta_def)
    ultimately show ?thesis by simp
  qed
  ultimately show ?thesis by blast
qed

definition demo_stored :: workspace where
  "demo_stored = workspace_run demo_hash (demo_ops @ [(demo_env, Create_delta zeros ''t'' None None)]) (new_workspace [''r''] [''s''])"

theorem composed_delta_matches_worktree_witness:
  "\<exists>S d. fst (compose_delta demo_hash demo_env zeros ''t'' zeros None None demo_stored) = Inr S \<and>
     true_manifest demo_stored zeros = Inr (es_manifest S) \<and> true_delta demo_hash demo_stored ''t'' zeros = Inr d \<and>
     (\<forall>q. map_of (composed_hashes (mf_source_hashes (es_manifest S)) (dl_changed d)) q =
        map_of (worktree demo_hash demo_stored) q)"
proof -
  obtain w' where w': "create_delta demo_hash demo_env zeros ''t'' None None demo_built = (Inr demo_delta, w')"
    using demo_create by blast
  have ok: "workspace_ok demo_hash demo_built"
    unfolding demo_run [symmetric] by (rule workspace_run_ok [OF new_workspace_ok])
  have "demo_stored = w'"
    unfolding demo_stored_def using w' demo_run by (simp add: workspace_run_def)
  moreover obtain S where "fst (compose_delta demo_hash demo_env zeros ''t'' (dl_generation demo_delta) None None w') = Inr S"
    using create_then_compose [OF ok w' demo_absent demo_conditions(1-3), of demo_env] demo_conditions(4-6) by blast
  ultimately have S: "fst (compose_delta demo_hash demo_env zeros ''t'' zeros None None demo_stored) = Inr S"
    by (simp add: demo_delta_def)
  from composed_delta_matches_worktree [OF demo_stored_def S] S show ?thesis by blast
qed

end
