(* ===== verification/Leases.thy ===== *)
theory Leases
  imports DeltaExamples
begin

text \<open>
  Leases and collection: what a lease file protects is left alone, and an applied collection leaves exactly
  the generations some unexpired lease protects.
\<close>

section \<open>Lease files\<close>

text \<open>The generation a lease file protects at a time.\<close>

definition protects :: "int \<Rightarrow> workspace \<Rightarrow> path \<Rightarrow> string \<Rightarrow> bool" where
  "protects now w p g \<longleftrightarrow>
     lease_state now (Option.bind (file_at w p) (\<lambda>f. loads (decode (fd_bytes f)))) = Inr (Protects g)"

text \<open>A lease identifier that is one path component, as the hexadecimal ones are.\<close>

definition simple_id :: "string \<Rightarrow> bool" where
  "simple_id i \<longleftrightarrow> path_parts (i @ ''.json'') = [i @ ''.json''] \<and> \<not> is_absolute (i @ ''.json'')"

lemma simple_lease_path: "simple_id i \<Longrightarrow> lease_path w i = lease_dir w @ [i @ ''.json'']"
  by (auto simp: lease_path_def join_path_def simple_id_def append_eq_Cons_conv)

lemma stored_lease:
  assumes "now < ls_expires_at l"
  shows "lease_state now (loads (decode (canonical (lease_json l)))) = Inr (Protects (ls_generation_id l))"
proof -
  define kvs where "kvs = [(''schema'', JStr LEASE_SCHEMA), (''lease_id'', JStr (ls_id l)),
     (''generation_id'', JStr (ls_generation_id l)), (''owner'', JStr (ls_owner l)),
     (''expires_at'', JInt (ls_expires_at l)), (''created_at'', JInt (ls_created_at l))]"
  have j: "lease_json l = JObj kvs" by (simp add: lease_json_def kvs_def)
  have d: "distinct (keys kvs)" by (simp add: kvs_def)
  have "wf_json (JObj kvs)" by (simp add: kvs_def)
  then have parsed: "loads (decode (canonical (lease_json l))) = Some (JObj (norm_members kvs))"
    unfolding canonical_def decode_encode j by (simp only: loads_dumps norm_JObj)
  have "map_of (norm_members kvs) ''expires_at'' = Some (JInt (ls_expires_at l))"
    "map_of (norm_members kvs) ''generation_id'' = Some (JStr (ls_generation_id l))"
    unfolding map_of_norm_members [OF d] by (simp_all add: kvs_def)
  with assms parsed show ?thesis by (simp add: lease_state_def)
qed

lemma lease_listed:
  assumes "simple_id i" "file_at w (lease_path w i) \<noteq> None"
  shows "lease_path w i \<in> set (lease_files w)"
  using assms by (auto simp: lease_files_def simple_lease_path file_at_def dest!: map_of_SomeD intro!: image_eqI [where f = fst])

lemma lease_file_dir: "p \<in> set (lease_files w) \<Longrightarrow> butlast p = lease_dir w \<and> p \<noteq> []"
  by (simp add: lease_files_def)

lemma lease_not_base: "p \<in> set (lease_files w) \<Longrightarrow> take (Suc (length (wk_storage w))) p \<noteq> base_dir w"
proof
  assume "p \<in> set (lease_files w)" and t: "take (Suc (length (wk_storage w))) p = base_dir w"
  then have "p = lease_dir w @ [last p]" using lease_file_dir by (metis append_butlast_last_id)
  then have "take (Suc (length (wk_storage w))) p = lease_dir w" by (metis append_eq_conv_conj length_append_singleton lease_dir_def)
  with t show False by (simp add: lease_dir_def base_dir_def)
qed

section \<open>Scanning the leases\<close>

lemma scan_leases_effect:
  "distinct ps \<Longrightarrow> scan_leases now apply ps w = (Inr found, w1) \<Longrightarrow>
     set found = {g. \<exists>p \<in> set ps. protects now w p g} \<and> wk_storage w1 = wk_storage w \<and>
     wk_base_exists w1 = wk_base_exists w \<and> wk_root w1 = wk_root w \<and>
     (\<exists>gone \<subseteq> set ps. wk_files w1 = filter (\<lambda>(q, _). q \<notin> gone) (wk_files w) \<and>
        (\<forall>p \<in> gone. \<forall>g. \<not> protects now w p g))"
proof (induction ps arbitrary: w found)
  case Nil
  then show ?case by (auto intro!: exI [of _ "{}"])
next
  case (Cons p ps)
  let ?state = "lease_state now (Option.bind (file_at w p) (\<lambda>f. loads (decode (fd_bytes f))))"
  show ?case
  proof (cases "\<exists>g. ?state = Inr (Protects g)")
    case True
    then obtain g where g: "?state = Inr (Protects g)" by blast
    then obtain rest where rest: "scan_leases now apply ps w = (Inr rest, w1)" "found = g # rest"
      using Cons.prems(2) by (auto split: prod.splits sum.splits)
    have "{g'. protects now w p g'} = {g}" using g by (auto simp: protects_def)
    then show ?thesis using Cons.IH [OF _ rest(1)] Cons.prems(1) rest(2) by fastforce
  next
    case False
    define w0 where "w0 = (if apply then remove_file p w else w)"
    obtain x where x: "?state = Inr x" using Cons.prems(2) by (cases ?state) auto
    then have rest: "scan_leases now apply ps w0 = (Inr found, w1)"
      using Cons.prems(2) False unfolding w0_def by (cases x) auto
    have none: "\<not> protects now w p g" for g using False by (simp add: protects_def)
    have same: "protects now w0 q g = protects now w q g" if "q \<in> set ps" for q g
      using that Cons.prems(1) by (auto simp: protects_def w0_def)
    have files: "wk_files w0 = filter (\<lambda>(q, _). q \<notin> (if apply then {p} else {})) (wk_files w)"
      by (auto simp: w0_def remove_file_def dpop_def intro!: filter_cong [symmetric] filter_True [symmetric])
    obtain gone where gone: "gone \<subseteq> set ps" "wk_files w1 = filter (\<lambda>(q, _). q \<notin> gone) (wk_files w0)"
        "\<forall>q \<in> gone. \<forall>g. \<not> protects now w0 q g" and rest': "set found = {g. \<exists>p \<in> set ps. protects now w0 p g}"
        "wk_storage w1 = wk_storage w0" "wk_base_exists w1 = wk_base_exists w0" "wk_root w1 = wk_root w0"
      using Cons.IH [OF _ rest] Cons.prems(1) by auto
    let ?gone = "gone \<union> (if apply then {p} else {})"
    have "?gone \<subseteq> set (p # ps)" using gone(1) by auto
    moreover have "wk_files w1 = filter (\<lambda>(q, _). q \<notin> ?gone) (wk_files w)"
      unfolding gone(2) files by (auto simp: filter_filter intro!: filter_cong)
    moreover have "\<forall>q \<in> ?gone. \<forall>g. \<not> protects now w q g" using gone(1,3) same none by (simp, blast)
    moreover have "set found = {g. \<exists>p \<in> set (p # ps). protects now w p g}" using rest'(1) same none by auto
    moreover have "wk_storage w0 = wk_storage w" "wk_base_exists w0 = wk_base_exists w" "wk_root w0 = wk_root w"
      by (simp_all add: w0_def remove_file_def)
    ultimately show ?thesis unfolding rest' by (intro conjI exI [of _ ?gone]) auto
  qed
qed

section \<open>Collecting\<close>

lemma relative_to_Some: "relative_to d p = Some r \<longleftrightarrow> p = d @ r"
  by (auto simp: relative_to_def split: if_splits) (metis append_take_drop_id)

lemma inside_generation: "strictly_inside (d @ [g]) p \<longleftrightarrow> (\<exists>x xs. relative_to d p = Some (g # x # xs))"
proof
  assume inside: "strictly_inside (d @ [g]) p"
  then have "p = (d @ [g]) @ drop (Suc (length d)) p"
    by (metis append_take_drop_id length_append_singleton strictly_inside_def)
  moreover have "drop (Suc (length d)) p \<noteq> []" using inside by (simp add: strictly_inside_def)
  ultimately show "\<exists>x xs. relative_to d p = Some (g # x # xs)"
    unfolding relative_to_Some by (metis append.assoc append_Cons append_Nil neq_Nil_conv)
qed (auto simp: relative_to_Some strictly_inside_def)

lemma base_generations_inside:
  "g \<in> set (base_generations w) \<longleftrightarrow> (\<exists>p \<in> set (keys (wk_files w)). strictly_inside (base_dir w @ [g]) p)"
  unfolding base_generations_def set_remdups inside_generation
  by (force simp: map_filter_def split: option.splits list.splits)

lemma remove_generations:
  "wk_files (fold remove_generation gs w) =
     filter (\<lambda>(p, _). \<forall>g \<in> set gs. \<not> strictly_inside (base_dir w @ [g]) p) (wk_files w) \<and>
   wk_storage (fold remove_generation gs w) = wk_storage w"
proof (induction gs arbitrary: w)
  case (Cons g gs)
  have "base_dir (remove_generation g w) = base_dir w" by (simp add: base_dir_def remove_generation_def)
  with Cons.IH [of "remove_generation g w"] show ?case
    by (auto simp: remove_generation_def filter_filter intro!: filter_cong)
qed simp

lemma lease_outside: "p \<in> set (lease_files w) \<Longrightarrow> \<not> strictly_inside (base_dir w @ [g]) p"
proof
  assume p: "p \<in> set (lease_files w)" and "strictly_inside (base_dir w @ [g]) p"
  then obtain r where "p = base_dir w @ r" unfolding inside_generation relative_to_Some by blast
  then have "take (Suc (length (wk_storage w))) p = base_dir w" by (simp add: base_dir_def)
  with lease_not_base [OF p] show False ..
qed

lemma collect_base_effect:
  assumes "workspace_ok sha w" "collect_base now apply w = (Inr rep, w')"
  defines "leased \<equiv> {g. \<exists>p \<in> set (lease_files w). protects now w p g}"
  shows "set (gc_protected rep) = leased" "set (gc_candidates rep) = set (base_generations w) - leased"
    "gc_removed rep = (if apply then gc_candidates rep else [])" "base_dir w' = base_dir w"
    "\<exists>gone \<subseteq> set (lease_files w). (\<forall>p \<in> gone. \<forall>g. \<not> protects now w p g) \<and>
       wk_files w' = filter (\<lambda>(p, _). p \<notin> gone \<and> (\<forall>g \<in> set (gc_removed rep). \<not> strictly_inside (base_dir w @ [g]) p))
         (wk_files w)"
proof -
  have "distinct (keys (wk_files w))" using assms(1) by (simp add: workspace_ok_def)
  then have d: "distinct (lease_files w)" by (simp add: lease_files_def)
  obtain found w1 where scan: "scan_leases now apply (lease_files w) w = (Inr found, w1)"
    using assms(2) by (auto simp: collect_base_def split: prod.splits sum.splits)
  obtain gone where s: "set found = leased" "wk_storage w1 = wk_storage w" "gone \<subseteq> set (lease_files w)"
      "wk_files w1 = filter (\<lambda>(q, _). q \<notin> gone) (wk_files w)" "\<forall>p \<in> gone. \<forall>g. \<not> protects now w p g"
    using scan_leases_effect [OF d scan] unfolding leased_def by blast
  have dir: "base_dir w1 = base_dir w" using s(2) by (simp add: base_dir_def)
  have gens: "set (base_generations w1) = set (base_generations w)"
  proof -
    have "p \<notin> gone" if "strictly_inside (base_dir w @ [g]) p" for p g using that lease_outside s(3) by blast
    then show ?thesis unfolding set_eq_iff base_generations_inside dir s(4) by fastforce
  qed
  have r: "gc_protected rep = sorted_set found"
    "gc_candidates rep = filter (\<lambda>g. g \<notin> set found) (base_generations w1)"
    "gc_removed rep = (if apply then gc_candidates rep else [])"
    "wk_files w' = wk_files (fold remove_generation (gc_removed rep) w1)"
    "wk_storage w' = wk_storage (fold remove_generation (gc_removed rep) w1)"
    using assms(2) scan by (auto simp: collect_base_def write_receipt_def Let_def split: if_splits)
  show "set (gc_protected rep) = leased" using r(1) s(1) by simp
  show "set (gc_candidates rep) = set (base_generations w) - leased" using r(2) s(1) gens by auto
  show "gc_removed rep = (if apply then gc_candidates rep else [])" by fact
  show "base_dir w' = base_dir w" using r(5) remove_generations s(2) by (simp add: base_dir_def)
  show "\<exists>gone \<subseteq> set (lease_files w). (\<forall>p \<in> gone. \<forall>g. \<not> protects now w p g) \<and>
       wk_files w' = filter (\<lambda>(p, _). p \<notin> gone \<and> (\<forall>g \<in> set (gc_removed rep). \<not> strictly_inside (base_dir w @ [g]) p))
         (wk_files w)"
    using s r(4) remove_generations [of "gc_removed rep" w1]
    by (intro exI [of _ gone]) (auto simp: dir filter_filter case_prod_unfold conj_commute)
qed

lemma filtered_at: "P q \<Longrightarrow> map_of (filter (\<lambda>(p, _). P p) fs) q = map_of fs q" for fs :: "(path, file_data) dict"
  by (induction fs) auto

lemma collected_file:
  assumes "workspace_ok sha w" "collect_base now apply w = (Inr rep, w')" "strictly_inside (base_dir w @ [g]) p"
  shows "file_at w' p = (if g \<in> set (gc_removed rep) then None else file_at w p)"
proof -
  obtain gone where gone: "gone \<subseteq> set (lease_files w)"
      "wk_files w' = filter (\<lambda>(p, _). p \<notin> gone \<and> (\<forall>g \<in> set (gc_removed rep). \<not> strictly_inside (base_dir w @ [g]) p))
         (wk_files w)"
    using collect_base_effect(5) [OF assms(1,2)] by blast
  have only: "strictly_inside (base_dir w @ [g']) p \<longleftrightarrow> g' = g" for g'
    using assms(3) unfolding inside_generation by auto
  have "p \<notin> gone" using lease_outside gone(1) assms(3) by blast
  then show ?thesis
    unfolding file_at_def gone(2) using only by (auto simp: map_of_filter_key intro!: filtered_at)
qed

lemma scan_leases_reports: "snd (scan_leases now False ps w) = w"
  by (induction ps) (auto split: sum.split prod.splits lease_state.split)

lemma collect_base_reports: "collect_base now False w = (r, w') \<Longrightarrow> wk_files w' = wk_files w"
  using scan_leases_reports [of now "lease_files w" w]
  by (auto simp: collect_base_def write_receipt_def Let_def split: prod.splits sum.splits if_splits)

text \<open>C13: A lease is honoured.  Whatever happened since a lease was acquired, as long as its file is as it was
  written and it has not expired, a collection reports its generation as protected and leaves every file of
  it, and the lease itself, exactly as it was.\<close>

theorem leased_generation_is_kept:
  assumes "acquire_lease g owner ttl i created (workspace_run sha ops (new_workspace root storage)) = (Inr l, w1)"
    and "w = workspace_run sha later w1"
    and "map_option fd_bytes (file_at w (lease_path w i)) = map_option fd_bytes (file_at w1 (lease_path w1 i))"
    and "simple_id i" "now < created + ttl" "collect_base now apply w = (Inr rep, w')"
  shows "g \<in> set (gc_protected rep) \<and> file_at w' (lease_path w i) = file_at w (lease_path w i) \<and>
     (\<forall>p. strictly_inside (base_dir w @ [g]) p \<longrightarrow> file_at w' p = file_at w p)"
proof -
  let ?w0 = "workspace_run sha ops (new_workspace root storage)" and ?p = "lease_path w i"
  have ok0: "workspace_ok sha ?w0" by (rule workspace_run_ok [OF new_workspace_ok])
  have "workspace_ok sha w1" using acquire_lease_keeps [OF ok0, of g owner ttl i created] assms(1) by (simp add: keeps_def)
  then have ok: "workspace_ok sha w" unfolding assms(2) by (rule workspace_run_ok)
  have d: "distinct (keys (wk_files w))" using ok by (simp add: workspace_ok_def)
  have l: "ls_generation_id l = g" "ls_expires_at l = created + ttl"
      "map_option fd_bytes (file_at w1 (lease_path w1 i)) = Some (canonical (lease_json l))"
    using assms(1) by (auto simp: acquire_lease_def Let_def write_json_def lease_path_def lease_dir_def
        split: prod.splits sum.splits)
  then obtain f where f: "file_at w ?p = Some f" "fd_bytes f = canonical (lease_json l)"
    using assms(3) by (cases "file_at w ?p") auto
  have prot: "protects now w ?p g" using stored_lease [of now l] f l assms(5) by (simp add: protects_def)
  have listed: "?p \<in> set (lease_files w)" using lease_listed [OF assms(4)] f by simp
  note e = collect_base_effect [OF ok assms(6)]
  obtain gone where gone: "gone \<subseteq> set (lease_files w)" "\<forall>p \<in> gone. \<forall>g. \<not> protects now w p g"
      "wk_files w' = filter (\<lambda>(p, _). p \<notin> gone \<and> (\<forall>g \<in> set (gc_removed rep). \<not> strictly_inside (base_dir w @ [g]) p))
         (wk_files w)"
    using e(5) by blast
  have leased: "g \<in> set (gc_protected rep)" unfolding e(1) using prot listed by blast
  then have "g \<notin> set (gc_removed rep)" using e(1-3) by auto
  have filtered: "P q \<Longrightarrow> map_of (filter (\<lambda>(p, _). P p) fs) q = map_of fs q" for P q and fs :: "(path, file_data) dict"
    by (induction fs) auto
  have same: "file_at w' q = file_at w q"
    if "q \<notin> gone" "\<forall>g' \<in> set (gc_removed rep). \<not> strictly_inside (base_dir w @ [g']) q" for q
    unfolding file_at_def gone(3) by (rule filtered) (use that in blast)
  have "file_at w' ?p = file_at w ?p"
    using gone(2) prot lease_outside [OF listed] by (intro same) auto
  moreover have "file_at w' q = file_at w q" if q: "strictly_inside (base_dir w @ [g]) q" for q
  proof (rule same)
    show "q \<notin> gone" using q lease_outside gone(1) by blast
    show "\<forall>g' \<in> set (gc_removed rep). \<not> strictly_inside (base_dir w @ [g']) q"
      using q \<open>g \<notin> set (gc_removed rep)\<close> unfolding inside_generation by auto
  qed
  ultimately show ?thesis using leased by blast
qed

text \<open>C14: A collection collects exactly what no lease protects: afterwards a generation has files just when it
  had some and an unexpired lease names it, and each of its files is then exactly as it was.  Run without
  \<open>apply\<close> it only reports: no file at all changes, of a generation or of a lease.\<close>

theorem collection_is_exact:
  assumes "w = workspace_run sha ops (new_workspace root storage)" "collect_base now apply w = (Inr rep, w')"
  shows "set (gc_protected rep) = {g. \<exists>p \<in> set (lease_files w). protects now w p g} \<and>
     set (gc_candidates rep) = set (base_generations w) - set (gc_protected rep) \<and>
     set (base_generations w') = (if apply then set (base_generations w) \<inter> set (gc_protected rep) else set (base_generations w)) \<and>
     (\<forall>g p. strictly_inside (base_dir w @ [g]) p \<longrightarrow>
        file_at w' p = (if apply \<and> g \<notin> set (gc_protected rep) then None else file_at w p)) \<and>
     (\<not> apply \<longrightarrow> wk_files w' = wk_files w)"
proof -
  have ok: "workspace_ok sha w" unfolding assms(1) by (rule workspace_run_ok [OF new_workspace_ok])
  note e = collect_base_effect [OF ok assms(2)]
  have removed: "g \<in> set (gc_removed rep) \<longleftrightarrow> apply \<and> g \<in> set (base_generations w) \<and> g \<notin> set (gc_protected rep)" for g
    using e(1-3) by (cases "apply") auto
  have gens: "g \<in> set (base_generations v) \<longleftrightarrow> (\<exists>p. strictly_inside (base_dir v @ [g]) p \<and> file_at v p \<noteq> None)" for g v
    unfolding base_generations_inside file_at_def map_of_None_keys by blast
  have files: "file_at w' p = (if apply \<and> g \<notin> set (gc_protected rep) then None else file_at w p)"
    if p: "strictly_inside (base_dir w @ [g]) p" for g p
    unfolding collected_file [OF ok assms(2) p] removed using gens [of g w] p by auto
  have "g \<in> set (base_generations w') \<longleftrightarrow> g \<in> set (base_generations w) \<and> \<not> (apply \<and> g \<notin> set (gc_protected rep))" for g
  proof -
    have "g \<in> set (base_generations w') \<longleftrightarrow> (\<exists>p. strictly_inside (base_dir w @ [g]) p \<and>
        (if apply \<and> g \<notin> set (gc_protected rep) then None else file_at w p) \<noteq> None)"
      unfolding gens e(4) using files by metis
    then show ?thesis unfolding gens [of g w] by (auto split: if_splits)
  qed
  moreover have "wk_files w' = wk_files w" if "\<not> apply"
    using collect_base_reports assms(2) that by simp
  moreover have "set (gc_candidates rep) = set (base_generations w) - set (gc_protected rep)" using e(1,2) by blast
  ultimately show ?thesis using e(1) files by (cases "apply") auto
qed

section \<open>A leased generation of the example\<close>

definition demo_leased :: workspace where
  "demo_leased = workspace_run demo_hash (demo_ops @ [(demo_env, Acquire_lease zeros ''me'' 10 ''l'' 5)])
     (new_workspace [''r''] [''s''])"

definition demo_lease :: lease where
  "demo_lease = \<lparr>ls_id = ''l'', ls_generation_id = zeros, ls_owner = ''me'', ls_expires_at = 15, ls_created_at = 5\<rparr>"

lemma demo_acquire: "acquire_lease zeros ''me'' 10 ''l'' 5 demo_built = (Inr demo_lease, demo_leased)"
proof -
  have ok: "workspace_ok demo_hash demo_built"
    unfolding demo_run [symmetric] by (rule workspace_run_ok [OF new_workspace_ok])
  have step: "demo_leased = snd (acquire_lease zeros ''me'' 10 ''l'' 5 demo_built)"
    using demo_run by (simp add: demo_leased_def workspace_run_def)
  obtain w1 where "read_manifest zeros demo_built = (Inr demo_manifest, w1)"
    using read_manifest_true [OF ok, of zeros] demo_conditions(1) by auto
  then have "fst (acquire_lease zeros ''me'' 10 ''l'' 5 demo_built) = Inr demo_lease"
    by (simp add: acquire_lease_def Let_def demo_lease_def)
  with step show ?thesis by (metis prod.collapse)
qed

lemma demo_files:
  "wk_files demo_leased = wk_files demo_built @
     [([''s'', ''leases'', ''l.json''], \<lparr>fd_bytes = canonical (lease_json demo_lease), fd_stamp = 5\<rparr>)]"
  "wk_storage demo_leased = [''s'']" "wk_base_exists demo_leased"
proof -
  have ok: "workspace_ok demo_hash demo_built"
    unfolding demo_run [symmetric] by (rule workspace_run_ok [OF new_workspace_ok])
  obtain w1 where r: "read_manifest zeros demo_built = (Inr demo_manifest, w1)" "quiet demo_built w1"
    using read_manifest_true [OF ok, of zeros] demo_conditions(1) by auto
  then have a: "demo_leased = write_json (lease_path w1 ''l'') (lease_json demo_lease) w1"
    using demo_acquire by (simp add: acquire_lease_def Let_def demo_lease_def)
  have i: "simple_id ''l''" by code_simp
  have p: "lease_path w1 ''l'' = [''s'', ''leases'', ''l.json'']"
    using r(2) by (simp add: simple_lease_path [OF i] lease_dir_def quiet_simps) (simp add: demo_built_def)
  show "wk_files demo_leased = wk_files demo_built @
      [([''s'', ''leases'', ''l.json''], \<lparr>fd_bytes = canonical (lease_json demo_lease), fd_stamp = 5\<rparr>)]"
    "wk_storage demo_leased = [''s'']" "wk_base_exists demo_leased"
    using r(2) unfolding a p by (simp_all add: write_json_def put_file_def quiet_def) (simp_all add: demo_built_def dput_def)
qed

lemma demo_collect: "\<exists>rep w'. collect_base 7 True demo_leased = (Inr rep, w')"
proof -
  have l: "lease_files demo_leased = [[''s'', ''leases'', ''l.json'']]"
    unfolding lease_files_def demo_files lease_dir_def by (simp add: demo_built_def)
  have "file_at demo_leased [''s'', ''leases'', ''l.json''] =
      Some \<lparr>fd_bytes = canonical (lease_json demo_lease), fd_stamp = 5\<rparr>"
    unfolding file_at_def demo_files by (simp add: demo_built_def)
  then have "lease_state 7 (Option.bind (file_at demo_leased [''s'', ''leases'', ''l.json''])
      (\<lambda>f. loads (decode (fd_bytes f)))) = Inr (Protects zeros)"
    using stored_lease [of 7 demo_lease] by (simp add: demo_lease_def)
  then have "scan_leases 7 True (lease_files demo_leased) demo_leased = (Inr [zeros], demo_leased)"
    unfolding l by (simp only: scan_leases.simps sum.simps lease_state.simps prod.simps)
  then show ?thesis using demo_files(3) by (simp add: collect_base_def Let_def)
qed

theorem leased_generation_is_kept_witness:
  "\<exists>rep w'. collect_base 7 True demo_leased = (Inr rep, w') \<and> zeros \<in> set (gc_protected rep) \<and>
     file_at w' (manifest_path demo_leased zeros) = file_at demo_leased (manifest_path demo_leased zeros)"
proof -
  obtain rep w' where c: "collect_base 7 True demo_leased = (Inr rep, w')" using demo_collect by blast
  have a: "acquire_lease zeros ''me'' 10 ''l'' 5 (workspace_run demo_hash demo_ops (new_workspace [''r''] [''s''])) =
      (Inr demo_lease, demo_leased)" unfolding demo_run by (rule demo_acquire)
  have i: "simple_id ''l''" by code_simp
  have "demo_leased = workspace_run demo_hash [] demo_leased" by (simp add: workspace_run_def)
  from leased_generation_is_kept [OF a this refl i _ c] c show ?thesis
    by (intro exI [of _ rep] exI [of _ w']) (auto simp: manifest_path_def strictly_inside_def)
qed

theorem collection_is_exact_witness:
  "\<exists>rep w'. collect_base 7 True demo_leased = (Inr rep, w') \<and>
     set (base_generations w') = set (base_generations demo_leased) \<inter> set (gc_protected rep)"
proof -
  obtain rep w' where c: "collect_base 7 True demo_leased = (Inr rep, w')" using demo_collect by blast
  from collection_is_exact [OF demo_leased_def c] c show ?thesis by auto
qed

end
