(* ===== verification/EffectiveContext.thy ===== *)
theory EffectiveContext
  imports Workspace ChangeValidate
begin

text \<open>
  \<open>EffectiveSnapshot.context_many\<close> of \<open>simplicio_fast/workspace.py\<close>: the source of the symbols that match
  some queries, within budgets of results, lines, bytes and tokens, verified against the generation.
  Text is in UTF-8 units.  The files do not change during a request, so its local cache of sources, which
  only saves reading them again, is left out.
\<close>

section \<open>Text\<close>

text \<open>What Python's strict decoder accepts.\<close>

definition continuation :: "nat \<Rightarrow> bool" where
  "continuation b \<longleftrightarrow> 0x80 \<le> b \<and> b < 0xC0"

fun utf8_ok :: "nat list \<Rightarrow> bool" where
  "utf8_ok [] = True"
| "utf8_ok (a # s) =
     (if a < 0x80 then utf8_ok s
      else
        (case s of
           [] \<Rightarrow> False
         | b # t \<Rightarrow>
             (if 0xC2 \<le> a \<and> a \<le> 0xDF then continuation b \<and> utf8_ok t
              else
                (case t of
                   [] \<Rightarrow> False
                 | c # u \<Rightarrow>
                     (if 0xE0 \<le> a \<and> a \<le> 0xEF then
                        continuation b \<and> continuation c \<and> \<not> (a = 0xE0 \<and> b < 0xA0) \<and> \<not> (a = 0xED \<and> 0xA0 \<le> b) \<and> utf8_ok u
                      else
                        (case u of
                           [] \<Rightarrow> False
                         | d # v \<Rightarrow>
                             0xF0 \<le> a \<and> a \<le> 0xF4 \<and> continuation b \<and> continuation c \<and> continuation d \<and>
                             \<not> (a = 0xF0 \<and> b < 0x90) \<and> \<not> (a = 0xF4 \<and> 0x90 \<le> b) \<and> utf8_ok v))))))"

definition valid_text :: "string \<Rightarrow> bool" where
  "valid_text s \<longleftrightarrow> utf8_ok (map of_char s)"

text \<open>
  \<open>encode()[:n].decode(errors=''ignore'')\<close> of a valid text: the sequence the cut breaks is dropped.
\<close>

definition sequence_length :: "char \<Rightarrow> nat" where
  "sequence_length c =
     (let b = of_char c :: nat in if b < 0xC0 then 1 else if b < 0xE0 then 2 else if b < 0xF0 then 3 else 4)"

definition clip :: "int \<Rightarrow> string \<Rightarrow> string" where
  "clip n s =
     (let t = take (nat n) s;
          tail = takeWhile (\<lambda>c. continuation (of_char c)) (rev t);
          k = length tail
      in if k < length t \<and> Suc k < sequence_length (t ! (length t - Suc k)) then take (length t - Suc k) t else t)"

text \<open>\<open>text.splitlines()\<close>, the lines without their ends, and the join with line feeds.\<close>

fun chomp :: "string \<Rightarrow> string" where
  "chomp [] = []"
| "chomp (c # s) = (if boundary (c # s) \<noteq> 0 then [] else c # chomp s)"

definition source_lines :: "string \<Rightarrow> string list" where
  "source_lines s = map chomp (text_lines s)"

fun join_lines :: "string list \<Rightarrow> string" where
  "join_lines [] = []"
| "join_lines [l] = l"
| "join_lines (l # m # ls) = l @ CHR 0x0A # join_lines (m # ls)"

text \<open>\<open>xs[a:b]\<close>.\<close>

definition slice_index :: "int \<Rightarrow> 'a list \<Rightarrow> nat" where
  "slice_index i xs = nat (if i < 0 then max 0 (i + int (length xs)) else min i (int (length xs)))"

definition py_slice :: "int \<Rightarrow> int \<Rightarrow> 'a list \<Rightarrow> 'a list" where
  "py_slice a b xs = drop (slice_index a xs) (take (slice_index b xs) xs)"

section \<open>Spans\<close>

record context_limits =
  lm_results :: int
  lm_lines :: int
  lm_bytes :: int
  lm_tokens :: "int option"

datatype context_error =
    Context_limits_invalid
  | Context_path_escapes string
  | Context_source_missing string
  | Context_source_not_utf8 string
  | Context_stale string
  | Context_escape py_exc

record context_span =
  cs_symbol :: string
  cs_kind :: string
  cs_file :: string
  cs_start_line :: int
  cs_end_line :: int
  cs_source_sha256 :: string
  cs_content :: string
  cs_base_generation :: "string option"
  cs_overlay_generation :: "string option"
  cs_requested_start :: int
  cs_requested_end :: int
  cs_start_byte :: int
  cs_end_byte :: int
  cs_content_sha256 :: string
  cs_partial :: bool
  cs_omitted :: "(int \<times> int) list"
  cs_tokens :: int

record context_state =
  cx_spans :: "context_span list"
  cx_bytes :: int
  cx_tokens :: int
  cx_seen :: "(string \<times> int \<times> int) list"

text \<open>The digest a file has to have: none when the overlay records what is no text.\<close>

definition expected_digest :: "effective_snapshot \<Rightarrow> string \<Rightarrow> py_exc + string option" where
  "expected_digest S p =
     (let base = map_of (mf_source_hashes (es_manifest S)) p in
      case es_overlay S of
        None \<Rightarrow> Inr base
      | Some ov \<Rightarrow>
          (case map_of (ov_changed ov) p of
             None \<Rightarrow> Inr base
           | Some (JObj r) \<Rightarrow>
               (let v = field_or_null r ''sha256'' in
                Inr (if truthy v then (case v of JStr s \<Rightarrow> Some s | _ \<Rightarrow> None) else base))
           | Some _ \<Rightarrow> Inl Attribute_error))"

definition verified_source ::
  "(bytes \<Rightarrow> bytes) \<Rightarrow> workspace \<Rightarrow> effective_snapshot \<Rightarrow> string \<Rightarrow> context_error + string" where
  "verified_source sha w S p =
     (let path = join_path (es_root S) p in
      if relative_to (es_root S) path = None then Inl (Context_path_escapes p)
      else
        (case file_at w path of
           None \<Rightarrow> Inl (Context_source_missing p)
         | Some f \<Rightarrow>
             (if \<not> valid_text (decode (fd_bytes f)) then Inl (Context_source_not_utf8 p)
              else
                (case expected_digest S p of
                   Inl e \<Rightarrow> Inl (Context_escape e)
                 | Inr expected \<Rightarrow>
                     (if expected \<noteq> Some (hexdigest sha (fd_bytes f)) then Inl (Context_stale p)
                      else Inr (decode (fd_bytes f)))))))"

definition tokens_of :: "string \<Rightarrow> int" where
  "tokens_of s = (if s = [] then 0 else max 1 ((int (length s) + 3) div 4))"

text \<open>
  The content that fits in what is left of the byte and token budgets, and whether it was cut; \<open>None\<close> when
  nothing is left.
\<close>

definition fit_content :: "context_limits \<Rightarrow> context_state \<Rightarrow> bool \<Rightarrow> string \<Rightarrow> (string \<times> bool) option" where
  "fit_content lim st truncated text =
     (if lm_bytes lim - cx_bytes st \<le> 0 then None
      else
        (let content = clip (lm_bytes lim - cx_bytes st) text;
             truncated1 = (truncated \<or> length content < length text)
         in case lm_tokens lim of
              None \<Rightarrow> Some (content, truncated1)
            | Some m \<Rightarrow>
                (if cx_tokens st + tokens_of content \<le> m then Some (content, truncated1)
                 else if m - cx_tokens st \<le> 0 then None
                 else Some (clip ((m - cx_tokens st) * 4) content, True))))"

definition delivered_end :: "int \<Rightarrow> int \<Rightarrow> bool \<Rightarrow> string \<Rightarrow> int" where
  "delivered_end line stop cut_short content =
     (let feeds = int (length (filter (\<lambda>c. c = CHR 0x0A) content)) in
      if cut_short \<and> content \<noteq> [] then (if last content \<noteq> CHR 0x0A then line + feeds else line + feeds - 1)
      else stop)"

definition omitted_start :: "int \<Rightarrow> int \<Rightarrow> bool \<Rightarrow> string \<Rightarrow> int" where
  "omitted_start line delivered cut_short content =
     (if cut_short \<and> content \<noteq> [] \<and> last content \<noteq> CHR 0x0A then delivered
      else if cut_short \<and> content = [] then line
      else delivered + 1)"

definition make_span ::
  "(bytes \<Rightarrow> bytes) \<Rightarrow> effective_snapshot \<Rightarrow> symbol \<Rightarrow> string \<Rightarrow> int \<Rightarrow> string \<Rightarrow> string \<Rightarrow> bool \<Rightarrow> context_span" where
  "make_span sha S s source stop text content truncated =
     (let cut_short = (truncated \<and> length content < length text);
          delivered = delivered_end (sm_line s) stop cut_short content;
          omitted = omitted_start (sm_line s) delivered cut_short content;
          before = int (length (join_lines (py_slice 0 (sm_line s - 1) (source_lines source)))) +
            (if sm_line s > 1 then 1 else 0)
      in \<lparr>cs_symbol = sm_qualified_name s, cs_kind = sm_kind s, cs_file = sm_file s, cs_start_line = sm_line s,
          cs_end_line = delivered, cs_source_sha256 = hexdigest sha (encode source), cs_content = content,
          cs_base_generation = Some (mf_generation_id (es_manifest S)),
          cs_overlay_generation = map_option ov_generation (es_overlay S),
          cs_requested_start = sm_line s, cs_requested_end = sm_end_line s, cs_start_byte = before,
          cs_end_byte = before + int (length content), cs_content_sha256 = hexdigest sha (encode content),
          cs_partial = truncated,
          cs_omitted = (if truncated \<and> omitted \<le> sm_end_line s then [(omitted, sm_end_line s)] else []),
          cs_tokens = tokens_of content\<rparr>)"

text \<open>One symbol: whether the request ends here, and the state.\<close>

definition context_symbol ::
  "(bytes \<Rightarrow> bytes) \<Rightarrow> workspace \<Rightarrow> effective_snapshot \<Rightarrow> context_limits \<Rightarrow> symbol \<Rightarrow> context_state \<Rightarrow>
     context_error + bool \<times> context_state" where
  "context_symbol sha w S lim s st =
     (if int (length (cx_spans st)) \<ge> lm_results lim then Inr (True, st)
      else
        ebind (verified_source sha w S (sm_file s)) (\<lambda>source.
          let stop = min (sm_end_line s) (sm_line s + lm_lines lim - 1);
              key = (sm_file s, sm_line s, stop);
              text = join_lines (py_slice (sm_line s - 1) stop (source_lines source))
          in if key \<in> set (cx_seen st) then Inr (False, st)
             else
               (case fit_content lim st (stop < sm_end_line s) text of
                  None \<Rightarrow> Inr (True, st)
                | Some (content, truncated) \<Rightarrow>
                    Inr (False, st\<lparr>cx_spans := cx_spans st @ [make_span sha S s source stop text content truncated],
                      cx_bytes := cx_bytes st + int (length content), cx_tokens := cx_tokens st + tokens_of content,
                      cx_seen := cx_seen st @ [key]\<rparr>))))"

fun context_symbols ::
  "(bytes \<Rightarrow> bytes) \<Rightarrow> workspace \<Rightarrow> effective_snapshot \<Rightarrow> context_limits \<Rightarrow> symbol list \<Rightarrow> context_state \<Rightarrow>
     context_error + bool \<times> context_state" where
  "context_symbols sha w S lim [] st = Inr (False, st)"
| "context_symbols sha w S lim (s # ss) st =
     ebind (context_symbol sha w S lim s st) (\<lambda>(stopped, st1).
       if stopped then Inr (True, st1) else context_symbols sha w S lim ss st1)"

fun context_queries ::
  "(bytes \<Rightarrow> bytes) \<Rightarrow> workspace \<Rightarrow> effective_snapshot \<Rightarrow> context_limits \<Rightarrow> string list \<Rightarrow> context_state \<Rightarrow>
     context_error + context_state" where
  "context_queries sha w S lim [] st = Inr st"
| "context_queries sha w S lim (q # qs) st =
     (case find_symbols q S of
        Inl e \<Rightarrow> Inl (Context_escape e)
      | Inr symbols \<Rightarrow>
          ebind (context_symbols sha w S lim symbols st) (\<lambda>(stopped, st1).
            if stopped then Inr st1 else context_queries sha w S lim qs st1))"

definition context_many ::
  "(bytes \<Rightarrow> bytes) \<Rightarrow> workspace \<Rightarrow> effective_snapshot \<Rightarrow> context_limits \<Rightarrow> string list \<Rightarrow>
     context_error + context_span list" where
  "context_many sha w S lim queries =
     (if lm_results lim < 1 \<or> lm_lines lim < 1 \<or> lm_bytes lim < 1 \<or>
         (case lm_tokens lim of None \<Rightarrow> False | Some m \<Rightarrow> m < 1)
      then Inl Context_limits_invalid
      else
        ebind (context_queries sha w S lim queries \<lparr>cx_spans = [], cx_bytes = 0, cx_tokens = 0, cx_seen = []\<rparr>)
          (\<lambda>st. Inr (cx_spans st)))"

end
