(* ===== verification/ContextDelivery.thy ===== *)
theory ContextDelivery
  imports EffectiveContext ChangePlan
begin

text \<open>
  What a bounded context delivers: it stays within its budgets, every span is the beginning of the verified
  lines it was asked for, and its byte range is where the content stands in the file.
\<close>

section \<open>What a request delivers\<close>

lemma clip_prefix: "clip n s = take (length (clip n s)) s \<and> length (clip n s) \<le> nat n"
proof -
  obtain i where "clip n s = take i (take (nat n) s)"
    unfolding clip_def Let_def by (metis order_refl take_all)
  then show ?thesis by (auto simp: min_def)
qed

lemma tokens_of_nonneg [simp]: "0 \<le> tokens_of s"
  by (auto simp: tokens_of_def max_def)

lemma tokens_of_clip: "1 \<le> k \<Longrightarrow> tokens_of (clip (k * 4) s) \<le> k"
proof -
  assume k: "1 \<le> k"
  have "int (length (clip (k * 4) s)) \<le> k * 4" using clip_prefix [of "k * 4" s] k by linarith
  then have "(int (length (clip (k * 4) s)) + 3) div 4 \<le> k" by presburger
  then show ?thesis using k by (simp add: tokens_of_def)
qed

lemma fit_content_Some:
  assumes "fit_content lim st truncated text = Some (content, cut_off)"
  shows "content = take (length content) text" "cx_bytes st + int (length content) \<le> lm_bytes lim"
    "\<And>m. lm_tokens lim = Some m \<Longrightarrow> cx_tokens st + tokens_of content \<le> m"
    "\<not> cut_off \<Longrightarrow> \<not> truncated \<and> content = text"
proof -
  let ?c = "clip (lm_bytes lim - cx_bytes st) text"
  have room: "0 < lm_bytes lim - cx_bytes st" using assms by (auto simp: fit_content_def split: if_splits)
  note c = clip_prefix [of "lm_bytes lim - cx_bytes st" "text"]
  consider "content = ?c" "cut_off = (truncated \<or> length ?c < length text)"
      "\<And>m. lm_tokens lim = Some m \<Longrightarrow> cx_tokens st + tokens_of ?c \<le> m"
    | m where "lm_tokens lim = Some m" "1 \<le> m - cx_tokens st" "content = clip ((m - cx_tokens st) * 4) ?c" "cut_off"
    using assms room by (auto simp: fit_content_def Let_def split: option.splits if_splits)
  then have "content = take (length content) text \<and> int (length content) \<le> lm_bytes lim - cx_bytes st \<and>
      (\<forall>m. lm_tokens lim = Some m \<longrightarrow> cx_tokens st + tokens_of content \<le> m) \<and> (\<not> cut_off \<longrightarrow> \<not> truncated \<and> content = text)"
  proof cases
    case 1
    then show ?thesis using c room by (metis int_nat_eq le_nat_iff less_imp_le linorder_not_less take_all)
  next
    case 2
    let ?d = "clip ((m - cx_tokens st) * 4) ?c"
    have d: "?d = take (length ?d) ?c" "length ?d \<le> length ?c" using clip_prefix by (metis, metis length_take min.cobounded1)
    then have "?d = take (length ?d) text" using c by (metis min.absorb1 take_take)
    moreover have "int (length ?d) \<le> lm_bytes lim - cx_bytes st" using c d(2) room by linarith
    ultimately show ?thesis using 2 tokens_of_clip [of "m - cx_tokens st" ?c] by auto
  qed
  then show "content = take (length content) text" "cx_bytes st + int (length content) \<le> lm_bytes lim"
    "\<And>m. lm_tokens lim = Some m \<Longrightarrow> cx_tokens st + tokens_of content \<le> m"
    "\<not> cut_off \<Longrightarrow> \<not> truncated \<and> content = text" by auto
qed

text \<open>The last line a symbol's span may reach, and the text it asks for.\<close>

definition last_line :: "context_limits \<Rightarrow> symbol \<Rightarrow> int" where
  "last_line lim s = min (sm_end_line s) (sm_line s + lm_lines lim - 1)"

definition wanted_text :: "context_limits \<Rightarrow> symbol \<Rightarrow> string \<Rightarrow> string" where
  "wanted_text lim s source = join_lines (py_slice (sm_line s - 1) (last_line lim s) (source_lines source))"

definition delivers ::
  "(bytes \<Rightarrow> bytes) \<Rightarrow> workspace \<Rightarrow> effective_snapshot \<Rightarrow> context_limits \<Rightarrow> context_span \<Rightarrow> symbol \<Rightarrow> string \<Rightarrow> bool" where
  "delivers sha w S lim x s source \<longleftrightarrow>
     verified_source sha w S (sm_file s) = Inr source \<and>
     cs_content x = take (length (cs_content x)) (wanted_text lim s source) \<and>
     (\<not> cs_partial x \<longrightarrow> cs_content x = wanted_text lim s source \<and> last_line lim s = sm_end_line s) \<and>
     x = make_span sha S s source (last_line lim s) (wanted_text lim s source) (cs_content x) (cs_partial x)"

definition context_ok ::
  "(bytes \<Rightarrow> bytes) \<Rightarrow> workspace \<Rightarrow> effective_snapshot \<Rightarrow> context_limits \<Rightarrow> context_state \<Rightarrow> bool" where
  "context_ok sha w S lim st \<longleftrightarrow>
     int (length (cx_spans st)) \<le> lm_results lim \<and>
     cx_bytes st = (\<Sum>x \<leftarrow> cx_spans st. int (length (cs_content x))) \<and> cx_bytes st \<le> lm_bytes lim \<and>
     cx_tokens st = (\<Sum>x \<leftarrow> cx_spans st. cs_tokens x) \<and> (\<forall>m. lm_tokens lim = Some m \<longrightarrow> cx_tokens st \<le> m) \<and>
     cx_seen st = map (\<lambda>x. (cs_file x, cs_requested_start x,
        min (cs_requested_end x) (cs_requested_start x + lm_lines lim - 1))) (cx_spans st) \<and>
     distinct (cx_seen st) \<and> (\<forall>x \<in> set (cx_spans st). \<exists>s source. delivers sha w S lim x s source)"

lemma make_span_simps [simp]:
  "cs_file (make_span sha S s source stop text content t) = sm_file s"
  "cs_content (make_span sha S s source stop text content t) = content"
  "cs_partial (make_span sha S s source stop text content t) = t"
  "cs_tokens (make_span sha S s source stop text content t) = tokens_of content"
  "cs_requested_start (make_span sha S s source stop text content t) = sm_line s"
  "cs_requested_end (make_span sha S s source stop text content t) = sm_end_line s"
  "cs_source_sha256 (make_span sha S s source stop text content t) = hexdigest sha (encode source)"
  "cs_content_sha256 (make_span sha S s source stop text content t) = hexdigest sha (encode content)"
  by (simp_all add: make_span_def Let_def)

lemma context_symbol_ok:
  assumes ok: "context_ok sha w S lim st" and run: "context_symbol sha w S lim s st = Inr (stopped, st1)"
  shows "context_ok sha w S lim st1"
proof (cases "st1 = st")
  case False
  then obtain source content truncated where
    room: "int (length (cx_spans st)) < lm_results lim"
    and source: "verified_source sha w S (sm_file s) = Inr source"
    and new: "(sm_file s, sm_line s, last_line lim s) \<notin> set (cx_seen st)"
    and fit: "fit_content lim st (last_line lim s < sm_end_line s) (wanted_text lim s source) = Some (content, truncated)"
    and st1: "st1 = st\<lparr>cx_spans := cx_spans st @ [make_span sha S s source (last_line lim s) (wanted_text lim s source) content truncated],
        cx_bytes := cx_bytes st + int (length content), cx_tokens := cx_tokens st + tokens_of content,
        cx_seen := cx_seen st @ [(sm_file s, sm_line s, last_line lim s)]\<rparr>"
    using run unfolding context_symbol_def Let_def last_line_def [symmetric] wanted_text_def [symmetric]
    by (auto simp: ebind_Inr not_le split: if_splits option.splits)
  note f = fit_content_Some [OF fit]
  have "delivers sha w S lim (make_span sha S s source (last_line lim s) (wanted_text lim s source) content truncated) s source"
    using source f(1,4) by (auto simp: delivers_def last_line_def)
  then show ?thesis
    using ok room new f(2,3) unfolding context_ok_def st1 by (auto simp: last_line_def [symmetric])
qed (use ok in simp)

lemma context_symbols_ok:
  "context_ok sha w S lim st \<Longrightarrow> context_symbols sha w S lim ss st = Inr (stopped, st1) \<Longrightarrow> context_ok sha w S lim st1"
proof (induction ss arbitrary: st)
  case (Cons s ss)
  then show ?case by (auto simp: ebind_Inr split: if_splits dest: context_symbol_ok)
qed simp

lemma context_queries_ok:
  "context_ok sha w S lim st \<Longrightarrow> context_queries sha w S lim qs st = Inr st1 \<Longrightarrow> context_ok sha w S lim st1"
proof (induction qs arbitrary: st)
  case (Cons q qs)
  then show ?case by (auto simp: ebind_Inr split: if_splits sum.splits dest: context_symbols_ok)
qed simp

lemma context_many_ok:
  assumes "context_many sha w S lim qs = Inr spans"
  obtains st where "context_ok sha w S lim st" "cx_spans st = spans"
proof -
  let ?st = "\<lparr>cx_spans = [], cx_bytes = 0, cx_tokens = 0, cx_seen = []\<rparr>"
  have "context_ok sha w S lim ?st"
    using assms by (auto simp: context_ok_def context_many_def split: if_splits option.splits)
  then show ?thesis
    using assms that by (auto simp: context_many_def ebind_Inr split: if_splits option.splits dest: context_queries_ok)
qed

text \<open>C39: A bounded context keeps its bounds: never more spans, content bytes or tokens than asked for, no span
  over more lines than allowed and no range of lines delivered twice.\<close>

theorem context_stays_within_limits:
  assumes "context_many sha w S lim queries = Inr spans"
  shows "int (length spans) \<le> lm_results lim \<and> (\<Sum>x \<leftarrow> spans. int (length (cs_content x))) \<le> lm_bytes lim \<and>
     (case lm_tokens lim of None \<Rightarrow> True | Some m \<Rightarrow> (\<Sum>x \<leftarrow> spans. cs_tokens x) \<le> m) \<and>
     distinct (map (\<lambda>x. (cs_file x, cs_requested_start x,
        min (cs_requested_end x) (cs_requested_start x + lm_lines lim - 1))) spans)"
proof -
  obtain st where "context_ok sha w S lim st" "cx_spans st = spans" using context_many_ok [OF assms] .
  then show ?thesis unfolding context_ok_def by (auto split: option.split)
qed

text \<open>C15: What a context delivers is the verified source: a span's file is inside the root and has the digest its
  generation expects, its content is the beginning of the lines asked for, and all of them unless the
  span is marked partial.\<close>

theorem context_is_verified_source:
  assumes "context_many sha w S lim queries = Inr spans" "x \<in> set spans"
  shows "\<exists>f. file_at w (join_path (es_root S) (cs_file x)) = Some f \<and>
     relative_to (es_root S) (join_path (es_root S) (cs_file x)) \<noteq> None \<and>
     expected_digest S (cs_file x) = Inr (Some (hexdigest sha (fd_bytes f))) \<and>
     cs_source_sha256 x = hexdigest sha (fd_bytes f) \<and> cs_content_sha256 x = hexdigest sha (encode (cs_content x)) \<and>
     (let stop = min (cs_requested_end x) (cs_requested_start x + lm_lines lim - 1);
          text = join_lines (py_slice (cs_requested_start x - 1) stop (source_lines (decode (fd_bytes f))))
      in cs_content x = take (length (cs_content x)) text \<and>
         (cs_partial x \<or> (cs_content x = text \<and> stop = cs_requested_end x)))"
proof -
  obtain st where "context_ok sha w S lim st" "cx_spans st = spans" using context_many_ok [OF assms(1)] .
  then obtain s source where d: "delivers sha w S lim x s source" using assms(2) unfolding context_ok_def by blast
  then have x: "x = make_span sha S s source (last_line lim s) (wanted_text lim s source) (cs_content x) (cs_partial x)"
    and v: "verified_source sha w S (sm_file s) = Inr source" unfolding delivers_def by blast+
  have fields: "cs_file x = sm_file s" "cs_requested_start x = sm_line s" "cs_requested_end x = sm_end_line s"
    "cs_source_sha256 x = hexdigest sha (encode source)" "cs_content_sha256 x = hexdigest sha (encode (cs_content x))"
    by (subst x, simp)+
  obtain f where "file_at w (join_path (es_root S) (sm_file s)) = Some f" "source = decode (fd_bytes f)"
      "relative_to (es_root S) (join_path (es_root S) (sm_file s)) \<noteq> None"
      "expected_digest S (sm_file s) = Inr (Some (hexdigest sha (fd_bytes f)))"
    using v by (auto simp: verified_source_def Let_def split: if_splits option.splits sum.splits)
  then show ?thesis
    using d fields unfolding delivers_def wanted_text_def last_line_def Let_def by auto
qed

section \<open>Byte ranges\<close>

text \<open>A text whose only line ends are line feeds.\<close>

fun lf_only :: "string \<Rightarrow> bool" where
  "lf_only [] \<longleftrightarrow> True"
| "lf_only (c # s) \<longleftrightarrow> boundary (c # s) = (if c = CHR 0x0A then 1 else 0) \<and> lf_only s"

definition terminated :: "string \<Rightarrow> bool" where
  "terminated l \<longleftrightarrow> l = chomp l @ [CHR 0x0A]"

lemma boundary_prefix: "boundary (c # l) \<noteq> 0 \<Longrightarrow> boundary (c # l @ r) \<noteq> 0"
  by (cases l; cases "tl l") (auto simp: boundary_def CRLF_def split: if_splits)

lemma lf_text_lines:
  "lf_only s \<Longrightarrow> (\<forall>l \<in> set (butlast (text_lines s)). terminated l) \<and>
     (\<forall>l \<in> set (text_lines s). terminated l \<or> l = chomp l)"
proof (induction s rule: text_lines.induct)
  case (2 c s)
  show ?case
  proof (cases "boundary (c # s) = 0")
    case True
    then have ih: "(\<forall>l \<in> set (butlast (text_lines s)). terminated l) \<and>
        (\<forall>l \<in> set (text_lines s). terminated l \<or> l = chomp l)" using 2 by simp
    show ?thesis
    proof (cases "text_lines s")
      case Nil
      then have "s = []" using text_lines_concat [of s] by simp
      then show ?thesis using True by (simp add: text_lines.simps(2))
    next
      case (Cons l ls)
      then have "s = l @ concat ls" using text_lines_concat [of s] by simp
      then have "chomp (c # l) = c # chomp l" using boundary_prefix [of c l "concat ls"] True by auto
      then show ?thesis using ih Cons True by (auto simp: text_lines.simps(2) terminated_def)
    qed
  next
    case False
    then have c: "boundary (c # s) = 1" "c = CHR 0x0A" "lf_only s" using 2(3) by (auto split: if_splits)
    have "chomp [CHR 0x0A] = []" by (simp add: boundary_def CRLF_def)
    then have "terminated [CHR 0x0A]" by (simp add: terminated_def)
    then show ?thesis using 2(2) [OF False] c by (auto simp: text_lines.simps(2))
  qed
qed simp

lemma join_terminated:
  "xs \<noteq> [] \<Longrightarrow> \<forall>l \<in> set xs. terminated l \<Longrightarrow> join_lines (map chomp xs) @ [CHR 0x0A] = concat xs"
proof (induction xs rule: join_lines.induct)
  case (3 l m ls)
  then have l: "chomp l @ [CHR 0x0A] = l" by (simp add: terminated_def)
  have ih: "join_lines (map chomp (m # ls)) @ [CHR 0x0A] = concat (m # ls)" using 3 by simp
  have "join_lines (map chomp (l # m # ls)) @ [CHR 0x0A] = (chomp l @ [CHR 0x0A]) @ join_lines (map chomp (m # ls)) @ [CHR 0x0A]"
    by simp
  then show ?case unfolding ih l by simp
qed (auto simp: terminated_def)

lemma join_prefix:
  "\<forall>l \<in> set (butlast xs). terminated l \<Longrightarrow> \<forall>l \<in> set xs. terminated l \<or> l = chomp l \<Longrightarrow>
     take (length (join_lines (map chomp xs))) (concat xs) = join_lines (map chomp xs)"
proof (induction xs rule: join_lines.induct)
  case (2 l)
  have "l = chomp l @ r \<Longrightarrow> take (length (chomp l)) l = chomp l" for r by (metis append_eq_conv_conj)
  from this [of "[]"] this [of "[CHR 0x0A]"] 2 show ?case by (auto simp: terminated_def)
next
  case (3 l m ls)
  then have "chomp l @ [CHR 0x0A] = l" by (simp add: terminated_def)
  then have "concat (l # m # ls) = (chomp l @ [CHR 0x0A]) @ concat (m # ls)" by simp
  then have c: "concat (l # m # ls) = chomp l @ CHR 0x0A # concat (m # ls)" by simp
  have ih: "take (length (join_lines (map chomp (m # ls)))) (concat (m # ls)) = join_lines (map chomp (m # ls))"
    using 3 by simp
  have "take (length (a @ x # j)) (a @ x # t) = a @ x # j" if "take (length j) t = j" for a j t :: string and x
    using that by simp
  from this [OF ih] show ?case unfolding c by (simp only: list.map join_lines.simps)
qed simp

lemma slice_index_nonneg: "0 \<le> i \<Longrightarrow> slice_index i xs = min (nat i) (length xs)"
  by (auto simp: slice_index_def min_def nat_le_iff)

lemma butlast_middle: "set (butlast (drop k (take m xs))) \<subseteq> set (butlast xs)"
proof -
  have "set (butlast (take m xs)) \<subseteq> set (butlast xs)" 
    by (cases "m \<le> length xs") (simp_all add: butlast_take butlast_conv_take set_take_subset_set_take diff_le_mono)
  moreover have "set (butlast (drop k ys)) \<subseteq> set (butlast ys)" for ys :: "'a list"
    by (simp add: butlast_drop) (metis set_drop_subset butlast_drop)
  ultimately show ?thesis by blast
qed

lemma span_bytes:
  fixes source :: string and line stop :: int
  defines "ls \<equiv> source_lines source"
  defines "before \<equiv> int (length (join_lines (py_slice 0 (line - 1) ls))) + (if line > 1 then 1 else 0)"
    and "wanted \<equiv> join_lines (py_slice (line - 1) stop ls)"
  assumes "lf_only source" "1 \<le> line"
  shows "take (length wanted) (drop (nat before) source) = wanted \<or> wanted = []"
proof (cases "nat (line - 1) < length ls")
  case True
  let ?k = "nat (line - 1)" and ?ts = "text_lines source"
  have ls: "ls = map chomp ?ts" by (simp add: ls_def source_lines_def)
  note t = lf_text_lines [OF assms(4)]
  have "set (take ?k ?ts) \<subseteq> set (butlast ?ts)"
    using True by (simp add: ls butlast_conv_take) (rule set_take_subset_set_take, simp)
  then have "\<forall>l \<in> set (take ?k ?ts). terminated l" using t by blast
  have "py_slice 0 (line - 1) ls = map chomp (take ?k ?ts)"
    using True assms(5) by (simp add: py_slice_def slice_index_nonneg ls take_map)
  have "nat before = length (concat (take ?k ?ts))"
  proof (cases "line > 1")
    case later: True
    then have "take ?k ?ts \<noteq> []" using True by (auto simp: ls)
    from join_terminated [OF this \<open>\<forall>l \<in> set (take ?k ?ts). terminated l\<close>]
    have "Suc (length (join_lines (map chomp (take ?k ?ts)))) = length (concat (take ?k ?ts))"
      by (metis length_append_singleton)
    then show ?thesis using later \<open>py_slice 0 (line - 1) ls = map chomp (take ?k ?ts)\<close> by (simp add: before_def)
  qed (use assms(5) in \<open>simp add: before_def py_slice_def slice_index_nonneg\<close>)
  moreover have "concat (take ?k ?ts) @ concat (drop ?k ?ts) = source"
    by (metis append_take_drop_id concat_append text_lines_concat)
  ultimately have rest: "drop (nat before) source = concat (drop ?k ?ts)" by (metis append_eq_conv_conj)
  let ?m = "slice_index stop ls"
  let ?ys = "drop ?k (take ?m ?ts)"
  have "py_slice (line - 1) stop ls = map chomp ?ys"
    using True assms(5) by (simp add: py_slice_def slice_index_nonneg ls take_map drop_map)
  then have w: "wanted = join_lines (map chomp ?ys)" by (simp add: wanted_def)
  have "\<forall>l \<in> set (butlast ?ys). terminated l" using t subsetD [OF butlast_middle [of ?k ?m ?ts]] by simp
  moreover have "\<forall>l \<in> set ?ys. terminated l \<or> l = chomp l" using t by (meson in_set_dropD in_set_takeD)
  ultimately have pre: "take (length wanted) (concat ?ys) = wanted" unfolding w by (rule join_prefix)
  have "\<exists>r. drop ?k ?ts = ?ys @ r"
    by (metis append_take_drop_id drop_append)
  then obtain r where "concat (drop ?k ?ts) = concat ?ys @ concat r" by auto
  moreover have "length wanted \<le> length (concat ?ys)" using pre by (metis length_take min.cobounded2 min.commute)
  ultimately show ?thesis using pre rest by simp
next
  case False
  then show ?thesis using assms(5) by (simp add: wanted_def py_slice_def slice_index_nonneg)
qed

text \<open>C40: A span addresses the bytes it delivers: in a file whose only line ends are line feeds, the byte range of
  a span is where its content stands.\<close>

theorem context_addresses_its_bytes:
  assumes "context_many sha w S lim queries = Inr spans" "x \<in> set spans"
    and "file_at w (join_path (es_root S) (cs_file x)) = Some f" "lf_only (decode (fd_bytes f))" "1 \<le> cs_requested_start x"
  shows "take (nat (cs_end_byte x - cs_start_byte x)) (drop (nat (cs_start_byte x)) (fd_bytes f)) = encode (cs_content x)"
proof -
  obtain st where "context_ok sha w S lim st" "cx_spans st = spans" using context_many_ok [OF assms(1)] .
  then obtain s source where d: "delivers sha w S lim x s source" using assms(2) unfolding context_ok_def by blast
  then have x: "x = make_span sha S s source (last_line lim s) (wanted_text lim s source) (cs_content x) (cs_partial x)"
    and v: "verified_source sha w S (sm_file s) = Inr source"
    and c: "cs_content x = take (length (cs_content x)) (wanted_text lim s source)" unfolding delivers_def by blast+
  have "cs_file x = sm_file s" by (subst x, simp)
  then have source: "source = decode (fd_bytes f)"
    using v assms(3) by (auto simp: verified_source_def Let_def split: if_splits option.splits sum.splits)
  have line: "cs_requested_start x = sm_line s" by (subst x, simp)
  let ?before = "int (length (join_lines (py_slice 0 (sm_line s - 1) (source_lines source)))) + (if sm_line s > 1 then 1 else 0)"
  have b: "cs_start_byte x = ?before" "cs_end_byte x = ?before + int (length (cs_content x))"
    by (subst x, simp add: make_span_def Let_def)+
  have "take (length (wanted_text lim s source)) (drop (nat ?before) source) = wanted_text lim s source \<or>
      wanted_text lim s source = []"
    unfolding wanted_text_def using assms(4,5) line source by (intro span_bytes) auto
  then have "take (length (cs_content x)) (drop (nat ?before) source) = cs_content x"
  proof
    assume w: "take (length (wanted_text lim s source)) (drop (nat ?before) source) = wanted_text lim s source"
    have n: "length (cs_content x) \<le> length (wanted_text lim s source)" using c by (metis length_take min.cobounded1)
    show ?thesis by (subst (2) c, subst w [symmetric]) (use n in \<open>simp only: take_take min.absorb1\<close>)
  next
    assume "wanted_text lim s source = []"
    then show ?thesis using c by simp
  qed
  then have "encode (take (length (cs_content x)) (drop (nat ?before) source)) = encode (cs_content x)" by simp
  moreover have "encode source = fd_bytes f" by (simp add: source encode_decode)
  moreover have "encode (take n (drop k source)) = take n (drop k (encode source))" for n k
    by (simp add: encode_def take_map drop_map)
  ultimately have "take (length (cs_content x)) (drop (nat ?before) (fd_bytes f)) = encode (cs_content x)" by metis
  then show ?thesis unfolding b by (simp only: add_diff_cancel_left' nat_int)
qed

section \<open>An example\<close>

definition demo_symbol :: symbol where
  "demo_symbol = \<lparr>sm_name = ''f'', sm_qualified_name = ''f'', sm_kind = ''function'', sm_file = ''a.py'', sm_line = 2,
     sm_end_line = 3, sm_symbol_id = [], sm_signature = [], sm_base_generation = None, sm_overlay_generation = None\<rparr>"

definition demo_digest :: string where
  "demo_digest = replicate 64 (CHR ''0'')"

definition demo_source :: string where
  "demo_source = ''# a'' @ [CHR 0x0A] @ ''def f():'' @ [CHR 0x0A] @ ''  pass'' @ [CHR 0x0A]"

definition demo_snapshot :: effective_snapshot where
  "demo_snapshot = \<lparr>es_root = [''r''], es_manifest = \<lparr>mf_schema = MANIFEST_SCHEMA, mf_generation_id = demo_digest,
     mf_kind = ''base'', mf_commit = ''unknown'', mf_root = ''/r'', mf_config_fingerprint = demo_digest,
     mf_parser_versions = [], mf_source_hashes = [(''a.py'', demo_digest)], mf_snapshot = ''project.sfast'',
     mf_created_at = ''now'', mf_snapshot_sha256 = demo_digest, mf_source_tree_sha256 = demo_digest\<rparr>,
     es_overlay = None, es_base_symbols = [demo_symbol]\<rparr>"

definition demo_context_files :: workspace where
  "demo_context_files = \<lparr>wk_root = [''r''], wk_storage = [''s''],
     wk_files = [([''r'', ''a.py''], \<lparr>fd_bytes = encode demo_source, fd_stamp = 0\<rparr>)], wk_clock = 1, wk_base_exists = True,
     wk_source_cache = [], wk_manifest_cache = [], wk_base_cache = [], wk_snapshot_cache = [], wk_delta_cache = [],
     wk_receipts = []\<rparr>"

definition demo_limits :: context_limits where
  "demo_limits = \<lparr>lm_results = 5, lm_lines = 1, lm_bytes = 100, lm_tokens = Some 1\<rparr>"

definition demo_span :: context_span where
  "demo_span = \<lparr>cs_symbol = ''f'', cs_kind = ''function'', cs_file = ''a.py'', cs_start_line = 2, cs_end_line = 2,
     cs_source_sha256 = demo_digest, cs_content = ''def '', cs_base_generation = Some demo_digest,
     cs_overlay_generation = None, cs_requested_start = 2, cs_requested_end = 3, cs_start_byte = 4, cs_end_byte = 8,
     cs_content_sha256 = demo_digest, cs_partial = True, cs_omitted = [(2, 3)], cs_tokens = 1\<rparr>"

lemma demo_find: "find_symbols ''F'' demo_snapshot = Inr [rebind demo_snapshot demo_symbol]"
  by code_simp

lemma demo_lines: "source_lines demo_source = [''# a'', ''def f():'', ''  pass'']"
  by code_simp

lemma demo_valid: "valid_text demo_source"
  by code_simp

lemma demo_path: "join_path [''r''] ''a.py'' = [''r'', ''a.py'']"
  by code_simp

lemma demo_clip: "clip 100 ''def f():'' = ''def f():''" "clip 4 ''def f():'' = ''def ''"
  by code_simp+

lemma demo_context:
  "context_many (\<lambda>_. replicate 32 0) demo_context_files demo_snapshot demo_limits [''F'', ''f''] = Inr [demo_span]"
proof -
  let ?sha = "\<lambda>_ :: bytes. replicate 32 0 :: bytes" and ?s = "rebind demo_snapshot demo_symbol"
    and ?st = "\<lparr>cx_spans = [demo_span], cx_bytes = 4, cx_tokens = 1, cx_seen = [(''a.py'', 2, 2)]\<rparr>"
  have digest: "hexdigest ?sha b = demo_digest" for b
  proof -
    have "hex (replicate 32 0) = demo_digest" by code_simp
    then show ?thesis by (simp add: hexdigest_def)
  qed
  have "verified_source ?sha demo_context_files demo_snapshot ''a.py'' = Inr demo_source"
    by (simp add: verified_source_def demo_snapshot_def demo_path relative_to_def file_at_def demo_context_files_def
        demo_valid expected_digest_def digest Let_def)
  then have first: "context_symbol ?sha demo_context_files demo_snapshot demo_limits ?s
      \<lparr>cx_spans = [], cx_bytes = 0, cx_tokens = 0, cx_seen = []\<rparr> =
      Inr (False, ?st)"
    and again: "context_symbol ?sha demo_context_files demo_snapshot demo_limits ?s ?st = Inr (False, ?st)"
    by (simp_all add: context_symbol_def demo_limits_def rebind_def demo_symbol_def demo_lines py_slice_def
        slice_index_def fit_content_def tokens_of_def demo_clip make_span_def digest demo_span_def delivered_end_def
        omitted_start_def demo_snapshot_def Let_def)
  have "find_symbols ''f'' demo_snapshot = Inr [?s]" by code_simp
  then show ?thesis
    by (simp add: context_many_def demo_find first again) (simp add: demo_limits_def)
qed

theorem context_stays_within_limits_witness:
  "\<exists>spans. context_many (\<lambda>_. replicate 32 0) demo_context_files demo_snapshot demo_limits [''F'', ''f''] = Inr spans \<and>
     spans \<noteq> [] \<and> int (length spans) \<le> lm_results demo_limits \<and> (\<Sum>x \<leftarrow> spans. cs_tokens x) \<le> 1"
  using context_stays_within_limits [OF demo_context] demo_context by (auto simp: demo_limits_def)

theorem context_is_verified_source_witness:
  "\<exists>f. file_at demo_context_files [''r'', ''a.py''] = Some f \<and>
     cs_source_sha256 demo_span = hexdigest (\<lambda>_. replicate 32 0) (fd_bytes f)"
proof -
  have "join_path (es_root demo_snapshot) (cs_file demo_span) = [''r'', ''a.py'']"
    by (simp add: demo_snapshot_def demo_span_def demo_path)
  with context_is_verified_source [OF demo_context, of demo_span] show ?thesis by auto
qed

theorem context_addresses_its_bytes_witness:
  "take 4 (drop 4 (encode demo_source)) = encode ''def ''"
proof -
  have f: "file_at demo_context_files (join_path (es_root demo_snapshot) (cs_file demo_span)) =
      Some \<lparr>fd_bytes = encode demo_source, fd_stamp = 0\<rparr>"
    by (simp add: demo_snapshot_def demo_span_def demo_path file_at_def demo_context_files_def)
  have "lf_only demo_source" by code_simp
  then have "lf_only (decode (fd_bytes \<lparr>fd_bytes = encode demo_source, fd_stamp = 0\<rparr>))" by simp
  from context_addresses_its_bytes [OF demo_context _ f this] show ?thesis by (simp add: demo_span_def)
qed

end
