(* ===== verification/Federation.thy ===== *)
theory Federation
  imports JsonFields
begin

text \<open>
  \<open>simplicio_fast/federation.py\<close>: federations of pinned projection members, their indexes, deltas and bounded
  queries.  Values have the annotated types, so the checks of types are left out; like all JSON numbers
  here, a confidence is whole, so it is 0 or 1.  \<open>casefold\<close> is \<open>lower\<close>, which lowers ASCII letters only: names of
  repositories and handles that differ in the case of other letters are kept apart here.
\<close>

datatype federation_error =
    Federation_size_limit
  | Member_field_invalid string
  | Edge_field_invalid string
  | Edge_handle_invalid
  | Derived_edge_evidence_missing
  | Member_count_limit
  | Edge_count_limit
  | Duplicate_member_repository
  | Member_tombstone_present
  | Duplicate_edge
  | Edge_member_missing
  | Delta_repository_invalid
  | Delta_split_brain
  | Result_size_limit
  | Edge_budget_exceeded
  | Budget_invalid string

definition MAX_MEMBERS :: nat where "MAX_MEMBERS = 256"
definition MAX_EDGES :: nat where "MAX_EDGES = 100000"
definition MAX_BYTES :: int where "MAX_BYTES = 8 * 1024 * 1024"

definition FEDERATION_MANIFEST_SCHEMA :: string where
  "FEDERATION_MANIFEST_SCHEMA = ''simplicio.fast.federation-manifest/v1''"

definition EDGE_SCHEMA :: string where
  "EDGE_SCHEMA = ''simplicio.fast.federated-edge/v1''"

definition GENERATION_SCHEMA :: string where
  "GENERATION_SCHEMA = ''simplicio.fast.federated-generation/v1''"

definition federation_bytes :: "json \<Rightarrow> federation_error + bytes" where
  "federation_bytes v = (if int (length (canonical v)) > MAX_BYTES then Inl Federation_size_limit else Inr (canonical v))"

definition federation_text :: "string \<Rightarrow> federation_error \<Rightarrow> federation_error + unit" where
  "federation_text v reason = check (strip v \<noteq> []) reason"

text \<open>\<open>value.partition('':'')\<close>: the owner of a handle and, with the separator, its local name.\<close>

definition handle_owner :: "string \<Rightarrow> string" where
  "handle_owner h = takeWhile (\<lambda>c. c \<noteq> CHR '':'') h"

definition federation_handle :: "string \<Rightarrow> federation_error \<Rightarrow> federation_error + unit" where
  "federation_handle h reason =
     ebind (federation_text h reason) (\<lambda>_.
       check (CHR '':'' \<in> set h \<and> strip (handle_owner h) \<noteq> [] \<and> strip (drop (Suc (length (handle_owner h))) h) \<noteq> [])
         Edge_handle_invalid)"

definition federation_budget :: "int \<Rightarrow> string \<Rightarrow> int \<Rightarrow> int \<Rightarrow> federation_error + unit" where
  "federation_budget v reason low high = check (low \<le> v \<and> v \<le> high) (Budget_invalid reason)"

definition federation_digest :: "(bytes \<Rightarrow> bytes) \<Rightarrow> json \<Rightarrow> federation_error + string" where
  "federation_digest sha v = ebind (federation_bytes v) (\<lambda>b. Inr (''sha256:'' @ hexdigest sha b))"

section \<open>Members and edges\<close>

record federation_member =
  fm_repository :: string
  fm_commit :: string
  fm_generation :: string
  fm_schema :: string
  fm_digest :: string
  fm_scope :: string
  fm_tombstone :: bool

definition make_member :: "federation_member \<Rightarrow> federation_error + federation_member" where
  "make_member m =
     ebind (federation_text (fm_repository m) (Member_field_invalid ''repository'')) (\<lambda>_.
     ebind (federation_text (fm_commit m) (Member_field_invalid ''commit'')) (\<lambda>_.
     ebind (federation_text (fm_generation m) (Member_field_invalid ''generation'')) (\<lambda>_.
     ebind (federation_text (fm_schema m) (Member_field_invalid ''schema'')) (\<lambda>_.
     ebind (federation_text (fm_digest m) (Member_field_invalid ''digest'')) (\<lambda>_.
     ebind (federation_text (fm_scope m) (Member_field_invalid ''scope'')) (\<lambda>_.
     ebind (check (is_digest (if take 7 (fm_digest m) = ''sha256:'' then drop 7 (fm_digest m) else fm_digest m))
              (Member_field_invalid ''digest'')) (\<lambda>_. Inr m)))))))"

definition member_json :: "federation_member \<Rightarrow> json" where
  "member_json m = JObj
     [(''repository'', JStr (fm_repository m)), (''commit'', JStr (fm_commit m)),
      (''generation'', JStr (fm_generation m)), (''schema'', JStr (fm_schema m)), (''digest'', JStr (fm_digest m)),
      (''scope'', JStr (fm_scope m)), (''tombstone'', JBool (fm_tombstone m))]"

record federated_edge =
  fe_source :: string
  fe_target :: string
  fe_relation :: string
  fe_confidence :: int
  fe_evidence :: "string list"
  fe_derived :: bool

definition make_edge :: "federated_edge \<Rightarrow> federation_error + federated_edge" where
  "make_edge e =
     ebind (federation_handle (fe_source e) (Edge_field_invalid ''source'')) (\<lambda>_.
     ebind (federation_handle (fe_target e) (Edge_field_invalid ''target'')) (\<lambda>_.
     ebind (federation_text (fe_relation e) (Edge_field_invalid ''relation'')) (\<lambda>_.
     ebind (check (0 \<le> fe_confidence e \<and> fe_confidence e \<le> 1) (Edge_field_invalid ''confidence'')) (\<lambda>_.
     ebind (check (list_all (\<lambda>s. strip s \<noteq> []) (fe_evidence e)) (Edge_field_invalid ''evidence'')) (\<lambda>_.
     ebind (check (\<not> (fe_derived e \<and> fe_evidence e = [])) Derived_edge_evidence_missing) (\<lambda>_. Inr e))))))"

definition edge_json :: "federated_edge \<Rightarrow> json" where
  "edge_json e = JObj
     [(''schema'', JStr EDGE_SCHEMA), (''source_handle'', JStr (fe_source e)), (''target_handle'', JStr (fe_target e)),
      (''relation_type'', JStr (fe_relation e)), (''confidence'', JInt (fe_confidence e)),
      (''evidence'', JList (map JStr (fe_evidence e))), (''derived'', JBool (fe_derived e))]"

section \<open>Federations\<close>

record federation =
  fd_members :: "federation_member list"
  fd_edges :: "federated_edge list"
  fd_consumers :: "(string, federated_edge list) dict"
  fd_dependencies :: "(string, federated_edge list) dict"

definition indexed :: "(string, federated_edge list) dict \<Rightarrow> string \<Rightarrow> federated_edge list" where
  "indexed index h = (case map_of index h of None \<Rightarrow> [] | Some es \<Rightarrow> es)"

definition edge_index :: "(federated_edge \<Rightarrow> string) \<Rightarrow> federated_edge list \<Rightarrow> (string, federated_edge list) dict" where
  "edge_index key es = fold (\<lambda>e index. dput (key e) (indexed index (key e) @ [e]) index) es []"

definition sort_members :: "federation_member list \<Rightarrow> federation_member list" where
  "sort_members ms = sort_key fm_repository (sort_key fm_generation ms)"

definition sort_edges :: "federated_edge list \<Rightarrow> federated_edge list" where
  "sort_edges es = sort_key fe_source (sort_key fe_target (sort_key fe_relation es))"

definition make_federation :: "federation_member list \<Rightarrow> federated_edge list \<Rightarrow> federation_error + federation" where
  "make_federation ms es =
     (if ms = [] \<or> length ms > MAX_MEMBERS then Inl Member_count_limit
      else if length es > MAX_EDGES then Inl Edge_count_limit
      else
        (let repositories = map (\<lambda>m. lower (fm_repository m)) ms in
         if \<not> distinct repositories then Inl Duplicate_member_repository
         else if list_ex fm_tombstone ms then Inl Member_tombstone_present
         else if \<not> distinct es then Inl Duplicate_edge
         else if list_ex (\<lambda>e. lower (handle_owner (fe_source e)) \<notin> set repositories \<or>
                    lower (handle_owner (fe_target e)) \<notin> set repositories) es then Inl Edge_member_missing
         else
           (let edges = sort_edges es in
            Inr \<lparr>fd_members = sort_members ms, fd_edges = edges, fd_consumers = edge_index fe_target edges,
                 fd_dependencies = edge_index fe_source edges\<rparr>)))"

definition federation_generation :: "(bytes \<Rightarrow> bytes) \<Rightarrow> federation \<Rightarrow> federation_error + string" where
  "federation_generation sha F = federation_digest sha (JObj
     [(''members'', JList (map member_json (fd_members F))), (''edges'', JList (map edge_json (fd_edges F)))])"

definition federation_manifest :: "(bytes \<Rightarrow> bytes) \<Rightarrow> federation \<Rightarrow> federation_error + json" where
  "federation_manifest sha F =
     ebind (federation_generation sha F) (\<lambda>g.
       let body = JObj [(''schema'', JStr FEDERATION_MANIFEST_SCHEMA),
             (''members'', JList (map member_json (fd_members F))), (''edges'', JList (map edge_json (fd_edges F))),
             (''generation'', JStr g)]
       in ebind (federation_digest sha body) (\<lambda>d.
            Inr (JObj [(''schema'', JStr GENERATION_SCHEMA), (''body'', body), (''digest'', JStr d)])))"

definition encode_federation :: "(bytes \<Rightarrow> bytes) \<Rightarrow> federation \<Rightarrow> federation_error + bytes" where
  "encode_federation sha F =
     ebind (federation_manifest sha F) (\<lambda>m. ebind (federation_bytes m) (\<lambda>b. Inr (b @ [0x0A])))"

section \<open>Deltas\<close>

text \<open>The changed members by repository, and the repositories that go.\<close>

fun collect_changes ::
  "string list \<Rightarrow> federation_member list \<Rightarrow> (string, federation_member) dict \<Rightarrow> string list \<Rightarrow>
     federation_error + (string, federation_member) dict \<times> string list" where
  "collect_changes removed [] active tombstones = Inr (active, tombstones)"
| "collect_changes removed (m # ms) active tombstones =
     (let key = lower (fm_repository m) in
      if key \<in> set removed \<or> map_of active key \<noteq> None \<or> key \<in> set tombstones then Inl Delta_split_brain
      else if fm_tombstone m then collect_changes removed ms active (tombstones @ [key])
      else collect_changes removed ms (dput key m active) tombstones)"

definition belongs_to :: "string list \<Rightarrow> federated_edge \<Rightarrow> bool" where
  "belongs_to repositories e \<longleftrightarrow>
     list_ex (\<lambda>r. take (Suc (length r)) (lower (fe_source e)) = r @ '':'' \<or>
       take (Suc (length r)) (lower (fe_target e)) = r @ '':'') repositories"

record federated_delta =
  fx_from :: string
  fx_to :: string
  fx_changed :: "string list"
  fx_tombstones :: "string list"
  fx_closure :: "string list"
  fx_reused :: int

definition apply_delta ::
  "(bytes \<Rightarrow> bytes) \<Rightarrow> federation_member list \<Rightarrow> string list \<Rightarrow> federated_edge list \<Rightarrow> federated_edge list \<Rightarrow>
     federation \<Rightarrow> federation_error + federation \<times> federated_delta" where
  "apply_delta sha changed removed_repositories added_edges removed_edges F =
     (if list_ex (\<lambda>r. strip r = []) removed_repositories then Inl Delta_repository_invalid
      else
        (let removed = map lower removed_repositories in
         ebind (collect_changes removed changed [] removed) (\<lambda>(active, tombstones).
           let kept = filter (\<lambda>m. lower (fm_repository m) \<notin> set tombstones \<and>
                 map_of active (lower (fm_repository m)) = None) (fd_members F);
               members = kept @ map snd active;
               edges = filter (\<lambda>e. e \<notin> set removed_edges \<and> \<not> belongs_to tombstones e) (fd_edges F) @ added_edges
           in ebind (make_federation members edges) (\<lambda>next.
              ebind (federation_generation sha F) (\<lambda>g.
              ebind (federation_generation sha next) (\<lambda>h.
                Inr (next,
                  \<lparr>fx_from = g, fx_to = h, fx_changed = sort (keys active), fx_tombstones = sorted_set tombstones,
                   fx_closure = sorted_set (concat (map (\<lambda>e. [fe_source e, fe_target e]) (added_edges @ removed_edges))),
                   fx_reused = int (length members) - int (length active)\<rparr>)))))))"

section \<open>Queries\<close>

fun bounded_records :: "int \<Rightarrow> int \<Rightarrow> json list \<Rightarrow> federation_error + json list" where
  "bounded_records max_bytes used [] = Inr []"
| "bounded_records max_bytes used (r # rs) =
     ebind (federation_bytes r) (\<lambda>b.
       if used + int (length b) > max_bytes then Inl Result_size_limit
       else ebind (bounded_records max_bytes (used + int (length b)) rs) (\<lambda>records. Inr (r # records)))"

definition bounded_result :: "int \<Rightarrow> json list \<Rightarrow> federation_error + json list" where
  "bounded_result max_bytes rs =
     ebind (bounded_records max_bytes 0 rs) (\<lambda>records.
     ebind (federation_bytes (JList records)) (\<lambda>b.
       if int (length b) > max_bytes then Inl Result_size_limit else Inr records))"

definition edge_query ::
  "(string, federated_edge list) dict \<Rightarrow> string \<Rightarrow> string \<Rightarrow> int \<Rightarrow> int \<Rightarrow> federation_error + json list" where
  "edge_query index handle reason max_edges max_bytes =
     ebind (federation_handle handle (Edge_field_invalid reason)) (\<lambda>_.
     ebind (federation_budget max_edges ''edge_budget_invalid'' 0 (int MAX_EDGES)) (\<lambda>_.
     ebind (federation_budget max_bytes ''byte_budget_invalid'' 0 MAX_BYTES) (\<lambda>_.
       bounded_result max_bytes (map edge_json (take (nat max_edges) (indexed index handle))))))"

definition consumers :: "federation \<Rightarrow> string \<Rightarrow> int \<Rightarrow> int \<Rightarrow> federation_error + json list" where
  "consumers F target = edge_query (fd_consumers F) target ''target_handle''"

definition dependencies :: "federation \<Rightarrow> string \<Rightarrow> int \<Rightarrow> int \<Rightarrow> federation_error + json list" where
  "dependencies F source = edge_query (fd_dependencies F) source ''source_handle''"

section \<open>Traversal\<close>

record traversal_limits =
  tl_depth :: int
  tl_nodes :: int
  tl_edges :: int
  tl_bytes :: int

record traversal =
  tv_queue :: "(string \<times> int) list"
  tv_visited :: "string list"
  tv_paths :: "(string, string list) dict"
  tv_edges :: "json list"
  tv_bytes :: int
  tv_reasons :: "string list"

definition path_to :: "traversal \<Rightarrow> string \<Rightarrow> string list" where
  "path_to t h = (case map_of (tv_paths t) h of None \<Rightarrow> [] | Some p \<Rightarrow> p)"

text \<open>The edges that leave the current node, one by one.\<close>

definition follow_edge ::
  "traversal_limits \<Rightarrow> string \<Rightarrow> int \<Rightarrow> federated_edge \<Rightarrow> traversal \<Rightarrow> federation_error + traversal" where
  "follow_edge lim current depth e t =
     (if int (length (tv_edges t)) \<ge> tl_edges lim then Inl Edge_budget_exceeded
      else
        ebind (federation_bytes (edge_json e)) (\<lambda>b.
          if tv_bytes t + int (length b) > tl_bytes lim then Inl Result_size_limit
          else
            (let t1 = t\<lparr>tv_edges := tv_edges t @ [edge_json e], tv_bytes := tv_bytes t + int (length b)\<rparr> in
             Inr (if depth < tl_depth lim \<and> fe_target e \<notin> set (tv_visited t) \<and> map_of (tv_paths t) (fe_target e) = None
                  then t1\<lparr>tv_paths := dput (fe_target e) (path_to t current @ [fe_target e]) (tv_paths t),
                        tv_queue := tv_queue t @ [(fe_target e, depth + 1)]\<rparr>
                  else t1))))"

fun follow_edges ::
  "traversal_limits \<Rightarrow> string \<Rightarrow> int \<Rightarrow> federated_edge list \<Rightarrow> traversal \<Rightarrow> federation_error + traversal" where
  "follow_edges lim current depth [] t = Inr t"
| "follow_edges lim current depth (e # es) t =
     ebind (follow_edge lim current depth e t) (follow_edges lim current depth es)"

definition visit ::
  "federation \<Rightarrow> traversal_limits \<Rightarrow> string \<Rightarrow> int \<Rightarrow> traversal \<Rightarrow> federation_error + traversal" where
  "visit F lim current depth t =
     (if current \<in> set (tv_visited t) then Inr t
      else if depth > tl_depth lim then Inr (t\<lparr>tv_reasons := ''max_depth'' # tv_reasons t\<rparr>)
      else
        (let outgoing = indexed (fd_dependencies F) current;
             t1 = t\<lparr>tv_visited := tv_visited t @ [current]\<rparr>;
             t2 = (if depth = tl_depth lim \<and> outgoing \<noteq> [] then t1\<lparr>tv_reasons := ''max_depth'' # tv_reasons t1\<rparr> else t1)
         in follow_edges lim current depth outgoing t2))"

text \<open>
  The loop ends: a step takes one node from the queue, and puts in one for each node that gets a path, of
  which there are at most as many as edges have targets.
\<close>

definition edge_targets :: "federation \<Rightarrow> string set" where
  "edge_targets F = (\<Union>(_, es) \<in> set (fd_dependencies F). fe_target ` set es)"

definition pending :: "federation \<Rightarrow> traversal \<Rightarrow> nat" where
  "pending F t = length (tv_queue t) + card (edge_targets F - set (keys (tv_paths t)))"

lemma finite_targets [simp]: "finite (edge_targets F)"
  by (auto simp: edge_targets_def)

lemma indexed_targets: "e \<in> set (indexed (fd_dependencies F) h) \<Longrightarrow> fe_target e \<in> edge_targets F"
  by (cases "map_of (fd_dependencies F) h") (fastforce simp: indexed_def edge_targets_def dest: map_of_SomeD)+

lemma follow_edge_pending:
  assumes "follow_edge lim current depth e t = Inr t1" "fe_target e \<in> edge_targets F"
  shows "pending F t1 = pending F t"
proof -
  let ?v = "fe_target e" and ?T = "edge_targets F - set (keys (tv_paths t))"
  consider "tv_queue t1 = tv_queue t \<and> tv_paths t1 = tv_paths t"
    | x d where "?v \<notin> set (keys (tv_paths t))" "tv_queue t1 = tv_queue t @ [(?v, d)]" "tv_paths t1 = dput ?v x (tv_paths t)"
    using assms(1) by (auto simp: follow_edge_def ebind_Inr Let_def map_of_eq_None_iff split: if_splits)
  then show ?thesis
  proof cases
    case 2
    then have "edge_targets F - set (keys (tv_paths t1)) = ?T - {?v}" by (auto simp: dput_new)
    moreover have "?v \<in> ?T" using 2 assms(2) by simp
    then have "card ?T = Suc (card (?T - {?v}))" by (metis card_Suc_Diff1 finite_Diff finite_targets)
    ultimately show ?thesis using 2 by (simp add: pending_def)
  qed (simp add: pending_def)
qed

lemma follow_edges_pending:
  "follow_edges lim current depth es t = Inr t1 \<Longrightarrow> \<forall>e \<in> set es. fe_target e \<in> edge_targets F \<Longrightarrow>
     pending F t1 = pending F t"
proof (induction es arbitrary: t)
  case (Cons e es)
  then obtain t2 where t2: "follow_edge lim current depth e t = Inr t2" "follow_edges lim current depth es t2 = Inr t1"
    by (auto simp: ebind_Inr)
  have "pending F t1 = pending F t2" using Cons.IH [OF t2(2)] Cons.prems(2) by simp
  also have "\<dots> = pending F t" using follow_edge_pending [OF t2(1)] Cons.prems(2) by simp
  finally show ?case .
qed simp

lemma visit_pending: "visit F lim current depth t = Inr t1 \<Longrightarrow> pending F t1 = pending F t"
  unfolding visit_def Let_def
  by (auto split: if_splits dest!: follow_edges_pending [where F = F] dest: indexed_targets simp: pending_def)

function traverse_loop :: "federation \<Rightarrow> traversal_limits \<Rightarrow> traversal \<Rightarrow> federation_error + traversal" where
  "traverse_loop F lim t =
     (case tv_queue t of
        [] \<Rightarrow> Inr t
      | (current, depth) # rest \<Rightarrow>
          (if int (length (tv_visited t)) \<ge> tl_nodes lim then Inr t
           else
             (case visit F lim current depth (t\<lparr>tv_queue := rest\<rparr>) of
                Inl e \<Rightarrow> Inl e
              | Inr t1 \<Rightarrow> traverse_loop F lim t1)))"
  by pat_completeness auto

termination
  by (relation "measure (\<lambda>(F, lim, t). pending F t)") (auto dest!: visit_pending simp: pending_def)

declare traverse_loop.simps [simp del]

record traversal_result =
  tr_start :: string
  tr_nodes :: "string list"
  tr_edges :: "json list"
  tr_paths :: "(string, string list) dict"
  tr_complete :: bool
  tr_reasons :: "string list"

definition result_json :: "traversal_result \<Rightarrow> json" where
  "result_json r = JObj
     [(''start_handle'', JStr (tr_start r)), (''nodes'', JList (map JStr (tr_nodes r))), (''edges'', JList (tr_edges r)),
      (''paths'', JObj (map (\<lambda>(h, p). (h, JList (map JStr p))) (tr_paths r))), (''complete'', JBool (tr_complete r)),
      (''truncation_reasons'', JList (map JStr (tr_reasons r)))]"

definition start_traversal :: "string \<Rightarrow> traversal" where
  "start_traversal start =
     \<lparr>tv_queue = [(start, 0)], tv_visited = [], tv_paths = [(start, [start])], tv_edges = [], tv_bytes = 0, tv_reasons = []\<rparr>"

definition traversal_outcome :: "string \<Rightarrow> traversal \<Rightarrow> traversal_result" where
  "traversal_outcome start t =
     (let reasons = (if tv_queue t \<noteq> [] then ''max_nodes'' # tv_reasons t else tv_reasons t)
      in \<lparr>tr_start = start, tr_nodes = sorted_set (tv_visited t), tr_edges = tv_edges t, tr_paths = tv_paths t,
          tr_complete = (tv_queue t = [] \<and> reasons = []), tr_reasons = sorted_set reasons\<rparr>)"

definition traverse :: "federation \<Rightarrow> string \<Rightarrow> traversal_limits \<Rightarrow> federation_error + traversal_result" where
  "traverse F start lim =
     ebind (federation_handle start (Edge_field_invalid ''source_handle'')) (\<lambda>_.
     ebind (federation_budget (tl_depth lim) ''traversal_budget_invalid'' 0 (int MAX_EDGES)) (\<lambda>_.
     ebind (federation_budget (tl_nodes lim) ''traversal_budget_invalid'' 1 (int MAX_EDGES)) (\<lambda>_.
     ebind (federation_budget (tl_edges lim) ''edge_budget_invalid'' 0 (int MAX_EDGES)) (\<lambda>_.
     ebind (federation_budget (tl_bytes lim) ''byte_budget_invalid'' 0 MAX_BYTES) (\<lambda>_.
     ebind (traverse_loop F lim (start_traversal start)) (\<lambda>t.
       let r = traversal_outcome start t in
       ebind (federation_bytes (result_json r)) (\<lambda>b.
         if int (length b) > tl_bytes lim then Inl Result_size_limit else Inr r)))))))"

end
