(* ===== verification/FederationTraversal.thy ===== *)
theory FederationTraversal
  imports Federation
begin

text \<open>
  What the queries of a federation answer: the indexes are the edges by handle; a traversal is breadth
  first, its paths are shortest, and when it is complete it has found everything that can be reached.
\<close>

section \<open>Indexes\<close>

lemma indexed_fold:
  "indexed (fold (\<lambda>e index. dput (key e) (indexed index (key e) @ [e]) index) es index) h =
     indexed index h @ filter (\<lambda>e. key e = h) es"
  by (induction es arbitrary: index) (auto simp: indexed_def dict_simps)

lemma indexed_edge_index: "indexed (edge_index key es) h = filter (\<lambda>e. key e = h) es"
  by (simp add: edge_index_def indexed_fold) (simp add: indexed_def)

text \<open>What every construction establishes.\<close>

definition federation_ok :: "federation \<Rightarrow> bool" where
  "federation_ok F \<longleftrightarrow>
     fd_members F \<noteq> [] \<and> length (fd_members F) \<le> MAX_MEMBERS \<and> length (fd_edges F) \<le> MAX_EDGES \<and>
     distinct (map (\<lambda>m. lower (fm_repository m)) (fd_members F)) \<and> (\<forall>m \<in> set (fd_members F). \<not> fm_tombstone m) \<and>
     distinct (fd_edges F) \<and>
     (\<forall>e \<in> set (fd_edges F). \<forall>h \<in> {fe_source e, fe_target e}.
        \<exists>m \<in> set (fd_members F). lower (handle_owner h) = lower (fm_repository m)) \<and>
     sorted (map fm_repository (fd_members F)) \<and> sorted (map fe_source (fd_edges F)) \<and>
     (\<forall>h. indexed (fd_consumers F) h = filter (\<lambda>e. fe_target e = h) (fd_edges F)) \<and>
     (\<forall>h. indexed (fd_dependencies F) h = filter (\<lambda>e. fe_source e = h) (fd_edges F))"

lemma set_sorts [simp]:
  "set (sort_members ms) = set ms" "length (sort_members ms) = length ms"
  "set (sort_edges es) = set es" "length (sort_edges es) = length es" "distinct (sort_edges es) = distinct es"
  by (simp_all add: sort_members_def sort_edges_def)

lemma distinct_sort_members: "distinct (map f (sort_members ms)) = distinct (map f ms)"
  by (simp add: distinct_map sort_members_def)

lemma make_federation_ok: "make_federation ms es = Inr F \<Longrightarrow> federation_ok F \<and> set (fd_members F) = set ms \<and> set (fd_edges F) = set es"
proof -
  assume make: "make_federation ms es = Inr F"
  then have F: "F = \<lparr>fd_members = sort_members ms, fd_edges = sort_edges es,
      fd_consumers = edge_index fe_target (sort_edges es), fd_dependencies = edge_index fe_source (sort_edges es)\<rparr>"
    by (auto simp: make_federation_def Let_def split: if_splits)
  have "ms \<noteq> []" "length ms \<le> MAX_MEMBERS" "length es \<le> MAX_EDGES" "distinct (map (\<lambda>m. lower (fm_repository m)) ms)"
    "\<forall>m \<in> set ms. \<not> fm_tombstone m" "distinct es"
    "\<forall>e \<in> set es. \<forall>h \<in> {fe_source e, fe_target e}. \<exists>m \<in> set ms. lower (handle_owner h) = lower (fm_repository m)"
    using make by (auto simp: make_federation_def Let_def list_ex_iff split: if_splits)
  moreover have "sorted (map fm_repository (sort_members ms))" "sorted (map fe_source (sort_edges es))"
    by (simp_all add: sort_members_def sort_edges_def)
  moreover have "sort_members ms \<noteq> []" using \<open>ms \<noteq> []\<close> by (metis length_0_conv set_sorts(2))
  ultimately show ?thesis
    unfolding federation_ok_def F by (simp add: indexed_edge_index distinct_sort_members)
qed

section \<open>Traversal\<close>

definition follows :: "federation \<Rightarrow> (string \<times> string) set" where
  "follows F = {(u, v). \<exists>e \<in> set (indexed (fd_dependencies F) u). fe_target e = v}"

text \<open>The nodes an expansion of some edges has put in the queue, with their paths.\<close>

definition extends ::
  "traversal \<Rightarrow> string \<Rightarrow> int \<Rightarrow> string list \<Rightarrow> traversal \<Rightarrow> bool" where
  "extends t current depth news t' \<longleftrightarrow>
     distinct news \<and> set news \<inter> set (keys (tv_paths t)) = {} \<and>
     tv_paths t' = tv_paths t @ map (\<lambda>v. (v, path_to t current @ [v])) news \<and>
     tv_queue t' = tv_queue t @ map (\<lambda>v. (v, depth + 1)) news \<and>
     tv_visited t' = tv_visited t \<and> tv_reasons t' = tv_reasons t"

lemma follow_edge_extends:
  assumes "follow_edge lim current depth e t' = Inr t1" "extends t current depth news t'"
    and "set (tv_visited t) \<subseteq> set (keys (tv_paths t))" "current \<in> set (keys (tv_paths t))"
  shows "\<exists>more. extends t current depth (news @ more) t1 \<and> set more \<subseteq> {fe_target e} \<and>
     (depth < tl_depth lim \<longrightarrow> fe_target e \<in> set (keys (tv_paths t1))) \<and> (\<not> depth < tl_depth lim \<longrightarrow> more = [])"
proof -
  let ?v = "fe_target e"
  have keys: "set (keys (tv_paths t')) = set (keys (tv_paths t)) \<union> set news"
    using assms(2) by (auto simp: extends_def)
  have same: "path_to t' current = path_to t current"
    using assms(2,4) by (auto simp: extends_def path_to_def map_add_def split: option.split dest!: weak_map_of_SomeI)
  show ?thesis
  proof (cases "depth < tl_depth lim \<and> ?v \<notin> set (keys (tv_paths t'))")
    case True
    then have "?v \<notin> set (tv_visited t')" using assms(2,3) keys by (auto simp: extends_def)
    with True have "tv_paths t1 = tv_paths t' @ [(?v, path_to t' current @ [?v])]"
      "tv_queue t1 = tv_queue t' @ [(?v, depth + 1)]" "tv_visited t1 = tv_visited t'" "tv_reasons t1 = tv_reasons t'"
      using assms(1) by (auto simp: follow_edge_def ebind_Inr Let_def map_of_eq_None_iff dput_new split: if_splits)
    with True keys same assms(2) show ?thesis
      by (intro exI [of _ "[?v]"]) (auto simp: extends_def)
  next
    case False
    then have "tv_paths t1 = tv_paths t'" "tv_queue t1 = tv_queue t'" "tv_visited t1 = tv_visited t'" "tv_reasons t1 = tv_reasons t'"
      using assms(1) by (auto simp: follow_edge_def ebind_Inr Let_def map_of_eq_None_iff split: if_splits)
    with False assms(2) show ?thesis by (intro exI [of _ "[]"]) (auto simp: extends_def)
  qed
qed

lemma follow_edges_extends:
  "follow_edges lim current depth es t' = Inr t1 \<Longrightarrow> extends t current depth news t' \<Longrightarrow>
     set (tv_visited t) \<subseteq> set (keys (tv_paths t)) \<Longrightarrow> current \<in> set (keys (tv_paths t)) \<Longrightarrow>
     \<exists>more. extends t current depth (news @ more) t1 \<and> set more \<subseteq> fe_target ` set es \<and>
       (depth < tl_depth lim \<longrightarrow> fe_target ` set es \<subseteq> set (keys (tv_paths t1))) \<and> (\<not> depth < tl_depth lim \<longrightarrow> more = [])"
proof (induction es arbitrary: t' news)
  case Nil
  then show ?case by (intro exI [of _ "[]"]) simp
next
  case (Cons e es)
  then obtain t2 where t2: "follow_edge lim current depth e t' = Inr t2" "follow_edges lim current depth es t2 = Inr t1"
    by (auto simp: ebind_Inr)
  obtain m1 where m1: "extends t current depth (news @ m1) t2" "set m1 \<subseteq> {fe_target e}"
      "depth < tl_depth lim \<longrightarrow> fe_target e \<in> set (keys (tv_paths t2))" "\<not> depth < tl_depth lim \<longrightarrow> m1 = []"
    using follow_edge_extends [OF t2(1) Cons.prems(2-4)] by blast
  obtain m2 where m2: "extends t current depth ((news @ m1) @ m2) t1" "set m2 \<subseteq> fe_target ` set es"
      "depth < tl_depth lim \<longrightarrow> fe_target ` set es \<subseteq> set (keys (tv_paths t1))" "\<not> depth < tl_depth lim \<longrightarrow> m2 = []"
    using Cons.IH [OF t2(2) m1(1) Cons.prems(3,4)] by blast
  have "set (keys (tv_paths t2)) \<subseteq> set (keys (tv_paths t1))" using m1(1) m2(1) by (auto simp: extends_def)
  with m1 m2 show ?case by (intro exI [of _ "m1 @ m2"]) auto
qed

text \<open>The invariant of the loop; the distance of a node is the length of its path.\<close>

definition distance :: "traversal \<Rightarrow> string \<Rightarrow> int" where
  "distance t v = int (length (path_to t v)) - 1"

fun walk :: "(string \<times> string) set \<Rightarrow> string list \<Rightarrow> bool" where
  "walk E [] \<longleftrightarrow> False"
| "walk E [v] \<longleftrightarrow> True"
| "walk E (u # v # p) \<longleftrightarrow> (u, v) \<in> E \<and> walk E (v # p)"

definition reaches :: "(string \<times> string) set \<Rightarrow> string \<Rightarrow> string \<Rightarrow> string list \<Rightarrow> bool" where
  "reaches E u v p \<longleftrightarrow> walk E p \<and> hd p = u \<and> last p = v"

definition front_ok :: "traversal_limits \<Rightarrow> traversal \<Rightarrow> bool" where
  "front_ok lim t \<longleftrightarrow>
     distinct (tv_visited t @ map fst (tv_queue t)) \<and> distinct (keys (tv_paths t)) \<and>
     set (keys (tv_paths t)) = set (tv_visited t) \<union> fst ` set (tv_queue t) \<and>
     (\<forall>(v, d) \<in> set (tv_queue t). d = distance t v \<and> d \<le> tl_depth lim) \<and>
     sorted (map snd (tv_queue t)) \<and>
     (\<forall>(v, d) \<in> set (tv_queue t). d \<le> snd (hd (tv_queue t)) + 1) \<and>
     (tv_queue t \<noteq> [] \<longrightarrow> (\<forall>u \<in> set (tv_visited t). distance t u \<le> snd (hd (tv_queue t))))"

definition closed_ok :: "federation \<Rightarrow> traversal_limits \<Rightarrow> traversal \<Rightarrow> bool" where
  "closed_ok F lim t \<longleftrightarrow>
     (\<forall>u \<in> set (tv_visited t). \<forall>v. (u, v) \<in> follows F \<longrightarrow>
        (if distance t u < tl_depth lim then v \<in> set (keys (tv_paths t)) else ''max_depth'' \<in> set (tv_reasons t)))"

definition paths_ok :: "federation \<Rightarrow> string \<Rightarrow> traversal \<Rightarrow> bool" where
  "paths_ok F start t \<longleftrightarrow>
     start \<in> set (keys (tv_paths t)) \<and>
     (\<forall>v \<in> set (keys (tv_paths t)). reaches (follows F) start v (path_to t v) \<and>
        (\<forall>k. (start, v) \<in> follows F ^^ k \<longrightarrow> distance t v \<le> int k))"

lemma reaches_snoc: "reaches E u v p \<Longrightarrow> (v, w) \<in> E \<Longrightarrow> reaches E u w (p @ [w])"
proof (induction p arbitrary: u)
  case (Cons x p)
  then show ?case by (cases p) (auto simp: reaches_def)
qed (simp add: reaches_def)

lemma reaches_relpow: "reaches E u v p \<Longrightarrow> (u, v) \<in> E ^^ (length p - 1)"
proof (induction p arbitrary: u)
  case (Cons x p)
  show ?case
  proof (cases p)
    case (Cons y q)
    with Cons.prems have step: "(x, y) \<in> E" "u = x" and rest: "reaches E y v p" by (auto simp: reaches_def)
    have "(x, v) \<in> E ^^ Suc (length q)" using relpow_Suc_I2 [OF step(1)] Cons.IH [OF rest] Cons by simp
    then show ?thesis using step(2) Cons by simp
  qed (use Cons.prems in \<open>auto simp: reaches_def\<close>)
qed (simp add: reaches_def)

text \<open>Everything within the distance of the queue's head has its path.\<close>

lemma near_found:
  assumes "front_ok lim t" "closed_ok F lim t" "paths_ok F start t" "tv_queue t = (current, depth) # rest"
  shows "int j \<le> depth \<Longrightarrow> (start, x) \<in> follows F ^^ j \<Longrightarrow> x \<in> set (keys (tv_paths t))"
proof (induction j arbitrary: x)
  case 0
  then show ?case using assms(3) by (simp add: paths_ok_def)
next
  case (Suc j)
  then obtain y where y: "(start, y) \<in> follows F ^^ j" "(y, x) \<in> follows F" by auto
  then have key: "y \<in> set (keys (tv_paths t))" using Suc by simp
  then have near: "distance t y < depth" using assms(3) y(1) Suc.prems(1) by (fastforce simp: paths_ok_def)
  have "y \<notin> fst ` set (tv_queue t)"
    using assms(1,4) near by (fastforce simp: front_ok_def)
  then have "y \<in> set (tv_visited t)" using key assms(1) by (auto simp: front_ok_def)
  moreover have "depth \<le> tl_depth lim" using assms(1,4) by (auto simp: front_ok_def)
  ultimately show ?case using assms(2) y(2) near by (fastforce simp: closed_ok_def)
qed

lemma path_to_keep: "v \<in> set (keys (tv_paths t)) \<Longrightarrow> tv_paths t' = tv_paths t @ ps \<Longrightarrow> path_to t' v = path_to t v"
  by (auto simp: path_to_def map_add_def split: option.split dest!: weak_map_of_SomeI)

lemma path_to_new:
  "v \<notin> set (keys (tv_paths t)) \<Longrightarrow> v \<in> set news \<Longrightarrow> tv_paths t' = tv_paths t @ map (\<lambda>v. (v, p @ [v])) news \<Longrightarrow>
     path_to t' v = p @ [v]"
proof -
  have "v \<in> set ns \<Longrightarrow> map_of (map (\<lambda>v. (v, p @ [v])) ns) v = Some (p @ [v])" for ns by (induction ns) auto
  then show "v \<notin> set (keys (tv_paths t)) \<Longrightarrow> v \<in> set news \<Longrightarrow> tv_paths t' = tv_paths t @ map (\<lambda>v. (v, p @ [v])) news \<Longrightarrow>
     path_to t' v = p @ [v]"
    by (auto simp: path_to_def map_add_def map_of_eq_None_iff [symmetric] split: option.split)
qed

lemma visit_extends:
  assumes "front_ok lim t" "tv_queue t = (current, depth) # rest"
    and "visit F lim current depth (t\<lparr>tv_queue := rest\<rparr>) = Inr t1"
  obtains news where "distinct news" "set news \<inter> set (keys (tv_paths t)) = {}"
    and "tv_paths t1 = tv_paths t @ map (\<lambda>v. (v, path_to t current @ [v])) news"
    and "tv_queue t1 = rest @ map (\<lambda>v. (v, depth + 1)) news" "tv_visited t1 = tv_visited t @ [current]"
    and "\<forall>v \<in> set news. (current, v) \<in> follows F" "depth < tl_depth lim \<or> news = []"
    and "\<forall>v. (current, v) \<in> follows F \<longrightarrow>
      (if depth < tl_depth lim then v \<in> set (keys (tv_paths t1)) else ''max_depth'' \<in> set (tv_reasons t1))"
    and "set (tv_reasons t) \<subseteq> set (tv_reasons t1)"
proof -
  let ?out = "indexed (fd_dependencies F) current"
  define t2 where "t2 = t\<lparr>tv_queue := rest, tv_visited := tv_visited t @ [current],
     tv_reasons := (if depth = tl_depth lim \<and> ?out \<noteq> [] then ''max_depth'' # tv_reasons t else tv_reasons t)\<rparr>"
  have limit: "depth \<le> tl_depth lim" "current \<notin> set (tv_visited t)" and in_paths: "current \<in> set (keys (tv_paths t))"
    using assms(1,2) by (auto simp: front_ok_def)
  then have run: "follow_edges lim current depth ?out t2 = Inr t1"
    using assms(3) by (auto simp: visit_def Let_def t2_def split: if_splits)
  have base: "extends t2 current depth [] t2" by (simp add: extends_def)
  have "set (tv_visited t2) \<subseteq> set (keys (tv_paths t2))" "current \<in> set (keys (tv_paths t2))"
    using assms(1,2) by (auto simp: front_ok_def t2_def)
  from follow_edges_extends [OF run base this]
  obtain news where news: "extends t2 current depth news t1" "set news \<subseteq> fe_target ` set ?out"
      "depth < tl_depth lim \<longrightarrow> fe_target ` set ?out \<subseteq> set (keys (tv_paths t1))" "\<not> depth < tl_depth lim \<longrightarrow> news = []"
    by auto
  show ?thesis
  proof (rule that [of news])
    show "tv_paths t1 = tv_paths t @ map (\<lambda>v. (v, path_to t current @ [v])) news"
      using news(1) by (simp add: extends_def t2_def path_to_def)
    show "\<forall>v. (current, v) \<in> follows F \<longrightarrow>
      (if depth < tl_depth lim then v \<in> set (keys (tv_paths t1)) else ''max_depth'' \<in> set (tv_reasons t1))"
      using news(1,3) limit(1) by (auto simp: follows_def extends_def t2_def)
  qed (use news limit in \<open>auto simp: extends_def t2_def follows_def\<close>)
qed

lemma visit_ok:
  assumes front: "front_ok lim t" and closed: "closed_ok F lim t" and paths: "paths_ok F start t"
    and q: "tv_queue t = (current, depth) # rest"
    and run: "visit F lim current depth (t\<lparr>tv_queue := rest\<rparr>) = Inr t1"
  shows "front_ok lim t1 \<and> closed_ok F lim t1 \<and> paths_ok F start t1"
proof -
  obtain news where n: "distinct news" "set news \<inter> set (keys (tv_paths t)) = {}"
      "tv_paths t1 = tv_paths t @ map (\<lambda>v. (v, path_to t current @ [v])) news"
      "tv_queue t1 = rest @ map (\<lambda>v. (v, depth + 1)) news" "tv_visited t1 = tv_visited t @ [current]"
      "\<forall>v \<in> set news. (current, v) \<in> follows F" "depth < tl_depth lim \<or> news = []"
      "\<forall>v. (current, v) \<in> follows F \<longrightarrow>
        (if depth < tl_depth lim then v \<in> set (keys (tv_paths t1)) else ''max_depth'' \<in> set (tv_reasons t1))"
      "set (tv_reasons t) \<subseteq> set (tv_reasons t1)"
    using visit_extends [OF front q run] by blast
  have f: "distance t current = depth" "current \<in> set (keys (tv_paths t))" "depth \<le> tl_depth lim"
      "set (tv_visited t) \<subseteq> set (keys (tv_paths t))" "fst ` set rest \<subseteq> set (keys (tv_paths t))"
    using front q by (auto simp: front_ok_def)
  have keys: "set (keys (tv_paths t1)) = set (keys (tv_paths t)) \<union> set news" using n(3) by auto
  have old: "path_to t1 v = path_to t v" "distance t1 v = distance t v" if "v \<in> set (keys (tv_paths t))" for v
    using path_to_keep [OF that n(3)] by (simp_all add: distance_def)
  have new: "path_to t1 v = path_to t current @ [v]" "distance t1 v = depth + 1" if "v \<in> set news" for v
  proof -
    show p: "path_to t1 v = path_to t current @ [v]" using n(2) that by (intro path_to_new [OF _ that n(3)]) auto
    show "distance t1 v = depth + 1" using f(1) by (simp add: distance_def p)
  qed
  have "front_ok lim t1"
    unfolding front_ok_def
  proof (intro conjI)
    show "distinct (tv_visited t1 @ map fst (tv_queue t1))"
      using front n(1,2) f(2,4,5) unfolding front_ok_def q n(4,5) by (auto simp: comp_def)
    show "distinct (keys (tv_paths t1))"
      using front n(1,2) unfolding front_ok_def n(3) by (auto simp: comp_def)
    show "set (keys (tv_paths t1)) = set (tv_visited t1) \<union> fst ` set (tv_queue t1)"
    proof -
      have "fst ` set (tv_queue t1) = fst ` set rest \<union> set news" unfolding n(4) by (simp add: image_Un image_image)
      then show ?thesis using front unfolding front_ok_def q n(5) keys by auto
    qed
    show "\<forall>(v, d) \<in> set (tv_queue t1). d = distance t1 v \<and> d \<le> tl_depth lim"
    proof -
      have "d = distance t1 v \<and> d \<le> tl_depth lim" if "(v, d) \<in> set rest" for v d
      proof -
        have "v \<in> set (keys (tv_paths t))" using f(5) that by force
        then show ?thesis using front that old(2) unfolding front_ok_def q by auto
      qed
      moreover have "depth + 1 = distance t1 v \<and> depth + 1 \<le> tl_depth lim" if "v \<in> set news" for v
        using new(2) [OF that] n(7) that by auto
      ultimately show ?thesis unfolding n(4) by fastforce
    qed
    show "sorted (map snd (tv_queue t1))"
      using front f(3) unfolding front_ok_def q n(4) by (fastforce simp: sorted_append comp_def sorted_wrt_map)
    have "depth \<le> snd (hd (tv_queue t1)) \<or> tv_queue t1 = []"
      using front unfolding front_ok_def q n(4) by (cases rest; cases news) auto
    then show "\<forall>(v, d) \<in> set (tv_queue t1). d \<le> snd (hd (tv_queue t1)) + 1"
      "tv_queue t1 \<noteq> [] \<longrightarrow> (\<forall>u \<in> set (tv_visited t1). distance t1 u \<le> snd (hd (tv_queue t1)))"
      using front f(1,2,4) old unfolding front_ok_def q n(4,5) by fastforce+
  qed
  moreover have "closed_ok F lim t1"
    unfolding closed_ok_def
  proof (intro ballI allI impI)
    fix u v assume u: "u \<in> set (tv_visited t1)" and uv: "(u, v) \<in> follows F"
    show "if distance t1 u < tl_depth lim then v \<in> set (keys (tv_paths t1)) else ''max_depth'' \<in> set (tv_reasons t1)"
    proof (cases "u = current")
      case True
      then show ?thesis using n(8) uv old(2) [OF f(2)] f(1) by auto
    next
      case False
      then have u: "u \<in> set (tv_visited t)" using u n(5) by simp
      then have "distance t1 u = distance t u" using old(2) f(4) by blast
      moreover have "if distance t u < tl_depth lim then v \<in> set (keys (tv_paths t)) else ''max_depth'' \<in> set (tv_reasons t)"
        using closed u uv unfolding closed_ok_def by blast
      ultimately show ?thesis using keys n(9) by (auto split: if_splits)
    qed
  qed
  moreover have "paths_ok F start t1"
    unfolding paths_ok_def keys
  proof (intro conjI ballI)
    show "start \<in> set (keys (tv_paths t)) \<union> set news" using paths by (simp add: paths_ok_def)
    fix v assume v: "v \<in> set (keys (tv_paths t)) \<union> set news"
    show "reaches (follows F) start v (path_to t1 v)"
    proof (cases "v \<in> set news")
      case True
      have "reaches (follows F) start current (path_to t current)" using paths f(2) unfolding paths_ok_def by blast
      then show ?thesis using new(1) [OF True] n(6) True by (metis reaches_snoc)
    qed (use v old paths in \<open>auto simp: paths_ok_def\<close>)
    show "\<forall>k. (start, v) \<in> follows F ^^ k \<longrightarrow> distance t1 v \<le> int k"
    proof (cases "v \<in> set news")
      case True
      then have "v \<notin> set (keys (tv_paths t))" using n(2) by blast
      then have "depth < int k" if "(start, v) \<in> follows F ^^ k" for k
        using near_found [OF front closed paths q _ that] by (meson not_le_imp_less)
      then show ?thesis using new(2) [OF True] by fastforce
    qed (use v old paths in \<open>auto simp: paths_ok_def\<close>)
  qed
  ultimately show ?thesis by blast
qed

text \<open>What was delivered: the edges that leave the visited nodes, in the order of the visits.\<close>

definition delivered_ok :: "federation \<Rightarrow> traversal_limits \<Rightarrow> traversal \<Rightarrow> bool" where
  "delivered_ok F lim t \<longleftrightarrow>
     tv_edges t = map edge_json (concat (map (indexed (fd_dependencies F)) (tv_visited t))) \<and>
     int (length (tv_edges t)) \<le> tl_edges lim \<and> int (length (tv_visited t)) \<le> tl_nodes lim \<and> distinct (tv_visited t)"

lemma follow_edges_delivers:
  "follow_edges lim current depth es t = Inr t1 \<Longrightarrow> int (length (tv_edges t)) \<le> tl_edges lim \<Longrightarrow>
     tv_edges t1 = tv_edges t @ map edge_json es \<and> int (length (tv_edges t1)) \<le> tl_edges lim \<and> tv_visited t1 = tv_visited t"
proof (induction es arbitrary: t)
  case (Cons e es)
  then obtain t2 where t2: "follow_edge lim current depth e t = Inr t2" "follow_edges lim current depth es t2 = Inr t1"
    by (auto simp: ebind_Inr)
  have "tv_edges t2 = tv_edges t @ [edge_json e]" "int (length (tv_edges t2)) \<le> tl_edges lim" "tv_visited t2 = tv_visited t"
    using t2(1) by (auto simp: follow_edge_def ebind_Inr Let_def split: if_splits)
  with Cons.IH [OF t2(2)] show ?case by force
qed simp

lemma visit_delivers:
  assumes "delivered_ok F lim t" "int (length (tv_visited t)) < tl_nodes lim"
    and "visit F lim current depth (t\<lparr>tv_queue := rest\<rparr>) = Inr t1"
  shows "delivered_ok F lim t1"
  using assms unfolding delivered_ok_def visit_def Let_def
  by (auto split: if_splits dest!: follow_edges_delivers)

lemma traverse_loop_ok:
  "traverse_loop F lim t = Inr t1 \<Longrightarrow> front_ok lim t \<Longrightarrow> closed_ok F lim t \<Longrightarrow> paths_ok F start t \<Longrightarrow> delivered_ok F lim t \<Longrightarrow>
     front_ok lim t1 \<and> closed_ok F lim t1 \<and> paths_ok F start t1 \<and> delivered_ok F lim t1"
proof (induction F lim t rule: traverse_loop.induct)
  case (1 F lim t)
  show ?case
  proof (cases "tv_queue t")
    case Nil
    with 1 show ?thesis by (simp add: traverse_loop.simps)
  next
    case (Cons x rest)
    obtain current depth where x: "x = (current, depth)" by (cases x)
    show ?thesis
    proof (cases "int (length (tv_visited t)) \<ge> tl_nodes lim")
      case True
      with 1 Cons x show ?thesis by (simp add: traverse_loop.simps)
    next
      case False
      with 1(2) Cons x obtain t2 where t2: "visit F lim current depth (t\<lparr>tv_queue := rest\<rparr>) = Inr t2"
          "traverse_loop F lim t2 = Inr t1"
        by (subst (asm) traverse_loop.simps) (auto split: sum.splits)
      have "front_ok lim t2 \<and> closed_ok F lim t2 \<and> paths_ok F start t2"
        using visit_ok [OF 1(3-5) _ t2(1)] Cons x by simp
      moreover have "delivered_ok F lim t2" using visit_delivers [OF 1(6) _ t2(1)] False by simp
      ultimately show ?thesis using 1(1) [OF Cons x [symmetric] False t2(1) t2(2)] by blast
    qed
  qed
qed

lemma start_ok:
  assumes "0 \<le> tl_depth lim" "1 \<le> tl_nodes lim" "0 \<le> tl_edges lim"
  shows "front_ok lim (start_traversal start) \<and> closed_ok F lim (start_traversal start) \<and>
     paths_ok F start (start_traversal start) \<and> delivered_ok F lim (start_traversal start)"
  using assms
  by (simp add: start_traversal_def front_ok_def closed_ok_def paths_ok_def delivered_ok_def distance_def path_to_def reaches_def)

lemma traverse_outcome:
  assumes "traverse F start lim = Inr r"
  obtains t where "r = traversal_outcome start t" "front_ok lim t" "closed_ok F lim t" "paths_ok F start t"
    "delivered_ok F lim t" "int (length (canonical (result_json r))) \<le> tl_bytes lim"
proof -
  have lim: "0 \<le> tl_depth lim" "1 \<le> tl_nodes lim" "0 \<le> tl_edges lim"
    using assms by (auto simp: traverse_def ebind_Inr federation_budget_def check_Inr)
  obtain t where t: "traverse_loop F lim (start_traversal start) = Inr t" "r = traversal_outcome start t"
      "int (length (canonical (result_json r))) \<le> tl_bytes lim"
    using assms by (auto simp: traverse_def ebind_Inr Let_def federation_bytes_def split: if_splits)
  with traverse_loop_ok [OF t(1)] start_ok [OF lim] that show ?thesis by blast
qed

text \<open>C8: A traversal is a breadth-first search.  Every path it reports follows edges of the federation from the
  start and no other way to its end is shorter; the nodes are among them, and when the traversal is
  complete they are exactly what can be reached from the start.\<close>

theorem traversal_is_breadth_first:
  assumes "make_federation members edges = Inr F" "traverse F start lim = Inr r"
  defines "E \<equiv> (\<lambda>e. (fe_source e, fe_target e)) ` set edges"
  shows "(\<forall>(v, p) \<in> set (tr_paths r). walk E p \<and> hd p = start \<and> last p = v \<and>
       (\<forall>q. walk E q \<and> hd q = start \<and> last q = v \<longrightarrow> length p \<le> length q)) \<and>
     set (tr_nodes r) \<subseteq> set (keys (tr_paths r)) \<and>
     (tr_complete r \<longrightarrow> set (tr_nodes r) = {v. (start, v) \<in> E\<^sup>*})"
proof -
  obtain t where t: "r = traversal_outcome start t" and ok: "front_ok lim t" "closed_ok F lim t" "paths_ok F start t"
    using traverse_outcome [OF assms(2)] by metis
  have E: "follows F = E"
    using make_federation_ok [OF assms(1)] by (auto simp: follows_def E_def federation_ok_def)
  have r: "tr_paths r = tv_paths t" "set (tr_nodes r) = set (tv_visited t)"
    by (simp_all add: t traversal_outcome_def Let_def)
  have paths: "path_to t v = p" if "(v, p) \<in> set (tv_paths t)" for v p
    using ok(1) that by (simp add: front_ok_def path_to_def)
  have "walk E p \<and> hd p = start \<and> last p = v \<and> (\<forall>q. walk E q \<and> hd q = start \<and> last q = v \<longrightarrow> length p \<le> length q)"
    if vp: "(v, p) \<in> set (tr_paths r)" for v p
  proof -
    have key: "v \<in> set (keys (tv_paths t))" and p: "path_to t v = p" using vp r(1) paths by force+
    have "length p \<le> length q" if "walk E q" "hd q = start" "last q = v" for q
    proof -
      have "(start, v) \<in> follows F ^^ (length q - 1)" using reaches_relpow [of E start v q] that E by (simp add: reaches_def)
      then have "distance t v \<le> int (length q - 1)" using ok(3) key unfolding paths_ok_def by blast
      moreover have "q \<noteq> []" using that(1) by auto
      ultimately show ?thesis using p by (cases q) (auto simp: distance_def)
    qed
    then show ?thesis using ok(3) key p E by (auto simp: paths_ok_def reaches_def)
  qed
  moreover have "set (tr_nodes r) \<subseteq> set (keys (tr_paths r))" using ok(1) r by (auto simp: front_ok_def)
  moreover have "set (tr_nodes r) = {v. (start, v) \<in> E\<^sup>*}" if complete: "tr_complete r"
  proof -
    have empty: "tv_queue t = []" "tv_reasons t = []"
      using complete by (simp_all add: t traversal_outcome_def Let_def split: if_splits)
    then have visited: "set (tv_visited t) = set (keys (tv_paths t))" using ok(1) by (simp add: front_ok_def)
    have step: "v \<in> set (tv_visited t)" if "u \<in> set (tv_visited t)" "(u, v) \<in> E" for u v
      using ok(2) that visited empty(2) E by (auto simp: closed_ok_def split: if_splits)
    have "(start, v) \<in> E\<^sup>* \<Longrightarrow> v \<in> set (tv_visited t)" for v
      by (induction rule: rtrancl_induct) (use ok(3) visited step in \<open>auto simp: paths_ok_def\<close>)
    moreover have "(start, v) \<in> E\<^sup>*" if "v \<in> set (tv_visited t)" for v
    proof -
      have "reaches E start v (path_to t v)" using ok(3) that visited E by (auto simp: paths_ok_def)
      then show ?thesis by (rule relpow_imp_rtrancl [OF reaches_relpow])
    qed
    ultimately show ?thesis using r(2) by blast
  qed
  ultimately show ?thesis by blast
qed

text \<open>C21: A traversal keeps its budgets and says exactly what it saw: at most the asked nodes, edges and bytes,
  no node twice, and the edges are those that leave the visited nodes.\<close>

theorem traversal_keeps_its_budgets:
  assumes "make_federation members edges = Inr F" "traverse F start lim = Inr r"
  shows "int (length (tr_nodes r)) \<le> tl_nodes lim \<and> distinct (tr_nodes r) \<and> int (length (tr_edges r)) \<le> tl_edges lim \<and>
     int (length (canonical (result_json r))) \<le> tl_bytes lim \<and>
     set (tr_edges r) = edge_json ` {e \<in> set edges. fe_source e \<in> set (tr_nodes r)}"
proof -
  obtain t where t: "r = traversal_outcome start t" and ok: "delivered_ok F lim t"
    and bytes: "int (length (canonical (result_json r))) \<le> tl_bytes lim"
    using traverse_outcome [OF assms(2)] by metis
  have r: "tr_nodes r = sorted_set (tv_visited t)" "tr_edges r = tv_edges t"
    by (simp_all add: t traversal_outcome_def Let_def)
  have "indexed (fd_dependencies F) h = filter (\<lambda>e. fe_source e = h) (fd_edges F)" for h
    using make_federation_ok [OF assms(1)] by (simp add: federation_ok_def)
  then have "set (tv_edges t) = edge_json ` {e \<in> set edges. fe_source e \<in> set (tv_visited t)}"
    using ok make_federation_ok [OF assms(1)] by (auto simp: delivered_ok_def)
  moreover have "length (sorted_set (tv_visited t)) = length (tv_visited t)"
    using ok by (metis delivered_ok_def distinct_card distinct_sorted_set set_sorted_set)
  moreover have "int (length (tr_edges r)) \<le> tl_edges lim" using ok unfolding delivered_ok_def r by blast
  ultimately show ?thesis using ok bytes by (simp add: delivered_ok_def r)
qed

section \<open>Deltas\<close>

definition tracks :: "(string, federation_member) dict \<Rightarrow> string list \<Rightarrow> bool" where
  "tracks active tombs \<longleftrightarrow> (\<forall>(k, m) \<in> set active. k = lower (fm_repository m) \<and> k \<notin> set tombs)"

lemma collect_changes_effect:
  "collect_changes removed cs active tombs = Inr (active1, tombs1) \<Longrightarrow>
     tracks active tombs \<Longrightarrow>
     tracks active1 tombs1 \<and>
     map snd active1 = map snd active @ filter (\<lambda>m. \<not> fm_tombstone m) cs \<and>
     tombs1 = tombs @ map (\<lambda>m. lower (fm_repository m)) (filter fm_tombstone cs)"
proof (induction cs arbitrary: active tombs)
  case (Cons m cs)
  let ?k = "lower (fm_repository m)"
  have k: "map_of active ?k = None" "?k \<notin> set tombs"
    using Cons.prems(1) unfolding collect_changes.simps Let_def by (metis Inl_Inr_False)+
  then have absent: "?k \<notin> set (keys active)" by (simp add: map_of_eq_None_iff)
  show ?case
  proof (cases "fm_tombstone m")
    case True
    then have rec: "collect_changes removed cs active (tombs @ [?k]) = Inr (active1, tombs1)"
      using Cons.prems(1) unfolding collect_changes.simps Let_def by (metis Inl_Inr_False)
    have "tracks active (tombs @ [?k])"
      unfolding tracks_def
    proof clarify
      fix k n assume kn: "(k, n) \<in> set active"
      then have "k \<noteq> ?k" using absent by (metis fst_conv image_eqI set_map)
      moreover have "k = lower (fm_repository n) \<and> k \<notin> set tombs" using Cons.prems(2) kn by (auto simp: tracks_def)
      ultimately show "k = lower (fm_repository n) \<and> k \<notin> set (tombs @ [?k])" by auto
    qed
    from Cons.IH [OF rec this] True show ?thesis by auto
  next
    case False
    then have rec: "collect_changes removed cs (active @ [(?k, m)]) tombs = Inr (active1, tombs1)"
      using Cons.prems(1) dput_new [OF absent, of m] unfolding collect_changes.simps Let_def by (metis Inl_Inr_False)
    have "tracks (active @ [(?k, m)]) tombs"
      using Cons.prems(2) k(2) by (auto simp: tracks_def)
    from Cons.IH [OF rec this] False show ?thesis by auto
  qed
qed simp

definition gone_repositories :: "string list \<Rightarrow> federation_member list \<Rightarrow> string list" where
  "gone_repositories removed changed =
     map lower removed @ map (\<lambda>m. lower (fm_repository m)) (filter fm_tombstone changed)"

text \<open>C11: A delta gives the next federation exactly: well-formed again, its members are the changed ones and the old
  ones of repositories neither changed nor removed, its edges the added ones and the old ones neither
  removed nor touching a removed repository, and no edge ends in a repository that is gone.\<close>

theorem delta_gives_the_next_federation:
  assumes "make_federation members edges = Inr F"
    and "apply_delta sha changed removed added_edges removed_edges F = Inr (F', report)"
  defines "gone \<equiv> gone_repositories removed changed" and "repo \<equiv> \<lambda>m. lower (fm_repository m)"
  shows "federation_ok F' \<and>
     set (fd_members F') = {m \<in> set changed. \<not> fm_tombstone m} \<union>
       {m \<in> set members. repo m \<notin> set gone \<and> repo m \<notin> repo ` set changed} \<and>
     set (fd_edges F') = set added_edges \<union> {e \<in> set edges. e \<notin> set removed_edges \<and> \<not> belongs_to gone e} \<and>
     (\<forall>e \<in> set (fd_edges F'). lower (handle_owner (fe_source e)) \<notin> set gone \<and> lower (handle_owner (fe_target e)) \<notin> set gone)"
proof -
  obtain active tombs where c: "collect_changes (map lower removed) changed [] (map lower removed) = Inr (active, tombs)"
    and make: "make_federation
        (filter (\<lambda>m. lower (fm_repository m) \<notin> set tombs \<and> map_of active (lower (fm_repository m)) = None) (fd_members F) @
         map snd active)
        (filter (\<lambda>e. e \<notin> set removed_edges \<and> \<not> belongs_to tombs e) (fd_edges F) @ added_edges) = Inr F'"
    using assms(2) by (auto simp: apply_delta_def ebind_Inr Let_def split: if_splits)
  have a: "\<forall>(k, m) \<in> set active. k = repo m \<and> k \<notin> set tombs"
      "map snd active = filter (\<lambda>m. \<not> fm_tombstone m) changed" "tombs = gone"
  proof -
    have "tracks [] (map lower removed)" by (simp add: tracks_def)
    note e = collect_changes_effect [OF c this]
    show "\<forall>(k, m) \<in> set active. k = repo m \<and> k \<notin> set tombs" using e unfolding tracks_def repo_def by blast
    show "map snd active = filter (\<lambda>m. \<not> fm_tombstone m) changed" "tombs = gone"
      using e unfolding gone_def gone_repositories_def by simp_all
  qed
  have active: "m \<in> snd ` set active \<longleftrightarrow> m \<in> set changed \<and> \<not> fm_tombstone m" for m
    using arg_cong [OF a(2), of set] by auto
  have "fst ` set active = repo ` (snd ` set active)" using a(1) by force
  then have key: "map_of active k = None \<longleftrightarrow> k \<notin> repo ` {m \<in> set changed. \<not> fm_tombstone m}" for k
    unfolding map_of_eq_None_iff using active by auto
  note old = make_federation_ok [OF assms(1)] and new = make_federation_ok [OF make]
  have tomb: "repo m \<in> set gone" if "m \<in> set changed" "fm_tombstone m" for m
    using that by (auto simp: gone_def gone_repositories_def repo_def)
  have "set (fd_members F') = {m \<in> set changed. \<not> fm_tombstone m} \<union>
       {m \<in> set members. repo m \<notin> set gone \<and> repo m \<notin> repo ` set changed}"
    using new old key tomb a(2,3) unfolding repo_def by auto
  moreover have "set (fd_edges F') = set added_edges \<union> {e \<in> set edges. e \<notin> set removed_edges \<and> \<not> belongs_to gone e}"
    using new old a(3) by auto
  moreover have "repo m \<notin> set gone" if m: "m \<in> set (fd_members F')" for m
  proof (cases "m \<in> snd ` set active")
    case True
    then show ?thesis using a(1,3) by auto
  next
    case False
    then show ?thesis using m new a(3) by (auto simp: repo_def)
  qed
  then have "lower (handle_owner h) \<notin> set gone" if "e \<in> set (fd_edges F')" "h \<in> {fe_source e, fe_target e}" for e h
    using new that unfolding federation_ok_def repo_def by metis
  ultimately show ?thesis using new by simp
qed

definition demo_member :: "string \<Rightarrow> federation_member" where
  "demo_member r = \<lparr>fm_repository = r, fm_commit = ''c'', fm_generation = ''1'', fm_schema = ''s'',
     fm_digest = zero_hash, fm_scope = ''*'', fm_tombstone = False\<rparr>"
definition demo_edge :: "string \<Rightarrow> string \<Rightarrow> federated_edge" where
  "demo_edge u v = \<lparr>fe_source = u, fe_target = v, fe_relation = ''calls'', fe_confidence = 1, fe_evidence = [], fe_derived = False\<rparr>"
definition demo_federation :: federation where
  "demo_federation = \<lparr>fd_members = [demo_member ''a'', demo_member ''b''], fd_edges = [demo_edge ''a:f'' ''b:g''],
     fd_consumers = [(''b:g'', [demo_edge ''a:f'' ''b:g''])], fd_dependencies = [(''a:f'', [demo_edge ''a:f'' ''b:g''])]\<rparr>"
lemma demo_made: "make_federation [demo_member ''b'', demo_member ''a''] [demo_edge ''a:f'' ''b:g''] = Inr demo_federation"
proof -
  have "lower ''a'' = ''a''" "lower ''b'' = ''b''" "handle_owner ''a:f'' = ''a''" "handle_owner ''b:g'' = ''b''" by code_simp+
  moreover have "sort_members [demo_member ''b'', demo_member ''a''] = [demo_member ''a'', demo_member ''b'']" by code_simp
  ultimately show ?thesis
    by (simp add: make_federation_def demo_federation_def demo_member_def demo_edge_def MAX_MEMBERS_def MAX_EDGES_def
        sort_edges_def edge_index_def indexed_def dput_def Let_def)
qed
lemma demo_edge_length: "length (dumps (edge_json (demo_edge ''a:f'' ''b:g''))) = 158"
  by code_simp

definition demo_limits :: traversal_limits where
  "demo_limits = \<lparr>tl_depth = 3, tl_nodes = 5, tl_edges = 5, tl_bytes = 1000\<rparr>"

definition demo_result :: traversal_result where
  "demo_result = \<lparr>tr_start = ''a:f'', tr_nodes = [''a:f'', ''b:g''], tr_edges = [edge_json (demo_edge ''a:f'' ''b:g'')],
     tr_paths = [(''a:f'', [''a:f'']), (''b:g'', [''a:f'', ''b:g''])], tr_complete = True, tr_reasons = []\<rparr>"

lemma demo_result_length: "length (dumps (result_json demo_result)) = 297"
  by code_simp

lemma demo_traverse: "traverse demo_federation ''a:f'' demo_limits = Inr demo_result"
proof -
  have bytes: "federation_bytes v = Inr (canonical v)" "length (canonical v) = length (dumps v)"
    if "length (dumps v) \<le> 1000" for v
    using that by (simp_all add: federation_bytes_def canonical_def MAX_BYTES_def)
  note edge = bytes [of "edge_json (demo_edge ''a:f'' ''b:g'')", unfolded demo_edge_length]
  note res = bytes [of "result_json demo_result", unfolded demo_result_length]
  have e: "fe_target (demo_edge u v) = v" for u v by (simp add: demo_edge_def)
  have loop: "traverse_loop demo_federation demo_limits (start_traversal ''a:f'') =
      Inr \<lparr>tv_queue = [], tv_visited = [''a:f'', ''b:g''], tv_paths = tr_paths demo_result, tv_edges = tr_edges demo_result,
        tv_bytes = int (length (dumps (edge_json (demo_edge ''a:f'' ''b:g'')))), tv_reasons = []\<rparr>"
    by (simp add: traverse_loop.simps start_traversal_def demo_limits_def visit_def demo_federation_def indexed_def
        follow_edge_def edge e demo_edge_length dput_def path_to_def demo_result_def Let_def)
  have "traversal_outcome ''a:f'' \<lparr>tv_queue = [], tv_visited = [''a:f'', ''b:g''], tv_paths = tr_paths demo_result,
      tv_edges = tr_edges demo_result, tv_bytes = n, tv_reasons = []\<rparr> = demo_result" for n
    by (simp add: traversal_outcome_def demo_result_def sorted_set_def)
  moreover have "federation_handle ''a:f'' x = Inr ()" for x
  proof -
    have "strip ''a:f'' \<noteq> []" "strip (handle_owner ''a:f'') \<noteq> []"
      "strip (drop (Suc (length (handle_owner ''a:f''))) ''a:f'') \<noteq> []" by code_simp+
    then show ?thesis by (simp add: federation_handle_def federation_text_def)
  qed
  ultimately show ?thesis
    using loop res by (simp add: traverse_def federation_budget_def demo_limits_def MAX_EDGES_def MAX_BYTES_def Let_def demo_result_length)
qed

theorem traversal_is_breadth_first_witness:
  "walk {(''a:f'', ''b:g'')} [''a:f'', ''b:g''] \<and> {''a:f'', ''b:g''} = {v. (''a:f'', v) \<in> {(''a:f'', ''b:g'')}\<^sup>*}"
proof -
  have "(\<lambda>e. (fe_source e, fe_target e)) ` set [demo_edge ''a:f'' ''b:g''] = {(''a:f'', ''b:g'')}"
    by (simp add: demo_edge_def)
  with traversal_is_breadth_first [OF demo_made demo_traverse] show ?thesis by (simp add: demo_result_def)
qed

theorem traversal_keeps_its_budgets_witness:
  "tr_nodes demo_result = [''a:f'', ''b:g''] \<and> int (length (tr_nodes demo_result)) \<le> tl_nodes demo_limits \<and>
     int (length (canonical (result_json demo_result))) \<le> tl_bytes demo_limits"
  using traversal_keeps_its_budgets [OF demo_made demo_traverse] by (simp add: demo_result_def)

lemma demo_delta: "\<exists>F' report. apply_delta sha [] [''B''] [] [] demo_federation = Inr (F', report)"
proof -
  have low: "lower ''B'' = ''b''" "lower ''b'' = ''b''" "lower ''a'' = ''a''" "strip ''B'' \<noteq> []"
    "lower ''a:f'' = ''a:f''" "lower ''b:g'' = ''b:g''" by code_simp+
  let ?F = "\<lparr>fd_members = [demo_member ''a''], fd_edges = [], fd_consumers = [], fd_dependencies = []\<rparr>"
  have made: "make_federation [demo_member ''a''] [] = Inr ?F"
    by (simp add: make_federation_def demo_member_def MAX_MEMBERS_def sort_members_def sort_edges_def edge_index_def Let_def)
  have kept: "filter (\<lambda>m. lower (fm_repository m) \<noteq> ''b'') (fd_members demo_federation) = [demo_member ''a'']"
    "filter (\<lambda>e. \<not> belongs_to [''b''] e) (fd_edges demo_federation) = []"
    using low by (simp_all add: demo_federation_def demo_member_def demo_edge_def belongs_to_def)
  have gen: "\<exists>g. federation_generation sha F = Inr g" if "F \<in> {demo_federation, ?F}" for F
  proof -
    let ?v = "\<lambda>F. JObj [(''members'', JList (map member_json (fd_members F))), (''edges'', JList (map edge_json (fd_edges F)))]"
    have "length (dumps (?v demo_federation)) = 518" "length (dumps (?v ?F)) = 192" by code_simp+
    then show ?thesis
      using that by (auto simp: federation_generation_def federation_digest_def federation_bytes_def canonical_def MAX_BYTES_def)
  qed
  obtain g where g: "federation_generation sha demo_federation = Inr g" using gen [of demo_federation] by auto
  obtain h where h: "federation_generation sha ?F = Inr h" using gen [of ?F] by auto
  show ?thesis by (simp add: apply_delta_def Let_def low(1,4) kept made [simplified] g h)
qed

theorem delta_gives_the_next_federation_witness:
  "\<exists>F' report. apply_delta (\<lambda>b. b) [] [''B''] [] [] demo_federation = Inr (F', report) \<and>
     set (fd_members F') = {demo_member ''a''} \<and> fd_edges F' = []"
proof -
  have low: "lower ''B'' = ''b''" "lower ''b'' = ''b''" "lower ''a'' = ''a''"
    "lower ''a:f'' = ''a:f''" "lower ''b:g'' = ''b:g''" by code_simp+
  obtain F' report where d: "apply_delta (\<lambda>b. b) [] [''B''] [] [] demo_federation = Inr (F', report)"
    using demo_delta by blast
  have gone: "gone_repositories [''B''] [] = [''b'']" using low by (simp add: gone_repositories_def)
  note result = delta_gives_the_next_federation [OF demo_made d, unfolded gone]
  have "set (fd_members F') = {m \<in> {demo_member ''b'', demo_member ''a''}. lower (fm_repository m) \<notin> {''b''}}"
    using result by simp
  also have "\<dots> = {demo_member ''a''}" using low by (auto simp: demo_member_def)
  finally have members: "set (fd_members F') = {demo_member ''a''}" .
  have "belongs_to [''b''] (demo_edge ''a:f'' ''b:g'')" using low by (simp add: belongs_to_def demo_edge_def)
  then have "set (fd_edges F') = {}" using result by auto
  with d members show ?thesis by auto
qed

end
