(* ===== verification/DecisionCache.thy ===== *)
theory DecisionCache
  imports JsonFields
begin

text \<open>
  \<open>simplicio_fast/decision_cache.py\<close>: the bounded cache of reusable decisions, bound to one generation.  A
  method holds the lock while it runs, so a method is one step on the state.  Keys and payloads have the
  annotated types and payloads no floating-point numbers; a missing \<open>expected\<close> or \<open>observed\<close> is the empty
  object.
\<close>

datatype decision_error =
    Cache_capacity_invalid
  | Key_dimension_invalid
  | Raw_content_forbidden
  | Invalidation_reason_invalid
  | Decision_payload_invalid
  | Drift_dimensions_invalid

definition KEY_SCHEMA :: string where "KEY_SCHEMA = ''simplicio.fast.decision-cache-key/v1''"
definition CACHE_SCHEMA :: string where "CACHE_SCHEMA = ''simplicio.fast.decision-cache/v1''"
definition RECEIPT_SCHEMA :: string where "RECEIPT_SCHEMA = ''simplicio.fast.decision-cache-receipt/v1''"
definition MAX_ENTRIES :: nat where "MAX_ENTRIES = 4096"

definition KEY_DIMENSIONS :: "string list" where
  "KEY_DIMENSIONS =
     [''model_digest'', ''artifact_digest'', ''quant_digest'', ''tokenizer_template_identity'', ''backend_version'',
      ''hardware_topology_fingerprint'', ''device_placement_class'', ''context_kv_pressure_bucket'', ''workload_class'',
      ''concurrency_bucket'', ''fast_policy_version'', ''generation'']"

definition DRIFT_REASONS :: "(string \<times> string) list" where
  "DRIFT_REASONS =
     [(''model_digest'', ''model_drift''), (''artifact_digest'', ''artifact_drift''), (''quant_digest'', ''quantization_drift''),
      (''tokenizer_template_identity'', ''tokenizer_template_drift''), (''backend_version'', ''backend_drift''),
      (''hardware_topology_fingerprint'', ''hardware_drift''), (''device_placement_class'', ''placement_drift''),
      (''context_kv_pressure_bucket'', ''context_kv_pressure_drift''), (''workload_class'', ''workload_drift''),
      (''concurrency_bucket'', ''concurrency_drift''), (''fast_policy_version'', ''policy_version_drift'')]"

definition FORBIDDEN_PAYLOAD_MARKERS :: "string list" where
  "FORBIDDEN_PAYLOAD_MARKERS = [''prompt'', ''code'', ''user'', ''content'', ''source'']"

section \<open>Checks\<close>

definition valid_identifier :: "string \<Rightarrow> decision_error \<Rightarrow> decision_error + string" where
  "valid_identifier s reason =
     (if s = [] \<or> s \<noteq> strip s then Inl reason
      else if length s > 256 \<or> list_ex is_space s then Inl Raw_content_forbidden
      else if CHR 0x00 \<in> set s then Inl reason
      else Inr s)"

definition valid_reason :: "string \<Rightarrow> decision_error + string" where
  "valid_reason s =
     (if s = [] \<or> s \<noteq> strip s then Inl Invalidation_reason_invalid
      else case valid_identifier s Invalidation_reason_invalid of
             Inl _ \<Rightarrow> Inl Invalidation_reason_invalid | Inr t \<Rightarrow> Inr t)"

definition safe_field_name :: "string \<Rightarrow> decision_error + unit" where
  "safe_field_name key =
     (if key = [] then Inl Decision_payload_invalid
      else if list_ex (\<lambda>marker. has_sub marker (lower key)) FORBIDDEN_PAYLOAD_MARKERS then Inl Raw_content_forbidden
      else Inr ())"

fun safe_payload :: "json \<Rightarrow> decision_error + json"
  and safe_fields :: "(string \<times> json) list \<Rightarrow> decision_error + (string \<times> json) list"
  and safe_items :: "json list \<Rightarrow> decision_error + json list" where
  "safe_payload JNull = Inr JNull"
| "safe_payload (JBool b) = Inr (JBool b)"
| "safe_payload (JInt i) = Inr (JInt i)"
| "safe_payload (JStr s) = ebind (valid_identifier s Decision_payload_invalid) (\<lambda>t. Inr (JStr t))"
| "safe_payload (JObj kvs) = ebind (safe_fields kvs) (\<lambda>fields. Inr (JObj fields))"
| "safe_payload (JList vs) = ebind (safe_items vs) (\<lambda>items. Inr (JList items))"
| "safe_fields [] = Inr []"
| "safe_fields ((key, item) # kvs) =
     ebind (safe_field_name key) (\<lambda>_.
     ebind (safe_payload item) (\<lambda>safe.
     ebind (safe_fields kvs) (\<lambda>rest. Inr ((key, safe) # rest))))"
| "safe_items [] = Inr []"
| "safe_items (v # vs) =
     ebind (safe_payload v) (\<lambda>item. ebind (safe_items vs) (\<lambda>rest. Inr (item # rest)))"

definition safe_object :: "json \<Rightarrow> decision_error + (string \<times> json) list" where
  "safe_object v = ebind (safe_payload v) (\<lambda>w. case w of JObj fields \<Rightarrow> Inr fields | _ \<Rightarrow> Inl Decision_payload_invalid)"

section \<open>Keys and entries\<close>

record decision_key =
  dk_model :: string
  dk_artifact :: string
  dk_quant :: string
  dk_backend :: string
  dk_hardware :: string
  dk_placement :: string
  dk_pressure :: string
  dk_workload :: string
  dk_concurrency :: string
  dk_policy :: string
  dk_generation :: string
  dk_tokenizer :: "string option"

definition decision_key_fields :: "decision_key \<Rightarrow> (string \<times> json) list" where
  "decision_key_fields k =
     [(''schema'', JStr KEY_SCHEMA), (''model_digest'', JStr (dk_model k)), (''artifact_digest'', JStr (dk_artifact k)),
      (''quant_digest'', JStr (dk_quant k)), (''tokenizer_template_identity'', jopt (dk_tokenizer k)),
      (''backend_version'', JStr (dk_backend k)), (''hardware_topology_fingerprint'', JStr (dk_hardware k)),
      (''device_placement_class'', JStr (dk_placement k)), (''context_kv_pressure_bucket'', JStr (dk_pressure k)),
      (''workload_class'', JStr (dk_workload k)), (''concurrency_bucket'', JStr (dk_concurrency k)),
      (''fast_policy_version'', JStr (dk_policy k)), (''generation'', JStr (dk_generation k))]"

definition make_decision_key :: "decision_key \<Rightarrow> decision_error + decision_key" where
  "make_decision_key k =
     ebind (emap (\<lambda>name. case map_of (decision_key_fields k) name of
              Some (JStr s) \<Rightarrow> ebind (valid_identifier s Key_dimension_invalid) (\<lambda>_. Inr ())
            | _ \<Rightarrow> Inr ()) KEY_DIMENSIONS) (\<lambda>_. Inr k)"

definition key_digest :: "(bytes \<Rightarrow> bytes) \<Rightarrow> decision_key \<Rightarrow> string" where
  "key_digest sha k = ''sha256:'' @ hexdigest sha (canonical (JObj (decision_key_fields k)))"

record decision_entry =
  de_key :: decision_key
  de_decision :: "(string \<times> json) list"
  de_expectation :: "(string \<times> json) list"

definition decision_entry_json :: "(bytes \<Rightarrow> bytes) \<Rightarrow> decision_entry \<Rightarrow> json" where
  "decision_entry_json sha en = JObj
     [(''key'', JObj (decision_key_fields (de_key en))), (''key_digest'', JStr (key_digest sha (de_key en))),
      (''decision'', JObj (de_decision en)), (''expectation'', JObj (de_expectation en))]"

section \<open>The cache\<close>

record decision_metrics =
  dm_hits :: nat
  dm_misses :: nat
  dm_stores :: nat
  dm_invalidations :: nat
  dm_quarantines :: nat
  dm_disabled :: nat
  dm_evictions :: nat

record decision_cache =
  dc_max :: nat
  dc_generation :: "string option"
  dc_entries :: "(string, decision_entry) dict"
  dc_invalidations :: "(string, string) dict"
  dc_quarantined :: "(string, string) dict"
  dc_disabled :: "(string, string) dict"
  dc_metrics :: decision_metrics

definition new_decision_cache :: "int \<Rightarrow> string option \<Rightarrow> decision_error + decision_cache" where
  "new_decision_cache max_entries generation =
     (if \<not> (1 \<le> max_entries \<and> max_entries \<le> int MAX_ENTRIES) then Inl Cache_capacity_invalid
      else
        ebind (case generation of None \<Rightarrow> Inr None
               | Some g \<Rightarrow> ebind (valid_identifier g Key_dimension_invalid) (\<lambda>h. Inr (Some h))) (\<lambda>g.
          Inr \<lparr>dc_max = nat max_entries, dc_generation = g, dc_entries = [], dc_invalidations = [], dc_quarantined = [],
               dc_disabled = [],
               dc_metrics = \<lparr>dm_hits = 0, dm_misses = 0, dm_stores = 0, dm_invalidations = 0, dm_quarantines = 0,
                 dm_disabled = 0, dm_evictions = 0\<rparr>\<rparr>))"

text \<open>\<open>while len(store) > self.max_entries: store.popitem(last=False)\<close>\<close>

function drop_oldest :: "nat \<Rightarrow> 'a list \<Rightarrow> 'a list" where
  "drop_oldest m xs = (if length xs > m then drop_oldest m (tl xs) else xs)"
  by pat_completeness auto

termination
  by (relation "measure (\<lambda>(m, xs). length xs)") auto

declare drop_oldest.simps [simp del]

definition remember :: "nat \<Rightarrow> string \<Rightarrow> string \<Rightarrow> (string, string) dict \<Rightarrow> (string, string) dict" where
  "remember m digest reason store = drop_oldest m (dput digest reason (dpop digest store))"

definition count_hit :: "decision_cache \<Rightarrow> decision_cache" where
  "count_hit C = C\<lparr>dc_metrics := (dc_metrics C)\<lparr>dm_hits := Suc (dm_hits (dc_metrics C))\<rparr>\<rparr>"

definition count_miss :: "decision_cache \<Rightarrow> decision_cache" where
  "count_miss C = C\<lparr>dc_metrics := (dc_metrics C)\<lparr>dm_misses := Suc (dm_misses (dc_metrics C))\<rparr>\<rparr>"

definition count_invalidations :: "nat \<Rightarrow> decision_cache \<Rightarrow> decision_cache" where
  "count_invalidations n C = C\<lparr>dc_metrics := (dc_metrics C)\<lparr>dm_invalidations := dm_invalidations (dc_metrics C) + n\<rparr>\<rparr>"

definition remember_invalidation :: "string \<Rightarrow> string \<Rightarrow> decision_cache \<Rightarrow> decision_cache" where
  "remember_invalidation reason digest C =
     C\<lparr>dc_invalidations := remember (dc_max C) digest reason (dc_invalidations C)\<rparr>"

definition clear_generation :: "string \<Rightarrow> decision_cache \<Rightarrow> string list \<times> decision_cache" where
  "clear_generation generation C =
     (let invalidated = sort (keys (dc_entries C));
          C1 = fold (remember_invalidation ''generation_advanced'') invalidated C
      in (invalidated,
          count_invalidations (length invalidated)
            (C1\<lparr>dc_entries := [], dc_quarantined := [], dc_disabled := [], dc_generation := Some generation\<rparr>)))"

section \<open>Receipts\<close>

record decision_receipt =
  dr_operation :: string
  dr_outcome :: string
  dr_reason :: string
  dr_key_digest :: "string option"
  dr_generation :: "string option"
  dr_decision :: "(string \<times> json) list option"
  dr_removed :: "bool option"
  dr_invalidated :: "string list"
  dr_evicted :: "string list"
  dr_contradictions :: "string list"

definition keyless_receipt :: "decision_cache \<Rightarrow> string \<Rightarrow> string \<Rightarrow> string \<Rightarrow> decision_receipt" where
  "keyless_receipt C operation outcome reason =
     \<lparr>dr_operation = operation, dr_outcome = outcome, dr_reason = reason, dr_key_digest = None,
      dr_generation = dc_generation C, dr_decision = None, dr_removed = None, dr_invalidated = [], dr_evicted = [],
      dr_contradictions = []\<rparr>"

definition key_receipt ::
  "(bytes \<Rightarrow> bytes) \<Rightarrow> decision_key \<Rightarrow> string \<Rightarrow> string \<Rightarrow> string \<Rightarrow> decision_receipt" where
  "key_receipt sha k operation outcome reason =
     \<lparr>dr_operation = operation, dr_outcome = outcome, dr_reason = reason, dr_key_digest = Some (key_digest sha k),
      dr_generation = Some (dk_generation k), dr_decision = None, dr_removed = None, dr_invalidated = [], dr_evicted = [],
      dr_contradictions = []\<rparr>"

definition optional_field :: "string \<Rightarrow> json option \<Rightarrow> (string \<times> json) list" where
  "optional_field name v = (case v of None \<Rightarrow> [] | Some w \<Rightarrow> [(name, w)])"

definition digests_field :: "string \<Rightarrow> string list \<Rightarrow> (string \<times> json) list" where
  "digests_field name ds = (if ds = [] then [] else [(name, JList (map JStr (sort ds)))])"

definition decision_receipt_json :: "decision_receipt \<Rightarrow> json" where
  "decision_receipt_json r = JObj
     ([(''schema'', JStr RECEIPT_SCHEMA), (''operation'', JStr (dr_operation r)), (''outcome'', JStr (dr_outcome r)),
       (''reason'', JStr (dr_reason r))] @
      optional_field ''key_digest'' (map_option JStr (dr_key_digest r)) @
      optional_field ''generation'' (map_option JStr (dr_generation r)) @
      optional_field ''decision'' (map_option JObj (dr_decision r)) @
      optional_field ''removed'' (map_option JBool (dr_removed r)) @
      digests_field ''invalidated_key_digests'' (dr_invalidated r) @
      digests_field ''evicted_key_digests'' (dr_evicted r) @
      digests_field ''contradiction_fields'' (dr_contradictions r))"

section \<open>Operations\<close>

type_synonym decision_result = "(decision_error + decision_receipt) \<times> decision_cache"

definition activate_generation :: "string \<Rightarrow> decision_cache \<Rightarrow> decision_result" where
  "activate_generation generation C =
     (case valid_identifier generation Key_dimension_invalid of
        Inl e \<Rightarrow> (Inl e, C)
      | Inr g \<Rightarrow>
          (if dc_generation C = Some g
           then (Inr (keyless_receipt C ''activate_generation'' ''unchanged'' ''generation_unchanged''), C)
           else
             (let (invalidated, C1) = clear_generation g C;
                  reason = (if dc_generation C = None then ''generation_initialized'' else ''generation_advanced'')
              in (Inr ((keyless_receipt C1 ''activate_generation'' ''activated'' reason)\<lparr>dr_invalidated := invalidated\<rparr>), C1))))"

definition put_generation :: "string \<Rightarrow> decision_cache \<Rightarrow> string \<times> string list \<times> decision_cache" where
  "put_generation generation C =
     (if dc_generation C = None then (''generation_initialized'', [], C\<lparr>dc_generation := Some generation\<rparr>)
      else if dc_generation C \<noteq> Some generation then
        (let (invalidated, C1) = clear_generation generation C in (''generation_advanced'', invalidated, C1))
      else (''generation_current'', [], C))"

function evict_decisions :: "decision_cache \<Rightarrow> string list \<times> decision_cache" where
  "evict_decisions C =
     (if length (dc_entries C) > dc_max C
      then
        (let digest = fst (hd (dc_entries C));
             (evicted, C1) = evict_decisions
               (remember_invalidation ''capacity_eviction'' digest (C\<lparr>dc_entries := tl (dc_entries C)\<rparr>))
         in (digest # evicted, C1))
      else ([], C))"
  by pat_completeness auto

termination
  by (relation "measure (\<lambda>C. length (dc_entries C))") (auto simp: remember_invalidation_def)

declare evict_decisions.simps [simp del]

definition store_decision ::
  "(bytes \<Rightarrow> bytes) \<Rightarrow> decision_key \<Rightarrow> (string \<times> json) list \<Rightarrow> (string \<times> json) list \<Rightarrow> decision_cache \<Rightarrow>
     string list \<times> decision_cache" where
  "store_decision sha k decision expectation C =
     (let digest = key_digest sha k;
          C1 = C\<lparr>dc_entries := dput digest \<lparr>de_key = k, de_decision = decision, de_expectation = expectation\<rparr>
                   (dpop digest (dc_entries C)),
                 dc_invalidations := dpop digest (dc_invalidations C),
                 dc_metrics := (dc_metrics C)\<lparr>dm_stores := Suc (dm_stores (dc_metrics C))\<rparr>\<rparr>;
          (evicted, C2) = evict_decisions C1
      in (evicted, C2\<lparr>dc_metrics := (dc_metrics C2)\<lparr>dm_evictions := dm_evictions (dc_metrics C2) + length evicted\<rparr>\<rparr>))"

definition put_decision :: "(bytes \<Rightarrow> bytes) \<Rightarrow> decision_key \<Rightarrow> json \<Rightarrow> json \<Rightarrow> decision_cache \<Rightarrow> decision_result" where
  "put_decision sha k decision expected C =
     (case ebind (safe_payload decision) (\<lambda>_. ebind (safe_payload expected) (\<lambda>_.
             ebind (safe_object decision) (\<lambda>ds. ebind (safe_object expected) (\<lambda>es. Inr (ds, es))))) of
        Inl e \<Rightarrow> (Inl e, C)
      | Inr (safe_decision, safe_expected) \<Rightarrow>
          (let (generation_reason, invalidated, C1) = put_generation (dk_generation k) C;
               digest = key_digest sha k
           in case map_of (dc_disabled C1) digest of
                Some reason \<Rightarrow> (Inr ((key_receipt sha k ''put'' ''disabled'' reason)\<lparr>dr_invalidated := invalidated\<rparr>), count_miss C1)
              | None \<Rightarrow>
                  (case map_of (dc_quarantined C1) digest of
                     Some reason \<Rightarrow>
                       (Inr ((key_receipt sha k ''put'' ''quarantined'' reason)\<lparr>dr_invalidated := invalidated\<rparr>), count_miss C1)
                   | None \<Rightarrow>
                       (let replacing = (map_of (dc_entries C1) digest \<noteq> None);
                            (evicted, C2) = store_decision sha k safe_decision safe_expected C1;
                            reason = (if generation_reason = ''generation_current''
                                      then (if replacing then ''entry_replaced'' else ''stored'') else generation_reason)
                        in (Inr ((key_receipt sha k ''put'' ''stored'' reason)
                              \<lparr>dr_invalidated := invalidated, dr_evicted := evicted\<rparr>), C2)))))"

definition contradictions :: "(string \<times> json) list \<Rightarrow> (string \<times> json) list \<Rightarrow> string list" where
  "contradictions expectation observed =
     sort (keys (filter (\<lambda>(field, expected). case map_of observed field of
                   None \<Rightarrow> False | Some v \<Rightarrow> \<not> json_eq v expected) expectation))"

definition quarantine_entry :: "string \<Rightarrow> string \<Rightarrow> decision_cache \<Rightarrow> decision_cache" where
  "quarantine_entry digest reason C =
     C\<lparr>dc_entries := dpop digest (dc_entries C), dc_quarantined := remember (dc_max C) digest reason (dc_quarantined C),
       dc_metrics := (dc_metrics C)\<lparr>dm_quarantines := Suc (dm_quarantines (dc_metrics C))\<rparr>\<rparr>"

definition lookup_decision :: "(bytes \<Rightarrow> bytes) \<Rightarrow> decision_key \<Rightarrow> json \<Rightarrow> decision_cache \<Rightarrow> decision_result" where
  "lookup_decision sha k observed C =
     (case safe_object observed of
        Inl e \<Rightarrow> (Inl e, C)
      | Inr safe_observed \<Rightarrow>
          (let digest = key_digest sha k; receipt = key_receipt sha k ''lookup'' in
           if dc_generation C = None then (Inr (receipt ''miss'' ''generation_uninitialized''), count_miss C)
           else if dc_generation C \<noteq> Some (dk_generation k) then (Inr (receipt ''miss'' ''generation_mismatch''), count_miss C)
           else case map_of (dc_disabled C) digest of
             Some reason \<Rightarrow> (Inr (receipt ''disabled'' reason), count_miss C)
           | None \<Rightarrow>
               (case map_of (dc_quarantined C) digest of
                  Some reason \<Rightarrow> (Inr (receipt ''quarantined'' reason), count_miss C)
                | None \<Rightarrow>
                    (case map_of (dc_entries C) digest of
                       None \<Rightarrow>
                         (Inr (case map_of (dc_invalidations C) digest of
                                 Some reason \<Rightarrow> receipt ''invalidated'' reason | None \<Rightarrow> receipt ''miss'' ''entry_missing''),
                          count_miss C)
                     | Some en \<Rightarrow>
                         (let fields = contradictions (de_expectation en) safe_observed;
                              contradiction = ''observed_telemetry_contradiction''
                          in if fields \<noteq> []
                             then (Inr ((receipt ''quarantined'' contradiction)\<lparr>dr_contradictions := fields, dr_removed := Some True\<rparr>),
                                   count_invalidations 1 (quarantine_entry digest contradiction C))
                             else (Inr ((receipt ''hit'' ''cache_hit'')\<lparr>dr_decision := Some (de_decision en)\<rparr>),
                                   count_hit (C\<lparr>dc_entries := dpop digest (dc_entries C) @ [(digest, en)]\<rparr>)))))))"

definition count_removed :: "bool \<Rightarrow> decision_cache \<Rightarrow> decision_cache" where
  "count_removed removed C = (if removed then count_invalidations 1 C else C)"

definition invalidate_decision :: "(bytes \<Rightarrow> bytes) \<Rightarrow> decision_key \<Rightarrow> string \<Rightarrow> decision_cache \<Rightarrow> decision_result" where
  "invalidate_decision sha k reason C =
     (case valid_reason reason of
        Inl e \<Rightarrow> (Inl e, C)
      | Inr r \<Rightarrow>
          (let digest = key_digest sha k; removed = (map_of (dc_entries C) digest \<noteq> None)
           in (Inr ((key_receipt sha k ''invalidate'' (if removed then ''invalidated'' else ''miss'') r)\<lparr>dr_removed := Some removed\<rparr>),
               count_removed removed (remember_invalidation r digest (C\<lparr>dc_entries := dpop digest (dc_entries C)\<rparr>)))))"

text \<open>An entry that agrees with the key on the generation and every other dimension, and differs on a drifted one.\<close>

definition drifted :: "string list \<Rightarrow> decision_key \<Rightarrow> decision_key \<Rightarrow> bool" where
  "drifted dimensions requested candidate \<longleftrightarrow>
     dk_generation candidate = dk_generation requested \<and>
     list_all (\<lambda>d. d \<in> set dimensions \<or> map_of (decision_key_fields candidate) d = map_of (decision_key_fields requested) d)
       (keys DRIFT_REASONS) \<and>
     list_ex (\<lambda>d. map_of (decision_key_fields candidate) d \<noteq> map_of (decision_key_fields requested) d) dimensions"

definition drop_drifted :: "string \<Rightarrow> string \<times> decision_entry \<Rightarrow> decision_cache \<Rightarrow> decision_cache" where
  "drop_drifted reason = (\<lambda>(digest, _) C. remember_invalidation reason digest (C\<lparr>dc_entries := dpop digest (dc_entries C)\<rparr>))"

definition drift_reason :: "string list \<Rightarrow> string option \<Rightarrow> decision_error + string" where
  "drift_reason dimensions reason =
     (if dimensions = [] \<or> list_ex (\<lambda>d. map_of DRIFT_REASONS d = None) dimensions \<or> \<not> distinct dimensions
      then Inl Drift_dimensions_invalid
      else valid_reason (case reason of Some r \<Rightarrow> r | None \<Rightarrow> the (map_of DRIFT_REASONS (hd dimensions))))"

definition invalidate_drift ::
  "(bytes \<Rightarrow> bytes) \<Rightarrow> decision_key \<Rightarrow> string list \<Rightarrow> string option \<Rightarrow> decision_cache \<Rightarrow> decision_result" where
  "invalidate_drift sha k dimensions reason C =
     (case drift_reason dimensions reason of
        Inl e \<Rightarrow> (Inl e, C)
      | Inr r \<Rightarrow>
          (let doomed = filter (\<lambda>(_, en). drifted dimensions k (de_key en)) (dc_entries C);
               invalidated = sort (keys doomed)
           in (Inr ((key_receipt sha k ''invalidate_drift'' (if invalidated \<noteq> [] then ''invalidated'' else ''miss'') r)
                 \<lparr>dr_invalidated := invalidated\<rparr>),
               count_invalidations (length invalidated) (fold (drop_drifted r) doomed C))))"

definition quarantine_decision :: "(bytes \<Rightarrow> bytes) \<Rightarrow> decision_key \<Rightarrow> string \<Rightarrow> decision_cache \<Rightarrow> decision_result" where
  "quarantine_decision sha k reason C =
     (case valid_reason reason of
        Inl e \<Rightarrow> (Inl e, C)
      | Inr r \<Rightarrow>
          (let digest = key_digest sha k; removed = (map_of (dc_entries C) digest \<noteq> None)
           in (Inr ((key_receipt sha k ''quarantine'' ''quarantined'' r)\<lparr>dr_removed := Some removed\<rparr>),
               count_removed removed (quarantine_entry digest r C))))"

definition disable_decision :: "(bytes \<Rightarrow> bytes) \<Rightarrow> decision_key \<Rightarrow> string \<Rightarrow> decision_cache \<Rightarrow> decision_result" where
  "disable_decision sha k reason C =
     (case valid_reason reason of
        Inl e \<Rightarrow> (Inl e, C)
      | Inr r \<Rightarrow>
          (let digest = key_digest sha k; removed = (map_of (dc_entries C) digest \<noteq> None)
           in (Inr ((key_receipt sha k ''disable'' ''disabled'' r)\<lparr>dr_removed := Some removed\<rparr>),
               count_removed removed
                 (C\<lparr>dc_entries := dpop digest (dc_entries C), dc_disabled := remember (dc_max C) digest r (dc_disabled C),
                    dc_metrics := (dc_metrics C)\<lparr>dm_disabled := Suc (dm_disabled (dc_metrics C))\<rparr>\<rparr>))))"

section \<open>Reports\<close>

definition reasons_json :: "(string, string) dict \<Rightarrow> json" where
  "reasons_json store =
     JList (map (\<lambda>(digest, reason). JObj [(''key_digest'', JStr digest), (''reason'', JStr reason)]) (sort_key fst store))"

definition metrics_json :: "decision_metrics \<Rightarrow> json" where
  "metrics_json m = JObj
     [(''disabled'', JInt (int (dm_disabled m))), (''evictions'', JInt (int (dm_evictions m))), (''hits'', JInt (int (dm_hits m))),
      (''invalidations'', JInt (int (dm_invalidations m))), (''misses'', JInt (int (dm_misses m))),
      (''quarantines'', JInt (int (dm_quarantines m))), (''stores'', JInt (int (dm_stores m)))]"

definition cache_receipt :: "decision_cache \<Rightarrow> json" where
  "cache_receipt C = JObj
     [(''schema'', JStr RECEIPT_SCHEMA), (''operation'', JStr ''state''), (''outcome'', JStr ''summary''),
      (''generation'', jopt (dc_generation C)), (''capacity'', JInt (int (dc_max C))),
      (''size'', JInt (int (length (dc_entries C)))), (''key_digests'', JList (map JStr (sort (keys (dc_entries C))))),
      (''quarantined'', reasons_json (dc_quarantined C)), (''disabled'', reasons_json (dc_disabled C)),
      (''metrics'', metrics_json (dc_metrics C))]"

definition cache_snapshot :: "(bytes \<Rightarrow> bytes) \<Rightarrow> decision_cache \<Rightarrow> json" where
  "cache_snapshot sha C = JObj
     [(''schema'', JStr CACHE_SCHEMA), (''generation'', jopt (dc_generation C)), (''capacity'', JInt (int (dc_max C))),
      (''entries'', JList (map (\<lambda>(_, en). decision_entry_json sha en) (sort_key fst (dc_entries C)))),
      (''quarantined'', reasons_json (dc_quarantined C)), (''disabled'', reasons_json (dc_disabled C))]"

end
