(* ===== verification/DecisionReuse.thy ===== *)
theory DecisionReuse
  imports DecisionCache
begin

text \<open>
  What the decision cache promises: its stores stay bounded and belong to one generation, a hit answers with the
  last decision put under the key, and what was stored or blocked recently is still found or blocked.
\<close>

section \<open>The most recent entries of a store\<close>

lemma drop_oldest_eq: "drop_oldest m xs = drop (length xs - m) xs"
proof (induction m xs rule: drop_oldest.induct)
  case (1 m xs)
  show ?case
  proof (cases "length xs > m")
    case True
    with 1 have "drop_oldest m xs = drop (length xs - 1 - m) (tl xs)" by (simp add: drop_oldest.simps [of m xs])
    also have "\<dots> = drop (length xs - m) xs" using True by (cases xs) (simp_all add: Suc_diff_le)
    finally show ?thesis .
  qed (simp add: drop_oldest.simps [of m xs])
qed

lemma dput_dpop: "dput k v (dpop k d) = dpop k d @ [(k, v)]"
  by (rule dput_new) (use keys_dpop [of k d] in \<open>simp only:\<close>, simp)

lemma push_eq: "drop_oldest m (dput k v (dpop k d)) = drop (Suc (length (dpop k d)) - m) (dpop k d @ [(k, v)])"
  by (simp add: drop_oldest_eq dput_dpop)

lemma push_store [inv_intros]:
  assumes "distinct (keys d)"
  shows "distinct (keys (drop_oldest m (dput k v (dpop k d))))" "length (drop_oldest m (dput k v (dpop k d))) \<le> m"
proof -
  have "distinct (keys (dput k v (dpop k d)))" using assms by (intro distinct_dput distinct_dpop)
  then show "distinct (keys (drop_oldest m (dput k v (dpop k d))))" by (simp add: drop_oldest_eq drop_map [symmetric])
qed (simp add: drop_oldest_eq)

lemma set_push: "set (drop_oldest m (dput k v (dpop k d))) \<subseteq> insert (k, v) {p \<in> set d. fst p \<noteq> k}"
proof -
  have "set (dpop k d @ [(k, v)]) \<subseteq> insert (k, v) {p \<in> set d. fst p \<noteq> k}" by (auto simp: dpop_def)
  then show ?thesis unfolding push_eq by (rule order.trans [OF set_drop_subset])
qed

text \<open>The key has its value, and only keys of \<open>T\<close> were written after it.\<close>

definition recent :: "'k set \<Rightarrow> 'k \<Rightarrow> 'v \<Rightarrow> ('k, 'v) dict \<Rightarrow> bool" where
  "recent T k v d \<longleftrightarrow> distinct (keys d) \<and> (\<exists>xs ys. d = xs @ (k, v) # ys \<and> set (keys ys) \<subseteq> T)"

lemma recent_lookup: "recent T k v d \<Longrightarrow> map_of d k = Some v"
  by (auto simp: recent_def map_add_def map_of_eq_None_iff split: option.split dest!: map_of_SomeD)

lemma recent_new: "0 < m \<Longrightarrow> distinct (keys d) \<Longrightarrow> recent T k v (drop_oldest m (dput k v (dpop k d)))"
  unfolding recent_def
  by (intro conjI push_store exI [of _ "drop (Suc (length (dpop k d)) - m) (dpop k d)"] exI [of _ "[]"])
    (auto simp: push_eq)

lemma recent_dpop: "recent T k v d \<Longrightarrow> j \<noteq> k \<Longrightarrow> recent T k v (dpop j d)"
  unfolding recent_def
proof clarify
  fix xs ys assume "distinct (keys (xs @ (k, v) # ys))" "set (keys ys) \<subseteq> T" "j \<noteq> k"
  then show "distinct (keys (dpop j (xs @ (k, v) # ys))) \<and>
      (\<exists>xs' ys'. dpop j (xs @ (k, v) # ys) = xs' @ (k, v) # ys' \<and> set (keys ys') \<subseteq> T)"
    by (intro conjI distinct_dpop exI [of _ "dpop j xs"] exI [of _ "dpop j ys"]) (auto simp: dpop_def)
qed

lemma recent_push:
  assumes "recent T k v d" "j \<in> T" "k \<notin> T" "finite T" "card T < m"
  shows "recent T k v (drop_oldest m (dput j w (dpop j d)))"
proof -
  have "j \<noteq> k" using assms(2,3) by auto
  with recent_dpop [OF assms(1)] have "recent T k v (dpop j d)" .
  then obtain xs ys where d: "dpop j d = xs @ (k, v) # ys" "set (keys ys) \<subseteq> T" "distinct (keys (dpop j d))"
    unfolding recent_def by blast
  have absent: "j \<notin> set (keys ys)" using d(1) keys_dpop [of j d] by auto
  have "distinct (keys ys)" using d(1,3) by simp
  then have "length ys = card (set (keys ys))" by (metis distinct_card length_map)
  also have "\<dots> < card T" using d(2) absent assms(2,4) by (intro psubset_card_mono) auto
  finally have short: "length ys + 2 \<le> m" using assms(5) by simp
  then have n: "Suc (length (dpop j d)) - m \<le> length xs" using d(1) by simp
  have "distinct (keys d)" using assms(1) by (simp add: recent_def)
  note push_store(1) [OF this, of m j w]
  moreover have "drop_oldest m (dput j w (dpop j d)) =
      drop (Suc (length (dpop j d)) - m) xs @ (k, v) # (ys @ [(j, w)])"
    unfolding push_eq using n by (simp add: d(1))
  ultimately show ?thesis using d(2) assms(2) unfolding recent_def by (metis (no_types, lifting) Un_insert_right append_Nil2 fst_conv insert_subset list.simps(15) map_append list.map set_append)
qed

section \<open>The invariant\<close>

definition bounded :: "nat \<Rightarrow> ('k, 'v) dict \<Rightarrow> bool" where
  "bounded m d \<longleftrightarrow> distinct (keys d) \<and> length d \<le> m"

definition blocked :: "decision_cache \<Rightarrow> string set" where
  "blocked C = set (keys (dc_quarantined C)) \<union> set (keys (dc_disabled C))"

lemma bounded_push: "bounded n d \<Longrightarrow> bounded m (drop_oldest m (dput k v (dpop k d)))"
  by (simp add: bounded_def push_store)

lemma bounded_filter: "bounded m d \<Longrightarrow> bounded m (filter P d)"
  by (auto simp: bounded_def distinct_map_filter intro: le_trans [OF length_filter_le])

lemma bounded_dpop: "bounded m d \<Longrightarrow> bounded m (dpop k d)"
  unfolding dpop_def by (rule bounded_filter)

definition decision_cache_ok :: "(bytes \<Rightarrow> bytes) \<Rightarrow> decision_cache \<Rightarrow> bool" where
  "decision_cache_ok sha C \<longleftrightarrow>
     0 < dc_max C \<and>
     bounded (dc_max C) (dc_entries C) \<and> bounded (dc_max C) (dc_invalidations C) \<and>
     bounded (dc_max C) (dc_quarantined C) \<and> bounded (dc_max C) (dc_disabled C) \<and>
     set (keys (dc_entries C)) \<inter> blocked C = {} \<and>
     (\<forall>p \<in> set (dc_entries C). fst p = key_digest sha (de_key (snd p)) \<and>
        dc_generation C = Some (dk_generation (de_key (snd p))))"

lemma okI:
  "0 < dc_max C \<Longrightarrow> bounded (dc_max C) (dc_entries C) \<Longrightarrow> bounded (dc_max C) (dc_invalidations C) \<Longrightarrow>
   bounded (dc_max C) (dc_quarantined C) \<Longrightarrow> bounded (dc_max C) (dc_disabled C) \<Longrightarrow>
   set (keys (dc_entries C)) \<inter> blocked C = {} \<Longrightarrow>
   (\<And>p. p \<in> set (dc_entries C) \<Longrightarrow> fst p = key_digest sha (de_key (snd p)) \<and>
      dc_generation C = Some (dk_generation (de_key (snd p)))) \<Longrightarrow> decision_cache_ok sha C"
  unfolding decision_cache_ok_def by blast

lemma okD:
  assumes "decision_cache_ok sha C"
  shows "0 < dc_max C" "bounded (dc_max C) (dc_entries C)" "bounded (dc_max C) (dc_invalidations C)"
    "bounded (dc_max C) (dc_quarantined C)" "bounded (dc_max C) (dc_disabled C)"
    "set (keys (dc_entries C)) \<inter> blocked C = {}"
    "p \<in> set (dc_entries C) \<Longrightarrow> fst p = key_digest sha (de_key (snd p)) \<and>
       dc_generation C = Some (dk_generation (de_key (snd p)))"
  using assms unfolding decision_cache_ok_def by blast+

lemma metrics_simps [simp]:
  "dc_max (count_miss C) = dc_max C" "dc_generation (count_miss C) = dc_generation C"
  "dc_entries (count_miss C) = dc_entries C" "dc_invalidations (count_miss C) = dc_invalidations C"
  "dc_quarantined (count_miss C) = dc_quarantined C" "dc_disabled (count_miss C) = dc_disabled C"
  "dc_max (count_hit C) = dc_max C" "dc_generation (count_hit C) = dc_generation C"
  "dc_entries (count_hit C) = dc_entries C" "dc_invalidations (count_hit C) = dc_invalidations C"
  "dc_quarantined (count_hit C) = dc_quarantined C" "dc_disabled (count_hit C) = dc_disabled C"
  "dc_max (count_invalidations n C) = dc_max C" "dc_generation (count_invalidations n C) = dc_generation C"
  "dc_entries (count_invalidations n C) = dc_entries C" "dc_invalidations (count_invalidations n C) = dc_invalidations C"
  "dc_quarantined (count_invalidations n C) = dc_quarantined C" "dc_disabled (count_invalidations n C) = dc_disabled C"
  by (simp_all add: count_miss_def count_hit_def count_invalidations_def)

lemma count_removed_simps [simp]:
  "dc_max (count_removed b C) = dc_max C" "dc_generation (count_removed b C) = dc_generation C"
  "dc_entries (count_removed b C) = dc_entries C" "dc_invalidations (count_removed b C) = dc_invalidations C"
  "dc_quarantined (count_removed b C) = dc_quarantined C" "dc_disabled (count_removed b C) = dc_disabled C"
  by (simp_all add: count_removed_def)

lemma remember_invalidation_simps [simp]:
  "dc_max (remember_invalidation r d C) = dc_max C" "dc_generation (remember_invalidation r d C) = dc_generation C"
  "dc_entries (remember_invalidation r d C) = dc_entries C"
  "dc_quarantined (remember_invalidation r d C) = dc_quarantined C" "dc_disabled (remember_invalidation r d C) = dc_disabled C"
  "dc_invalidations (remember_invalidation r d C) = remember (dc_max C) d r (dc_invalidations C)"
  by (simp_all add: remember_invalidation_def)

text \<open>What a state change leaves of everything but the entries and the remembered invalidations.\<close>

definition same_frame :: "decision_cache \<Rightarrow> decision_cache \<Rightarrow> bool" where
  "same_frame C C' \<longleftrightarrow>
     dc_max C' = dc_max C \<and> dc_generation C' = dc_generation C \<and>
     dc_quarantined C' = dc_quarantined C \<and> dc_disabled C' = dc_disabled C \<and>
     (bounded (dc_max C) (dc_invalidations C) \<longrightarrow> bounded (dc_max C) (dc_invalidations C'))"

lemma same_frame_remember: "same_frame C0 C \<Longrightarrow> same_frame C0 (remember_invalidation r d C)"
  by (auto simp: same_frame_def remember_def bounded_push)

lemma fold_remember: "same_frame C0 C \<Longrightarrow> same_frame C0 (fold (remember_invalidation r) ds C) \<and>
     dc_entries (fold (remember_invalidation r) ds C) = dc_entries C"
proof (induction ds arbitrary: C)
  case (Cons d ds)
  from Cons.IH [OF same_frame_remember [OF Cons.prems, of r d]] show ?case by simp
qed simp

lemma fold_drop_drifted: "same_frame C0 C \<Longrightarrow> same_frame C0 (fold (drop_drifted r) ps C) \<and>
     dc_entries (fold (drop_drifted r) ps C) = filter (\<lambda>p. fst p \<notin> set (keys ps)) (dc_entries C)"
proof (induction ps arbitrary: C)
  case (Cons p ps)
  obtain d en where p: "p = (d, en)" by (cases p)
  have "same_frame C0 (C\<lparr>dc_entries := es\<rparr>)" for es using Cons.prems by (simp add: same_frame_def)
  then have "same_frame C0 (drop_drifted r p C)" by (simp add: drop_drifted_def p same_frame_remember)
  from Cons.IH [OF this] show ?case by (auto simp: drop_drifted_def p dpop_def case_prod_unfold intro!: filter_cong)
qed simp

lemma evict_effect: "snd (evict_decisions C) = C' \<Longrightarrow>
     same_frame C C' \<and> dc_entries C' = drop_oldest (dc_max C) (dc_entries C)"
proof (induction C arbitrary: C' rule: evict_decisions.induct)
  case (1 C)
  show ?case
  proof (cases "length (dc_entries C) > dc_max C")
    case True
    let ?C1 = "remember_invalidation ''capacity_eviction'' (fst (hd (dc_entries C))) (C\<lparr>dc_entries := tl (dc_entries C)\<rparr>)"
    have C': "snd (evict_decisions ?C1) = C'"
      using True "1.prems" by (simp add: evict_decisions.simps [of C] Let_def split: prod.splits)
    from "1.IH" [OF True refl this] have "same_frame ?C1 C'" "dc_entries C' = drop_oldest (dc_max C) (tl (dc_entries C))"
      by simp_all
    moreover have "same_frame C ?C1" by (rule same_frame_remember) (simp add: same_frame_def)
    ultimately show ?thesis using True by (simp add: same_frame_def drop_oldest.simps [of _ "dc_entries C"])
  next
    case False
    with 1 show ?thesis by (auto simp: evict_decisions.simps [of C] same_frame_def drop_oldest_eq)
  qed
qed

lemma store_effect:
  assumes "snd (store_decision sha k ds es C) = C'"
  shows "same_frame C C'"
    "dc_entries C' = drop_oldest (dc_max C) (dput (key_digest sha k) \<lparr>de_key = k, de_decision = ds, de_expectation = es\<rparr>
       (dpop (key_digest sha k) (dc_entries C)))"
proof -
  let ?C1 = "C\<lparr>dc_entries := dput (key_digest sha k) \<lparr>de_key = k, de_decision = ds, de_expectation = es\<rparr>
       (dpop (key_digest sha k) (dc_entries C)), dc_invalidations := dpop (key_digest sha k) (dc_invalidations C),
     dc_metrics := (dc_metrics C)\<lparr>dm_stores := Suc (dm_stores (dc_metrics C))\<rparr>\<rparr>"
  obtain C2 m where C2: "snd (evict_decisions ?C1) = C2" and C': "C' = C2\<lparr>dc_metrics := m\<rparr>"
    using assms by (auto simp: store_decision_def Let_def split: prod.splits)
  note e = evict_effect [OF C2]
  show "dc_entries C' = drop_oldest (dc_max C) (dput (key_digest sha k) \<lparr>de_key = k, de_decision = ds, de_expectation = es\<rparr>
       (dpop (key_digest sha k) (dc_entries C)))" using e C' by simp
  show "same_frame C C'" using e C' by (auto simp: same_frame_def bounded_dpop)
qed

lemma clear_effect:
  assumes "snd (clear_generation g C) = C'"
  shows "dc_max C' = dc_max C" "dc_generation C' = Some g" "dc_entries C' = []" "dc_quarantined C' = []" "dc_disabled C' = []"
    "bounded (dc_max C) (dc_invalidations C) \<longrightarrow> bounded (dc_max C) (dc_invalidations C')"
proof -
  have "same_frame C (fold (remember_invalidation ''generation_advanced'') (sort (keys (dc_entries C))) C)"
    using fold_remember [of C C] by (simp add: same_frame_def)
  then show "dc_max C' = dc_max C" "dc_generation C' = Some g" "dc_entries C' = []" "dc_quarantined C' = []" "dc_disabled C' = []"
    "bounded (dc_max C) (dc_invalidations C) \<longrightarrow> bounded (dc_max C) (dc_invalidations C')"
    using assms by (auto simp: clear_generation_def Let_def same_frame_def)
qed

section \<open>Sequences of operations\<close>

datatype decision_event =
    Activated string
  | Stored decision_key json json
  | Looked_up decision_key json
  | Invalidated decision_key string
  | Drifted decision_key "string list" "string option"
  | Quarantined decision_key string
  | Disabled decision_key string

fun decision_step :: "(bytes \<Rightarrow> bytes) \<Rightarrow> decision_event \<Rightarrow> decision_cache \<Rightarrow> decision_result" where
  "decision_step sha (Activated g) C = activate_generation g C"
| "decision_step sha (Stored k d e) C = put_decision sha k d e C"
| "decision_step sha (Looked_up k obs) C = lookup_decision sha k obs C"
| "decision_step sha (Invalidated k r) C = invalidate_decision sha k r C"
| "decision_step sha (Drifted k dims r) C = invalidate_drift sha k dims r C"
| "decision_step sha (Quarantined k r) C = quarantine_decision sha k r C"
| "decision_step sha (Disabled k r) C = disable_decision sha k r C"

definition run_decisions :: "(bytes \<Rightarrow> bytes) \<Rightarrow> decision_event list \<Rightarrow> decision_cache \<Rightarrow> decision_cache" where
  "run_decisions sha evs C = fold (\<lambda>ev C. snd (decision_step sha ev C)) evs C"

text \<open>What a step does to the stores, as the cases the proofs go through.\<close>

definition same_stores :: "decision_cache \<Rightarrow> decision_cache \<Rightarrow> bool" where
  "same_stores C C' \<longleftrightarrow> same_frame C C' \<and> dc_entries C' = dc_entries C"

definition generation_of :: "decision_event \<Rightarrow> string option" where
  "generation_of ev = (case ev of
     Activated g \<Rightarrow> (case valid_identifier g Key_dimension_invalid of Inl _ \<Rightarrow> None | Inr h \<Rightarrow> Some h)
   | Stored k d e \<Rightarrow> (case (safe_object d, safe_object e) of (Inr _, Inr _) \<Rightarrow> Some (dk_generation k) | _ \<Rightarrow> None)
   | _ \<Rightarrow> None)"

text \<open>The event takes the entry out of the cache, or replaces it.\<close>

definition drops :: "(bytes \<Rightarrow> bytes) \<Rightarrow> decision_event \<Rightarrow> decision_entry \<Rightarrow> bool" where
  "drops sha ev en \<longleftrightarrow>
     (case generation_of ev of Some g \<Rightarrow> g \<noteq> dk_generation (de_key en) | None \<Rightarrow> False) \<or>
     (case ev of
        Activated g \<Rightarrow> False
      | Stored k d e \<Rightarrow> generation_of ev \<noteq> None \<and> key_digest sha k = key_digest sha (de_key en)
      | Looked_up k obs \<Rightarrow> key_digest sha k = key_digest sha (de_key en) \<and> dk_generation k = dk_generation (de_key en) \<and>
          (case safe_object obs of Inl _ \<Rightarrow> False | Inr o' \<Rightarrow> contradictions (de_expectation en) o' \<noteq> [])
      | Invalidated k r \<Rightarrow> key_digest sha k = key_digest sha (de_key en) \<and> \<not> isl (valid_reason r)
      | Drifted k dims r \<Rightarrow> drifted dims k (de_key en) \<and> \<not> isl (drift_reason dims r)
      | Quarantined k r \<Rightarrow> key_digest sha k = key_digest sha (de_key en) \<and> \<not> isl (valid_reason r)
      | Disabled k r \<Rightarrow> key_digest sha k = key_digest sha (de_key en) \<and> \<not> isl (valid_reason r))"

definition switched :: "string \<Rightarrow> decision_cache \<Rightarrow> decision_cache \<Rightarrow> bool" where
  "switched g C C' \<longleftrightarrow>
     dc_max C' = dc_max C \<and> dc_generation C' = Some g \<and> dc_entries C' = [] \<and> dc_quarantined C' = [] \<and> dc_disabled C' = [] \<and>
     (bounded (dc_max C) (dc_invalidations C) \<longrightarrow> bounded (dc_max C) (dc_invalidations C'))"

definition enters :: "string \<Rightarrow> decision_cache \<Rightarrow> decision_cache \<Rightarrow> bool" where
  "enters g C C' \<longleftrightarrow>
     (dc_generation C = Some g \<and> C' = C) \<or> (dc_generation C = None \<and> C' = C\<lparr>dc_generation := Some g\<rparr>) \<or>
     (dc_generation C \<noteq> Some g \<and> switched g C C')"

definition quarantines :: "string \<Rightarrow> decision_cache \<Rightarrow> decision_cache \<Rightarrow> bool" where
  "quarantines digest C C' \<longleftrightarrow>
     dc_max C' = dc_max C \<and> dc_generation C' = dc_generation C \<and> dc_entries C' = dpop digest (dc_entries C) \<and>
     (\<exists>r. dc_quarantined C' = remember (dc_max C) digest r (dc_quarantined C)) \<and> dc_disabled C' = dc_disabled C \<and>
     dc_invalidations C' = dc_invalidations C"

definition disables :: "string \<Rightarrow> decision_cache \<Rightarrow> decision_cache \<Rightarrow> bool" where
  "disables digest C C' \<longleftrightarrow>
     dc_max C' = dc_max C \<and> dc_generation C' = dc_generation C \<and> dc_entries C' = dpop digest (dc_entries C) \<and>
     (\<exists>r. dc_disabled C' = remember (dc_max C) digest r (dc_disabled C)) \<and> dc_quarantined C' = dc_quarantined C \<and>
     dc_invalidations C' = dc_invalidations C"

lemma same_frame_refl [simp]: "same_frame C C"
  by (simp add: same_frame_def)

lemma same_frame_entries [simp]: "same_frame C (C'\<lparr>dc_entries := es\<rparr>) = same_frame C C'"
  by (simp add: same_frame_def)

lemma same_frame_counts [simp]:
  "same_frame C (count_miss C') = same_frame C C'" "same_frame C (count_hit C') = same_frame C C'"
  "same_frame C (count_invalidations n C') = same_frame C C'" "same_frame C (count_removed b C') = same_frame C C'"
  by (simp_all add: same_frame_def)

lemma valid_identifier_same: "valid_identifier s e = Inr t \<Longrightarrow> t = s"
  by (auto simp: valid_identifier_def split: if_splits)

lemma activate_cases:
  assumes "snd (activate_generation g C) = C'" "ev = Activated g"
  obtains "C' = C" "generation_of ev = None \<or> generation_of ev = dc_generation C"
    | h where "generation_of ev = Some h" "dc_generation C \<noteq> Some h" "switched h C C'"
proof (cases "valid_identifier g Key_dimension_invalid")
  case (Inl e)
  then show ?thesis using assms that(1) by (simp add: activate_generation_def generation_of_def)
next
  case (Inr h)
  then have h: "generation_of ev = Some h" using assms(2) by (simp add: generation_of_def)
  show ?thesis
  proof (cases "dc_generation C = Some h")
    case True
    then show ?thesis using assms Inr h that(1) by (simp add: activate_generation_def)
  next
    case False
    then have "snd (clear_generation h C) = C'"
      using assms(1) Inr by (simp add: activate_generation_def Let_def split: prod.splits)
    from clear_effect [OF this] have "switched h C C'" by (simp add: switched_def)
    with False h show ?thesis using that(2) by blast
  qed
qed

lemma put_generation_enters: "put_generation g C = (reason, invalidated, C1) \<Longrightarrow> enters g C C1"
proof -
  assume put: "put_generation g C = (reason, invalidated, C1)"
  consider "dc_generation C = None" | "dc_generation C = Some g" | "dc_generation C \<noteq> None" "dc_generation C \<noteq> Some g" by blast
  then show ?thesis
  proof cases
    case 3
    then have "snd (clear_generation g C) = C1" using put by (auto simp: put_generation_def split: prod.splits)
    from clear_effect [OF this] show ?thesis using 3 by (simp add: enters_def switched_def)
  qed (use put in \<open>auto simp: put_generation_def enters_def\<close>)
qed

lemma safe_objects:
  "ebind (safe_payload d) (\<lambda>_. ebind (safe_payload e) (\<lambda>_. ebind (safe_object d) (\<lambda>ds. ebind (safe_object e) (\<lambda>es. Inr (ds, es))))) =
     Inr (ds, es) \<longleftrightarrow> safe_object d = Inr ds \<and> safe_object e = Inr es"
  by (auto simp: ebind_Inr safe_object_def)

lemma put_cases:
  assumes "put_decision sha k d e C = (res, C')" "ev = Stored k d e"
  obtains "C' = C" "generation_of ev = None"
    | C1 where "generation_of ev = Some (dk_generation k)" "enters (dk_generation k) C C1" "same_stores C1 C'"
        "key_digest sha k \<in> blocked C1"
        "\<forall>r. res = Inr r \<longrightarrow> dr_outcome r \<noteq> ''stored''"
    | C1 ds es where "generation_of ev = Some (dk_generation k)" "enters (dk_generation k) C C1"
        "safe_object d = Inr ds" "safe_object e = Inr es"
        "key_digest sha k \<notin> blocked C1" "same_frame C1 C'"
        "dc_entries C' = drop_oldest (dc_max C1) (dput (key_digest sha k) \<lparr>de_key = k, de_decision = ds, de_expectation = es\<rparr>
           (dpop (key_digest sha k) (dc_entries C1)))"
proof -
  let ?checked = "ebind (safe_payload d) (\<lambda>_. ebind (safe_payload e) (\<lambda>_. ebind (safe_object d) (\<lambda>ds. ebind (safe_object e) (\<lambda>es. Inr (ds, es)))))"
  show ?thesis
  proof (cases ?checked)
    case (Inl err)
    then have "\<not> (\<exists>ds es. safe_object d = Inr ds \<and> safe_object e = Inr es)" using safe_objects [of d e] by (metis Inl_Inr_False)
    then have "generation_of ev = None" by (auto simp: generation_of_def assms(2) split: sum.split)
    then show ?thesis using assms(1) Inl that(1) by (simp add: put_decision_def)
  next
    case (Inr p)
    obtain ds es where p: "p = (ds, es)" by (cases p)
    then have ok: "safe_object d = Inr ds" "safe_object e = Inr es" using Inr safe_objects [of d e ds es] by simp_all
    then have g: "generation_of ev = Some (dk_generation k)" by (simp add: generation_of_def assms(2))
    obtain reason invalidated C1 where put: "put_generation (dk_generation k) C = (reason, invalidated, C1)" by (metis prod_cases3)
    note enters = put_generation_enters [OF put]
    let ?d = "key_digest sha k"
    show ?thesis
    proof (cases "map_of (dc_disabled C1) ?d = None \<and> map_of (dc_quarantined C1) ?d = None")
      case True
      then have "snd (store_decision sha k ds es C1) = C'"
        using assms(1) Inr put by (auto simp: put_decision_def p Let_def split: prod.splits)
      note store = store_effect [OF this]
      have "?d \<notin> blocked C1" using True by (simp add: map_of_None_keys blocked_def)
      then show ?thesis using that(3) [OF g enters ok] store by blast
    next
      case False
      then have "C' = count_miss C1" "\<forall>r. res = Inr r \<longrightarrow> dr_outcome r \<noteq> ''stored''"
        using assms(1) Inr put by (auto simp: put_decision_def p Let_def key_receipt_def split: option.splits)
      moreover have "?d \<in> blocked C1"
        using False by (auto simp: map_of_eq_None_iff blocked_def)
      ultimately show ?thesis using that(2) [OF g enters] by (simp add: same_stores_def)
    qed
  qed
qed

lemma lookup_cases:
  assumes "lookup_decision sha k obs C = (res, C')"
  obtains "same_stores C C'" "\<forall>r. res = Inr r \<longrightarrow> dr_outcome r \<noteq> ''hit''"
        "isl (safe_object obs) \<or> dc_generation C \<noteq> Some (dk_generation k) \<or> key_digest sha k \<in> blocked C \<or>
         map_of (dc_entries C) (key_digest sha k) = None"
    | o' en where "safe_object obs = Inr o'" "map_of (dc_entries C) (key_digest sha k) = Some en"
        "dc_generation C = Some (dk_generation k)" "contradictions (de_expectation en) o' \<noteq> []"
        "quarantines (key_digest sha k) C C'" "\<forall>r. res = Inr r \<longrightarrow> dr_outcome r \<noteq> ''hit''"
    | o' en where "safe_object obs = Inr o'" "map_of (dc_entries C) (key_digest sha k) = Some en"
        "dc_generation C = Some (dk_generation k)" "contradictions (de_expectation en) o' = []"
        "same_frame C C'" "dc_entries C' = dpop (key_digest sha k) (dc_entries C) @ [(key_digest sha k, en)]"
        "\<exists>r. res = Inr r \<and> dr_outcome r = ''hit'' \<and> dr_decision r = Some (de_decision en)"
        "map_of (dc_quarantined C) (key_digest sha k) = None" "map_of (dc_disabled C) (key_digest sha k) = None"
proof -
  let ?d = "key_digest sha k"
  consider (invalid) e where "safe_object obs = Inl e"
    | (miss) o' where "safe_object obs = Inr o'" "dc_generation C \<noteq> Some (dk_generation k) \<or> map_of (dc_disabled C) ?d \<noteq> None \<or>
        map_of (dc_quarantined C) ?d \<noteq> None \<or> map_of (dc_entries C) ?d = None"
    | (found) o' en where "safe_object obs = Inr o'" "dc_generation C = Some (dk_generation k)" "map_of (dc_disabled C) ?d = None"
        "map_of (dc_quarantined C) ?d = None" "map_of (dc_entries C) ?d = Some en"
    by (cases "safe_object obs"; cases "map_of (dc_entries C) ?d"; blast)
  then show ?thesis
  proof cases
    case invalid
    then have "C' = C" "\<forall>r. res = Inr r \<longrightarrow> dr_outcome r \<noteq> ''hit''" using assms by (auto simp: lookup_decision_def)
    then show ?thesis using that(1) invalid by (simp add: same_stores_def)
  next
    case miss
    then have "C' = count_miss C" "\<forall>r. res = Inr r \<longrightarrow> dr_outcome r \<noteq> ''hit''"
      using assms by (auto simp: lookup_decision_def key_receipt_def Let_def split: option.splits if_splits)
    moreover have "dc_generation C \<noteq> Some (dk_generation k) \<or> ?d \<in> blocked C \<or> map_of (dc_entries C) ?d = None"
      using miss(2) unfolding blocked_def map_of_None_keys by blast
    ultimately show ?thesis using that(1) by (simp add: same_stores_def)
  next
    case found
    show ?thesis
    proof (cases "contradictions (de_expectation en) o' = []")
      case True
      with found assms have "C' = count_hit (C\<lparr>dc_entries := dpop ?d (dc_entries C) @ [(?d, en)]\<rparr>)"
        "res = Inr ((key_receipt sha k ''lookup'' ''hit'' ''cache_hit'')\<lparr>dr_decision := Some (de_decision en)\<rparr>)"
        by (simp_all add: lookup_decision_def Let_def)
      then show ?thesis using that(3) [OF found(1,5,2) True] found(3,4) by (simp add: key_receipt_def)
    next
      case False
      with found assms have "C' = count_invalidations 1 (quarantine_entry ?d ''observed_telemetry_contradiction'' C)"
        "\<forall>r. res = Inr r \<longrightarrow> dr_outcome r \<noteq> ''hit''"
        by (auto simp: lookup_decision_def Let_def key_receipt_def)
      then show ?thesis using that(2) [OF found(1,5,2) False] by (auto simp: quarantines_def quarantine_entry_def)
    qed
  qed
qed

lemma invalidate_cases:
  assumes "snd (invalidate_decision sha k r C) = C'"
  obtains "C' = C" "isl (valid_reason r)"
    | "\<not> isl (valid_reason r)" "same_frame C C'" "dc_entries C' = dpop (key_digest sha k) (dc_entries C)"
proof (cases "valid_reason r")
  case (Inl e)
  then show ?thesis using assms that(1) by (simp add: invalidate_decision_def)
next
  case (Inr s)
  then have "\<not> isl (valid_reason r)" by simp
  moreover have "same_frame C C'" "dc_entries C' = dpop (key_digest sha k) (dc_entries C)"
    using assms Inr by (auto simp: invalidate_decision_def Let_def intro!: same_frame_remember)
  ultimately show ?thesis using that(2) by blast
qed

lemma drift_cases:
  assumes "snd (invalidate_drift sha k dims r C) = C'" "distinct (keys (dc_entries C))"
  obtains "C' = C" "isl (drift_reason dims r)"
    | "\<not> isl (drift_reason dims r)" "same_frame C C'"
      "dc_entries C' = filter (\<lambda>(_, en). \<not> drifted dims k (de_key en)) (dc_entries C)"
proof (cases "drift_reason dims r")
  case (Inl e)
  then show ?thesis using assms(1) that(1) by (simp add: invalidate_drift_def)
next
  case (Inr s)
  let ?doomed = "filter (\<lambda>(_, en). drifted dims k (de_key en)) (dc_entries C)"
  have C': "C' = count_invalidations (length ?doomed) (fold (drop_drifted s) ?doomed C)"
    using assms(1) Inr by (simp add: invalidate_drift_def Let_def)
  have "fst p \<notin> set (keys ?doomed) \<longleftrightarrow> \<not> drifted dims k (de_key (snd p))" if "p \<in> set (dc_entries C)" for p
    using that assms(2) by (auto simp: image_iff) (metis eq_key_imp_eq_value fst_conv snd_conv surjective_pairing)+
  then have "filter (\<lambda>p. fst p \<notin> set (keys ?doomed)) (dc_entries C) = filter (\<lambda>(_, en). \<not> drifted dims k (de_key en)) (dc_entries C)"
    by (intro filter_cong) (auto simp: case_prod_unfold)
  then show ?thesis
    using that(2) fold_drop_drifted [of C C s ?doomed] C' Inr by simp
qed

lemma quarantine_cases:
  assumes "snd (quarantine_decision sha k r C) = C'"
  obtains "C' = C" "isl (valid_reason r)" | "\<not> isl (valid_reason r)" "quarantines (key_digest sha k) C C'"
proof (cases "valid_reason r")
  case (Inl e)
  then show ?thesis using assms that(1) by (simp add: quarantine_decision_def)
next
  case (Inr s)
  then have "\<not> isl (valid_reason r)" by simp
  moreover have "quarantines (key_digest sha k) C C'"
    using assms Inr by (auto simp: quarantine_decision_def quarantines_def quarantine_entry_def Let_def)
  ultimately show ?thesis using that(2) by blast
qed

lemma disable_cases:
  assumes "snd (disable_decision sha k r C) = C'"
  obtains "C' = C" "isl (valid_reason r)" | "\<not> isl (valid_reason r)" "disables (key_digest sha k) C C'"
proof (cases "valid_reason r")
  case (Inl e)
  then show ?thesis using assms that(1) by (simp add: disable_decision_def)
next
  case (Inr s)
  then have "\<not> isl (valid_reason r)" by simp
  moreover have "disables (key_digest sha k) C C'"
    using assms Inr by (auto simp: disable_decision_def disables_def Let_def)
  ultimately show ?thesis using that(2) by blast
qed

section \<open>Every operation keeps the invariant\<close>

lemma ok_frame:
  assumes "decision_cache_ok sha C" "same_frame C C'" "set (dc_entries C') \<subseteq> set (dc_entries C)" "bounded (dc_max C) (dc_entries C')"
  shows "decision_cache_ok sha C'"
proof -
  have "set (keys (dc_entries C')) \<subseteq> set (keys (dc_entries C))" using image_mono [OF assms(3), of fst] by simp
  moreover have "blocked C' = blocked C" using assms(2) by (simp add: same_frame_def blocked_def)
  ultimately have "set (keys (dc_entries C')) \<inter> blocked C' = {}" using okD(6) [OF assms(1)] by blast
  then show ?thesis
    using assms(2-4) okD [OF assms(1)] by (intro okI) (auto simp: same_frame_def)
qed

lemma ok_stores: "decision_cache_ok sha C \<Longrightarrow> same_stores C C' \<Longrightarrow> decision_cache_ok sha C'"
  by (rule ok_frame) (auto simp: same_stores_def intro: okD)

lemma ok_filter:
  "decision_cache_ok sha C \<Longrightarrow> same_frame C C' \<Longrightarrow> dc_entries C' = filter P (dc_entries C) \<Longrightarrow> decision_cache_ok sha C'"
  by (rule ok_frame) (auto intro: bounded_filter okD)

lemma ok_push:
  assumes "decision_cache_ok sha C" "same_frame C C'"
    "dc_entries C' = drop_oldest (dc_max C) (dput (key_digest sha (de_key en)) en (dpop (key_digest sha (de_key en)) (dc_entries C)))"
    "dc_generation C = Some (dk_generation (de_key en))" "key_digest sha (de_key en) \<notin> blocked C"
  shows "decision_cache_ok sha C'"
proof -
  have entries: "set (dc_entries C') \<subseteq> insert (key_digest sha (de_key en), en) (set (dc_entries C))"
    unfolding assms(3) using set_push by fastforce
  have "set (keys (dc_entries C')) \<subseteq> insert (key_digest sha (de_key en)) (set (keys (dc_entries C)))"
    using image_mono [OF entries, of fst] by simp
  moreover have "blocked C' = blocked C" using assms(2) by (simp add: same_frame_def blocked_def)
  ultimately have disjoint: "set (keys (dc_entries C')) \<inter> blocked C' = {}" using assms(5) okD(6) [OF assms(1)] by blast
  have "bounded (dc_max C) (dc_entries C')" unfolding assms(3) by (rule bounded_push [OF okD(2) [OF assms(1)]])
  moreover have "fst p = key_digest sha (de_key (snd p)) \<and> dc_generation C = Some (dk_generation (de_key (snd p)))"
    if "p \<in> set (dc_entries C')" for p
    using entries assms(4) okD(7) [OF assms(1), of p] that by auto
  ultimately show ?thesis using assms(2) disjoint okD(1,3-5) [OF assms(1)] by (intro okI) (auto simp: same_frame_def)
qed

lemma ok_switched: "decision_cache_ok sha C \<Longrightarrow> switched g C C' \<Longrightarrow> decision_cache_ok sha C'"
  by (rule okI) (auto simp: switched_def bounded_def dest: okD)

lemma ok_enters: "decision_cache_ok sha C \<Longrightarrow> enters g C C' \<Longrightarrow> decision_cache_ok sha C' \<and> dc_generation C' = Some g"
proof -
  assume ok: "decision_cache_ok sha C" and "enters g C C'"
  then consider "dc_generation C = Some g" "C' = C" | "dc_generation C = None" "C' = C\<lparr>dc_generation := Some g\<rparr>"
    | "switched g C C'" by (auto simp: enters_def)
  then show ?thesis
  proof cases
    case 2
    then have "dc_entries C = []" using okD(7) [OF ok, of "hd (dc_entries C)"] by (cases "dc_entries C") auto
    then show ?thesis using 2 okD(1-5) [OF ok] by (auto intro!: okI)
  qed (use ok ok_switched in \<open>auto simp: switched_def\<close>)
qed

lemma keys_remember: "set (keys (remember m d r store)) \<subseteq> insert d (set (keys store))"
  unfolding remember_def using image_mono [OF set_push [of m d r store], of fst] by auto

lemma ok_blocks: "decision_cache_ok sha C \<Longrightarrow> quarantines d C C' \<or> disables d C C' \<Longrightarrow> decision_cache_ok sha C'"
proof -
  assume ok: "decision_cache_ok sha C" and b: "quarantines d C C' \<or> disables d C C'"
  have frame: "dc_max C' = dc_max C" "dc_generation C' = dc_generation C" "dc_entries C' = dpop d (dc_entries C)"
      "dc_invalidations C' = dc_invalidations C"
    and blocks: "blocked C' \<subseteq> insert d (blocked C)"
    and stores: "bounded (dc_max C) (dc_quarantined C')" "bounded (dc_max C) (dc_disabled C')"
  proof -
    from b show "dc_max C' = dc_max C" "dc_generation C' = dc_generation C" "dc_entries C' = dpop d (dc_entries C)"
      "dc_invalidations C' = dc_invalidations C" by (auto simp: quarantines_def disables_def)
    from b consider r where "dc_quarantined C' = remember (dc_max C) d r (dc_quarantined C)" "dc_disabled C' = dc_disabled C"
      | r where "dc_disabled C' = remember (dc_max C) d r (dc_disabled C)" "dc_quarantined C' = dc_quarantined C"
      unfolding quarantines_def disables_def by blast
    then show "blocked C' \<subseteq> insert d (blocked C)"
    proof cases
      case (1 r)
      show ?thesis unfolding blocked_def 1 using keys_remember [of "dc_max C" d r "dc_quarantined C"] by blast
    next
      case (2 r)
      show ?thesis unfolding blocked_def 2 using keys_remember [of "dc_max C" d r "dc_disabled C"] by blast
    qed
    from b show "bounded (dc_max C) (dc_quarantined C')" "bounded (dc_max C) (dc_disabled C')"
      using okD(4,5) [OF ok] by (auto simp: quarantines_def disables_def remember_def bounded_push)
  qed
  have "set (keys (dc_entries C')) \<subseteq> set (keys (dc_entries C)) - {d}" unfolding frame(3) by (simp only: keys_dpop)
  then have disjoint: "set (keys (dc_entries C')) \<inter> blocked C' = {}" using blocks okD(6) [OF ok] by blast
  have "bounded (dc_max C) (dc_entries C')" unfolding frame(3) by (rule bounded_dpop [OF okD(2) [OF ok]])
  moreover have "set (dc_entries C') \<subseteq> set (dc_entries C)" unfolding frame(3) by (auto simp: dpop_def)
  ultimately show ?thesis
    using stores disjoint okD(1,3) [OF ok] okD(7) [OF ok] unfolding frame(1,2,4) [symmetric] by (intro okI) auto
qed

lemma ok_moved:
  assumes "decision_cache_ok sha C" "same_frame C C'" "map_of (dc_entries C) d = Some en"
    "dc_entries C' = dpop d (dc_entries C) @ [(d, en)]"
  shows "decision_cache_ok sha C'"
proof (rule ok_frame [OF assms(1,2)])
  have mem: "(d, en) \<in> set (dc_entries C)" using assms(3) by (rule map_of_SomeD)
  show "set (dc_entries C') \<subseteq> set (dc_entries C)" using mem by (auto simp: assms(4) dpop_def)
  have "distinct (keys (dc_entries C'))"
    using okD(2) [OF assms(1)] distinct_dput [of "dpop d (dc_entries C)" d en]
    by (simp add: assms(4) dput_dpop bounded_def distinct_dpop)
  moreover have "length (dpop d (dc_entries C)) < length (dc_entries C)"
    unfolding dpop_def using mem by (intro length_filter_less [of "(d, en)"]) auto
  ultimately show "bounded (dc_max C) (dc_entries C')"
    using okD(2) [OF assms(1)] by (simp add: assms(4) bounded_def)
qed

lemma step_keeps_ok: "decision_cache_ok sha C \<Longrightarrow> decision_cache_ok sha (snd (decision_step sha ev C))"
proof -
  assume ok: "decision_cache_ok sha C"
  then have distinct: "distinct (keys (dc_entries C))" using okD(2) by (simp add: bounded_def)
  obtain C' where C': "snd (decision_step sha ev C) = C'" by simp
  show ?thesis unfolding C'
  proof (cases ev)
    case (Activated g)
    with C' have "snd (activate_generation g C) = C'" by simp
    then show "decision_cache_ok sha C'" by (rule activate_cases [OF _ Activated]) (use ok ok_switched in blast)+
  next
    case (Stored k d e)
    with C' obtain res where "put_decision sha k d e C = (res, C')" by (metis decision_step.simps(2) prod.collapse)
    then show "decision_cache_ok sha C'"
    proof (rule put_cases [OF _ Stored])
      fix C1 ds es
      assume "enters (dk_generation k) C C1" "key_digest sha k \<notin> blocked C1"
        "same_frame C1 C'" "dc_entries C' = drop_oldest (dc_max C1)
          (dput (key_digest sha k) \<lparr>de_key = k, de_decision = ds, de_expectation = es\<rparr> (dpop (key_digest sha k) (dc_entries C1)))"
      then show ?thesis using ok_enters [OF ok]
        by (intro ok_push [of sha C1 C' "\<lparr>de_key = k, de_decision = ds, de_expectation = es\<rparr>"]) auto
    qed (use ok ok_enters [OF ok] ok_stores in blast)+
  next
    case (Looked_up k obs)
    with C' obtain res where "lookup_decision sha k obs C = (res, C')" by (metis decision_step.simps(3) prod.collapse)
    then show "decision_cache_ok sha C'"
      by (rule lookup_cases) (use ok ok_stores ok_blocks ok_moved in blast)+
  next
    case (Invalidated k r)
    with C' have "snd (invalidate_decision sha k r C) = C'" by simp
    then show "decision_cache_ok sha C'" by (rule invalidate_cases) (use ok ok_filter in \<open>auto simp: dpop_def\<close>)
  next
    case (Drifted k dims r)
    with C' have "snd (invalidate_drift sha k dims r C) = C'" by simp
    then show "decision_cache_ok sha C'" by (rule drift_cases [OF _ distinct]) (use ok ok_filter in auto)
  next
    case (Quarantined k r)
    with C' have "snd (quarantine_decision sha k r C) = C'" by simp
    then show "decision_cache_ok sha C'" by (rule quarantine_cases) (use ok ok_blocks in blast)+
  next
    case (Disabled k r)
    with C' have "snd (disable_decision sha k r C) = C'" by simp
    then show "decision_cache_ok sha C'" by (rule disable_cases) (use ok ok_blocks in blast)+
  qed
qed

lemma run_snoc [simp]: "run_decisions sha (evs @ [ev]) C = snd (decision_step sha ev (run_decisions sha evs C))"
  by (simp add: run_decisions_def)

lemma run_append: "run_decisions sha (xs @ ys) C = run_decisions sha ys (run_decisions sha xs C)"
  by (simp add: run_decisions_def)

lemma run_Nil [simp]: "run_decisions sha [] C = C"
  by (simp add: run_decisions_def)

lemma run_keeps_ok: "decision_cache_ok sha C \<Longrightarrow> decision_cache_ok sha (run_decisions sha evs C)"
  by (induction evs rule: rev_induct) (simp_all add: step_keeps_ok)

lemma new_cache_ok: "new_decision_cache m g = Inr C \<Longrightarrow> decision_cache_ok sha C \<and> dc_entries C = [] \<and> dc_max C = nat m"
  by (auto simp: new_decision_cache_def ebind_Inr decision_cache_ok_def bounded_def split: if_splits)

section \<open>Where the entries come from\<close>

lemma dpop_mem: "p \<in> set (dpop k d) \<longleftrightarrow> p \<in> set d \<and> fst p \<noteq> k"
  by (auto simp: dpop_def)

lemma entered_entries:
  assumes ok: "decision_cache_ok sha C" and enters: "enters g C C1" and p: "p \<in> set (dc_entries C1)"
  shows "C1 = C \<and> dk_generation (de_key (snd p)) = g"
proof -
  have "C1 = C"
  proof -
    consider "C1 = C" | "dc_generation C = None" "dc_entries C1 = dc_entries C" | "dc_entries C1 = []"
      using enters by (auto simp: enters_def switched_def)
    then show ?thesis using okD(7) [OF ok, of p] p by cases auto
  qed
  moreover from this have "dc_generation C = Some g" using ok_enters [OF ok enters] by simp
  ultimately show ?thesis using okD(7) [OF ok, of p] p by simp
qed

lemma entry_origin:
  assumes ok: "decision_cache_ok sha C" and p: "p \<in> set (dc_entries (snd (decision_step sha ev C)))"
  shows "(p \<in> set (dc_entries C) \<and> \<not> drops sha ev (snd p)) \<or>
    (\<exists>k d e ds es. ev = Stored k d e \<and> safe_object d = Inr ds \<and> safe_object e = Inr es \<and>
       p = (key_digest sha k, \<lparr>de_key = k, de_decision = ds, de_expectation = es\<rparr>))"
proof -
  obtain C' where C': "snd (decision_step sha ev C) = C'" by simp
  have distinct: "distinct (keys (dc_entries C))" using okD(2) [OF ok] by (simp add: bounded_def)
  have own: "fst q = key_digest sha (de_key (snd q))" "dc_generation C = Some (dk_generation (de_key (snd q)))"
    "fst q \<notin> blocked C" if "q \<in> set (dc_entries C)" for q
    using okD(6,7) [OF ok] that by auto
  note p = p [unfolded C']
  show ?thesis
  proof (cases ev)
    case (Activated g)
    with C' have "snd (activate_generation g C) = C'" by simp
    then show ?thesis
    proof (rule activate_cases [OF _ Activated])
      assume "C' = C" "generation_of ev = None \<or> generation_of ev = dc_generation C"
      then show ?thesis using p own(2) [of p] by (auto simp: drops_def Activated)
    qed (use p in \<open>simp add: switched_def\<close>)
  next
    case (Stored k d e)
    with C' obtain res where "put_decision sha k d e C = (res, C')" by (metis decision_step.simps(2) prod.collapse)
    then show ?thesis
    proof (rule put_cases [OF _ Stored])
      assume "C' = C" "generation_of ev = None"
      then show ?thesis using p by (simp add: drops_def Stored)
    next
      fix C1 assume g: "generation_of ev = Some (dk_generation k)" and enters: "enters (dk_generation k) C C1"
        and same: "same_stores C1 C'" and blocked: "key_digest sha k \<in> blocked C1"
      then have "p \<in> set (dc_entries C1)" using p by (simp add: same_stores_def)
      then have e: "C1 = C" "dk_generation (de_key (snd p)) = dk_generation k" "p \<in> set (dc_entries C)"
        using entered_entries [OF ok enters, of p] by simp_all
      then show ?thesis using own [OF e(3)] blocked g by (auto simp: drops_def Stored)
    next
      fix C1 ds es assume g: "generation_of ev = Some (dk_generation k)" and enters: "enters (dk_generation k) C C1"
        and s: "safe_object d = Inr ds" "safe_object e = Inr es"
        and push: "dc_entries C' = drop_oldest (dc_max C1) (dput (key_digest sha k) \<lparr>de_key = k, de_decision = ds, de_expectation = es\<rparr>
           (dpop (key_digest sha k) (dc_entries C1)))"
      have "p = (key_digest sha k, \<lparr>de_key = k, de_decision = ds, de_expectation = es\<rparr>) \<or>
          (p \<in> set (dc_entries C1) \<and> fst p \<noteq> key_digest sha k)"
        using p [unfolded push] set_push by fastforce
      then show ?thesis
      proof
        assume old: "p \<in> set (dc_entries C1) \<and> fst p \<noteq> key_digest sha k"
        then have e: "C1 = C" "dk_generation (de_key (snd p)) = dk_generation k" "p \<in> set (dc_entries C)"
          using entered_entries [OF ok enters, of p] by simp_all
        then show ?thesis using own(1) [OF e(3)] old g by (simp add: drops_def Stored)
      qed (use s Stored in blast)
    qed
  next
    case (Looked_up k obs)
    with C' obtain res where "lookup_decision sha k obs C = (res, C')" by (metis decision_step.simps(3) prod.collapse)
    then show ?thesis
    proof (rule lookup_cases)
      assume "same_stores C C'" and why: "isl (safe_object obs) \<or> dc_generation C \<noteq> Some (dk_generation k) \<or> key_digest sha k \<in> blocked C \<or>
         map_of (dc_entries C) (key_digest sha k) = None"
      then have pC: "p \<in> set (dc_entries C)" using p by (simp add: same_stores_def)
      then have "map_of (dc_entries C) (fst p) \<noteq> None" by (metis map_of_None_keys image_eqI set_map)
      then show ?thesis using own [OF pC] why pC by (auto simp: drops_def Looked_up generation_of_def split: sum.split)
    next
      fix o' en assume "quarantines (key_digest sha k) C C'"
      then have "p \<in> set (dc_entries C)" "fst p \<noteq> key_digest sha k" using p by (auto simp: quarantines_def dpop_mem)
      then show ?thesis using own(1) by (auto simp: drops_def Looked_up generation_of_def)
    next
      fix o' en assume o': "safe_object obs = Inr o'" and en: "map_of (dc_entries C) (key_digest sha k) = Some en"
          "contradictions (de_expectation en) o' = []"
        and moved: "dc_entries C' = dpop (key_digest sha k) (dc_entries C) @ [(key_digest sha k, en)]"
      have pC: "p \<in> set (dc_entries C)" using p map_of_SomeD [OF en(1)] by (auto simp: moved dpop_mem)
      have "snd p = en" if "fst p = key_digest sha k" using pC en(1) that distinct by (metis map_of_is_SomeI option.inject prod.collapse)
      then show ?thesis using own(1) [OF pC] pC o' en(2) by (auto simp: drops_def Looked_up generation_of_def)
    qed
  next
    case (Invalidated k r)
    with C' have "snd (invalidate_decision sha k r C) = C'" by simp
    then show ?thesis
      by (rule invalidate_cases) (use p own(1) in \<open>auto simp: drops_def Invalidated generation_of_def dpop_mem\<close>)
  next
    case (Drifted k dims r)
    with C' have "snd (invalidate_drift sha k dims r C) = C'" by simp
    then show ?thesis
      by (rule drift_cases [OF _ distinct]) (use p in \<open>auto simp: drops_def Drifted generation_of_def\<close>)
  next
    case (Quarantined k r)
    with C' have "snd (quarantine_decision sha k r C) = C'" by simp
    then show ?thesis
      by (rule quarantine_cases) (use p own(1) in \<open>auto simp: drops_def Quarantined generation_of_def quarantines_def dpop_mem\<close>)
  next
    case (Disabled k r)
    with C' have "snd (disable_decision sha k r C) = C'" by simp
    then show ?thesis
      by (rule disable_cases) (use p own(1) in \<open>auto simp: drops_def Disabled generation_of_def disables_def dpop_mem\<close>)
  qed
qed

section \<open>What a hit answers\<close>

definition entry_of :: "decision_key \<Rightarrow> (string \<times> json) list \<Rightarrow> (string \<times> json) list \<Rightarrow> decision_entry" where
  "entry_of k ds es = \<lparr>de_key = k, de_decision = ds, de_expectation = es\<rparr>"

text \<open>The entry was put by an event of the history, and no later one dropped or replaced it.\<close>

definition last_put :: "(bytes \<Rightarrow> bytes) \<Rightarrow> decision_event list \<Rightarrow> decision_entry \<Rightarrow> bool" where
  "last_put sha evs en \<longleftrightarrow>
     (\<exists>earlier d e later. evs = earlier @ Stored (de_key en) d e # later \<and> safe_object d = Inr (de_decision en) \<and>
        safe_object e = Inr (de_expectation en) \<and> (\<forall>ev \<in> set later. \<not> drops sha ev en))"

lemma entry_was_put:
  assumes "new_decision_cache m g = Inr C" "p \<in> set (dc_entries (run_decisions sha evs C))"
  shows "last_put sha evs (snd p)"
  using assms(2)
proof (induction evs arbitrary: p rule: rev_induct)
  case Nil
  then show ?case using new_cache_ok [OF assms(1)] by simp
next
  case (snoc ev evs)
  have ok: "decision_cache_ok sha (run_decisions sha evs C)" by (rule run_keeps_ok) (use new_cache_ok [OF assms(1)] in blast)
  from entry_origin [OF ok snoc.prems [unfolded run_snoc]] show ?case
  proof
    assume old: "p \<in> set (dc_entries (run_decisions sha evs C)) \<and> \<not> drops sha ev (snd p)"
    then have "last_put sha evs (snd p)" by (intro snoc.IH) simp
    with old obtain earlier d e later where "evs = earlier @ Stored (de_key (snd p)) d e # later"
        "safe_object d = Inr (de_decision (snd p))" "safe_object e = Inr (de_expectation (snd p))"
        "\<forall>ev \<in> set (later @ [ev]). \<not> drops sha ev (snd p)" unfolding last_put_def by auto
    then show ?case unfolding last_put_def by (metis append.assoc append_Cons)
  next
    assume "\<exists>k d e ds es. ev = Stored k d e \<and> safe_object d = Inr ds \<and> safe_object e = Inr es \<and>
       p = (key_digest sha k, \<lparr>de_key = k, de_decision = ds, de_expectation = es\<rparr>)"
    then show ?case unfolding last_put_def by fastforce
  qed
qed

text \<open>A hit is never stale.  Whatever was done with the cache, the decision a lookup answers with was put for
  a key of the same digest and generation, its expectation does not contradict what is observed, and since
  that put nothing replaced it, invalidated, quarantined or disabled it, contradicted it or changed the
  generation.\<close>

theorem hit_is_the_last_put:
  assumes "new_decision_cache m g = Inr C" "lookup_decision sha k obs (run_decisions sha evs C) = (Inr r, C')"
    and "dr_outcome r = ''hit''"
  shows "\<exists>en seen. last_put sha evs en \<and> key_digest sha (de_key en) = key_digest sha k \<and>
     dk_generation (de_key en) = dk_generation k \<and> dr_decision r = Some (de_decision en) \<and>
     safe_object obs = Inr seen \<and> contradictions (de_expectation en) seen = []"
proof -
  have ok: "decision_cache_ok sha (run_decisions sha evs C)" by (rule run_keeps_ok) (use new_cache_ok [OF assms(1)] in blast)
  obtain en seen where en: "safe_object obs = Inr seen" "map_of (dc_entries (run_decisions sha evs C)) (key_digest sha k) = Some en"
      "dc_generation (run_decisions sha evs C) = Some (dk_generation k)" "contradictions (de_expectation en) seen = []"
      "dr_decision r = Some (de_decision en)"
    by (rule lookup_cases [OF assms(2)]) (use assms(3) in auto)
  note mem = map_of_SomeD [OF en(2)]
  then show ?thesis
    using en okD(7) [OF ok mem] entry_was_put [OF assms(1) mem] by auto
qed

section \<open>What is found and what stays blocked\<close>

lemma recent_filter: "recent T k v d \<Longrightarrow> P (k, v) \<Longrightarrow> recent T k v (filter P d)"
  unfolding recent_def
proof clarify
  fix xs ys assume "distinct (keys (xs @ (k, v) # ys))" "set (keys ys) \<subseteq> T" "P (k, v)"
  then show "distinct (keys (filter P (xs @ (k, v) # ys))) \<and>
      (\<exists>xs' ys'. filter P (xs @ (k, v) # ys) = xs' @ (k, v) # ys' \<and> set (keys ys') \<subseteq> T)"
    by (intro conjI distinct_map_filter exI [of _ "filter P xs"] exI [of _ "filter P ys"]) auto
qed

lemma recent_move:
  assumes "recent T k v d" "j = k \<and> w = v \<or> j \<in> T \<and> k \<noteq> j"
  shows "recent T k v (dpop j d @ [(j, w)])"
proof -
  have "distinct (keys d)" using assms(1) by (simp add: recent_def)
  then have distinct: "distinct (keys (dpop j d @ [(j, w)]))"
    using distinct_dput [OF distinct_dpop, of d j w j] by (simp add: dput_dpop)
  show ?thesis
  proof (cases "j = k")
    case True
    then show ?thesis using assms(2) distinct unfolding recent_def by (intro conjI exI [of _ "dpop j d"] exI [of _ "[]"]) auto
  next
    case False
    then have "recent T k v (dpop j d)" by (rule recent_dpop [OF assms(1)])
    then obtain xs ys where d: "dpop j d = xs @ (k, v) # ys" "set (keys ys) \<subseteq> T" unfolding recent_def by blast
    then show ?thesis
      using distinct False assms(2) unfolding recent_def by (intro conjI exI [of _ xs] exI [of _ "ys @ [(j, w)]"]) auto
  qed
qed

text \<open>The keys whose place in the order of the entries an event renews.\<close>

definition renews :: "(bytes \<Rightarrow> bytes) \<Rightarrow> decision_event \<Rightarrow> string set" where
  "renews sha ev = (case ev of Stored k d e \<Rightarrow> {key_digest sha k} | Looked_up k obs \<Rightarrow> {key_digest sha k} | _ \<Rightarrow> {})"

lemma step_recent:
  assumes ok: "decision_cache_ok sha C" and recent: "recent T (key_digest sha (de_key en)) en (dc_entries C)"
    and keep: "\<not> drops sha ev en" and T: "finite T" "key_digest sha (de_key en) \<notin> T" "card T < dc_max C"
      "renews sha ev \<subseteq> insert (key_digest sha (de_key en)) T"
  shows "recent T (key_digest sha (de_key en)) en (dc_entries (snd (decision_step sha ev C))) \<and>
    dc_max (snd (decision_step sha ev C)) = dc_max C"
proof -
  let ?d = "key_digest sha (de_key en)"
  obtain C' where C': "snd (decision_step sha ev C) = C'" by simp
  have distinct: "distinct (keys (dc_entries C))" using okD(2) [OF ok] by (simp add: bounded_def)
  have mem: "(?d, en) \<in> set (dc_entries C)" by (rule map_of_SomeD [OF recent_lookup [OF recent]])
  have gen: "dc_generation C = Some (dk_generation (de_key en))" using okD(7) [OF ok mem] by simp
  show ?thesis unfolding C'
  proof (cases ev)
    case (Activated g)
    with C' have "snd (activate_generation g C) = C'" by simp
    then show "recent T ?d en (dc_entries C') \<and> dc_max C' = dc_max C"
      by (rule activate_cases [OF _ Activated]) (use recent keep gen in \<open>auto simp: drops_def\<close>)
  next
    case (Stored k d e)
    with C' obtain res where "put_decision sha k d e C = (res, C')" by (metis decision_step.simps(2) prod.collapse)
    then show "recent T ?d en (dc_entries C') \<and> dc_max C' = dc_max C"
    proof (rule put_cases [OF _ Stored])
      fix C1 assume "generation_of ev = Some (dk_generation k)" "enters (dk_generation k) C C1" "same_stores C1 C'"
      moreover from this have "C1 = C" using keep gen by (auto simp: drops_def enters_def)
      ultimately show ?thesis using recent by (simp add: same_stores_def same_frame_def)
    next
      fix C1 ds es assume g: "generation_of ev = Some (dk_generation k)" and enters: "enters (dk_generation k) C C1"
        and frame: "same_frame C1 C'"
        and push: "dc_entries C' = drop_oldest (dc_max C1) (dput (key_digest sha k) \<lparr>de_key = k, de_decision = ds, de_expectation = es\<rparr>
           (dpop (key_digest sha k) (dc_entries C1)))"
      from g enters have "C1 = C" using keep gen by (auto simp: drops_def enters_def)
      moreover have "key_digest sha k \<in> T" using keep g T(4) by (auto simp: drops_def Stored renews_def)
      ultimately show ?thesis using frame unfolding push by (simp add: same_frame_def recent_push [OF recent _ T(2,1,3)])
    qed (use recent in simp)
  next
    case (Looked_up k obs)
    with C' obtain res where "lookup_decision sha k obs C = (res, C')" by (metis decision_step.simps(3) prod.collapse)
    then show "recent T ?d en (dc_entries C') \<and> dc_max C' = dc_max C"
    proof (rule lookup_cases)
      fix o' en' assume o': "safe_object obs = Inr o'" "map_of (dc_entries C) (key_digest sha k) = Some en'"
        "dc_generation C = Some (dk_generation k)" "contradictions (de_expectation en') o' \<noteq> []"
        and q: "quarantines (key_digest sha k) C C'"
      have "key_digest sha k \<noteq> ?d"
      proof
        assume same: "key_digest sha k = ?d"
        then have "en' = en" using o'(2) recent_lookup [OF recent] by simp
        then show False using keep same o' gen by (simp add: drops_def Looked_up)
      qed
      then show ?thesis using q recent_dpop [OF recent] by (simp add: quarantines_def)
    next
      fix en' assume en': "map_of (dc_entries C) (key_digest sha k) = Some en'" and frame: "same_frame C C'"
        and moved: "dc_entries C' = dpop (key_digest sha k) (dc_entries C) @ [(key_digest sha k, en')]"
      have "key_digest sha k = ?d \<and> en' = en \<or> key_digest sha k \<in> T \<and> ?d \<noteq> key_digest sha k"
        using en' recent_lookup [OF recent] T(2,4) by (cases "key_digest sha k = ?d") (auto simp: renews_def Looked_up)
      then show ?thesis using frame unfolding moved by (simp add: same_frame_def recent_move [OF recent])
    qed (use recent in \<open>simp add: same_stores_def same_frame_def\<close>)
  next
    case (Invalidated k r)
    with C' have "snd (invalidate_decision sha k r C) = C'" by simp
    then show "recent T ?d en (dc_entries C') \<and> dc_max C' = dc_max C"
      by (rule invalidate_cases)
        (use recent keep recent_dpop [OF recent] in \<open>auto simp: drops_def Invalidated same_frame_def\<close>)
  next
    case (Drifted k dims r)
    with C' have "snd (invalidate_drift sha k dims r C) = C'" by simp
    then show "recent T ?d en (dc_entries C') \<and> dc_max C' = dc_max C"
      by (rule drift_cases [OF _ distinct])
        (use recent keep recent_filter [OF recent] in \<open>auto simp: drops_def Drifted same_frame_def\<close>)
  next
    case (Quarantined k r)
    with C' have "snd (quarantine_decision sha k r C) = C'" by simp
    then show "recent T ?d en (dc_entries C') \<and> dc_max C' = dc_max C"
      by (rule quarantine_cases)
        (use recent keep recent_dpop [OF recent] in \<open>auto simp: drops_def Quarantined quarantines_def\<close>)
  next
    case (Disabled k r)
    with C' have "snd (disable_decision sha k r C) = C'" by simp
    then show "recent T ?d en (dc_entries C') \<and> dc_max C' = dc_max C"
      by (rule disable_cases)
        (use recent keep recent_dpop [OF recent] in \<open>auto simp: drops_def Disabled disables_def\<close>)
  qed
qed

lemma run_recent:
  assumes "decision_cache_ok sha C" "recent T (key_digest sha (de_key en)) en (dc_entries C)"
    and "\<forall>ev \<in> set evs. \<not> drops sha ev en \<and> renews sha ev \<subseteq> insert (key_digest sha (de_key en)) T"
    and "finite T" "key_digest sha (de_key en) \<notin> T" "card T < dc_max C"
  shows "recent T (key_digest sha (de_key en)) en (dc_entries (run_decisions sha evs C)) \<and>
    dc_max (run_decisions sha evs C) = dc_max C"
  using assms(3)
proof (induction evs rule: rev_induct)
  case (snoc ev evs)
  then have ih: "recent T (key_digest sha (de_key en)) en (dc_entries (run_decisions sha evs C))"
    "dc_max (run_decisions sha evs C) = dc_max C" by auto
  show ?case
    using step_recent [OF run_keeps_ok [OF assms(1)] ih(1) _ assms(4,5), of ev] ih(2) assms(6) snoc.prems by simp
qed (use assms(2) in simp)

lemma step_max: "dc_max (snd (decision_step sha ev C)) = dc_max C"
proof -
  obtain C' res where C': "decision_step sha ev C = (res, C')" by (metis prod.collapse)
  have enters_max: "enters g C C1 \<Longrightarrow> dc_max C1 = dc_max C" for g C1 by (auto simp: enters_def switched_def)
  show ?thesis
  proof (cases ev)
    case (Activated g)
    with C' have "snd (activate_generation g C) = C'" by simp
    then show ?thesis by (rule activate_cases [OF _ Activated]) (use C' in \<open>auto simp: switched_def\<close>)
  next
    case (Stored k d e)
    with C' have "put_decision sha k d e C = (res, C')" by simp
    then show ?thesis
      by (rule put_cases [OF _ Stored]) (use C' enters_max in \<open>auto simp: same_stores_def same_frame_def\<close>)
  next
    case (Looked_up k obs)
    with C' have "lookup_decision sha k obs C = (res, C')" by simp
    then show ?thesis
      by (rule lookup_cases) (use C' in \<open>simp_all add: same_stores_def same_frame_def quarantines_def\<close>)
  next
    case (Drifted k dims r)
    with C' show ?thesis
      using fold_drop_drifted [of C C] by (auto simp: invalidate_drift_def same_frame_def Let_def split: sum.splits)
  qed (use C' in \<open>auto simp: invalidate_decision_def quarantine_decision_def quarantine_entry_def disable_decision_def Let_def
      split: sum.splits\<close>)
qed

lemma run_max: "dc_max (run_decisions sha evs C) = dc_max C"
  by (induction evs rule: rev_induct) (simp_all add: step_max)

text \<open>What was stored recently is found.  After a decision was stored, as long as no event drops it and fewer
  other keys than the capacity were stored or looked up, a lookup of its key that observes nothing
  contradictory hits and answers with it.\<close>

theorem stored_decision_is_found:
  assumes "new_decision_cache m g = Inr C0" "put_decision sha k d e (run_decisions sha evs C0) = (Inr r, C)"
    and "dr_outcome r = ''stored''" "safe_object d = Inr ds" "safe_object e = Inr es"
    and "\<forall>ev \<in> set later. \<not> drops sha ev (entry_of k ds es)"
    and "card (\<Union>(renews sha ` set later) - {key_digest sha k}) < nat m"
    and "safe_object obs = Inr seen" "contradictions es seen = []"
  shows "\<exists>r'. fst (lookup_decision sha k obs (run_decisions sha later C)) = Inr r' \<and> dr_outcome r' = ''hit'' \<and>
     dr_decision r' = Some ds"
proof -
  let ?d = "key_digest sha k" and ?en = "entry_of k ds es" and ?T = "\<Union>(renews sha ` set later) - {key_digest sha k}"
  have ok0: "decision_cache_ok sha (run_decisions sha evs C0)" by (rule run_keeps_ok) (use new_cache_ok [OF assms(1)] in blast)
  have max0: "dc_max (run_decisions sha evs C0) = nat m" using run_max [of sha evs C0] new_cache_ok [OF assms(1)] by simp
  have C: "C = snd (decision_step sha (Stored k d e) (run_decisions sha evs C0))" using assms(2) by simp
  have ok: "decision_cache_ok sha C" unfolding C by (rule step_keeps_ok [OF ok0])
  have max: "dc_max C = nat m" unfolding C step_max by (rule max0)
  have "recent ?T ?d ?en (dc_entries C)"
  proof (rule put_cases [OF assms(2) refl])
    fix C1 ds' es' assume "safe_object d = Inr ds'" "safe_object e = Inr es'" "enters (dk_generation k) (run_decisions sha evs C0) C1"
      and push: "dc_entries C = drop_oldest (dc_max C1) (dput ?d \<lparr>de_key = k, de_decision = ds', de_expectation = es'\<rparr>
           (dpop ?d (dc_entries C1)))"
    then have "ds' = ds" "es' = es" "decision_cache_ok sha C1" using assms(4,5) ok_enters [OF ok0] by auto
    moreover from this have "0 < dc_max C1" "distinct (keys (dc_entries C1))" using okD(1,2) by (auto simp: bounded_def)
    ultimately show ?thesis unfolding push entry_of_def by (simp add: recent_new)
  qed (use assms(3-5) in \<open>auto simp: generation_of_def\<close>)
  moreover have "finite ?T" by (auto simp: renews_def split: decision_event.split)
  ultimately have run: "recent ?T ?d ?en (dc_entries (run_decisions sha later C))"
    using run_recent [OF ok, of ?T ?en later] assms(6,7) max by (auto simp: entry_of_def)
  let ?C = "run_decisions sha later C"
  have found: "map_of (dc_entries ?C) ?d = Some ?en" by (rule recent_lookup [OF run])
  have okl: "decision_cache_ok sha ?C" by (rule run_keeps_ok [OF ok])
  have "dc_generation ?C = Some (dk_generation k)" "?d \<notin> blocked ?C"
    using okD(6,7) [OF okl] map_of_SomeD [OF found] by (auto simp: entry_of_def)
  moreover from this have "map_of (dc_disabled ?C) ?d = None" "map_of (dc_quarantined ?C) ?d = None"
    unfolding blocked_def map_of_None_keys by blast+
  ultimately show ?thesis
    using found assms(8,9) by (simp add: lookup_decision_def entry_of_def key_receipt_def Let_def)
qed

text \<open>Blocked keys.\<close>

definition blocks :: "string set \<Rightarrow> string \<Rightarrow> decision_cache \<Rightarrow> bool" where
  "blocks T d C \<longleftrightarrow> (\<exists>r. recent T d r (dc_quarantined C)) \<or> (\<exists>r. recent T d r (dc_disabled C))"

definition may_block :: "(bytes \<Rightarrow> bytes) \<Rightarrow> decision_event \<Rightarrow> string set" where
  "may_block sha ev = (case ev of Looked_up k obs \<Rightarrow> {key_digest sha k} | Quarantined k r \<Rightarrow> {key_digest sha k}
     | Disabled k r \<Rightarrow> {key_digest sha k} | _ \<Rightarrow> {})"

lemma recent_remember:
  assumes "recent T d r store" "j \<in> insert d T" "finite T" "d \<notin> T" "card T < m"
  shows "\<exists>r'. recent T d r' (remember m j s store)"
proof (cases "j = d")
  case True
  have "0 < m" "distinct (keys store)" using assms(1,5) by (auto simp: recent_def)
  then show ?thesis unfolding True remember_def by (blast intro: recent_new)
next
  case False
  then show ?thesis using recent_push [OF assms(1) _ assms(4,3,5), of j s] assms(2) by (auto simp: remember_def)
qed

lemma recent_mem: "recent T d r store \<Longrightarrow> d \<in> set (keys store)"
  using recent_lookup map_of_key_mem by fast

lemma blocks_blocked: "blocks T d C \<Longrightarrow> d \<in> blocked C"
  unfolding blocks_def blocked_def by (metis recent_mem UnI1 UnI2)

lemma blocks_cong: "dc_quarantined C' = dc_quarantined C \<Longrightarrow> dc_disabled C' = dc_disabled C \<Longrightarrow> blocks T d C' = blocks T d C"
  by (simp add: blocks_def)

lemma blocks_more:
  assumes "blocks T d C" "quarantines j C C' \<or> disables j C C'" "j \<in> insert d T" "finite T" "d \<notin> T" "card T < dc_max C"
  shows "blocks T d C' \<and> dc_generation C' = dc_generation C"
  using assms(1,2) recent_remember [OF _ assms(3-6)] unfolding blocks_def quarantines_def disables_def by metis

lemma step_blocks:
  assumes "blocks T d C" "dc_generation C = Some g" "generation_of ev \<in> {None, Some g}"
    and T: "may_block sha ev \<subseteq> insert d T" "finite T" "d \<notin> T" "card T < dc_max C"
  shows "blocks T d (snd (decision_step sha ev C)) \<and> dc_generation (snd (decision_step sha ev C)) = Some g"
proof -
  obtain C' res where C': "decision_step sha ev C = (res, C')" by (metis prod.collapse)
  have frame: "blocks T d C' \<and> dc_generation C' = Some g" if "same_frame C C'"
    using that assms(1,2) blocks_cong [of C' C] by (simp add: same_frame_def)
  have more: "blocks T d C' \<and> dc_generation C' = Some g" if "quarantines j C C' \<or> disables j C C'" "j \<in> insert d T" for j
    using blocks_more [OF assms(1) that T(2-4)] assms(2) by simp
  have "blocks T d C' \<and> dc_generation C' = Some g"
  proof (cases ev)
    case (Activated h)
    with C' have "snd (activate_generation h C) = C'" by simp
    then show ?thesis by (rule activate_cases [OF _ Activated]) (use frame assms(2,3) in auto)
  next
    case (Stored k x e)
    with C' have "put_decision sha k x e C = (res, C')" by simp
    then show ?thesis
    proof (rule put_cases [OF _ Stored])
      fix C1 assume "generation_of ev = Some (dk_generation k)" "enters (dk_generation k) C C1" "same_stores C1 C'"
      moreover from this have "C1 = C" using assms(2,3) by (auto simp: enters_def)
      ultimately show ?thesis using frame by (simp add: same_stores_def)
    next
      fix C1 assume "generation_of ev = Some (dk_generation k)" "enters (dk_generation k) C C1" "same_frame C1 C'"
      moreover from this have "C1 = C" using assms(2,3) by (auto simp: enters_def)
      ultimately show ?thesis using frame by simp
    qed (use frame in simp)
  next
    case (Looked_up k obs)
    with C' have "lookup_decision sha k obs C = (res, C')" by simp
    then show ?thesis
      by (rule lookup_cases) (use frame more [of "key_digest sha k"] T(1) in \<open>auto simp: same_stores_def may_block_def Looked_up\<close>)
  next
    case (Invalidated k r)
    with C' have "snd (invalidate_decision sha k r C) = C'" by simp
    then show ?thesis by (rule invalidate_cases) (use frame in auto)
  next
    case (Drifted k dims r)
    with C' have "C' = C \<or> same_frame C C'"
      using fold_drop_drifted [of C C] by (auto simp: invalidate_drift_def Let_def split: sum.splits)
    then show ?thesis using frame by auto
  next
    case (Quarantined k r)
    with C' have "snd (quarantine_decision sha k r C) = C'" by simp
    then show ?thesis by (rule quarantine_cases) (use frame more T(1) in \<open>auto simp: may_block_def Quarantined\<close>)
  next
    case (Disabled k r)
    with C' have "snd (disable_decision sha k r C) = C'" by simp
    then show ?thesis by (rule disable_cases) (use frame more T(1) in \<open>auto simp: may_block_def Disabled\<close>)
  qed
  then show ?thesis by (simp add: C')
qed

text \<open>What was quarantined or disabled is not served again in its generation, as long as fewer other keys than the
  capacity were quarantined, disabled or looked up since.  (With more, the bounded memory forgets it.)\<close>

theorem quarantined_decision_is_not_served:
  assumes "new_decision_cache m g0 = Inr C0" "dc_generation (run_decisions sha evs C0) = Some g"
    and "ev = Quarantined k r \<or> ev = Disabled k r" "decision_step sha ev (run_decisions sha evs C0) = (Inr receipt, C)"
    and "\<forall>ev \<in> set later. generation_of ev \<in> {None, Some g}"
    and "card (\<Union>(may_block sha ` set later) - {key_digest sha k}) < nat m"
    and "lookup_decision sha k obs (run_decisions sha later C) = (Inr answer, C')"
  shows "dr_outcome answer \<noteq> ''hit''"
proof
  assume hit: "dr_outcome answer = ''hit''"
  let ?d = "key_digest sha k" and ?T = "\<Union>(may_block sha ` set later) - {key_digest sha k}"
    and ?C0 = "run_decisions sha evs C0"
  have max: "dc_max C = nat m" using step_max [of sha ev ?C0] run_max [of sha evs C0] new_cache_ok [OF assms(1)] assms(4) by simp
  have ok0: "decision_cache_ok sha ?C0" by (rule run_keeps_ok) (use new_cache_ok [OF assms(1)] in blast)
  have fresh: "recent ?T ?d s (remember (dc_max ?C0) ?d s store)" if "bounded (dc_max ?C0) store" for s store
    using that okD(1) [OF ok0] unfolding remember_def bounded_def by (blast intro: recent_new)
  have start: "blocks ?T ?d C \<and> dc_generation C = Some g" using assms(3)
  proof
    assume "ev = Quarantined k r"
    then have "\<exists>s. dc_quarantined C = remember (dc_max ?C0) ?d s (dc_quarantined ?C0)" "dc_generation C = Some g"
      using assms(2,4)
      by (auto simp: quarantine_decision_def quarantine_entry_def count_removed_def count_invalidations_def Let_def split: sum.splits)
    then show ?thesis unfolding blocks_def using fresh [OF okD(4) [OF ok0]] by metis
  next
    assume "ev = Disabled k r"
    then have "\<exists>s. dc_disabled C = remember (dc_max ?C0) ?d s (dc_disabled ?C0)" "dc_generation C = Some g"
      using assms(2,4)
      by (auto simp: disable_decision_def count_removed_def count_invalidations_def Let_def split: sum.splits)
    then show ?thesis unfolding blocks_def using fresh [OF okD(5) [OF ok0]] by metis
  qed
  have finite: "finite ?T" by (auto simp: may_block_def split: decision_event.split)
  have T: "may_block sha ev' \<subseteq> insert ?d ?T" if "ev' \<in> set later" for ev' using that by blast
  have "set xs \<subseteq> set later \<Longrightarrow> blocks ?T ?d (run_decisions sha xs C) \<and> dc_generation (run_decisions sha xs C) = Some g" for xs
  proof (induction xs rule: rev_induct)
    case (snoc x xs)
    then show ?case
      using step_blocks [of ?T ?d "run_decisions sha xs C" g x sha] assms(5,6) finite T [of x] max
      by (simp add: run_max)
  qed (use start in simp)
  then have "?d \<in> blocked (run_decisions sha later C)" using blocks_blocked by blast
  moreover have "?d \<notin> blocked (run_decisions sha later C)"
    by (rule lookup_cases [OF assms(7)]) (use hit in \<open>auto simp: blocked_def map_of_eq_None_iff\<close>)
  ultimately show False by blast
qed

end
