(* ===== verification/Spec2Isabelle.thy ===== *)
theory Spec2Isabelle
  imports Ledger LedgerStore Hbp Journal Ipc GenerationStore ContentCache Pager SingleFlight
    EngineSelection Compatibility Custodians ChangeMaterialize Streaming ValidationCache
    GenerationReceipts SlotExecutor Segments Leases ContextDelivery FederationTraversal DecisionReuse
begin

text \<open>
  Verification of the stores and protocols of simplicio-fast (\<open>src/simplicio_fast/*.py\<close>).

  \<^bold>\<open>The program.\<close>  simplicio-fast keeps derived knowledge about repositories: immutable generations of
  projections, the caches and page stores that serve them, and the append-only records that say what
  was derived, delivered and changed.  Almost every part follows one of two disciplines.  Records are
  chained by SHA-256 over canonical JSON, written with a length or a line frame, and recovered after a
  torn write by cutting the tail; stores are content addressed, verified when they are read and
  replaced by an atomic rename.  The development models the parts that carry these disciplines, from
  the bytes of their files up to the operations a caller sees.

  \<^bold>\<open>How the parts use each other.\<close>  \<open>hbp_codec\<close> and \<open>ledger\<close> chain events in memory; \<open>ledger_store\<close> frames
  ledger events in a body and an index file; \<open>journal\<close> and the journal of \<open>binary_changeset\<close> keep
  chained events in one file each; \<open>binary_changeset\<close> validates a changeset against a worktree, hands a
  mechanical plan to the Dev CLI and journals the outcome; \<open>generation_store\<close> and
  \<open>generation_receipts\<close> name and seal generations; \<open>streaming\<close> and \<open>segments\<close> store their bytes;
  \<open>pager\<close> caches pages of them, and the segment pager of \<open>segments\<close> reads through it;
  \<open>content_cache\<close>, the coordinator of \<open>pager\<close> and \<open>validation_cache\<close> share computed results;
  \<open>slot_executor\<close> runs a slot over a content-addressed snapshot and seals a receipt; \<open>ipc\<close> frames
  messages; \<open>engine_selection\<close>, \<open>compatibility\<close> and \<open>custodians\<close> decide what may run.  \<open>workspace\<close> builds
  base generations of a worktree and overlays over them, protects them with leases and collects the rest;
  \<open>delta\<close> binds the changed paths of a worktree to a base, and hands them off after checking both;
  \<open>federation\<close> joins pinned projections of several repositories by edges and answers bounded queries, and
  \<open>decision_cache\<close> keeps decisions that may be reused within one generation.

  \<^bold>\<open>Theories.\<close>
  \<^item> \<open>Prelude\<close>: bytes and text, SHA-256 as a parameter and its hexadecimal form, Python's dictionaries
    (association lists with \<open>dput\<close> and \<open>dpop\<close>, collection \<open>dict_simps\<close>), list windows (\<open>slice\<close>),
    big-endian fields, the error monad (\<open>ebind\<close>, \<open>emap\<close>, \<open>check\<close>), POSIX paths.  \<open>Json\<close>: values, canonical
    printing, parsing and the round trip \<open>loads_dumps\<close>; \<open>JsonFields\<close>: subscripts, \<open>get\<close>, \<open>int()\<close> with
    their exceptions; \<open>Base64\<close>.
  \<^item> \<open>HashChain\<close>: the locale \<open>append_log\<close>, the contract of every chained log, with pinning (two logs that
    verify and have the same head are equal) proved once and interpreted by \<open>Ledger\<close>, \<open>Hbp\<close>, \<open>Journal\<close>
    and \<open>ChangeJournal\<close>.
  \<^item> \<open>Ledger\<close> (\<open>ledger.py\<close>), \<open>LedgerStore\<close> (\<open>ledger_store.py\<close>), \<open>Hbp\<close> (\<open>hbp_codec.py\<close>),
    \<open>Journal\<close> (\<open>journal.py\<close>): the state of each is its event list or the bytes of its files; the lemmas
    give verification after every operation, append-only growth, and recovery from any cut of the tail.
  \<^item> \<open>ChangeOps\<close>, \<open>ChangeCodec\<close>, \<open>ChangeValidate\<close>, \<open>ChangePlan\<close>, \<open>ChangeJournal\<close>, \<open>ChangeMaterialize\<close>
    (\<open>binary_changeset.py\<close>): operations and changesets read from JSON; the sealed binary form;
    validation as a simulation of the changeset on an overlay of the worktree; the line edits given to the
    Dev CLI; the binary journal; the materialization state machine with its unknown effects.
  \<^item> \<open>Ipc\<close> (\<open>ipc.py\<close>), \<open>GenerationStore\<close> (\<open>generation_store.py\<close>), \<open>ContentCache\<close> (\<open>content_cache.py\<close>,
    an inductive step relation between awaits), \<open>Pager\<close> and \<open>SingleFlight\<close> (\<open>pager.py\<close>).
  \<^item> \<open>PageSource\<close>: the locale of what a client of the page cache relies on, interpreted in \<open>Segments\<close>
    (\<open>segments.py\<close>) on the windows of stored sections.
  \<^item> \<open>Streaming\<close> (\<open>streaming.py\<close>): the block loop with its checkpoint, refused replaces and injected
    failures; what a published stream reads back and that an interrupted build is completed.
  \<^item> \<open>ValidationCache\<close> (\<open>validation_cache.py\<close>), \<open>GenerationReceipts\<close> (\<open>generation_receipts.py\<close>),
    \<open>SlotExecutor\<close> (\<open>slot_executor.py\<close>), \<open>EngineSelection\<close>, \<open>Compatibility\<close>, \<open>Custodians\<close> (the modules of
    the same names).
  \<^item> \<open>WorkspaceData\<close> (the records of \<open>workspace.py\<close> and \<open>delta.py\<close> and their JSON), \<open>Workspace\<close>
    (\<open>workspace.py\<close>), \<open>Delta\<close> (\<open>delta.py\<close>): one state with the files, each with the stamp \<open>stat\<close> tells of it,
    and the five caches keyed by stamps.  The locale \<open>stat_cache\<close> is the contract of such a cache; its four
    interpretations carry the invariant \<open>workspace_ok\<close>.  \<open>WorkspaceOps\<close>: every operation keeps it, so the
    caches are invisible; \<open>DeltaCompose\<close>: a created delta is the difference to the worktree, is read back and
    composes, and what composes is the worktree; \<open>Leases\<close>: collection spares what is leased and nothing
    else; \<open>DeltaExamples\<close>: a small worktree on which all of this is run.  \<open>EffectiveContext\<close> (the bounded
    contexts of \<open>EffectiveSnapshot\<close>, with Python's slices and cuts of UTF-8 text) and \<open>ContextDelivery\<close>
    (budgets, verified sources and byte ranges).
  \<^item> \<open>Federation\<close>, \<open>FederationTraversal\<close> (\<open>federation.py\<close>): members, edges, deltas and the breadth-first
    traversal; its invariants give shortest paths, exact reachability and the budgets.
  \<^item> \<open>DecisionCache\<close>, \<open>DecisionReuse\<close> (\<open>decision_cache.py\<close>): the bounded cache of decisions of one generation;
    its stores keep their bound and never hold a blocked key, a hit answers with the last decision put, and what
    was stored or blocked among the most recent keys is still found or blocked.

  \<^bold>\<open>How the code is modelled.\<close>  Every method is a function from its arguments and the state to a result
  and the new state; an exception is the left of a sum whose constructors carry the code's reason names,
  and an exception the code does not catch is one of \<open>py_exc\<close> where a parsed value can raise it.
  Dictionaries keep their insertion order.  Files are their bytes (or the JSON value they parse to,
  where a header says so) and a crash leaves a prefix of what was being written.  Text is a list of
  units whose \<open>encode\<close> is the identity on bytes: what Python escapes with \<open>ensure_ascii\<close> is printed as
  it is, and bytes that are no UTF-8 are not distinguished.  JSON values have no floating-point numbers.
  \<open>lower\<close>, \<open>casefold\<close> and case-insensitive patterns fold ASCII letters only, and encodings of changesets are
  ones Python knows.
  Critical sections under a lock, and the code between two awaits, are atomic steps; interleavings
  are sequences of such steps.

  \<^bold>\<open>Parameters.\<close>  SHA-256 is a function of bytes (a property that needs it assumes 32-byte results or
  injectivity on the inputs it names); clocks, random identifiers, measured times, refused
  renames, codec tables, the Dev CLI process, the mapper and page loaders are arguments.  For workspaces
  these are one record \<open>workspace_env\<close>: git's answers, the parsers' symbols (from Python's \<open>ast\<close> and
  tree-sitter), and what the snapshot container builds from sources and reads from bytes.  That a write
  gives a file a stamp it never had is the assumption the caches of \<open>workspace.py\<close> are built on.

  \<^bold>\<open>Bounds and fuel.\<close>  The JSON parser takes twice the length of its text as fuel, which
  \<open>loads_dumps\<close> shows to be enough for everything the program prints.  The other loops terminate by
  proof: the frame decoder and the journal scanner by the bytes that remain, the line splitter and the block
  splitter by the text that remains, eviction by the number of resident pages or entries, the
  traversal of a federation by the nodes in its queue and the edge targets without a path, a refused replace by the
  attempts left; the block and page loops are structural.  A client that reads a file page by
  page may ask for one page more than the file has bytes, and is proved to finish.  Sizes that the code
  packs into 32-bit or 64-bit fields are checked as the code checks them.

  \<^bold>\<open>Not modelled.\<close>  \<open>ledger_store.verify\<close> (its conversions of arbitrary JSON to text); the projection
  container \<open>snapshot.py\<close> with its memory maps and native code; vectors, quantisation, ranking and
  the benchmark and policy modules that compute with IEEE doubles; parsers and language adapters, which
  drive Python's \<open>ast\<close> and tree-sitter; the runtime adapters (subprocesses, native libraries, models);
  the command line; the other contexts and projections and the delivery planners.  Of the modelled parts: staging files,
  fsync and refused renames outside \<open>streaming\<close>, links, and reports of elapsed times and sizes.
\<close>

end
